(* ===== verification/Prelude.thy ===== *)
theory Prelude
  imports Main "HOL-Library.Word"
begin

text \<open>
  The vocabulary every component shares: machine integers at their width, the outcome of a
  C++ operation (a value, an \<open>ExiError\<close>, or a failed run-time check), the combinators that
  thread the state of an operation, and generic lemmas on words and lists.

  An operation of a class with state \<open>'s\<close> is a function \<open>'s \<Rightarrow> ('e, 'a, 's) outcome\<close>.
  \<open>Ret a s\<close> is a normal return, \<open>Err e s\<close> is a return of a non-OK \<open>ExiError\<close> (the state
  changes made so far stay, as in C++), \<open>Fault f\<close> is a failed \<open>exi_invariant\<close>,
  \<open>exi_assert\<close> or \<open>exi_unreachable\<close> (all fatal in the default build) or an operation the
  C++ standard leaves undefined.
\<close>

unbundle bit_operations_syntax

named_theorems run_simps \<open>unfolding of the combinators on a concrete outcome\<close>
named_theorems shape_simps \<open>inversion of a combinator that returned\<close>

type_synonym u8 = "8 word"
type_synonym u16 = "16 word"
type_synonym u32 = "32 word"
type_synonym u64 = "64 word"
type_synonym bytes = "8 word list"

datatype fault =
    AssertFail
  | InvariantFail
  | Unreachable
  | Undefined

datatype ('e, 'a, 's) outcome =
    Ret 'a 's
  | Err 'e 's
  | Fault fault

definition retM :: "'a \<Rightarrow> 's \<Rightarrow> ('e, 'a, 's) outcome" where
  "retM a s = Ret a s"

definition errM :: "'e \<Rightarrow> 's \<Rightarrow> ('e, 'a, 's) outcome" where
  "errM e s = Err e s"

definition faultM :: "fault \<Rightarrow> 's \<Rightarrow> ('e, 'a, 's) outcome" where
  "faultM f s = Fault f"

definition bindM :: "('s \<Rightarrow> ('e, 'a, 's) outcome) \<Rightarrow> ('a \<Rightarrow> 's \<Rightarrow> ('e, 'b, 's) outcome)
    \<Rightarrow> 's \<Rightarrow> ('e, 'b, 's) outcome" where
  "bindM m k s = (case m s of Ret a t \<Rightarrow> k a t | Err e t \<Rightarrow> Err e t | Fault f \<Rightarrow> Fault f)"

definition thenM :: "('s \<Rightarrow> ('e, 'a, 's) outcome) \<Rightarrow> ('s \<Rightarrow> ('e, 'b, 's) outcome)
    \<Rightarrow> 's \<Rightarrow> ('e, 'b, 's) outcome" where
  "thenM m k = bindM m (\<lambda>_. k)"

definition getM :: "('s \<Rightarrow> 'a) \<Rightarrow> 's \<Rightarrow> ('e, 'a, 's) outcome" where
  "getM f s = Ret (f s) s"

definition modM :: "('s \<Rightarrow> 's) \<Rightarrow> 's \<Rightarrow> ('e, unit, 's) outcome" where
  "modM f s = Ret () (f s)"

text \<open>A run-time check of the source: execution stops when it fails.\<close>

definition checkM :: "fault \<Rightarrow> ('s \<Rightarrow> bool) \<Rightarrow> 's \<Rightarrow> ('e, unit, 's) outcome" where
  "checkM f P s = (if P s then Ret () s else Fault f)"

definition invariantM :: "('s \<Rightarrow> bool) \<Rightarrow> 's \<Rightarrow> ('e, unit, 's) outcome" where
  "invariantM = checkM InvariantFail"

definition assertM :: "('s \<Rightarrow> bool) \<Rightarrow> 's \<Rightarrow> ('e, unit, 's) outcome" where
  "assertM = checkM AssertFail"

text \<open>Reading an element of a vector; the index operator asserts that it is in range.\<close>

definition nthM :: "('s \<Rightarrow> 'a list) \<Rightarrow> nat \<Rightarrow> 's \<Rightarrow> ('e, 'a, 's) outcome" where
  "nthM f i s = (if i < length (f s) then Ret (f s ! i) s else Fault AssertFail)"

text \<open>Running an operation of a member object inside the owner.\<close>

definition zoomM :: "('t \<Rightarrow> 's) \<Rightarrow> ('s \<Rightarrow> 't \<Rightarrow> 't) \<Rightarrow> ('s \<Rightarrow> ('e, 'a, 's) outcome)
    \<Rightarrow> 't \<Rightarrow> ('e, 'a, 't) outcome" where
  "zoomM get put m t = (case m (get t) of
      Ret a s \<Rightarrow> Ret a (put s t) | Err e s \<Rightarrow> Err e (put s t) | Fault f \<Rightarrow> Fault f)"

text \<open>A call whose error the caller treats as a broken promise.\<close>

definition expectM :: "fault \<Rightarrow> ('s \<Rightarrow> ('e, 'a, 's) outcome) \<Rightarrow> 's \<Rightarrow> ('e, 'a, 's) outcome" where
  "expectM f m s = (case m s of Err e t \<Rightarrow> Fault f | r \<Rightarrow> r)"

primrec outcome_state :: "('e, 'a, 's) outcome \<Rightarrow> 's option" where
  "outcome_state (Ret a s) = Some s"
| "outcome_state (Err e s) = Some s"
| "outcome_state (Fault f) = None"

text \<open>Every state an outcome leaves behind satisfies the predicate.\<close>

definition leaves :: "('s \<Rightarrow> bool) \<Rightarrow> ('e, 'a, 's) outcome \<Rightarrow> bool" where
  "leaves P r = (case outcome_state r of None \<Rightarrow> True | Some s \<Rightarrow> P s)"

lemma run_combinators [simp, run_simps]:
  "retM a s = Ret a s" "errM e s = Err e s" "faultM f s = Fault f"
  "getM g s = Ret (g s) s" "modM h s = Ret () (h s)"
  by (simp_all add: retM_def errM_def faultM_def getM_def modM_def)

lemma bindM_run [simp, run_simps]:
  "m s = Ret a t \<Longrightarrow> bindM m k s = k a t"
  "m s = Err e t \<Longrightarrow> bindM m k s = Err e t"
  "m s = Fault f \<Longrightarrow> bindM m k s = Fault f"
  by (simp_all add: bindM_def)

lemma thenM_run [simp, run_simps]:
  "m s = Ret a t \<Longrightarrow> thenM m n s = n t"
  "m s = Err e t \<Longrightarrow> thenM m n s = Err e t"
  "m s = Fault f \<Longrightarrow> thenM m n s = Fault f"
  by (simp_all add: thenM_def)

lemma checkM_run [simp, run_simps]:
  "P s \<Longrightarrow> checkM f P s = Ret () s" "\<not> P s \<Longrightarrow> checkM f P s = Fault f"
  "P s \<Longrightarrow> invariantM P s = Ret () s" "\<not> P s \<Longrightarrow> invariantM P s = Fault InvariantFail"
  by (simp_all add: checkM_def invariantM_def)

lemma assertM_run [simp, run_simps]:
  "P s \<Longrightarrow> assertM P s = Ret () s" "\<not> P s \<Longrightarrow> assertM P s = Fault AssertFail"
  by (simp_all add: checkM_def assertM_def)

lemma nthM_run [simp, run_simps]:
  "i < length (f s) \<Longrightarrow> nthM f i s = Ret (f s ! i) s"
  "\<not> i < length (f s) \<Longrightarrow> nthM f i s = Fault AssertFail"
  by (simp_all add: nthM_def)

lemma bindM_Ret_iff [shape_simps]:
  "bindM m k s = Ret b u \<longleftrightarrow> (\<exists>a t. m s = Ret a t \<and> k a t = Ret b u)"
  by (auto simp: bindM_def split: outcome.splits)

lemma thenM_Ret_iff [shape_simps]:
  "thenM m n s = Ret b u \<longleftrightarrow> (\<exists>a t. m s = Ret a t \<and> n t = Ret b u)"
  by (simp add: thenM_def bindM_Ret_iff)

lemma checkM_Ret_iff [shape_simps]:
  "checkM f P s = Ret b u \<longleftrightarrow> P s \<and> u = s"
  "invariantM P s = Ret b u \<longleftrightarrow> P s \<and> u = s"
  by (auto simp: checkM_def invariantM_def)

lemma assertM_Ret_iff [shape_simps]:
  "assertM P s = Ret b u \<longleftrightarrow> P s \<and> u = s"
  "nthM f i s = Ret a u \<longleftrightarrow> i < length (f s) \<and> a = f s ! i \<and> u = s"
  by (auto simp: assertM_def checkM_def nthM_def)

lemma bindM_Fault_iff:
  "bindM m k s = Fault f \<longleftrightarrow>
    m s = Fault f \<or> (\<exists>a t. m s = Ret a t \<and> k a t = Fault f)"
  by (auto simp: bindM_def split: outcome.splits)

lemma zoomM_run [simp, run_simps]:
  "m (g t) = Ret a s \<Longrightarrow> zoomM g p m t = Ret a (p s t)"
  "m (g t) = Err e s \<Longrightarrow> zoomM g p m t = Err e (p s t)"
  "m (g t) = Fault f \<Longrightarrow> zoomM g p m t = Fault f"
  by (simp_all add: zoomM_def)

lemma leaves_simps [simp]:
  "leaves P (Ret a s) = P s" "leaves P (Err e s) = P s" "leaves P (Fault f)"
  by (simp_all add: leaves_def)

lemma leaves_bindM [intro]:
  assumes "leaves Q (m s)" and "\<And>a t. Q t \<Longrightarrow> m s = Ret a t \<Longrightarrow> leaves P (k a t)"
    and "\<And>t. Q t \<Longrightarrow> P t"
  shows "leaves P (bindM m k s)"
  using assms by (cases "m s") auto

lemma leaves_thenM [intro]:
  assumes "leaves Q (m s)" and "\<And>a t. Q t \<Longrightarrow> m s = Ret a t \<Longrightarrow> leaves P (n t)"
    and "\<And>t. Q t \<Longrightarrow> P t"
  shows "leaves P (thenM m n s)"
  using assms by (cases "m s") auto

text \<open>The same outcome seen through an abstraction of the state.\<close>

definition map_state :: "('s \<Rightarrow> 't) \<Rightarrow> ('e, 'a, 's) outcome \<Rightarrow> ('e, 'a, 't) outcome" where
  "map_state f r = (case r of Ret a s \<Rightarrow> Ret a (f s) | Err e s \<Rightarrow> Err e (f s) | Fault x \<Rightarrow> Fault x)"

lemma map_state_simps [simp]:
  "map_state f (Ret a s) = Ret a (f s)" "map_state f (Err e s) = Err e (f s)"
  "map_state f (Fault x) = Fault x"
  by (simp_all add: map_state_def)

lemma map_state_eq_iff:
  "map_state f r = Ret a t \<longleftrightarrow> (\<exists>s. r = Ret a s \<and> t = f s)"
  "map_state f r = Err e t \<longleftrightarrow> (\<exists>s. r = Err e s \<and> t = f s)"
  by (cases r; auto)+

lemma map_state_bindM:
  assumes "map_state f (m s) = m' (f s)"
    and "\<And>a t. m s = Ret a t \<Longrightarrow> map_state f (k a t) = k' a (f t)"
  shows "map_state f (bindM m k s) = bindM m' k' (f s)"
  using assms by (cases "m s") (simp_all add: bindM_def split: outcome.splits, auto)

lemma map_state_thenM:
  assumes "map_state f (m s) = m' (f s)"
    and "\<And>a t. m s = Ret a t \<Longrightarrow> map_state f (n t) = n' (f t)"
  shows "map_state f (thenM m n s) = thenM m' n' (f s)"
  unfolding thenM_def using assms by (rule map_state_bindM)

section \<open>Counts and words\<close>

text \<open>
  Byte and bit counts are \<open>usize\<close> values; the streams of the program are far below
  2^64 bytes, so counts are \<open>nat\<close>, with the wrap-around of a subtraction that may
  go below zero written out by \<open>usub\<close>.
\<close>

definition usub :: "nat \<Rightarrow> nat \<Rightarrow> nat" where
  "usub a b = (if b \<le> a then a - b else (a + 2 ^ 64 - b) mod 2 ^ 64)"

lemma usub_le [simp]: "b \<le> a \<Longrightarrow> usub a b = a - b"
  by (simp add: usub_def)

lemma usub_gt: "a < b \<Longrightarrow> b \<le> 2 ^ 64 \<Longrightarrow> usub a b = a + 2 ^ 64 - b"
  by (simp add: usub_def)

lemma div_mod_8:
  assumes "r < (8 :: nat)"
  shows "(8 * q + r) div 8 = q" and "(8 * q + r) mod 8 = r"
  using assms by presburger+

text \<open>The value of a list of bits, most significant first.\<close>

definition msb_word :: "bool list \<Rightarrow> 'w::len word" where
  "msb_word bs = horner_sum of_bool 2 (rev bs)"

lemma bit_msb_word:
  "bit (msb_word bs :: 'w::len word) i \<longleftrightarrow> i < length bs \<and> i < LENGTH('w) \<and> bs ! (length bs - Suc i)"
  by (auto simp: msb_word_def bit_horner_sum_bit_word_iff rev_nth)

lemma msb_word_Nil [simp]: "msb_word [] = 0"
  by (simp add: msb_word_def)

lemma msb_word_snoc: "msb_word (bs @ [b]) = of_bool b + 2 * msb_word bs"
  by (simp add: msb_word_def)

lemma word_mask_id:
  fixes w :: "'w::len word"
  assumes "LENGTH('w) \<le> n"
  shows "w AND mask n = w"
  by (rule bit_word_eqI) (use assms in \<open>auto simp: bit_and_iff bit_mask_iff\<close>)

section \<open>Words bit by bit\<close>

lemma word8_eqI:
  fixes v w :: "8 word"
  assumes "bit v 0 = bit w 0" "bit v 1 = bit w 1" "bit v 2 = bit w 2" "bit v 3 = bit w 3"
    "bit v 4 = bit w 4" "bit v 5 = bit w 5" "bit v 6 = bit w 6" "bit v 7 = bit w 7"
  shows "v = w"
proof (rule bit_word_eqI)
  fix n assume "n < LENGTH(8)"
  then have "n = 0 \<or> n = 1 \<or> n = 2 \<or> n = 3 \<or> n = 4 \<or> n = 5 \<or> n = 6 \<or> n = 7" by auto
  then show "bit v n \<longleftrightarrow> bit w n" using assms by (elim disjE) simp_all
qed

lemma high_bits_zero:
  fixes c :: "'w::len word"
  assumes "unat c < 2 ^ n" "n \<le> i"
  shows "\<not> bit c i"
proof -
  have "take_bit n (unat c) = unat c" using assms(1) by (rule take_bit_nat_eq_self)
  then have "\<not> bit (unat c) i" using assms(2) by (metis bit_take_bit_iff not_le)
  then show ?thesis by (auto simp: bit_unsigned_iff dest: bit_imp_le_length)
qed

lemma word8_eq_iff:
  fixes v w :: "8 word"
  shows "v = w \<longleftrightarrow> bit v 0 = bit w 0 \<and> bit v 1 = bit w 1 \<and> bit v 2 = bit w 2 \<and> bit v 3 = bit w 3 \<and>
    bit v 4 = bit w 4 \<and> bit v 5 = bit w 5 \<and> bit v 6 = bit w 6 \<and> bit v 7 = bit w 7"
  using word8_eqI by blast

lemma word_eq_upt:
  fixes v w :: "'w::len word"
  shows "list_all (\<lambda>n. bit v n = bit w n) [0..<LENGTH('w)] \<Longrightarrow> v = w"
  by (rule bit_word_eqI) (simp add: list_all_iff)

lemma upt_32: "[0..<32 :: nat] =
   [0, 1, 2, 3, 4, 5, 6, 7, 8, 9, 10, 11, 12, 13, 14, 15,
    16, 17, 18, 19, 20, 21, 22, 23, 24, 25, 26, 27, 28, 29, 30, 31]"
  by code_simp

lemma word32_eqI:
  fixes v w :: "32 word"
  assumes "list_all (\<lambda>n. bit v n = bit w n) [0..<32]"
  shows "v = w"
  using assms by (intro word_eq_upt) simp

end
