(* ===== verification/Bounded.thy ===== *)
theory Bounded
  imports Prelude
begin

text \<open>
  Integer casts (\<open>core/Support/IntCast.hpp\<close>) and \<open>Bounded<T>\<close>
  (\<open>exi/Basic/Bounded.hpp\<close>). The C++ templates range over the integral types, so a type is
  a value here: its width in bits and its signedness. A value of the type is the integer it
  represents.
\<close>

record int_type =
  ty_bits :: nat
  ty_signed :: bool

definition i8_t :: int_type where "i8_t = \<lparr>ty_bits = 8, ty_signed = True\<rparr>"
definition u8_t :: int_type where "u8_t = \<lparr>ty_bits = 8, ty_signed = False\<rparr>"
definition i32_t :: int_type where "i32_t = \<lparr>ty_bits = 32, ty_signed = True\<rparr>"
definition i64_t :: int_type where "i64_t = \<lparr>ty_bits = 64, ty_signed = True\<rparr>"
definition u16_t :: int_type where "u16_t = \<lparr>ty_bits = 16, ty_signed = False\<rparr>"
definition u32_t :: int_type where "u32_t = \<lparr>ty_bits = 32, ty_signed = False\<rparr>"
definition u64_t :: int_type where "u64_t = \<lparr>ty_bits = 64, ty_signed = False\<rparr>"

lemmas int_types = i8_t_def u8_t_def i32_t_def i64_t_def u16_t_def u32_t_def u64_t_def

definition min_v :: "int_type \<Rightarrow> int" where
  "min_v t = (if ty_signed t then - (2 ^ (ty_bits t - 1)) else 0)"

definition max_v :: "int_type \<Rightarrow> int" where
  "max_v t = (if ty_signed t then 2 ^ (ty_bits t - 1) - 1 else 2 ^ ty_bits t - 1)"

definition is_value :: "int_type \<Rightarrow> int \<Rightarrow> bool" where
  "is_value t x \<longleftrightarrow> min_v t \<le> x \<and> x \<le> max_v t"

definition make_unsigned :: "int_type \<Rightarrow> int_type" where
  "make_unsigned t = t\<lparr>ty_signed := False\<rparr>"

text \<open>\<open>static_cast\<close>: the value modulo the width, read in the target's signedness.\<close>

definition static_cast :: "int_type \<Rightarrow> int \<Rightarrow> int" where
  "static_cast t x = (let m = x mod 2 ^ ty_bits t in
     if ty_signed t \<and> 2 ^ (ty_bits t - 1) \<le> m then m - 2 ^ ty_bits t else m)"

definition IntCastIsPossible :: "int_type \<Rightarrow> int_type \<Rightarrow> int \<Rightarrow> bool" where
  "IntCastIsPossible to from x =
    (if ty_signed to = ty_signed from then
       (if ty_bits from \<le> ty_bits to then True
        else if ty_signed to \<and> x < 0 then static_cast from (min_v to) \<le> x
        else x \<le> static_cast from (max_v to))
     else
       (if \<not> ty_signed to \<and> x < 0 then False
        else if ty_bits from \<le> ty_bits to then True
        else if ty_signed to then x \<le> static_cast from (static_cast (make_unsigned to) (max_v to))
        else x \<le> static_cast from (static_cast (make_unsigned from) (max_v to))))"

abbreviation CheckIntCast :: "int_type \<Rightarrow> int_type \<Rightarrow> int \<Rightarrow> bool" where
  "CheckIntCast \<equiv> IntCastIsPossible"

definition IntCast :: "int_type \<Rightarrow> int_type \<Rightarrow> int \<Rightarrow> 's \<Rightarrow> ('e, int, 's) outcome" where
  "IntCast to from x s = (if IntCastIsPossible to from x then Ret (static_cast to x) s else Fault AssertFail)"

definition IntCastOrZero :: "int_type \<Rightarrow> int_type \<Rightarrow> int \<Rightarrow> int" where
  "IntCastOrZero to from x = (if \<not> IntCastIsPossible to from x then 0 else static_cast to x)"

definition IntCastOr :: "int_type \<Rightarrow> int_type \<Rightarrow> int \<Rightarrow> int \<Rightarrow> int" where
  "IntCastOr to from x other = (if IntCastIsPossible to from x then static_cast to x else other)"

definition swap_sign :: "int_type \<Rightarrow> int_type" where
  "swap_sign t = t\<lparr>ty_signed := \<not> ty_signed t\<rparr>"

definition promotion_cast :: "int_type \<Rightarrow> int_type \<Rightarrow> int \<Rightarrow> 's \<Rightarrow> ('e, int, 's) outcome" where
  "promotion_cast to from x =
    (if ty_signed to = ty_signed from then
       (if ty_bits from \<le> ty_bits to then retM (static_cast to x) else IntCast to from x)
     else
       (let u = swap_sign from in
        if ty_bits from \<le> ty_bits to then retM (static_cast to (static_cast u x))
        else IntCast to u (static_cast u x)))"

section \<open>Bounded\<close>

text \<open>A \<open>Bounded<T>\<close> is its \<open>Data\<close>; the maximum of \<open>T\<close> is the unbounded state.\<close>

definition kUnbounded :: "int_type \<Rightarrow> int" where
  "kUnbounded t = max_v t"

definition Bounded_FromOther :: "int_type \<Rightarrow> int_type \<Rightarrow> int \<Rightarrow> int" where
  "Bounded_FromOther t from x = IntCastOr t from x (kUnbounded t)"

definition Bounded_unbounded :: "int_type \<Rightarrow> int \<Rightarrow> bool" where
  "Bounded_unbounded t d \<longleftrightarrow> d = kUnbounded t"

definition Bounded_bounded :: "int_type \<Rightarrow> int \<Rightarrow> bool" where
  "Bounded_bounded t d \<longleftrightarrow> d \<noteq> kUnbounded t"

definition Bounded_FromBounded :: "int_type \<Rightarrow> int_type \<Rightarrow> int \<Rightarrow> int" where
  "Bounded_FromBounded t from d =
    (if Bounded_unbounded from d then kUnbounded t else IntCastOr t from d (kUnbounded t))"

text \<open>\<open>Bounded(T)\<close> checks that its argument is not the reserved value.\<close>

definition Bounded_new :: "int_type \<Rightarrow> int \<Rightarrow> 's \<Rightarrow> ('e, int, 's) outcome" where
  "Bounded_new t x = thenM (invariantM (\<lambda>_. x \<noteq> kUnbounded t)) (retM x)"

text \<open>\<open>Bounded(Int)\<close> for another integral type delegates to \<open>Bounded(T)\<close>.\<close>

definition Bounded_newFrom :: "int_type \<Rightarrow> int_type \<Rightarrow> int \<Rightarrow> 's \<Rightarrow> ('e, int, 's) outcome" where
  "Bounded_newFrom t from x = Bounded_new t (Bounded_FromOther t from x)"

definition Bounded_newFromBounded :: "int_type \<Rightarrow> int_type \<Rightarrow> int \<Rightarrow> 's \<Rightarrow> ('e, int, 's) outcome" where
  "Bounded_newFromBounded t from d = retM (Bounded_FromBounded t from d)"

definition Bounded_assign :: "int_type \<Rightarrow> int \<Rightarrow> int \<Rightarrow> ('e, unit, int) outcome" where
  "Bounded_assign t x = thenM (invariantM (\<lambda>_. x \<noteq> kUnbounded t)) (modM (\<lambda>_. x))"

definition Bounded_assignFrom :: "int_type \<Rightarrow> int_type \<Rightarrow> int \<Rightarrow> int \<Rightarrow> ('e, unit, int) outcome" where
  "Bounded_assignFrom t from x = modM (\<lambda>_. Bounded_FromOther t from x)"

definition Bounded_assignFromBounded ::
    "int_type \<Rightarrow> int_type \<Rightarrow> int \<Rightarrow> int \<Rightarrow> ('e, unit, int) outcome" where
  "Bounded_assignFromBounded t from d = modM (\<lambda>_. Bounded_FromBounded t from d)"

definition Bounded_assignUnbounded :: "int_type \<Rightarrow> int \<Rightarrow> ('e, unit, int) outcome" where
  "Bounded_assignUnbounded t = modM (\<lambda>_. kUnbounded t)"

definition Bounded_le :: "int \<Rightarrow> int \<Rightarrow> bool" where
  "Bounded_le d v \<longleftrightarrow> d \<le> v"

definition Bounded_eqFrom :: "int_type \<Rightarrow> int_type \<Rightarrow> int \<Rightarrow> int \<Rightarrow> bool" where
  "Bounded_eqFrom t from d x \<longleftrightarrow> d = Bounded_FromOther t from x"

section \<open>When a cast is possible\<close>

lemma static_cast_id:
  assumes "is_value t x" and "0 < ty_bits t"
  shows "static_cast t x = x"
proof -
  obtain k where k: "ty_bits t = Suc k" using assms(2) by (cases "ty_bits t") auto
  show ?thesis
  proof (cases "ty_signed t")
    case False
    then show ?thesis using assms(1) by (simp add: static_cast_def is_value_def min_v_def max_v_def Let_def)
  next
    case True
    then have r: "- (2 ^ k) \<le> x" "x < 2 ^ k"
      using assms(1) k by (auto simp: is_value_def min_v_def max_v_def)
    show ?thesis
    proof (cases "0 \<le> x")
      case True
      then show ?thesis using r k by (simp add: static_cast_def Let_def)
    next
      case False
      then have "x mod 2 ^ Suc k = (x + 2 ^ Suc k) mod 2 ^ Suc k" by simp
      also have "\<dots> = x + 2 ^ Suc k" using False r by (intro mod_pos_pos_trivial) simp_all
      finally show ?thesis using True r k by (simp add: static_cast_def Let_def)
    qed
  qed
qed

text \<open>The widths the integral types of the program have.\<close>

definition int_type_ok :: "int_type \<Rightarrow> bool" where
  "int_type_ok t \<longleftrightarrow> ty_bits t = 8 \<or> ty_bits t = 16 \<or> ty_bits t = 32 \<or> ty_bits t = 64"

lemma int_type_ok_pos: "int_type_ok t \<Longrightarrow> 0 < ty_bits t"
  by (auto simp: int_type_ok_def)

lemma int_type_ok_consts [simp]:
  "int_type_ok i8_t" "int_type_ok u8_t" "int_type_ok i32_t" "int_type_ok i64_t"
  "int_type_ok u16_t" "int_type_ok u32_t" "int_type_ok u64_t"
  by (simp_all add: int_type_ok_def int_types)

lemmas cast_defs = is_value_def min_v_def max_v_def static_cast_def make_unsigned_def Let_def

lemma wider_same_sign:
  assumes "int_type_ok to" "int_type_ok from" "is_value from x"
    and "ty_signed to = ty_signed from" "ty_bits from \<le> ty_bits to"
  shows "is_value to x"
  using assms unfolding int_type_ok_def
  by (elim disjE) (auto simp: cast_defs split: if_splits)

lemma narrower_limits:
  assumes "int_type_ok to" "int_type_ok from" "ty_bits to < ty_bits from"
  shows "static_cast from (max_v to) = max_v to"
    and "ty_signed to = ty_signed from \<Longrightarrow> static_cast from (min_v to) = min_v to"
    and "static_cast (make_unsigned to) (max_v to) = max_v to"
    and "static_cast (make_unsigned from) (max_v to) = max_v to"
  using assms unfolding int_type_ok_def
  by (elim disjE; simp add: cast_defs)+

lemma narrower_min:
  assumes "int_type_ok to" "int_type_ok from" "is_value from x"
    and "\<not> ty_signed to \<or> \<not> ty_signed from" "0 \<le> x"
  shows "min_v to \<le> x"
  using assms(5) by (auto simp: min_v_def intro: order_trans [OF _ assms(5)])

lemma wider_mixed_sign:
  assumes "int_type_ok to" "int_type_ok from" "is_value from x" "ty_signed to \<noteq> ty_signed from"
    and "ty_bits from \<le> ty_bits to" "0 \<le> x" "\<not> (ty_bits to = ty_bits from \<and> ty_signed to)"
  shows "is_value to x"
  using assms unfolding int_type_ok_def
  by (elim disjE) (auto simp: cast_defs split: if_splits)

lemma unsigned_nonneg: "is_value t x \<Longrightarrow> \<not> ty_signed t \<Longrightarrow> 0 \<le> x"
  by (simp add: is_value_def min_v_def)

lemma max_v_nonneg: "0 \<le> max_v t"
  by (simp add: max_v_def)

lemma min_v_nonpos: "min_v t \<le> 0"
  by (simp add: min_v_def)

lemma IntCastIsPossible_iff_aux:
  assumes "int_type_ok to" "int_type_ok from" "is_value from x"
  shows "IntCastIsPossible to from x \<longleftrightarrow>
    is_value to x \<or> (ty_bits to = ty_bits from \<and> ty_signed to \<and> \<not> ty_signed from)"
proof (cases "ty_signed to = ty_signed from")
  case True
  show ?thesis
  proof (cases "ty_bits from \<le> ty_bits to")
    case True
    with \<open>ty_signed to = ty_signed from\<close> show ?thesis
      using wider_same_sign [OF assms] by (simp add: IntCastIsPossible_def)
  next
    case False
    with True show ?thesis
      using narrower_limits [OF assms(1,2)] max_v_nonneg [of to] min_v_nonpos [of to]
        unsigned_nonneg [OF assms(3)]
      by (auto simp: IntCastIsPossible_def is_value_def)
  qed
next
  case mixed: False
  show ?thesis
  proof (cases "x < 0")
    case True
    then have "ty_signed from" using unsigned_nonneg [OF assms(3)] by force
    with mixed True show ?thesis
      by (simp add: IntCastIsPossible_def is_value_def min_v_def)
  next
    case False
    then have m: "min_v to \<le> x" using min_v_nonpos [of to] by linarith
    show ?thesis
    proof (cases "ty_bits from \<le> ty_bits to")
      case True
      then show ?thesis
        using mixed False wider_mixed_sign [OF assms] by (auto simp: IntCastIsPossible_def)
    next
      case narrow: False
      then show ?thesis
        using mixed False m narrower_limits [OF assms(1,2)]
        by (auto simp: IntCastIsPossible_def is_value_def)
    qed
  qed
qed

text \<open>\<open>CheckIntCast<To>(X)\<close> holds exactly when \<open>X\<close> is a value of \<open>To\<close>, except
  that it also accepts every unsigned value when \<open>To\<close> is the signed type of the same width.\<close>

theorem IntCastIsPossible_iff:
  assumes "int_type_ok to" "int_type_ok from" "is_value from x"
  shows "IntCastIsPossible to from x \<longleftrightarrow>
    is_value to x \<or> (ty_bits to = ty_bits from \<and> ty_signed to \<and> \<not> ty_signed from)"
  using assms by (rule IntCastIsPossible_iff_aux)

theorem IntCastIsPossible_iff_witness:
  "IntCastIsPossible i32_t u32_t 3000000000 \<and> \<not> is_value i32_t 3000000000"
  using IntCastIsPossible_iff [of i32_t u32_t 3000000000] by (simp add: int_types cast_defs int_type_ok_def)

text \<open>Converting an integer of another type to a \<open>Bounded<T>\<close>: assignment maps every
  value outside \<open>T\<close> to unbounded, but construction from the same value stops the program on the
  invariant of the constructor it delegates to; the two agree when the value is below the maximum.\<close>

theorem Bounded_from_integer:
  assumes "int_type_ok t" "int_type_ok from" "is_value from x"
    and "ty_bits t \<noteq> ty_bits from \<or> \<not> ty_signed t \<or> ty_signed from"
  shows "Bounded_assignFrom t from x d
      = (Ret () (if is_value t x then x else kUnbounded t) :: ('e, unit, int) outcome)
    \<and> (Bounded_newFrom t from x d :: ('e, int, int) outcome)
      = (if is_value t x \<and> x < max_v t then Ret x d else Fault InvariantFail)"
proof -
  have "IntCastIsPossible t from x \<longleftrightarrow> is_value t x"
    using IntCastIsPossible_iff_aux assms by blast
  then show ?thesis
    using static_cast_id int_type_ok_pos [OF assms(1)]
    by (auto simp: Bounded_assignFrom_def Bounded_newFrom_def Bounded_new_def Bounded_FromOther_def
        IntCastOr_def thenM_def bindM_def invariantM_def checkM_def kUnbounded_def is_value_def)
qed

theorem Bounded_from_integer_witness:
  "Bounded_assignFrom u32_t u64_t (2 ^ 40) 7 = (Ret () (2 ^ 32 - 1) :: (unit, unit, int) outcome)
    \<and> (Bounded_newFrom u32_t u64_t (2 ^ 40) 7 :: (unit, int, int) outcome) = Fault InvariantFail"
  using Bounded_from_integer [of u32_t u64_t "2 ^ 40" 7, where 'e = unit]
  by (simp add: int_types cast_defs int_type_ok_def kUnbounded_def)

end
