(* ===== verification/ErrorCodes.thy ===== *)
theory ErrorCodes
  imports Prelude Bounded
begin

text \<open>
  \<open>ExiError\<close> (\<open>exi/Basic/ErrorCodes.hpp\<close>, \<open>lib/exi/Basic/ErrorCodes.cpp\<close>): the error codes, the
  32-bit \<open>Extra\<close> word that carries the details of a header or buffer error, how the details
  are packed and unpacked, and the message printed for them. The alignment and preservation
  kinds of \<open>exi/Basic/ExiOptions.hpp\<close> that the packing uses stand here as well.
\<close>

section \<open>Alignment and preservation kinds\<close>

datatype AlignKind = AK_None | BitPacked | BytePacked | PreCompression

primrec AlignKind_value :: "AlignKind \<Rightarrow> nat" where
  "AlignKind_value AK_None = 0"
| "AlignKind_value BitPacked = 1"
| "AlignKind_value BytePacked = 2"
| "AlignKind_value PreCompression = 3"

text \<open>\<open>PreserveKind\<close> is a bit mask over \<open>u8\<close>.\<close>

type_synonym PreserveKind = "8 word"

definition PK_Comments :: PreserveKind where "PK_Comments = 0b00001"
definition PK_DTDs :: PreserveKind where "PK_DTDs = 0b00010"
definition PK_LexicalValues :: PreserveKind where "PK_LexicalValues = 0b00100"
definition PK_PIs :: PreserveKind where "PK_PIs = 0b01000"
definition PK_Prefixes :: PreserveKind where "PK_Prefixes = 0b10000"
definition PK_None :: PreserveKind where "PK_None = 0"
definition PK_Strict :: PreserveKind where "PK_Strict = 0b00100"
definition PK_All :: PreserveKind where "PK_All = 0b11111"

lemmas PK_defs = PK_Comments_def PK_DTDs_def PK_LexicalValues_def PK_PIs_def PK_Prefixes_def
  PK_None_def PK_Strict_def PK_All_def

text \<open>A \<open>PreserveBuilder\<close> holds one mask.\<close>

definition PreserveBuilder_set :: "PreserveKind \<Rightarrow> PreserveKind \<Rightarrow> PreserveKind" where
  "PreserveBuilder_set opts o' = opts OR o'"

definition PreserveBuilder_unset :: "PreserveKind \<Rightarrow> PreserveKind \<Rightarrow> PreserveKind" where
  "PreserveBuilder_unset opts o' = opts AND NOT o'"

definition PreserveBuilder_has :: "PreserveKind \<Rightarrow> PreserveKind \<Rightarrow> bool" where
  "PreserveBuilder_has opts o' \<longleftrightarrow> opts AND o' \<noteq> PK_None"

section \<open>Error codes\<close>

datatype ErrorCode =
    kOk
  | kStop
  | kBufferEndReached
  | kParsingComplete
  | kUnimplemented
  | kUnexpectedError
  | kOutOfBounds
  | kNullptrRef
  | kInvalidMemoryAlloc
  | kInvalidEXIHeader
  | kInconsistentProcState
  | kInvalidEXIInput
  | kInvalidConfig
  | kNoPrefixesPreservedXMLSchema
  | kInvalidStringOp
  | kHeaderOptionsMismatch

primrec ErrorCode_value :: "ErrorCode \<Rightarrow> nat" where
  "ErrorCode_value kOk = 0"
| "ErrorCode_value kStop = 1"
| "ErrorCode_value kBufferEndReached = 2"
| "ErrorCode_value kParsingComplete = 3"
| "ErrorCode_value kUnimplemented = 4"
| "ErrorCode_value kUnexpectedError = 5"
| "ErrorCode_value kOutOfBounds = 6"
| "ErrorCode_value kNullptrRef = 7"
| "ErrorCode_value kInvalidMemoryAlloc = 8"
| "ErrorCode_value kInvalidEXIHeader = 9"
| "ErrorCode_value kInconsistentProcState = 10"
| "ErrorCode_value kInvalidEXIInput = 11"
| "ErrorCode_value kInvalidConfig = 12"
| "ErrorCode_value kNoPrefixesPreservedXMLSchema = 13"
| "ErrorCode_value kInvalidStringOp = 14"
| "ErrorCode_value kHeaderOptionsMismatch = 15"

datatype InvalidHeaderCode =
    IHC_Default
  | IHC_Cookie
  | IHC_DistinguishingBits
  | IHC_InvalidVersion
  | IHC_MixedAlignment
  | IHC_StrictPreserved
  | IHC_SelfContained
  | IHC_DatatypeMap
  | IHC_OutOfBandOpts

primrec InvalidHeaderCode_value :: "InvalidHeaderCode \<Rightarrow> nat" where
  "InvalidHeaderCode_value IHC_Default = 0"
| "InvalidHeaderCode_value IHC_Cookie = 1"
| "InvalidHeaderCode_value IHC_DistinguishingBits = 2"
| "InvalidHeaderCode_value IHC_InvalidVersion = 3"
| "InvalidHeaderCode_value IHC_MixedAlignment = 4"
| "InvalidHeaderCode_value IHC_StrictPreserved = 5"
| "InvalidHeaderCode_value IHC_SelfContained = 6"
| "InvalidHeaderCode_value IHC_DatatypeMap = 7"
| "InvalidHeaderCode_value IHC_OutOfBandOpts = 8"

definition ErrorCodeNames :: "string list" where
  "ErrorCodeNames = [
    ''Success'',
    ''Stop'',
    ''BufferEndReached'',
    ''ParsingComplete'',
    ''Unimplemented'',
    ''UnexpectedError'',
    ''OutOfBounds'',
    ''NullptrRef'',
    ''InvalidMemoryAlloc'',
    ''InvalidEXIHeader'',
    ''InconsistentProcState'',
    ''InvalidEXIInput'',
    ''InvalidConfig'',
    ''NoPrefixesPreservedXMLSchema'',
    ''InvalidStringOp'',
    ''HeaderOptionsMismatch'']"

definition ErrorCodeMessages :: "string list" where
  "ErrorCodeMessages = [
    ''Success'',
    ''Stop'',
    ''Reached End Of Buffer'',
    ''Parsing Complete'',
    ''Unimplemented Behaviour'',
    ''Unexpected Error'',
    ''Attempted Out Of Bounds Access'',
    ''Nullptr Reference'',
    ''Memory Allocation Failed :('',
    ''Invalid EXI Header'',
    ''Inconsistent Processor State'',
    ''Invalid EXI Input'',
    ''Invalid EXI Configuration'',
    ''No Prefixes Preserved XML Schema'',
    ''Invalid String Operation'',
    ''Mismatched Header Options'']"

text \<open>The argument may be any 32-bit value: the source casts it to a signed index.\<close>

definition get_error_name :: "nat \<Rightarrow> string" where
  "get_error_name e = (if e < length ErrorCodeNames then ErrorCodeNames ! e else ''UNKNOWN_ERROR'')"

definition get_error_message :: "nat \<Rightarrow> string" where
  "get_error_message e =
    (if e < length ErrorCodeMessages then ErrorCodeMessages ! e else ''UNKNOWN ERROR'')"

section \<open>ExiError\<close>

record ExiError =
  EC :: ErrorCode
  Extra :: "32 word"

definition ExiError_Unset :: "32 word" where "ExiError_Unset = - 1"

definition ExiError_New :: "ErrorCode \<Rightarrow> ExiError" where
  "ExiError_New e = \<lparr>EC = e, Extra = 0\<rparr>"

definition ExiError_Full :: ExiError where
  "ExiError_Full = \<lparr>EC = kBufferEndReached, Extra = ExiError_Unset\<rparr>"

definition ExiError_FullBits :: "int \<Rightarrow> ExiError" where
  "ExiError_FullBits bits = (if \<not> CheckIntCast u32_t i64_t bits then ExiError_Full
     else \<lparr>EC = kBufferEndReached, Extra = word_of_int bits\<rparr>)"

definition ExiError_OK :: ExiError where "ExiError_OK = ExiError_New kOk"
definition ExiError_STOP :: ExiError where "ExiError_STOP = ExiError_New kStop"
definition ExiError_DONE :: ExiError where "ExiError_DONE = ExiError_New kParsingComplete"
definition ExiError_FULL :: ExiError where "ExiError_FULL = ExiError_Full"
definition ExiError_TODO :: ExiError where "ExiError_TODO = ExiError_New kUnimplemented"
definition ExiError_OOB :: ExiError where "ExiError_OOB = ExiError_New kOutOfBounds"

definition ExiError_Header :: ExiError where "ExiError_Header = ExiError_New kInvalidEXIHeader"
definition ExiError_Mismatch :: ExiError where
  "ExiError_Mismatch = ExiError_New kHeaderOptionsMismatch"

definition ExiError_eq :: "ExiError \<Rightarrow> ExiError \<Rightarrow> bool" where
  "ExiError_eq l r \<longleftrightarrow> EC l = EC r"

definition ExiError_bool :: "ExiError \<Rightarrow> bool" where
  "ExiError_bool e \<longleftrightarrow> EC e \<noteq> kOk"

definition ExiError_what :: "ExiError \<Rightarrow> string" where
  "ExiError_what e = get_error_message (ErrorCode_value (EC e))"

type_synonym ('a, 's) exi = "(ExiError, 'a, 's) outcome"

section \<open>The extra word of a header error\<close>

text \<open>
  \<open>HeaderExtra\<close> is a struct of one byte \<open>IHC\<close>, one byte of padding and a 16-bit union;
  \<open>bit_cast\<close> on a little-endian target puts \<open>IHC\<close> in bits 0 to 7 and the union in bits 16
  to 31. The padding bits are cleared (\<open>__builtin_clear_padding\<close>).
\<close>

record HeaderExtra =
  IHC :: "8 word"
  payload :: "16 word"

text \<open>\<open>PackedAlign\<close>: four bits of alignment, then the two flags.\<close>

definition PackAlign :: "AlignKind \<Rightarrow> bool \<Rightarrow> bool \<Rightarrow> 16 word" where
  "PackAlign a compress strict =
    (of_nat (AlignKind_value a) AND mask 4) OR push_bit 4 (of_bool compress) OR push_bit 5 (of_bool strict)"

definition PackedAlign_AlignV :: "16 word \<Rightarrow> nat" where
  "PackedAlign_AlignV w = unat (w AND mask 4)"
definition PackedAlign_Compress :: "16 word \<Rightarrow> bool" where
  "PackedAlign_Compress w = bit w 4"
definition PackedAlign_Strict :: "16 word \<Rightarrow> bool" where
  "PackedAlign_Strict w = bit w 5"

definition FromHeader :: "HeaderExtra \<Rightarrow> 32 word" where
  "FromHeader ex = ucast (IHC ex) OR push_bit 16 (ucast (payload ex))"

definition ToHeader :: "32 word \<Rightarrow> HeaderExtra" where
  "ToHeader w = \<lparr>IHC = ucast w, payload = ucast (drop_bit 16 w)\<rparr>"

definition FROM_HEADER :: "ErrorCode \<Rightarrow> InvalidHeaderCode \<Rightarrow> 16 word \<Rightarrow> ExiError" where
  "FROM_HEADER ec ihc p =
    \<lparr>EC = ec, Extra = FromHeader \<lparr>IHC = of_nat (InvalidHeaderCode_value ihc), payload = p\<rparr>\<rparr>"

definition isPrint :: "8 word \<Rightarrow> bool" where
  "isPrint c \<longleftrightarrow> 0x20 \<le> c \<and> c \<le> 0x7E"

definition HeaderSig :: "8 word \<Rightarrow> ExiError" where
  "HeaderSig c = FROM_HEADER kInvalidEXIHeader IHC_Cookie (ucast (if isPrint c then c else 0))"

definition HeaderBits :: "64 word \<Rightarrow> ExiError" where
  "HeaderBits b = FROM_HEADER kInvalidEXIHeader IHC_DistinguishingBits
    (if b \<le> 3 then ucast b else - 1)"

definition HeaderVerPreview :: ExiError where
  "HeaderVerPreview = FROM_HEADER kInvalidEXIHeader IHC_InvalidVersion 0"

text \<open>The recursive call of the source passes \<open>max_v<u16>\<close>, which the last branch accepts.\<close>

definition HeaderVer :: "64 word \<Rightarrow> ExiError" where
  "HeaderVer v = (if v = 0 then HeaderVerPreview
     else if \<not> CheckIntCast u16_t u64_t (uint v)
       then FROM_HEADER kInvalidEXIHeader IHC_InvalidVersion (- 1)
     else FROM_HEADER kInvalidEXIHeader IHC_InvalidVersion (ucast v))"

definition HeaderAlign :: "AlignKind \<Rightarrow> bool \<Rightarrow> ExiError" where
  "HeaderAlign a compress =
    FROM_HEADER kHeaderOptionsMismatch IHC_MixedAlignment (PackAlign a compress False)"

definition HeaderStrict :: "PreserveKind \<Rightarrow> ExiError" where
  "HeaderStrict opt = FROM_HEADER kHeaderOptionsMismatch IHC_StrictPreserved (ucast opt)"

definition HeaderSelfContained :: "AlignKind \<Rightarrow> bool \<Rightarrow> ExiError" where
  "HeaderSelfContained a strict = (let compress = (a = AK_None) in
    FROM_HEADER kHeaderOptionsMismatch IHC_SelfContained (PackAlign a compress strict))"

definition HeaderOutOfBand :: ExiError where
  "HeaderOutOfBand = FROM_HEADER kHeaderOptionsMismatch IHC_OutOfBandOpts 0"

section \<open>Messages\<close>

definition digit :: "nat \<Rightarrow> char" where
  "digit d = ''0123456789'' ! d"

fun dec_string :: "nat \<Rightarrow> string" where
  "dec_string n = (if n < 10 then [digit n] else dec_string (n div 10) @ [digit (n mod 10)])"

fun bin_string :: "nat \<Rightarrow> string" where
  "bin_string n = (if n < 2 then [digit n] else bin_string (n div 2) @ [digit (n mod 2)])"

declare dec_string.simps [simp del] bin_string.simps [simp del]

text \<open>\<open>format("{:02b}")\<close>: at least two binary digits.\<close>

definition fmt_02b :: "nat \<Rightarrow> string" where
  "fmt_02b n = (let s = bin_string n in replicate (2 - length s) CHR ''0'' @ s)"

definition kCurrentExiVersion :: nat where "kCurrentExiVersion = 1"

definition quote_char :: string where "quote_char = [CHR 0x27]"

definition FormatInvalidHeader :: "32 word \<Rightarrow> string" where
  "FormatInvalidHeader raw = (let ex = ToHeader raw; ihc = unat (IHC ex); p = unat (payload ex);
      cookie = ucast (payload ex) :: 8 word in
    if ihc = InvalidHeaderCode_value IHC_Cookie then
      (if cookie \<noteq> 0
       then ''incorrect character in cookie '' @ quote_char @ [char_of (unat cookie)] @ quote_char
       else ''invalid cookie'')
    else if ihc = InvalidHeaderCode_value IHC_DistinguishingBits then
      (if p = 2 then ''??? valid distinguishing bits''
       else ''invalid distinguishing bits''
         @ (if p \<noteq> 2 ^ 16 - 1 then '' '' @ quote_char @ ''0b'' @ fmt_02b p @ quote_char else ''''))
    else if ihc = InvalidHeaderCode_value IHC_InvalidVersion then
      (if p \<noteq> 0 then
         (if p \<le> kCurrentExiVersion then ''??? supported Final Version '' @ dec_string p
          else ''unsupported Final Version: '' @ dec_string p)
       else ''invalid Preview Version'')
    else '''')"

text \<open>\<open>ADD_NAME\<close> stores the literal with \<open>sizeof\<close>, so the terminating NUL is part of the name.\<close>

definition ADD_NAME :: "PreserveKind \<Rightarrow> PreserveKind \<Rightarrow> string \<Rightarrow> string list" where
  "ADD_NAME opts k name = (if PreserveBuilder_has opts k then [name @ [CHR 0x00]] else [])"

definition FormatMismatchStrict :: "PreserveKind \<Rightarrow> string" where
  "FormatMismatchStrict o' = (let opts = PreserveBuilder_unset o' PK_Strict;
      names = ADD_NAME opts PK_Comments ''Comments'' @ ADD_NAME opts PK_DTDs ''DTDs''
        @ ADD_NAME opts PK_LexicalValues ''LexicalValues'' @ ADD_NAME opts PK_PIs ''PIs''
        @ ADD_NAME opts PK_Prefixes ''Prefixes'' in
    if names = [] then ''??? valid Preserve options''
    else ''using Preserve.'' @
      (if length names = 1 then last names
       else ''{'' @ concat (map (\<lambda>n. n @ '', '') (butlast names)) @ last names @ ''}'')
      @ '' in STRICT mode'')"

definition FormatMismatch :: "32 word \<Rightarrow> string" where
  "FormatMismatch raw = (let ex = ToHeader raw; ihc = unat (IHC ex); p = payload ex in
    if ihc = InvalidHeaderCode_value IHC_MixedAlignment
      then ''mixing alignment and compression options''
    else if ihc = InvalidHeaderCode_value IHC_StrictPreserved then FormatMismatchStrict (ucast p)
    else if ihc = InvalidHeaderCode_value IHC_SelfContained then
      ''SelfContained was enabled '' @
      (if PackedAlign_Strict p then ''in STRICT mode''
       else if PackedAlign_Compress p then ''with compression''
       else if PackedAlign_AlignV p = AlignKind_value PreCompression then ''with pre-compression''
       else '' ??? with valid options'')
    else if ihc = InvalidHeaderCode_value IHC_OutOfBandOpts
      then ''prescence bit was not set, but no out-of-band options were provided''
    else '''')"

definition FormatBufferEndReached :: "32 word \<Rightarrow> string" where
  "FormatBufferEndReached bits = (let n = nat (IntCastOrZero i64_t u32_t (uint bits)) in
    if n = 0 then ''Buffer completely full''
    else ''Buffer full, unable to read ''
      @ (if n mod 8 = 0 then dec_string (n div 8) @ ''-byte integer''
         else dec_string n @ ''-bit integer''))"

definition ExiError_isSpecialCase :: "ExiError \<Rightarrow> bool" where
  "ExiError_isSpecialCase e = (case EC e of
      kInvalidEXIHeader \<Rightarrow> unat (IHC (ToHeader (Extra e))) \<noteq> InvalidHeaderCode_value IHC_Default
    | kHeaderOptionsMismatch \<Rightarrow> unat (IHC (ToHeader (Extra e))) \<noteq> InvalidHeaderCode_value IHC_Default
    | kBufferEndReached \<Rightarrow> Extra e \<noteq> ExiError_Unset
    | _ \<Rightarrow> False)"

definition ExiError_print :: "ExiError \<Rightarrow> string" where
  "ExiError_print e = ''EXI Error: '' @ (case EC e of
      kInvalidEXIHeader \<Rightarrow> ''Invalid Header, '' @ FormatInvalidHeader (Extra e)
    | kHeaderOptionsMismatch \<Rightarrow> ''Header Option Mismatch, '' @ FormatMismatch (Extra e)
    | kBufferEndReached \<Rightarrow> FormatBufferEndReached (Extra e)
    | _ \<Rightarrow> get_error_message (ErrorCode_value (EC e)))"

text \<open>\<open>toVector\<close> and \<open>msg\<close> append what \<open>print\<close> writes.\<close>

definition ExiError_toVector :: "ExiError \<Rightarrow> string \<Rightarrow> string" where
  "ExiError_toVector e vec = vec @ ExiError_print e"

definition ExiError_msg :: "ExiError \<Rightarrow> string \<Rightarrow> string" where
  "ExiError_msg e vec = ExiError_toVector e vec"

section \<open>Packing\<close>

lemma ToHeader_FromHeader: "ToHeader (FromHeader ex) = ex"
proof -
  have "ucast (ucast (IHC ex) OR push_bit 16 (ucast (payload ex)) :: 32 word) = IHC ex"
    by (rule bit_word_eqI) (simp add: bit_simps)
  moreover have "ucast (drop_bit 16 (ucast (IHC ex) OR push_bit 16 (ucast (payload ex)) :: 32 word))
      = payload ex"
    by (rule bit_word_eqI) (auto simp: bit_simps dest: bit_imp_le_length)
  ultimately show ?thesis by (simp add: ToHeader_def FromHeader_def)
qed

lemma ErrorCode_value_less: "ErrorCode_value e < 16"
  by (cases e) simp_all

lemma InvalidHeaderCode_value_byte: "unat (of_nat (InvalidHeaderCode_value c) :: 8 word) = InvalidHeaderCode_value c"
  by (cases c) simp_all

lemma PackAlign_fields:
  "PackedAlign_AlignV (PackAlign a c s) = AlignKind_value a"
  "PackedAlign_Compress (PackAlign a c s) = c"
  "PackedAlign_Strict (PackAlign a c s) = s"
  by (cases a; cases c; cases s; simp add: PackAlign_def PackedAlign_AlignV_def
      PackedAlign_Compress_def PackedAlign_Strict_def bit_simps mask_eq_exp_minus_1)+

text \<open>The details a header error packs into its 32-bit extra word are the ones the
  message routines unpack: the sub-code, and for the alignment errors the alignment kind and the
  two flags.\<close>

theorem header_extra_roundtrip:
  "ToHeader (Extra (FROM_HEADER ec ihc p)) = \<lparr>IHC = of_nat (InvalidHeaderCode_value ihc), payload = p\<rparr>
    \<and> PackedAlign_AlignV (payload (ToHeader (Extra (HeaderSelfContained a s)))) = AlignKind_value a
    \<and> PackedAlign_Compress (payload (ToHeader (Extra (HeaderSelfContained a s)))) = (a = AK_None)
    \<and> PackedAlign_Strict (payload (ToHeader (Extra (HeaderSelfContained a s)))) = s
    \<and> unat (IHC (ToHeader (Extra (HeaderStrict o')))) = InvalidHeaderCode_value IHC_StrictPreserved
    \<and> ucast (payload (ToHeader (Extra (HeaderStrict o')))) = o'"
proof -
  have "(ucast (ucast o' :: 16 word) :: 8 word) = o'"
    by (rule bit_word_eqI) (simp add: bit_simps)
  then show ?thesis
    by (simp add: FROM_HEADER_def HeaderSelfContained_def HeaderStrict_def ToHeader_FromHeader
        PackAlign_fields InvalidHeaderCode_value_byte)
qed

lemma dec_string_Unset: "dec_string 4294967295 = ''4294967295''"
  by (simp add: dec_string.simps [of "numeral _"] digit_def)

lemma IntCastOrZero_i64_u32: "IntCastOrZero i64_t u32_t (uint (w :: 32 word)) = uint w"
proof -
  have "uint w < 2 ^ 64" using uint_bounded [of w] by simp
  moreover have "\<not> 2 ^ 63 \<le> uint w" using uint_bounded [of w] by simp
  ultimately show ?thesis
    by (simp add: IntCastOrZero_def IntCastIsPossible_def int_types static_cast_def Let_def)
qed

text \<open>The default buffer error carries the \<open>Unset\<close> mark, and printing it reports the
  mark as a bit count instead of a full buffer.\<close>

theorem full_error_message:
  "ExiError_print ExiError_FULL
    = ''EXI Error: Buffer full, unable to read 4294967295-bit integer''"
proof -
  have "nat (IntCastOrZero i64_t u32_t (uint ExiError_Unset)) = 4294967295"
    unfolding IntCastOrZero_i64_u32 ExiError_Unset_def
    by (simp add: unsigned_minus_1_eq_mask mask_eq_exp_minus_1)
  then have "FormatBufferEndReached ExiError_Unset
      = ''Buffer full, unable to read '' @ dec_string 4294967295 @ ''-bit integer''"
    unfolding FormatBufferEndReached_def Let_def by simp
  then show ?thesis
    unfolding dec_string_Unset by (simp add: ExiError_print_def ExiError_FULL_def ExiError_Full_def)
qed

end
