(* ===== verification/StreamBase.thy ===== *)
theory StreamBase
  imports ErrorCodes
begin

text \<open>
  What the readers share (\<open>exi/Stream/Stream.hpp\<close>, the class \<open>OrderedReader\<close> of
  \<open>exi/Stream/OrderedReader.hpp\<close>, \<open>byteswap\<close> of \<open>core/Common/bit.hpp\<close>): the bit utilities,
  the state of a reader, the refill of its 64-bit store, and the specification of a stream as
  a sequence of bits, the most significant bit of each byte first.
\<close>

section \<open>Bit utilities\<close>

definition kBitsPerWord :: nat where "kBitsPerWord = 64"

definition MakeNBitMask :: "nat \<Rightarrow> 64 word" where
  "MakeNBitMask bits = (if bits \<noteq> kBitsPerWord then NOT (push_bit bits (NOT 0)) else NOT 0)"

text \<open>The two size helpers check that their argument is not zero before the subtraction.\<close>

definition MakeByteCount :: "nat \<Rightarrow> nat" where
  "MakeByteCount bits = (bits - 1) div 8 + 1"

definition MakeBitShift :: "nat \<Rightarrow> nat" where
  "MakeBitShift bits = ((bits - 1) div 8 * 8) mod 64 + 8"

definition byteswap32 :: "32 word \<Rightarrow> 32 word" where
  "byteswap32 v =
    push_bit 24 (v AND 0x000000FF) OR
    push_bit 8 (v AND 0x0000FF00) OR
    drop_bit 8 (v AND 0x00FF0000) OR
    drop_bit 24 (v AND 0xFF000000)"

definition byteswap64 :: "64 word \<Rightarrow> 64 word" where
  "byteswap64 v = push_bit 32 (ucast (byteswap32 (ucast v))) OR ucast (byteswap32 (ucast (drop_bit 32 v)))"

text \<open>A shift of a 64-bit word by 64 or more is undefined in C++.\<close>

definition shl64 :: "nat \<Rightarrow> 64 word \<Rightarrow> 64 word option" where
  "shl64 n w = (if n < 64 then Some (push_bit n w) else None)"

definition shr64 :: "nat \<Rightarrow> 64 word \<Rightarrow> 64 word option" where
  "shr64 n w = (if n < 64 then Some (drop_bit n w) else None)"

text \<open>An operand the standard leaves undefined stops the model.\<close>

definition definedM :: "'a option \<Rightarrow> ('a \<Rightarrow> 's \<Rightarrow> ('e, 'b, 's) outcome) \<Rightarrow> 's \<Rightarrow> ('e, 'b, 's) outcome" where
  "definedM x k s = (case x of None \<Rightarrow> Fault Undefined | Some a \<Rightarrow> k a s)"

lemma definedM_simps [simp]:
  "definedM (Some a) k s = k a s" "definedM None k s = Fault Undefined"
  by (simp_all add: definedM_def)

lemma shl64_lt [simp]: "n < 64 \<Longrightarrow> shl64 n w = Some (push_bit n w)"
  and shr64_lt [simp]: "n < 64 \<Longrightarrow> shr64 n w = Some (drop_bit n w)"
  by (simp_all add: shl64_def shr64_def)

section \<open>The state of a reader\<close>

record OrderedReader =
  Stream :: bytes
  ByteOffset :: nat
  Store :: "64 word"

text \<open>A proxy passes the buffer and the number of consumed bits between readers.\<close>

record StreamProxy =
  Bytes :: bytes
  NBits :: "64 word"

definition hasData :: "'a OrderedReader_scheme \<Rightarrow> bool" where
  "hasData r \<longleftrightarrow> ByteOffset r \<le> length (Stream r)"

definition OrderedReader_bitPos :: "'a OrderedReader_scheme \<Rightarrow> nat" where
  "OrderedReader_bitPos r = ByteOffset r * 8"

definition sizeInBytes :: "'a OrderedReader_scheme \<Rightarrow> nat" where
  "sizeInBytes r = length (Stream r)"

text \<open>\<open>n\<close> bytes from offset \<open>off\<close>, the first in the low bits, ORed into a word.\<close>

definition or_bytes :: "64 word \<Rightarrow> bytes \<Rightarrow> nat \<Rightarrow> nat \<Rightarrow> 64 word" where
  "or_bytes s bs off n = foldl (\<lambda>w i. w OR push_bit (i * 8) (ucast (bs ! (off + i)))) s [0..<n]"

text \<open>The full word is read little-endian over the old store; a partial read keeps the old
  store's bits under the new ones and restarts the byte offset at zero.\<close>

definition fillStoreImpl :: "'a OrderedReader_scheme \<Rightarrow> (nat, 'a OrderedReader_scheme) exi" where
  "fillStoreImpl r =
    (if length (Stream r) \<le> ByteOffset r then Err ExiError_OOB r
     else
       (let (n, r1) =
          (if ByteOffset r + 8 \<le> length (Stream r)
           then (8, r\<lparr>Store := or_bytes 0 (Stream r) (ByteOffset r) 8\<rparr>)
           else (let n = length (Stream r) - ByteOffset r in
             (n, r\<lparr>ByteOffset := 0, Store := or_bytes (Store r) (Stream r) (ByteOffset r) n\<rparr>)));
          r2 = r1\<lparr>ByteOffset := ByteOffset r1 + n\<rparr>;
          r3 = (if ByteOffset r2 = length (Stream r2) then r2\<lparr>ByteOffset := ByteOffset r2 + 1\<rparr> else r2)
        in Ret n r3))"

definition setProxyBase :: "StreamProxy \<Rightarrow> 'a OrderedReader_scheme \<Rightarrow> 'a OrderedReader_scheme" where
  "setProxyBase p r = r\<lparr>Stream := Bytes p,
     ByteOffset := (if NBits p \<noteq> 0 then MakeByteCount (unat (NBits p)) else 0), Store := 0\<rparr>"

section \<open>The stream as a sequence of bits\<close>

definition sbit :: "bytes \<Rightarrow> nat \<Rightarrow> bool" where
  "sbit bs i = bit (bs ! (i div 8)) (7 - i mod 8)"

definition stream_bits :: "bytes \<Rightarrow> nat \<Rightarrow> nat \<Rightarrow> bool list" where
  "stream_bits bs p n = map (sbit bs) [p..<p + n]"

text \<open>The number that \<open>n\<close> bits of the stream denote, and a byte of it.\<close>

definition stream_word :: "bytes \<Rightarrow> nat \<Rightarrow> nat \<Rightarrow> 64 word" where
  "stream_word bs p n = msb_word (stream_bits bs p n)"

lemma bit_stream_word:
  "bit (stream_word bs p n) i \<longleftrightarrow> i < n \<and> i < 64 \<and> sbit bs (p + n - Suc i)"
  by (auto simp: stream_word_def stream_bits_def bit_msb_word)

lemma stream_word_0 [simp]: "stream_word bs p 0 = 0"
  by (rule bit_word_eqI) (simp add: bit_stream_word)

lemma stream_word_byte:
  "stream_word bs (8 * k) 8 = ucast (bs ! k)"
proof (rule bit_word_eqI)
  fix i assume i: "i < LENGTH(64)"
  show "bit (stream_word bs (8 * k) 8) i = bit (ucast (bs ! k) :: 64 word) i"
  proof (cases "i < 8")
    case True
    have d: "8 * k + 8 - Suc i = 8 * k + (7 - i)" using True by linarith
    have "(8 * k + (7 - i)) div 8 = k" "(8 * k + (7 - i)) mod 8 = 7 - i"
      using div_mod_8 [of "7 - i" k] by simp_all
    then show ?thesis using True i unfolding bit_stream_word sbit_def d by (simp add: bit_ucast_iff)
  next
    case False
    then show ?thesis by (auto simp: bit_stream_word bit_ucast_iff dest: bit_imp_le_length)
  qed
qed

lemma stream_word_append:
  assumes "m < 64"
  shows "push_bit m (stream_word bs p n) OR stream_word bs (p + n) m = stream_word bs p (n + m)"
proof (rule bit_word_eqI)
  fix i assume i: "i < LENGTH(64)"
  show "bit (push_bit m (stream_word bs p n) OR stream_word bs (p + n) m) i = bit (stream_word bs p (n + m)) i"
  proof (cases "i < m")
    case True
    moreover have "p + n + m - Suc i = p + (n + m) - Suc i" by simp
    ultimately show ?thesis using i by (auto simp: bit_simps bit_stream_word)
  next
    case False
    then have "p + n - Suc (i - m) = p + (n + m) - Suc i" by simp
    then show ?thesis using False i by (auto simp: bit_simps bit_stream_word)
  qed
qed

section \<open>What a refill loads\<close>

lemma upt_64: "[0..<64 :: nat] = [0..<32] @ map (\<lambda>i. 32 + i) [0..<32]"
  by code_simp

lemma bit_byteswap32:
  "i < 32 \<Longrightarrow> bit (byteswap32 v) i = bit v (8 * (3 - i div 8) + i mod 8)"
proof -
  have "list_all (\<lambda>i. bit (byteswap32 v) i = bit v (8 * (3 - i div 8) + i mod 8)) [0..<32]"
    unfolding upt_32 by (simp add: byteswap32_def bit_simps flip: numeral_2_eq_2)
  then show "i < 32 \<Longrightarrow> bit (byteswap32 v) i = bit v (8 * (3 - i div 8) + i mod 8)"
    by (simp add: list_all_iff)
qed

lemma bit_byteswap64:
  assumes "i < 64"
  shows "bit (byteswap64 v) i = bit v (8 * (7 - i div 8) + i mod 8)"
proof (cases "i < 32")
  case True
  then have "i div 8 < 4" by (simp add: div_less_iff_less_mult)
  then have e: "32 + (8 * (3 - i div 8) + i mod 8) = 8 * (7 - i div 8) + i mod 8" by simp
  have "8 * (3 - i div 8) + i mod 8 < 32" using \<open>i div 8 < 4\<close> mod_less_divisor [of 8 i] by linarith
  then show ?thesis
    using True by (simp add: byteswap64_def bit_simps bit_byteswap32 e)
next
  case False
  define j where "j = i - 32"
  have i: "i = j + 4 * 8" "j < 32" using False assms by (simp_all add: j_def)
  have d: "i div 8 = j div 8 + 4" "i mod 8 = j mod 8" unfolding i(1) by presburger+
  have "j div 8 < 4" using i by (simp add: div_less_iff_less_mult)
  then have e: "8 * (3 - j div 8) + j mod 8 = 8 * (7 - i div 8) + i mod 8" unfolding d by simp
  have "8 * (3 - j div 8) + j mod 8 < 32" using \<open>j div 8 < 4\<close> mod_less_divisor [of 8 j] by linarith
  then show ?thesis
    using False assms i(2)
    by (auto simp: byteswap64_def bit_simps bit_byteswap32 e j_def [symmetric] dest: bit_imp_le_length)
qed

lemma bit_or_bytes:
  assumes "n \<le> 8" "j < 64"
  shows "bit (or_bytes s bs off n) j \<longleftrightarrow> bit s j \<or> (j < 8 * n \<and> bit (bs ! (off + j div 8)) (j mod 8))"
  using assms(1)
proof (induction n)
  case 0
  then show ?case by (simp add: or_bytes_def)
next
  case (Suc n)
  have "bit (push_bit (n * 8) (ucast (bs ! (off + n)) :: 64 word)) j
      \<longleftrightarrow> n * 8 \<le> j \<and> j - n * 8 < 8 \<and> bit (bs ! (off + n)) (j - n * 8)"
    using assms(2) Suc.prems by (auto simp: bit_simps dest: bit_imp_le_length)
  moreover have "n * 8 \<le> j \<and> j - n * 8 < 8 \<longleftrightarrow> j div 8 = n"
    by auto
  moreover have "j div 8 = n \<Longrightarrow> j - n * 8 = j mod 8"
    by (simp add: modulo_nat_def)
  moreover have "j < 8 * Suc n \<longleftrightarrow> j < 8 * n \<or> j div 8 = n" by auto
  ultimately show ?case
    using Suc by (auto simp: or_bytes_def bit_simps)
qed

text \<open>After a refill and the byte swap the first bit of the stream is the top bit of the store,
  as long as the bits left over from before stay below the new ones.\<close>

lemma bit_filled_store:
  assumes "n \<le> 8" "i < 8 * n" "\<And>j. j < 8 * n \<Longrightarrow> \<not> bit s j"
  shows "bit (byteswap64 (or_bytes s bs off n)) (63 - i) = sbit bs (8 * off + i)"
proof -
  have i64: "i < 64" using assms by linarith
  define q r where "q = i div 8" and "r = i mod 8"
  have i: "i = 8 * q + r" "r < 8" "q < n" using assms(2) by (simp_all add: q_def r_def div_less_iff_less_mult)
  have e: "63 - i = 8 * (7 - q) + (7 - r)" using i assms(1) by linarith
  have "(63 - i) div 8 = 7 - q" "(63 - i) mod 8 = 7 - r" unfolding e using div_mod_8 [of "7 - r" "7 - q"] by simp_all
  moreover have "7 - (7 - q) = q" using i assms(1) by linarith
  ultimately have "bit (byteswap64 (or_bytes s bs off n)) (63 - i) = bit (or_bytes s bs off n) (8 * q + (7 - r))"
    using bit_byteswap64 [of "63 - i"] by simp
  also have "\<dots> = bit (bs ! (off + q)) (7 - r)"
  proof -
    define t where "t = 7 - r"
    have "8 * q + t < 8 * n" "8 * q + t < 64" using i assms(1) by (simp_all add: t_def)
    moreover have "(8 * q + t) div 8 = q" "(8 * q + t) mod 8 = t"
      by (rule div_mod_8, simp add: t_def)+
    ultimately show ?thesis
      using assms(3) unfolding t_def [symmetric] by (simp add: bit_or_bytes [OF assms(1)])
  qed
  also have "\<dots> = sbit bs (8 * off + i)"
    using i by (simp add: sbit_def)
  finally show ?thesis .
qed

end
