(* ===== verification/Runes.thy ===== *)
theory Runes
  imports Prelude
begin

text \<open>
  UTF-8 (\<open>exi/Basic/Runes.hpp\<close>, \<open>lib/exi/Basic/Runes.cpp\<close>): the encoder, the checked and the
  unchecked decoder, the iterator, and the loops over whole strings. A \<open>RuneBuf\<close> is the list
  of its \<open>Length\<close> bytes, a \<open>RuneDecoder\<close> the bytes it has still to read.
\<close>

type_synonym Rune = "32 word"

definition kInvalidRune :: Rune where "kInvalidRune = 0xFFFD"

section \<open>RuneBuf and the encoder\<close>

definition RuneBuf_put :: "8 word \<Rightarrow> bytes \<Rightarrow> bytes" where
  "RuneBuf_put v buf = (if length buf = 4 then buf else buf @ [v])"

text \<open>The encoder returns the code of the template \<open>Encode<true>\<close> with the buffer it fills.\<close>

definition RuneEncoder_EncodeValid :: "Rune \<Rightarrow> bytes" where
  "RuneEncoder_EncodeValid c =
    (if c \<le> 0x7f then [ucast c]
     else if c \<le> 0x7ff then
       [ucast (0xc0 OR drop_bit 6 c),
        ucast (0x80 OR (c AND 0x3f))]
     else if c \<le> 0xffff then
       [ucast (0xe0 OR drop_bit 12 c),
        ucast (0x80 OR (drop_bit 6 c AND 0x3f)),
        ucast (0x80 OR (c AND 0x3f))]
     else
       [ucast (0xf0 OR drop_bit 18 c),
        ucast (0x80 OR (drop_bit 12 c AND 0x3f)),
        ucast (0x80 OR (drop_bit 6 c AND 0x3f)),
        ucast (0x80 OR (c AND 0x3f))])"

definition RuneEncoder_Encode :: "Rune \<Rightarrow> bool \<times> bytes" where
  "RuneEncoder_Encode c =
    (if c \<le> 0x10ffff then (True, RuneEncoder_EncodeValid c)
     else (False, RuneEncoder_EncodeValid kInvalidRune))"

section \<open>The decoder\<close>

definition UnitLen :: "8 word \<Rightarrow> nat" where
  "UnitLen h =
    (if h AND 0b11111000 = 0b11110000 then 4
     else if h AND 0b11110000 = 0b11100000 then 3
     else if h AND 0b11100000 = 0b11000000 then 2
     else 1)"

definition checkTrail :: "nat \<Rightarrow> bytes \<Rightarrow> bool" where
  "checkTrail n d \<longleftrightarrow> d ! n AND 0b11000000 = 0b10000000"

fun checkTrailSeq :: "nat \<Rightarrow> bytes \<Rightarrow> bool" where
  "checkTrailSeq 0 d = True"
| "checkTrailSeq (Suc n) d = (if n = 0 then checkTrail (Suc n) d
     else checkTrail (Suc n) d \<and> checkTrailSeq n d)"

definition decode1 :: "bytes \<Rightarrow> ('e, Rune, bytes) outcome" where
  "decode1 d = thenM (invariantM (\<lambda>d. 1 \<le> length d)) (getM (\<lambda>d. ucast (d ! 0))) d"

definition decode2 :: "bool \<Rightarrow> bytes \<Rightarrow> ('e, Rune, bytes) outcome" where
  "decode2 check = thenM (invariantM (\<lambda>d. 2 \<le> length d)) (getM (\<lambda>d.
     if check \<and> \<not> checkTrailSeq 1 d then kInvalidRune
     else push_bit 6 (ucast (d ! 0) AND 0b00011111) OR
          (ucast (d ! 1) AND 0b00111111)))"

definition decode3 :: "bool \<Rightarrow> bytes \<Rightarrow> ('e, Rune, bytes) outcome" where
  "decode3 check = thenM (invariantM (\<lambda>d. 3 \<le> length d)) (getM (\<lambda>d.
     if check \<and> \<not> checkTrailSeq 2 d then kInvalidRune
     else push_bit 12 (ucast (d ! 0) AND 0b00001111) OR
          push_bit 6 (ucast (d ! 1) AND 0b00111111) OR
          (ucast (d ! 2) AND 0b00111111)))"

definition decode4 :: "bool \<Rightarrow> bytes \<Rightarrow> ('e, Rune, bytes) outcome" where
  "decode4 check = thenM (invariantM (\<lambda>d. 4 \<le> length d)) (getM (\<lambda>d.
     if check \<and> \<not> checkTrailSeq 3 d then kInvalidRune
     else push_bit 18 (ucast (d ! 0) AND 0b00000111) OR
          push_bit 12 (ucast (d ! 1) AND 0b00111111) OR
          push_bit 6 (ucast (d ! 2) AND 0b00111111) OR
          (ucast (d ! 3) AND 0b00111111)))"

definition RuneDecoder_advance :: "nat \<Rightarrow> bytes \<Rightarrow> ('e, unit, bytes) outcome" where
  "RuneDecoder_advance n = thenM (invariantM (\<lambda>d. n \<le> length d \<and> n \<le> 4)) (modM (drop n))"

definition decodeImpl :: "bool \<Rightarrow> nat \<Rightarrow> bytes \<Rightarrow> ('e, Rune, bytes) outcome" where
  "decodeImpl check n =
    (if n = 1 then decode1 else if n = 2 then decode2 check
     else if n = 3 then decode3 check else decode4 check)"

definition currentLen :: "bytes \<Rightarrow> nat" where
  "currentLen d = (if length d = 0 then 0 else UnitLen (d ! 0))"

text \<open>\<open>peek\<close> reads the first byte without a check.\<close>

definition RuneDecoder_peek :: "bool \<Rightarrow> bytes \<Rightarrow> ('e, Rune \<times> nat, bytes) outcome" where
  "RuneDecoder_peek checked d =
    (if d = [] then Fault Undefined
     else (let n = UnitLen (d ! 0) in
       if checked \<and> length d < n then Ret (kInvalidRune, length d) d
       else bindM (decodeImpl checked n) (\<lambda>c. retM (c, n)) d))"

definition decodeUnchecked :: "bytes \<Rightarrow> ('e, Rune, bytes) outcome" where
  "decodeUnchecked = bindM (RuneDecoder_peek False) (\<lambda>(out, n).
     thenM (RuneDecoder_advance n) (retM out))"

definition RuneDecoder_decode :: "bytes \<Rightarrow> ('e, Rune, bytes) outcome" where
  "RuneDecoder_decode d =
    (if length d = 0 then Ret kInvalidRune d
     else bindM (RuneDecoder_peek True) (\<lambda>(out, n) d.
       if length d < n then Ret out (drop (length d) d)
       else thenM (RuneDecoder_advance n)
         (retM (if out \<le> 0x10ffff then out else kInvalidRune)) d) d)"

text \<open>The iterator reads with \<open>kCheckRunes\<close> (off by default) and steps by \<open>currentLen\<close>.\<close>

definition RuneIterator_deref :: "bool \<Rightarrow> bytes \<Rightarrow> ('e, Rune, bytes) outcome" where
  "RuneIterator_deref check = bindM (RuneDecoder_peek check) (\<lambda>(c, n). retM c)"

definition RuneIterator_next :: "bytes \<Rightarrow> ('e, unit, bytes) outcome" where
  "RuneIterator_next d = RuneDecoder_advance (currentLen d) d"

section \<open>Whole strings\<close>

lemma UnitLen_bounds: "1 \<le> UnitLen h" "UnitLen h \<le> 4"
  by (simp_all add: UnitLen_def)

lemma advance_shorter:
  "RuneDecoder_advance n d = Ret u d' \<Longrightarrow> d' = drop n d"
  by (auto simp: RuneDecoder_advance_def shape_simps)

lemma decodeImpl_state: "decodeImpl check n d = Ret c d' \<Longrightarrow> d' = d"
  by (auto simp: decodeImpl_def decode1_def decode2_def decode3_def decode4_def shape_simps
      split: if_splits)

lemma peek_state:
  "RuneDecoder_peek check d = Ret (c, n) d' \<Longrightarrow> d' = d \<and> d \<noteq> [] \<and> 1 \<le> n"
  using UnitLen_bounds(1) [of "d ! 0"]
  by (auto simp: RuneDecoder_peek_def shape_simps Let_def Suc_le_eq dest: decodeImpl_state
      split: if_splits)

lemma decodeUnchecked_shorter:
  "decodeUnchecked d = Ret c d' \<Longrightarrow> length d' < length d"
  by (auto simp: decodeUnchecked_def shape_simps dest!: peek_state advance_shorter)

lemma decode_shorter:
  "RuneDecoder_decode d = Ret c d' \<Longrightarrow> d \<noteq> [] \<Longrightarrow> length d' < length d"
  by (auto simp: RuneDecoder_decode_def shape_simps split: if_splits dest!: peek_state advance_shorter)

function decodeRunes_loop :: "bytes \<Rightarrow> Rune list \<Rightarrow> bool \<Rightarrow> ('e, bool \<times> Rune list, bytes) outcome" where
  "decodeRunes_loop d runes res =
    (if d = [] then Ret (res, runes) d
     else (case RuneDecoder_decode d :: ('e, Rune, bytes) outcome of
        Ret c d' \<Rightarrow> decodeRunes_loop d' (runes @ [c]) (if c = kInvalidRune then False else res)
      | Err e d' \<Rightarrow> Err e d' | Fault f \<Rightarrow> Fault f))"
  by pat_completeness auto
termination by (relation "measure (\<lambda>(d, _, _). length d)") (auto simp: decode_shorter)

definition decodeRunes :: "bytes \<Rightarrow> Rune list \<Rightarrow> ('e, bool \<times> Rune list, bytes) outcome" where
  "decodeRunes d runes = decodeRunes_loop d runes True"

function decodeRunesUnchecked :: "bytes \<Rightarrow> Rune list \<Rightarrow> ('e, bool \<times> Rune list, bytes) outcome" where
  "decodeRunesUnchecked d runes =
    (if d = [] then Ret (True, runes) d
     else (case decodeUnchecked d :: ('e, Rune, bytes) outcome of
        Ret c d' \<Rightarrow> decodeRunesUnchecked d' (runes @ [c])
      | Err e d' \<Rightarrow> Err e d' | Fault f \<Rightarrow> Fault f))"
  by pat_completeness auto
termination by (relation "measure (\<lambda>(d, _). length d)") (auto simp: decodeUnchecked_shorter)

declare decodeRunes_loop.simps [simp del] decodeRunesUnchecked.simps [simp del]

definition is_surrogate :: "Rune \<Rightarrow> bool" where
  "is_surrogate c \<longleftrightarrow> 0xD800 \<le> c \<and> c \<le> 0xDFFF"

fun encodeRunes_loop :: "Rune list \<Rightarrow> bytes \<Rightarrow> bool \<Rightarrow> bool \<times> bytes" where
  "encodeRunes_loop [] chars res = (res, chars)"
| "encodeRunes_loop (c # cs) chars res =
    (let (c, res) = (if is_surrogate c then (kInvalidRune, False) else (c, res));
         (ok, buf) = RuneEncoder_Encode c;
         res = (if \<not> ok then False else res)
     in encodeRunes_loop cs (chars @ buf) res)"

definition encodeRunes :: "Rune list \<Rightarrow> bytes \<Rightarrow> bool \<times> bytes" where
  "encodeRunes runes chars = encodeRunes_loop runes chars True"

fun encodeRunesUnchecked :: "Rune list \<Rightarrow> bytes \<Rightarrow> bool \<times> bytes" where
  "encodeRunesUnchecked [] chars = (True, chars)"
| "encodeRunesUnchecked (c # cs) chars = encodeRunesUnchecked cs (chars @ snd (RuneEncoder_Encode c))"

section \<open>Decoding what the encoder wrote\<close>

lemma UnitLen_bits:
  "UnitLen h = (if bit h 7 \<and> bit h 6 \<and> bit h 5 \<and> bit h 4 \<and> \<not> bit h 3 then 4
     else if bit h 7 \<and> bit h 6 \<and> bit h 5 \<and> \<not> bit h 4 then 3
     else if bit h 7 \<and> bit h 6 \<and> \<not> bit h 5 then 2 else 1)"
  by (simp add: UnitLen_def word8_eq_iff bit_simps)

lemma checkTrail_bits: "checkTrail n d \<longleftrightarrow> bit (d ! n) 7 \<and> \<not> bit (d ! n) 6"
  by (auto simp: checkTrail_def word8_eq_iff bit_simps)

lemma checkTrailSeq_small:
  "checkTrailSeq 1 d = checkTrail 1 d"
  "checkTrailSeq 2 d = (checkTrail 2 d \<and> checkTrail 1 d)"
  "checkTrailSeq 3 d = (checkTrail 3 d \<and> checkTrail 2 d \<and> checkTrail 1 d)"
  by (simp_all add: numeral_2_eq_2 numeral_3_eq_3)

lemma rune_bits4: 
  assumes "unat (c :: Rune) < 2 ^ 21"
  shows "push_bit 18 (ucast (ucast (0xf0 OR drop_bit 18 c) :: 8 word) AND 0b00000111) OR
          push_bit 12 (ucast (ucast (0x80 OR (drop_bit 12 c AND 0x3f)) :: 8 word) AND 0b00111111) OR
          push_bit 6 (ucast (ucast (0x80 OR (drop_bit 6 c AND 0x3f)) :: 8 word) AND 0b00111111) OR
          (ucast (ucast (0x80 OR (c AND 0x3f)) :: 8 word) AND 0b00111111) = c"
  using high_bits_zero [OF assms] by (intro word32_eqI, unfold upt_32) (simp add: bit_simps)

lemma rune_bits3: 
  assumes "unat (c :: Rune) < 2 ^ 16"
  shows "push_bit 12 (ucast (ucast (0xe0 OR drop_bit 12 c) :: 8 word) AND 0b00001111) OR
          push_bit 6 (ucast (ucast (0x80 OR (drop_bit 6 c AND 0x3f)) :: 8 word) AND 0b00111111) OR
          (ucast (ucast (0x80 OR (c AND 0x3f)) :: 8 word) AND 0b00111111) = c"
  using high_bits_zero [OF assms] by (intro word32_eqI, unfold upt_32) (simp add: bit_simps)

lemma rune_bits2: 
  assumes "unat (c :: Rune) < 2 ^ 11"
  shows "push_bit 6 (ucast (ucast (0xc0 OR drop_bit 6 c) :: 8 word) AND 0b00011111) OR
          (ucast (ucast (0x80 OR (c AND 0x3f)) :: 8 word) AND 0b00111111) = c"
  using high_bits_zero [OF assms] by (intro word32_eqI, unfold upt_32) (simp add: bit_simps)

lemma rune_bits1: 
  assumes "unat (c :: Rune) < 2 ^ 7"
  shows "ucast (ucast c :: 8 word) = c"
  using high_bits_zero [OF assms] by (intro word32_eqI, unfold upt_32) (simp add: bit_simps)

lemma trail_byte_bits:
  "bit (ucast (0x80 OR (c AND 0x3f) :: Rune) :: 8 word) 7"
  "\<not> bit (ucast (0x80 OR (c AND 0x3f) :: Rune) :: 8 word) 6"
  by (simp_all add: bit_simps)

lemma UnitLen_heads:
  "unat c < 2 ^ 7 \<Longrightarrow> UnitLen (ucast (c :: Rune)) = 1"
  "unat c < 2 ^ 11 \<Longrightarrow> UnitLen (ucast (0xc0 OR drop_bit 6 c :: Rune)) = 2"
  "unat c < 2 ^ 16 \<Longrightarrow> UnitLen (ucast (0xe0 OR drop_bit 12 c :: Rune)) = 3"
  "unat c < 2 ^ 21 \<Longrightarrow> UnitLen (ucast (0xf0 OR drop_bit 18 c :: Rune)) = 4"
  using high_bits_zero [of c 7] high_bits_zero [of c 11] high_bits_zero [of c 16] high_bits_zero [of c 21]
  by (simp_all add: UnitLen_bits bit_simps)

lemma decode_EncodeValid:
  assumes "c \<le> 0x10ffff"
  shows "RuneDecoder_decode (RuneEncoder_EncodeValid c @ rest) = Ret c rest"
proof -
  note defs = RuneDecoder_decode_def RuneDecoder_peek_def decodeImpl_def
    decode1_def decode2_def decode3_def decode4_def RuneDecoder_advance_def checkTrailSeq_small checkTrail_bits
    trail_byte_bits UnitLen_heads
  have n: "unat c \<le> 0x10ffff" using assms by (simp add: word_le_nat_alt)
  consider "c \<le> 0x7f" | "\<not> c \<le> 0x7f" "c \<le> 0x7ff" | "\<not> c \<le> 0x7f" "\<not> c \<le> 0x7ff" "c \<le> 0xffff"
    | "\<not> c \<le> 0x7f" "\<not> c \<le> 0x7ff" "\<not> c \<le> 0xffff" by blast
  then show ?thesis
  proof cases
    case 1
    then have m: "unat c < 2 ^ 7" by (simp add: word_le_nat_alt)
    show ?thesis using 1 m assms by (simp add: RuneEncoder_EncodeValid_def defs rune_bits1 [OF m])
  next
    case 2
    then have m: "unat c < 2 ^ 11" by (simp add: word_le_nat_alt)
    show ?thesis using 2 m assms by (simp add: RuneEncoder_EncodeValid_def defs rune_bits2 [OF m, simplified])
  next
    case 3
    then have m: "unat c < 2 ^ 16" by (simp add: word_le_nat_alt)
    show ?thesis using 3 m assms by (simp add: RuneEncoder_EncodeValid_def defs rune_bits3 [OF m, simplified])
  next
    case 4
    then have m: "unat c < 2 ^ 21" using n by simp
    show ?thesis using 4 m assms by (simp add: RuneEncoder_EncodeValid_def defs rune_bits4 [OF m, simplified])
  qed
qed

section \<open>The decoder is total and safe\<close>

lemma decodeImpl_total:
  assumes "UnitLen (d ! 0) \<le> length d" "d \<noteq> []"
  shows "\<exists>c. decodeImpl True (UnitLen (d ! 0)) d = Ret c d"
  using assms UnitLen_bounds [of "d ! 0"]
  by (auto simp: decodeImpl_def decode1_def decode2_def decode3_def decode4_def Suc_le_eq)

lemma decode_total:
  assumes "d \<noteq> []"
  shows "\<exists>c n. (RuneDecoder_decode d :: ('e, Rune, bytes) outcome) = Ret c (drop (Suc n) d)
    \<and> c \<le> 0x10ffff"
proof (cases "length d < UnitLen (d ! 0)")
  case True
  then have "length d \<le> 4" using UnitLen_bounds(2) [of "d ! 0"] by linarith
  moreover obtain n where "length d = Suc n" using assms by (cases d) auto
  ultimately have "(RuneDecoder_decode d :: ('e, Rune, bytes) outcome) = Ret kInvalidRune (drop (Suc n) d)"
    using True assms
    by (simp add: RuneDecoder_decode_def RuneDecoder_peek_def RuneDecoder_advance_def kInvalidRune_def)
  then show ?thesis by (auto simp: kInvalidRune_def)
next
  case False
  then obtain c where "(decodeImpl True (UnitLen (d ! 0)) d :: ('e, Rune, bytes) outcome) = Ret c d"
    using decodeImpl_total assms by force
  then have "(RuneDecoder_decode d :: ('e, Rune, bytes) outcome)
      = Ret (if c \<le> 0x10ffff then c else kInvalidRune) (drop (UnitLen (d ! 0)) d)"
    using False assms UnitLen_bounds(2) [of "d ! 0"]
    by (simp add: RuneDecoder_decode_def RuneDecoder_peek_def RuneDecoder_advance_def)
  moreover obtain n where "UnitLen (d ! 0) = Suc n" using UnitLen_bounds(1) [of "d ! 0"] by (cases "UnitLen (d ! 0)") auto
  ultimately show ?thesis by (auto simp: kInvalidRune_def)
qed

lemma decodeRunes_loop_total:
  "\<exists>rs. (decodeRunes_loop d runes res :: ('e, bool \<times> Rune list, bytes) outcome)
      = Ret (res \<and> kInvalidRune \<notin> set rs, runes @ rs) []
    \<and> length rs \<le> length d \<and> (\<forall>c\<in>set rs. c \<le> 0x10ffff)"
proof (induction "length d" arbitrary: d runes res rule: less_induct)
  case less
  show ?case
  proof (cases "d = []")
    case True
    then show ?thesis by (intro exI [of _ "[]"]) (simp add: decodeRunes_loop.simps)
  next
    case False
    then obtain c n where r: "(RuneDecoder_decode d :: ('e, Rune, bytes) outcome) = Ret c (drop (Suc n) d)"
      and c: "c \<le> 0x10ffff" using decode_total by blast
    have l: "length (drop (Suc n) d) < length d" using False by simp
    obtain rs where rs: "(decodeRunes_loop (drop (Suc n) d) (runes @ [c])
          (if c = kInvalidRune then False else res) :: ('e, bool \<times> Rune list, bytes) outcome)
        = Ret ((if c = kInvalidRune then False else res) \<and> kInvalidRune \<notin> set rs, (runes @ [c]) @ rs) []"
      "length rs \<le> length (drop (Suc n) d)" "\<forall>c\<in>set rs. c \<le> 0x10ffff"
      using less [OF l] by blast
    have "(decodeRunes_loop d runes res :: ('e, bool \<times> Rune list, bytes) outcome)
        = Ret (res \<and> kInvalidRune \<notin> set (c # rs), runes @ c # rs) []"
      using False r rs(1) by (subst decodeRunes_loop.simps) auto
    moreover have "length (c # rs) \<le> length d" using rs(2) l by simp
    ultimately show ?thesis using rs(3) c by (intro exI [of _ "c # rs"]) simp
  qed
qed

text \<open>Property C16. Checked decoding of any byte string ends normally, whatever the bytes: no
  invariant of the decoder fails, every rune is at most U+10FFFF, there are at most as many
  runes as bytes, and the flag tells whether a replacement rune was produced.\<close>

theorem decodeRunes_total:
  "\<exists>rs. (decodeRunes d runes :: ('e, bool \<times> Rune list, bytes) outcome)
      = Ret (kInvalidRune \<notin> set rs, runes @ rs) []
    \<and> length rs \<le> length d \<and> list_all (\<lambda>c. c \<le> 0x10ffff) rs"
  using decodeRunes_loop_total [of d runes True] by (auto simp: decodeRunes_def list_all_iff)

section \<open>Round trip\<close>

definition valid_rune :: "Rune \<Rightarrow> bool" where
  "valid_rune c \<longleftrightarrow> c \<le> 0x10ffff \<and> \<not> is_surrogate c"

lemma encodeRunes_loop_valid:
  "list_all valid_rune rs \<Longrightarrow>
    encodeRunes_loop rs chars res = (res, chars @ concat (map RuneEncoder_EncodeValid rs))"
  by (induction rs arbitrary: chars) (simp_all add: valid_rune_def RuneEncoder_Encode_def)

lemma EncodeValid_nonempty: "RuneEncoder_EncodeValid c \<noteq> []"
  by (simp add: RuneEncoder_EncodeValid_def)

lemma decodeRunes_loop_concat:
  "list_all valid_rune rs \<Longrightarrow>
    decodeRunes_loop (concat (map RuneEncoder_EncodeValid rs)) runes res
      = Ret (res \<and> kInvalidRune \<notin> set rs, runes @ rs) []"
proof (induction rs arbitrary: runes res)
  case Nil
  then show ?case by (simp add: decodeRunes_loop.simps)
next
  case (Cons c cs)
  then show ?case
    by (subst decodeRunes_loop.simps)
      (simp add: EncodeValid_nonempty decode_EncodeValid valid_rune_def)
qed

text \<open>Property C17. Encoding any string of valid runes (no surrogates, at most U+10FFFF) succeeds and
  decoding the bytes gives the string back.\<close>

theorem runes_roundtrip:
  assumes "list_all valid_rune rs"
  shows "fst (encodeRunes rs []) \<and>
    decodeRunes (snd (encodeRunes rs [])) [] = Ret (kInvalidRune \<notin> set rs, rs) []"
  by (simp add: encodeRunes_def decodeRunes_def encodeRunes_loop_valid [OF assms]
      decodeRunes_loop_concat [OF assms])

theorem runes_roundtrip_witness:
  "fst (encodeRunes [0x24, 0x20AC, 0x1F600] []) \<and>
    decodeRunes (snd (encodeRunes [0x24, 0x20AC, 0x1F600] [])) []
      = (Ret (True, [0x24, 0x20AC, 0x1F600]) [] :: (unit, bool \<times> Rune list, bytes) outcome)"
  using runes_roundtrip [of "[0x24, 0x20AC, 0x1F600]", where 'a = unit]
  by (simp add: valid_rune_def is_surrogate_def kInvalidRune_def)

text \<open>The iterator is not as careful: on a string that ends inside a multi-byte sequence
  its step violates the invariant of \<open>advance\<close>.\<close>

theorem iterator_truncated:
  assumes "d \<noteq> []" "length d < UnitLen (d ! 0)"
  shows "RuneIterator_next d = Fault InvariantFail"
  using assms by (simp add: RuneIterator_next_def RuneDecoder_advance_def currentLen_def)

theorem iterator_truncated_witness:
  "RuneIterator_next [0xE2, 0x82] = (Fault InvariantFail :: (unit, unit, bytes) outcome)"
  using iterator_truncated [of "[0xE2, 0x82]", where 'a = unit] by (simp add: UnitLen_def)

end
