(* ===== verification/Octets.thy ===== *)
theory Octets
  imports StreamBase Runes
begin

text \<open>
  The variable-length values both readers decode from single octets
  (\<open>readNByteUInt\<close>, \<open>decodeString\<close> and \<open>readString\<close> in
  \<open>exi/Stream/OrderedReader.hpp\<close>; the bodies in \<open>BitReader\<close> and \<open>ByteReader\<close> are the same
  text over their own \<open>readNBits<8>\<close>, so the operations take that read as an argument). The
  locale \<open>octet_source\<close> states what they need of it, and their correctness is proved once.
\<close>

section \<open>Unsigned integers and strings\<close>

text \<open>At most \<open>n\<close> more octets, the next one shifted by \<open>m\<close>.\<close>

primrec readNByteUInt_loop :: "('s \<Rightarrow> (64 word, 's) exi) \<Rightarrow> nat \<Rightarrow> nat \<Rightarrow> 64 word \<Rightarrow> 's \<Rightarrow> (64 word, 's) exi" where
  "readNByteUInt_loop read8 0 m v = errM (ExiError_New kInvalidEXIInput)"
| "readNByteUInt_loop read8 (Suc n) m v = bindM read8 (\<lambda>octet.
     definedM (shl64 m (octet AND 0b01111111)) (\<lambda>lo.
       if octet AND 0b10000000 \<noteq> 0 then readNByteUInt_loop read8 n (m + 7) (v + lo)
       else retM (v + lo)))"

definition readNByteUInt :: "('s \<Rightarrow> (64 word, 's) exi) \<Rightarrow> nat \<Rightarrow> 's \<Rightarrow> (64 word, 's) exi" where
  "readNByteUInt read8 n = readNByteUInt_loop read8 n 0 0"

definition UnicodeReads :: nat where "UnicodeReads = 3"

text \<open>The runes are appended to the caller's buffer; the result is the buffer's contents.\<close>

primrec readString_loop :: "('s \<Rightarrow> (64 word, 's) exi) \<Rightarrow> nat \<Rightarrow> bytes \<Rightarrow> 's \<Rightarrow> (bytes, 's) exi" where
  "readString_loop read8 0 dat = retM dat"
| "readString_loop read8 (Suc n) dat = bindM (readNByteUInt read8 UnicodeReads) (\<lambda>rune.
     readString_loop read8 n (dat @ snd (RuneEncoder_Encode (ucast rune))))"

definition readString :: "('s \<Rightarrow> (64 word, 's) exi) \<Rightarrow> 64 word \<Rightarrow> 's \<Rightarrow> (bytes, 's) exi" where
  "readString read8 sz = readString_loop read8 (unat sz) []"

definition decodeString :: "('s \<Rightarrow> (64 word, 's) exi) \<Rightarrow> 's \<Rightarrow> (bytes, 's) exi" where
  "decodeString read8 = bindM (readNByteUInt read8 8) (readString read8)"

section \<open>The encodings they read\<close>

text \<open>An unsigned integer of the EXI format: seven bits per octet, least significant first, the
  top bit set on every octet but the last.\<close>

fun enc_uint :: "nat \<Rightarrow> bytes" where
  "enc_uint v = (if v < 128 then [of_nat v] else of_nat (128 + v mod 128) # enc_uint (v div 128))"

declare enc_uint.simps [simp del]

lemma enc_uint_small: "v < 128 \<Longrightarrow> enc_uint v = [of_nat v]"
  and enc_uint_big: "128 \<le> v \<Longrightarrow> enc_uint v = of_nat (128 + v mod 128) # enc_uint (v div 128)"
  by (simp_all add: enc_uint.simps [of v])

lemma enc_uint_nonempty: "enc_uint v \<noteq> []"
  by (cases "v < 128") (simp_all add: enc_uint_small enc_uint_big)

definition enc_string :: "Rune list \<Rightarrow> bytes" where
  "enc_string rs = enc_uint (length rs) @ concat (map (enc_uint \<circ> unat) rs)"

lemma octet_low: "(ucast (w :: 8 word) :: 64 word) AND 0b01111111 = of_nat (unat w mod 128)"
proof -
  have "(ucast w :: 64 word) AND 0b01111111 = take_bit 7 (ucast w)"
    by (simp add: take_bit_eq_mask mask_eq_exp_minus_1)
  also have "\<dots> = of_nat (take_bit 7 (unat w))"
    by (rule bit_word_eqI) (auto simp: bit_simps)
  finally show ?thesis by (simp add: take_bit_eq_mod)
qed

lemma octet_high: "(ucast (w :: 8 word) :: 64 word) AND 0b10000000 \<noteq> 0 \<longleftrightarrow> 128 \<le> unat w"
proof -
  have "(ucast w :: 64 word) AND 0b10000000 \<noteq> 0 \<longleftrightarrow> bit (ucast w :: 64 word) 7"
    using and_exp_eq_0_iff_not_bit [of "ucast w :: 64 word" 7] by simp
  also have "\<dots> \<longleftrightarrow> bit (unat w) 7" by (simp add: bit_simps)
  also have "\<dots> \<longleftrightarrow> 128 \<le> unat w"
  proof -
    have "unat w < 256" using unsigned_less [of w] by simp
    then have "unat w div 128 = 0 \<or> unat w div 128 = 1" by linarith
    then show ?thesis by (auto simp: bit_iff_odd)
  qed
  finally show ?thesis .
qed

lemma unat_of_nat_small: "n < 256 \<Longrightarrow> unat (of_nat n :: 8 word) = n"
  by (simp only: unsigned_of_nat) (simp add: take_bit_nat_eq_self)

lemma readNByteUInt_loop_step:
  assumes "read8 s = Ret (ucast (w :: 8 word)) s'" "m < 64"
  shows "readNByteUInt_loop read8 (Suc n) m a s =
    (if 128 \<le> unat w then readNByteUInt_loop read8 n (m + 7) (a + of_nat (unat w mod 128 * 2 ^ m)) s'
     else Ret (a + of_nat (unat w mod 128 * 2 ^ m)) s')"
proof -
  have p: "push_bit m (of_nat (unat w mod 128) :: 64 word) = of_nat (unat w mod 128 * 2 ^ m)"
    by (simp only: push_bit_eq_mult of_nat_mult of_nat_power of_nat_numeral)
  show ?thesis
    unfolding readNByteUInt_loop.simps bindM_run(1) [of read8 s, OF assms(1)] octet_low octet_high
      shl64_lt [OF assms(2)] definedM_simps p by simp
qed

section \<open>A source of octets\<close>

text \<open>
  \<open>at s p\<close> says that the reader \<open>s\<close> stands at bit \<open>p\<close> of a stream of \<open>lim\<close> bits whose octet
  from bit \<open>p\<close> on is \<open>oct p\<close>. The law: while eight bits are left, reading eight bits yields that
  octet and moves the reader eight bits on.
\<close>

locale octet_source =
  fixes read8 :: "'s \<Rightarrow> (64 word, 's) exi"
    and at :: "'s \<Rightarrow> nat \<Rightarrow> bool"
    and oct :: "nat \<Rightarrow> 8 word"
    and lim :: nat
  assumes read8_at: "at s p \<Longrightarrow> p + 8 \<le> lim \<Longrightarrow> \<exists>s'. read8 s = Ret (ucast (oct p)) s' \<and> at s' (p + 8)"
begin

text \<open>The octets from bit \<open>p\<close> on spell the list.\<close>

definition spells :: "nat \<Rightarrow> bytes \<Rightarrow> bool" where
  "spells p ys \<longleftrightarrow> p + 8 * length ys \<le> lim \<and> (\<forall>i < length ys. oct (p + 8 * i) = ys ! i)"

lemma spells_Cons: "spells p (y # ys) \<longleftrightarrow> p + 8 \<le> lim \<and> oct p = y \<and> spells (p + 8) ys"
  by (auto simp: spells_def All_less_Suc2 algebra_simps)

lemma spells_append: "spells p (xs @ ys) \<longleftrightarrow> spells p xs \<and> spells (p + 8 * length xs) ys"
  if "p + 8 * length xs \<le> lim"
  using that
proof (induction xs arbitrary: p)
  case Nil
  then show ?case by (auto simp: spells_def)
next
  case (Cons x xs)
  from Cons.prems have "p + 8 + 8 * length xs \<le> lim" by simp
  from Cons.IH [OF this] show ?case by (simp add: spells_Cons algebra_simps)
qed

lemma readNByteUInt_loop_ok:
  assumes "at s p" "spells p (enc_uint v)" "v < 128 ^ n" "n \<noteq> 0" "m + 7 * n \<le> 70"
  shows "\<exists>s'. readNByteUInt_loop read8 n m a s = Ret (a + of_nat (v * 2 ^ m)) s'
    \<and> at s' (p + 8 * length (enc_uint v))"
  using assms
proof (induction n arbitrary: s p v m a)
  case 0
  then show ?case by simp
next
  case (Suc n)
  have m: "m < 64" using Suc.prems(5) by simp
  show ?case
  proof (cases "v < 128")
    case True
    then have e: "enc_uint v = [of_nat v]" by (rule enc_uint_small)
    then obtain s' where s': "read8 s = Ret (ucast (oct p)) s'" "at s' (p + 8)" and o: "oct p = of_nat v"
      using Suc.prems read8_at by (force simp: spells_Cons)
    have u: "unat (of_nat v :: 8 word) = v" using True by (simp add: unat_of_nat)
    have "readNByteUInt_loop read8 (Suc n) m a s = Ret (a + of_nat (v * 2 ^ m)) s'"
      using readNByteUInt_loop_step [of read8 s, OF s'(1) m] o u True by simp
    then show ?thesis using s'(2) e by simp
  next
    case False
    then have e: "enc_uint v = of_nat (128 + v mod 128) # enc_uint (v div 128)"
      by (simp add: enc_uint_big)
    then obtain s' where s': "read8 s = Ret (ucast (oct p)) s'" "at s' (p + 8)"
      and o: "oct p = of_nat (128 + v mod 128)" and sp: "spells (p + 8) (enc_uint (v div 128))"
      using Suc.prems read8_at by (force simp: spells_Cons)
    have u: "unat (of_nat (128 + v mod 128) :: 8 word) = 128 + v mod 128"
      by (rule unat_of_nat_small) simp
    have n0: "n \<noteq> 0" using Suc.prems False by (cases n) auto
    have step: "readNByteUInt_loop read8 (Suc n) m a s
        = readNByteUInt_loop read8 n (m + 7) (a + of_nat (v mod 128 * 2 ^ m)) s'"
      using readNByteUInt_loop_step [of read8 s, OF s'(1) m] o u by simp
    have "v div 128 < 128 ^ n" using Suc.prems(3) by (simp add: less_mult_imp_div_less mult.commute)
    moreover have "m + 7 + 7 * n \<le> 70" using Suc.prems(5) by simp
    ultimately obtain s2 where s2: "readNByteUInt_loop read8 n (m + 7) (a + of_nat (v mod 128 * 2 ^ m)) s'
        = Ret (a + of_nat (v mod 128 * 2 ^ m) + of_nat (v div 128 * 2 ^ (m + 7))) s2"
      "at s2 (p + 8 + 8 * length (enc_uint (v div 128)))"
      using Suc.IH [OF s'(2) sp _ n0] by blast
    have "v * 2 ^ m = v mod 128 * 2 ^ m + v div 128 * 2 ^ (m + 7)"
    proof -
      have "v div 128 * 2 ^ (m + 7) = v div 128 * 128 * 2 ^ m" by (simp add: power_add)
      then have "v mod 128 * 2 ^ m + v div 128 * 2 ^ (m + 7) = (v mod 128 + v div 128 * 128) * 2 ^ m"
        by (simp only: add_mult_distrib)
      then show ?thesis by (simp only: mod_mult_div_eq mod_div_mult_eq)
    qed
    then have "a + of_nat (v mod 128 * 2 ^ m) + of_nat (v div 128 * 2 ^ (m + 7))
        = a + (of_nat (v * 2 ^ m) :: 64 word)"
      by (simp only: of_nat_add add.assoc)
    then show ?thesis using step s2 e by (simp add: algebra_simps)
  qed
qed

lemma readNByteUInt_ok:
  assumes "at s p" "spells p (enc_uint v)" "v < 128 ^ n" "n \<noteq> 0" "n \<le> 8"
  shows "\<exists>s'. readNByteUInt read8 n s = Ret (of_nat v) s' \<and> at s' (p + 8 * length (enc_uint v))"
  using readNByteUInt_loop_ok [OF assms(1-4), of 0 0] assms(5) by (simp add: readNByteUInt_def)

text \<open>Too many octets with the top bit set are refused.\<close>

lemma readNByteUInt_loop_overlong:
  assumes "at s p" "spells p ys" "length ys = n" "\<forall>y\<in>set ys. 128 \<le> unat y" "m + 7 * n \<le> 70"
  shows "\<exists>s'. readNByteUInt_loop read8 n m a s = Err (ExiError_New kInvalidEXIInput) s' \<and> at s' (p + 8 * n)"
  using assms
proof (induction n arbitrary: s p ys m a)
  case 0
  then show ?case by simp
next
  case (Suc n)
  then obtain y ys' where ys: "ys = y # ys'" by (cases ys) auto
  then obtain s' where s': "read8 s = Ret (ucast y) s'" "at s' (p + 8)"
    using Suc.prems read8_at by (force simp: spells_Cons)
  have y: "128 \<le> unat y" and m: "m < 64" using Suc.prems(4,5) ys by simp_all
  have "\<exists>s2. readNByteUInt_loop read8 n (m + 7) (a + of_nat (unat y mod 128 * 2 ^ m)) s'
      = Err (ExiError_New kInvalidEXIInput) s2 \<and> at s2 (p + 8 + 8 * n)"
    using Suc.IH [OF s'(2), of ys' "m + 7"] Suc.prems ys by (simp add: spells_Cons)
  then show ?case using readNByteUInt_loop_step [of read8 s, OF s'(1) m] y by (auto simp: algebra_simps)
qed

lemma readString_loop_ok:
  assumes "at s p" "spells p (concat (map (enc_uint \<circ> unat) rs))" "list_all (\<lambda>c. c \<le> 0x10ffff) rs"
  shows "\<exists>s'. readString_loop read8 (length rs) dat s = Ret (dat @ concat (map RuneEncoder_EncodeValid rs)) s'
    \<and> at s' (p + 8 * length (concat (map (enc_uint \<circ> unat) rs)))"
  using assms
proof (induction rs arbitrary: s p dat)
  case Nil
  then show ?case by simp
next
  case (Cons c cs)
  have c: "unat c \<le> 0x10ffff" "c \<le> 0x10ffff" using Cons.prems(3) by (simp_all add: word_le_nat_alt)
  have "p + 8 * length (enc_uint (unat c)) \<le> lim" using Cons.prems(2) by (simp add: spells_def)
  with Cons.prems(2) have sp: "spells p (enc_uint (unat c))"
    "spells (p + 8 * length (enc_uint (unat c))) (concat (map (enc_uint \<circ> unat) cs))"
    by (simp_all add: spells_append comp_def)
  obtain s' where s': "readNByteUInt read8 UnicodeReads s = Ret (of_nat (unat c)) s'"
      "at s' (p + 8 * length (enc_uint (unat c)))"
    using readNByteUInt_ok [OF Cons.prems(1) sp(1), of 3] c(1) by (auto simp: UnicodeReads_def)
  have uc: "(ucast (of_nat (unat c) :: 64 word) :: Rune) = c"
    by (rule bit_word_eqI) (auto simp: bit_simps)
  obtain s2 where "readString_loop read8 (length cs) (dat @ RuneEncoder_EncodeValid c) s'
      = Ret ((dat @ RuneEncoder_EncodeValid c) @ concat (map RuneEncoder_EncodeValid cs)) s2"
    "at s2 (p + 8 * length (enc_uint (unat c)) + 8 * length (concat (map (enc_uint \<circ> unat) cs)))"
    using Cons.IH [OF s'(2) sp(2), of "dat @ RuneEncoder_EncodeValid c"] Cons.prems(3) by (auto simp: comp_def)
  then show ?case using s'(1) uc c(2) by (simp add: RuneEncoder_Encode_def algebra_simps comp_def)
qed

lemma decodeString_ok:
  assumes "at s p" "spells p (enc_string rs)" "list_all (\<lambda>c. c \<le> 0x10ffff) rs" "length rs < 128 ^ 8"
  shows "\<exists>s'. decodeString read8 s = Ret (concat (map RuneEncoder_EncodeValid rs)) s'
    \<and> at s' (p + 8 * length (enc_string rs))"
proof -
  have "p + 8 * length (enc_uint (length rs)) \<le> lim"
    using assms(2) by (simp add: spells_def enc_string_def)
  with assms(2) have sp: "spells p (enc_uint (length rs))"
    "spells (p + 8 * length (enc_uint (length rs))) (concat (map (enc_uint \<circ> unat) rs))"
    by (simp_all add: enc_string_def spells_append)
  obtain s' where s': "readNByteUInt read8 8 s = Ret (of_nat (length rs)) s'"
      "at s' (p + 8 * length (enc_uint (length rs)))"
    using readNByteUInt_ok [OF assms(1) sp(1) assms(4)] by auto
  have "unat (of_nat (length rs) :: 64 word) = length rs"
    using assms(4) by (simp add: unat_of_nat)
  then show ?thesis
    using readString_loop_ok [OF s'(2) sp(2) assms(3), of "[]"] s'(1)
    by (auto simp: decodeString_def readString_def enc_string_def algebra_simps)
qed

end

end
