(* ===== verification/BitReader.thy ===== *)
theory BitReader
  imports Octets
begin

text \<open>
  \<open>BitReader\<close> (\<open>exi/Stream/OrderedReader.hpp\<close>): bit-packed reading through a 64-bit store whose
  top bits are the next bits of the stream. The refinement relation \<open>br_at\<close> ties a reader to a
  position of the bit sequence, and the reads are proved to return the bits from there on. It
  also says where the byte offset ends up once the stream is used up, which decides what a
  read past the end does.
\<close>

record BitReader = OrderedReader +
  BitsInStore :: nat

definition BitReader_new :: "bytes \<Rightarrow> BitReader" where
  "BitReader_new buf = \<lparr>Stream = buf, ByteOffset = 0, Store = 0, BitsInStore = 0\<rparr>"

definition BitReader_fillStore :: "BitReader \<Rightarrow> (unit, BitReader) exi" where
  "BitReader_fillStore = bindM fillStoreImpl (\<lambda>n.
     modM (\<lambda>r. r\<lparr>Store := byteswap64 (Store r), BitsInStore := n * 8\<rparr>))"

definition BitReader_readBit :: "BitReader \<Rightarrow> (bool, BitReader) exi" where
  "BitReader_readBit =
    thenM (\<lambda>r. if BitsInStore r = 0 then BitReader_fillStore r else Ret () r)
      (\<lambda>r. Ret (drop_bit (kBitsPerWord - 1) (Store r) \<noteq> 0)
         (r\<lparr>Store := push_bit 1 (Store r), BitsInStore := usub (BitsInStore r) 1\<rparr>))"

definition BitReader_readImpl :: "nat \<Rightarrow> BitReader \<Rightarrow> 64 word option" where
  "BitReader_readImpl bits r = shr64 (usub kBitsPerWord bits) (Store r)"

definition BitReader_readFullBits64V :: "nat \<Rightarrow> BitReader \<Rightarrow> (64 word, BitReader) exi" where
  "BitReader_readFullBits64V bits r =
    definedM (BitReader_readImpl bits r) (\<lambda>out.
      definedM (shl64 bits (Store r)) (\<lambda>st r.
        Ret out (r\<lparr>Store := st, BitsInStore := usub (BitsInStore r) bits\<rparr>))) r"

definition BitReader_readPartialBits64 :: "nat \<Rightarrow> BitReader \<Rightarrow> (64 word, BitReader) exi" where
  "BitReader_readPartialBits64 bits =
    thenM (invariantM (\<lambda>r. BitsInStore r < bits)) (\<lambda>r.
      (let head = bits - BitsInStore r in
       definedM (if BitsInStore r \<noteq> 0 then BitReader_readImpl (BitsInStore r) r else Some 0) (\<lambda>out.
         thenM BitReader_fillStore (\<lambda>r.
           if BitsInStore r < head then Err ExiError_OOB r
           else bindM (BitReader_readFullBits64V head) (\<lambda>t.
             definedM (shl64 head out) (\<lambda>o'. retM (o' OR t))) r)) r))"

definition BitReader_readBits64 :: "nat \<Rightarrow> BitReader \<Rightarrow> (64 word, BitReader) exi" where
  "BitReader_readBits64 bits =
    thenM (invariantM (\<lambda>_. bits \<le> kBitsPerWord)) (\<lambda>r.
      if bits = 0 then Ret 0 r
      else if bits \<le> BitsInStore r then BitReader_readFullBits64V bits r
      else BitReader_readPartialBits64 bits r)"

text \<open>The fixed-width read \<open>readNBits<Bits, u64>\<close>, and \<open>readByte\<close>, which casts it to \<open>u8\<close>.\<close>

definition BitReader_readNBits :: "nat \<Rightarrow> BitReader \<Rightarrow> (64 word, BitReader) exi" where
  "BitReader_readNBits bits r =
    (if bits = 0 then Ret 0 r
     else if bits \<le> BitsInStore r then BitReader_readFullBits64V bits r
     else BitReader_readPartialBits64 bits r)"

definition BitReader_readByte :: "BitReader \<Rightarrow> (8 word, BitReader) exi" where
  "BitReader_readByte = bindM (BitReader_readNBits 8) (\<lambda>out.
     bindM (promotion_cast u8_t u64_t (uint out)) (\<lambda>x. retM (word_of_int x)))"

definition BitReader_readUInt :: "BitReader \<Rightarrow> (64 word, BitReader) exi" where
  "BitReader_readUInt = readNByteUInt (BitReader_readNBits 8) 8"

definition BitReader_readString :: "64 word \<Rightarrow> BitReader \<Rightarrow> (bytes, BitReader) exi" where
  "BitReader_readString = readString (BitReader_readNBits 8)"

definition BitReader_decodeString :: "BitReader \<Rightarrow> (bytes, BitReader) exi" where
  "BitReader_decodeString = decodeString (BitReader_readNBits 8)"

definition BitReader_bitPos :: "BitReader \<Rightarrow> nat" where
  "BitReader_bitPos r = usub (ByteOffset r * 8) (BitsInStore r)"

definition BitReader_getProxy :: "BitReader \<Rightarrow> StreamProxy" where
  "BitReader_getProxy r = \<lparr>Bytes = Stream r, NBits = of_nat (usub (ByteOffset r * 8) (BitsInStore r))\<rparr>"

definition BitReader_setProxy :: "StreamProxy \<Rightarrow> BitReader \<Rightarrow> (unit, BitReader) exi" where
  "BitReader_setProxy p =
    thenM (modM (setProxyBase p))
    (thenM (modM (\<lambda>r. r\<lparr>ByteOffset := ByteOffset r - ByteOffset r mod 8\<rparr>))
    (thenM (expectM Unreachable BitReader_fillStore)
    (\<lambda>r. let off = unat (NBits p) mod kBitsPerWord in
       Ret () (r\<lparr>Store := push_bit off (Store r), BitsInStore := usub (BitsInStore r) off\<rparr>))))"

definition BitReader_align :: "BitReader \<Rightarrow> (unit, BitReader) exi" where
  "BitReader_align r = (let bits = BitsInStore r mod 8 in
     Ret () (r\<lparr>Store := push_bit bits (Store r), BitsInStore := usub (BitsInStore r) bits\<rparr>))"

section \<open>A reader at a position of the stream\<close>

text \<open>Where the byte offset stands after the last refill.\<close>

definition end_offset :: "nat \<Rightarrow> nat \<Rightarrow> bool" where
  "end_offset len off \<longleftrightarrow> (if len = 0 then off = 0 else if len mod 8 = 0 \<or> len < 8 then off = len + 1
     else off = len mod 8)"

definition br_at :: "bytes \<Rightarrow> BitReader \<Rightarrow> nat \<Rightarrow> bool" where
  "br_at bs r p \<longleftrightarrow>
    Stream r = bs \<and> BitsInStore r \<le> 64 \<and> p + BitsInStore r \<le> 8 * length bs \<and>
    (\<forall>i < BitsInStore r. bit (Store r) (63 - i) = sbit bs (p + i)) \<and>
    (if p + BitsInStore r < 8 * length bs
     then p + BitsInStore r = 8 * ByteOffset r \<and> ByteOffset r mod 8 = 0
       \<and> (\<forall>j < 64 - BitsInStore r. \<not> bit (Store r) j)
     else end_offset (length bs) (ByteOffset r))"

lemma br_at_new: "br_at bs (BitReader_new bs) 0"
  by (simp add: br_at_def BitReader_new_def end_offset_def)

lemma br_at_bit: "br_at bs r p \<Longrightarrow> i < BitsInStore r \<Longrightarrow> bit (Store r) (63 - i) = sbit bs (p + i)"
  by (simp add: br_at_def)

text \<open>Taking \<open>n\<close> bits that are in the store.\<close>

lemma readFull_at:
  assumes "br_at bs r p" "n \<le> BitsInStore r" "n \<noteq> 0" "n < 64"
  shows "\<exists>r'. BitReader_readFullBits64V n r = Ret (stream_word bs p n) r' \<and> br_at bs r' (p + n)"
proof -
  let ?r = "r\<lparr>Store := push_bit n (Store r), BitsInStore := BitsInStore r - n\<rparr>"
  have "drop_bit (64 - n) (Store r) = stream_word bs p n"
  proof (rule bit_word_eqI)
    fix i assume "i < LENGTH(64)"
    show "bit (drop_bit (64 - n) (Store r)) i = bit (stream_word bs p n) i"
    proof (cases "i < n")
      case True
      then have "bit (Store r) (63 - (n - Suc i)) = sbit bs (p + (n - Suc i))"
        using assms(2) by (intro br_at_bit [OF assms(1)]) linarith
      moreover have "63 - (n - Suc i) = 64 - n + i" "p + (n - Suc i) = p + n - Suc i"
        using True assms(4) by linarith+
      ultimately show ?thesis using True assms(4) by (simp add: bit_drop_bit_eq bit_stream_word)
    next
      case False
      then have "64 \<le> 64 - n + i" using assms(4) by linarith
      then show ?thesis using False
        by (auto simp: bit_drop_bit_eq bit_stream_word dest: bit_imp_le_length)
    qed
  qed
  then have "BitReader_readFullBits64V n r = Ret (stream_word bs p n) ?r"
    using assms by (simp add: BitReader_readFullBits64V_def BitReader_readImpl_def kBitsPerWord_def)
  moreover have "br_at bs ?r (p + n)"
  proof -
    have "bit (push_bit n (Store r)) (63 - i) = sbit bs (p + n + i)" if "i < BitsInStore r - n" for i
    proof -
      have "63 - i - n = 63 - (n + i)" "n \<le> 63 - i" "63 - i < 64"
        using that assms(1) by (auto simp: br_at_def)
      moreover have "bit (Store r) (63 - (n + i)) = sbit bs (p + (n + i))"
        using that assms(1) by (auto simp: br_at_def)
      ultimately show ?thesis by (simp add: bit_push_bit_iff add.assoc)
    qed
    moreover have "\<not> bit (push_bit n (Store r)) j"
      if "j < 64 - (BitsInStore r - n)" "\<forall>j < 64 - BitsInStore r. \<not> bit (Store r) j" for j
    proof (cases "n \<le> j")
      case True
      then have "j - n < 64 - BitsInStore r"
        using that(1) assms(2) assms(1) by (auto simp: br_at_def)
      then show ?thesis using that(2) by (simp add: bit_push_bit_iff)
    qed (simp add: bit_push_bit_iff)
    ultimately show ?thesis using assms(1,2) by (auto simp: br_at_def split: if_splits)
  qed
  ultimately show ?thesis by blast
qed

text \<open>A refill while the stream has bytes left. The leftover bits of a partial refill do no harm
  when there are at most eight of them.\<close>

lemma fillStore_at:
  assumes "br_at bs r p" "p + BitsInStore r < 8 * length bs"
    and "BitsInStore r \<le> 8 \<or> length bs mod 8 = 0 \<or> length bs < 8"
  shows "\<exists>r'. BitReader_fillStore r = Ret () r' \<and> br_at bs r' (p + BitsInStore r)
    \<and> BitsInStore r' = 8 * min 8 (length bs - ByteOffset r)"
proof -
  define off where "off = ByteOffset r"
  have s: "Stream r = bs" and o: "p + BitsInStore r = 8 * off" "off mod 8 = 0" and b: "BitsInStore r \<le> 64"
    and z: "\<And>j. j < 64 - BitsInStore r \<Longrightarrow> \<not> bit (Store r) j"
    using assms(1,2) by (auto simp: br_at_def off_def)
  have lt: "off < length bs" using assms(2) o by linarith
  show ?thesis
  proof (cases "off + 8 \<le> length bs")
    case True
    define off' where "off' = (if off + 8 = length bs then off + 9 else off + 8)"
    let ?st = "byteswap64 (or_bytes 0 bs off 8)"
    let ?r = "r\<lparr>ByteOffset := off', Store := ?st, BitsInStore := 64\<rparr>"
    have "BitReader_fillStore r = Ret () ?r"
      using True lt by (simp add: BitReader_fillStore_def fillStoreImpl_def s off_def [symmetric] off'_def Let_def)
    moreover have "br_at bs ?r (8 * off)"
    proof -
      have "off + 8 = length bs \<Longrightarrow> length bs mod 8 = 0" using o(2) by presburger
      then show ?thesis
        using True o(2) bit_filled_store [of 8 _ 0 bs off]
        by (auto simp: br_at_def s off'_def end_offset_def)
    qed
    ultimately show ?thesis using True o(1) by (auto simp: off_def [symmetric])
  next
    case False
    define n where "n = length bs - off"
    have n: "0 < n" "n < 8" "off + n = length bs" using False lt by (auto simp: n_def)
    have small: "BitsInStore r \<le> 8"
    proof -
      have "length bs < 8 \<Longrightarrow> off = 0" using o(2) lt by presburger
      then have "length bs < 8 \<Longrightarrow> BitsInStore r = 0" using o(1) by simp
      moreover have "length bs mod 8 \<noteq> 0" using n o(2) by presburger
      ultimately show ?thesis using assms(3) by auto
    qed
    define off' where "off' = (if n = length bs then n + 1 else n)"
    let ?st = "byteswap64 (or_bytes (Store r) bs off n)"
    let ?r = "r\<lparr>ByteOffset := off', Store := ?st, BitsInStore := 8 * n\<rparr>"
    have "BitReader_fillStore r = Ret () ?r"
      using False lt n by (simp add: BitReader_fillStore_def fillStoreImpl_def s off_def [symmetric]
          n_def [symmetric] off'_def Let_def)
    moreover have "br_at bs ?r (8 * off)"
    proof -
      have "bit ?st (63 - i) = sbit bs (8 * off + i)" if "i < 8 * n" for i
      proof (rule bit_filled_store)
        fix j assume "j < 8 * n"
        then have "j < 64 - BitsInStore r" using small n by linarith
        then show "\<not> bit (Store r) j" by (rule z)
      qed (use that n in auto)
      moreover have "end_offset (length bs) off'"
      proof (cases "off = 0")
        case True
        then show ?thesis using n by (auto simp: end_offset_def off'_def)
      next
        case False
        then have "length bs mod 8 = n" "\<not> length bs < 8" using n o(2) by presburger+
        then show ?thesis using n by (auto simp: end_offset_def off'_def)
      qed
      ultimately show ?thesis using n by (auto simp: br_at_def s)
    qed
    ultimately show ?thesis using n o(1) by (auto simp: off_def [symmetric] n_def)
  qed
qed


text \<open>A read that needs a refill.\<close>

lemma readPartial_step:
  assumes "BitsInStore r < n"
    and "(if BitsInStore r \<noteq> 0 then BitReader_readImpl (BitsInStore r) r else Some 0) = Some out"
  shows "BitReader_readPartialBits64 n r = thenM BitReader_fillStore (\<lambda>r1.
     if BitsInStore r1 < n - BitsInStore r then Err ExiError_OOB r1
     else bindM (BitReader_readFullBits64V (n - BitsInStore r)) (\<lambda>t.
       definedM (shl64 (n - BitsInStore r) out) (\<lambda>o'. retM (o' OR t))) r1) r"
proof -
  have "(invariantM (\<lambda>r. BitsInStore r < n) r :: (unit, BitReader) exi) = Ret () r"
    using assms(1) by simp
  then show ?thesis
    unfolding BitReader_readPartialBits64_def
    by (simp only: thenM_run(1) Let_def assms(2) definedM_simps)
qed

lemma readPartial_head:
  assumes "br_at bs r p" "BitsInStore r < 64"
  shows "(if BitsInStore r \<noteq> 0 then BitReader_readImpl (BitsInStore r) r else Some 0)
    = Some (stream_word bs p (BitsInStore r))"
proof (cases "BitsInStore r = 0")
  case False
  then obtain r' where "BitReader_readFullBits64V (BitsInStore r) r
      = Ret (stream_word bs p (BitsInStore r)) r'"
    using readFull_at [OF assms(1), of "BitsInStore r"] assms(2) by auto
  then show ?thesis using False assms(2)
    by (auto simp: BitReader_readFullBits64V_def BitReader_readImpl_def kBitsPerWord_def)
qed simp

lemma readPartial_at:
  assumes "br_at bs r p" "BitsInStore r < n" "n < 64" "p + n \<le> 8 * length bs"
    and "n \<le> 9 \<or> length bs mod 8 = 0 \<or> length bs < 8"
  shows "\<exists>r'. BitReader_readPartialBits64 n r = Ret (stream_word bs p n) r' \<and> br_at bs r' (p + n)"
proof -
  define k h where "k = BitsInStore r" and "h = n - k"
  have kh: "n = k + h" "0 < h" "h < 64" "k < 64" using assms(2,3) by (simp_all add: k_def h_def)
  have "k \<le> 8 \<or> length bs mod 8 = 0 \<or> length bs < 8" using assms(2,5) by (auto simp: k_def)
  then obtain r1 where r1: "BitReader_fillStore r = Ret () r1" "br_at bs r1 (p + k)"
      "BitsInStore r1 = 8 * min 8 (length bs - ByteOffset r)"
    using fillStore_at [OF assms(1)] assms(2,4) by (auto simp: k_def)
  have "p + k = 8 * ByteOffset r"
    using assms(1,2,4) by (auto simp: br_at_def k_def split: if_splits)
  then have "h \<le> BitsInStore r1" using r1(3) assms(4) kh by auto
  then obtain r2 where r2: "BitReader_readFullBits64V h r1 = Ret (stream_word bs (p + k) h) r2"
      "br_at bs r2 (p + k + h)"
    using readFull_at [OF r1(2)] kh by auto
  note out = readPartial_head [OF assms(1)]
  have "push_bit h (stream_word bs p k) OR stream_word bs (p + k) h = stream_word bs p n"
    using stream_word_append [OF kh(3)] kh(1) by simp
  then have "BitReader_readPartialBits64 n r = Ret (stream_word bs p n) r2"
    using assms(2) r1(1) r2(1) out kh \<open>h \<le> BitsInStore r1\<close> k_def [symmetric]
    by (simp add: readPartial_step)
  then show ?thesis using r2(2) kh(1) by (auto simp: add.assoc)
qed

lemma readNBits_at:
  assumes "br_at bs r p" "n < 64" "p + n \<le> 8 * length bs"
    and "n \<le> 9 \<or> length bs mod 8 = 0 \<or> length bs < 8"
  shows "\<exists>r'. BitReader_readNBits n r = Ret (stream_word bs p n) r' \<and> br_at bs r' (p + n)"
  using assms readFull_at [OF assms(1), of n] readPartial_at [OF assms(1), of n]
  by (cases "n = 0"; cases "n \<le> BitsInStore r") (auto simp: BitReader_readNBits_def)

lemma readBits64_readNBits:
  "n \<le> 64 \<Longrightarrow> BitReader_readBits64 n r = BitReader_readNBits n r"
  by (simp add: BitReader_readBits64_def BitReader_readNBits_def kBitsPerWord_def)

section \<open>Reading a bit, a byte, octet-wise values\<close>

lemma readBit_readNBits:
  assumes "br_at bs r p" "p + 1 \<le> 8 * length bs"
  shows "BitReader_readBit r = (case BitReader_readNBits 1 r of Ret w r' \<Rightarrow> Ret (w \<noteq> 0) r'
     | Err e r' \<Rightarrow> Err e r' | Fault f \<Rightarrow> Fault f)"
proof (cases "BitsInStore r = 0")
  case True
  then obtain r1 where r1: "BitReader_fillStore r = Ret () r1" "0 < BitsInStore r1"
    using fillStore_at [OF assms(1)] assms by (auto simp: br_at_def split: if_splits)
  then show ?thesis using True
    by (simp add: BitReader_readBit_def BitReader_readNBits_def BitReader_readPartialBits64_def
        BitReader_readFullBits64V_def BitReader_readImpl_def kBitsPerWord_def Let_def)
next
  case False
  then show ?thesis
    by (simp add: BitReader_readBit_def BitReader_readNBits_def
        BitReader_readFullBits64V_def BitReader_readImpl_def kBitsPerWord_def)
qed

lemma stream_word_1: "stream_word bs p 1 \<noteq> 0 \<longleftrightarrow> sbit bs p"
proof -
  have "stream_word bs p 1 = of_bool (sbit bs p)"
    by (rule bit_word_eqI) (auto simp: bit_stream_word bit_1_iff)
  then show ?thesis by simp
qed

lemma readBit_at:
  assumes "br_at bs r p" "p + 1 \<le> 8 * length bs"
  shows "\<exists>r'. BitReader_readBit r = Ret (sbit bs p) r' \<and> br_at bs r' (p + 1)"
  using readNBits_at [OF assms(1), of 1] assms(2) readBit_readNBits [OF assms] stream_word_1
  by fastforce

definition stream_octet :: "bytes \<Rightarrow> nat \<Rightarrow> 8 word" where
  "stream_octet bs p = msb_word (stream_bits bs p 8)"

lemma ucast_stream_octet: "ucast (stream_octet bs p) = stream_word bs p 8"
  by (rule bit_word_eqI)
    (auto simp: stream_octet_def stream_word_def bit_ucast_iff bit_msb_word stream_bits_def)

lemma stream_octet_aligned: "stream_octet bs (8 * k) = bs ! k"
proof -
  have "(ucast (stream_octet bs (8 * k)) :: 64 word) = ucast (bs ! k)"
    by (simp only: ucast_stream_octet stream_word_byte)
  then show ?thesis by (auto simp: bit_eq_iff bit_ucast_iff dest: bit_imp_le_length)
qed

lemma readByte_at:
  assumes "br_at bs r p" "p + 8 \<le> 8 * length bs"
  shows "\<exists>r'. BitReader_readByte r = Ret (stream_octet bs p) r' \<and> br_at bs r' (p + 8)"
proof -
  obtain r' where r': "BitReader_readNBits 8 r = Ret (ucast (stream_octet bs p)) r'" "br_at bs r' (p + 8)"
    using readNBits_at [OF assms(1), of 8] assms(2) by (auto simp: ucast_stream_octet)
  have u: "uint (ucast (stream_octet bs p) :: 64 word) = uint (stream_octet bs p)"
    by (simp add: unsigned_ucast_eq take_bit_int_eq_self [of "uint _" 64] uint_bounded
        order_less_le_trans [OF uint_bounded])
  have b: "uint (stream_octet bs p) < 256" using uint_bounded [of "stream_octet bs p"] by simp
  then have "(promotion_cast u8_t u64_t (uint (stream_octet bs p)) r' :: (int, BitReader) exi)
      = Ret (uint (stream_octet bs p)) r'"
    by (simp add: promotion_cast_def IntCast_def IntCastIsPossible_def int_types static_cast_def max_v_def)
  then show ?thesis using r' u by (simp add: BitReader_readByte_def)
qed

interpretation bits: octet_source "BitReader_readNBits 8" "br_at bs" "stream_octet bs" "8 * length bs" for bs
  by unfold_locales (use readNBits_at [of _ _ _ 8] in \<open>auto simp: ucast_stream_octet\<close>)


section \<open>The end of the stream\<close>

lemma fillStore_end:
  assumes "br_at bs r p" "p + BitsInStore r = 8 * length bs" "length bs mod 8 = 0 \<or> length bs < 8"
  shows "BitReader_fillStore r = Err ExiError_OOB r"
  using assms by (auto simp: br_at_def end_offset_def BitReader_fillStore_def fillStoreImpl_def split: if_splits)

lemma readNBits_oob:
  assumes "br_at bs r p" "8 * length bs < p + n" "n < 64" "length bs mod 8 = 0 \<or> length bs < 8"
  shows "\<exists>r'. BitReader_readNBits n r = Err ExiError_OOB r'"
proof -
  have p: "p + BitsInStore r \<le> 8 * length bs" using assms(1) by (simp add: br_at_def)
  with assms(2) have n: "BitsInStore r < n" by linarith
  have "BitsInStore r < 64" using n assms(3) by simp
  note out = readPartial_head [OF assms(1) this]
  have step: "BitReader_readNBits n r = BitReader_readPartialBits64 n r"
    using n by (simp add: BitReader_readNBits_def)
  show ?thesis
  proof (cases "p + BitsInStore r = 8 * length bs")
    case True
    then show ?thesis using fillStore_end [OF assms(1) _ assms(4)] step
      by (auto simp: readPartial_step [OF n out])
  next
    case False
    with p have lt: "p + BitsInStore r < 8 * length bs" by simp
    then obtain r1 where r1: "BitReader_fillStore r = Ret () r1"
        "BitsInStore r1 = 8 * min 8 (length bs - ByteOffset r)"
      using fillStore_at [OF assms(1)] assms(4) by auto
    have "p + BitsInStore r = 8 * ByteOffset r" using assms(1) lt by (simp add: br_at_def)
    then have "BitsInStore r1 < n - BitsInStore r" using r1(2) assms(2,3) n by auto
    then show ?thesis using step r1(1) by (auto simp: readPartial_step [OF n out])
  qed
qed

text \<open>With more than eight bytes and a length that is not a multiple of eight, a refill at the end
  starts again inside the buffer.\<close>

lemma fillStore_rewind:
  assumes "br_at bs r p" "p + BitsInStore r = 8 * length bs" "length bs mod 8 \<noteq> 0" "8 < length bs"
  shows "\<exists>r'. BitReader_fillStore r = Ret () r' \<and> BitsInStore r' = 64 \<and>
    (\<forall>i < 64. bit (Store r') (63 - i) = sbit bs (8 * (length bs mod 8) + i))"
proof -
  have o: "ByteOffset r = length bs mod 8" "Stream r = bs"
    using assms by (auto simp: br_at_def end_offset_def split: if_splits)
  have le: "length bs mod 8 + 8 \<le> length bs" using assms(3,4) by presburger
  let ?st = "byteswap64 (or_bytes 0 bs (length bs mod 8) 8)"
  define off where "off = (if length bs mod 8 + 8 = length bs then Suc (length bs) else length bs mod 8 + 8)"
  have "BitReader_fillStore r = Ret () (r\<lparr>ByteOffset := off, Store := ?st, BitsInStore := 64\<rparr>)"
    using o le by (simp add: BitReader_fillStore_def fillStoreImpl_def Let_def not_le off_def)
  moreover have "bit ?st (63 - i) = sbit bs (8 * (length bs mod 8) + i)" if "i < 64" for i
    using that by (intro bit_filled_store) auto
  ultimately show ?thesis by force
qed

lemma stored_word:
  assumes "0 < n" "n < 64" "\<forall>i < 64. bit w (63 - i) = sbit bs (q + i)"
  shows "drop_bit (64 - n) (w :: 64 word) = stream_word bs q n"
proof (rule bit_word_eqI)
  fix i assume "i < LENGTH(64)"
  show "bit (drop_bit (64 - n) w) i = bit (stream_word bs q n) i"
  proof (cases "i < n")
    case True
    have "bit w (63 - (n - Suc i)) = sbit bs (q + (n - Suc i))"
      by (rule assms(3) [rule_format]) (use assms(2) in linarith)
    moreover have "63 - (n - Suc i) = 64 - n + i" "q + (n - Suc i) = q + n - Suc i"
      using True assms(2) by linarith+
    ultimately show ?thesis using True assms(2) by (simp add: bit_drop_bit_eq bit_stream_word)
  next
    case False
    then have "64 \<le> 64 - n + i" using assms(2) by linarith
    then show ?thesis using False by (auto simp: bit_drop_bit_eq bit_stream_word dest: bit_imp_le_length)
  qed
qed

lemma readNBits_rewind:
  assumes "br_at bs r p" "p + BitsInStore r = 8 * length bs" "length bs mod 8 \<noteq> 0" "8 < length bs"
    and "BitsInStore r < n" "n < 64"
  shows "\<exists>r'. BitReader_readNBits n r
    = Ret (push_bit (n - BitsInStore r) (stream_word bs p (BitsInStore r))
        OR stream_word bs (8 * (length bs mod 8)) (n - BitsInStore r)) r'"
proof -
  define k h where "k = BitsInStore r" and "h = n - k"
  have kh: "n = k + h" "0 < h" "h < 64" "k < 64" using assms(5,6) by (simp_all add: k_def h_def)
  have kr: "BitsInStore r = k" by (simp add: k_def)
  obtain r1 where r1: "BitReader_fillStore r = Ret () r1" "BitsInStore r1 = 64"
      "\<forall>i < 64. bit (Store r1) (63 - i) = sbit bs (8 * (length bs mod 8) + i)"
    using fillStore_rewind [OF assms(1-4)] by blast
  have "BitsInStore r < 64" using kh kr by simp
  note out = readPartial_head [OF assms(1) this]
  have "\<exists>r2. BitReader_readFullBits64V h r1 = Ret (stream_word bs (8 * (length bs mod 8)) h) r2"
    using stored_word [OF kh(2,3) r1(3)] kh(2,3)
    by (simp add: BitReader_readFullBits64V_def BitReader_readImpl_def kBitsPerWord_def)
  moreover have "n - BitsInStore r = h" by (simp add: kr h_def)
  ultimately show ?thesis
    using r1(1,2) kh(2,3) assms(5) by (auto simp: BitReader_readNBits_def readPartial_step [OF assms(5) out])
qed

section \<open>Resuming from a proxy\<close>

lemma br_at_word_start:
  assumes "Stream r = bs" "ByteOffset r = 8 * w" "Store r = 0" "BitsInStore r = 0" "8 * w < length bs"
  shows "br_at bs r (64 * w)"
  using assms by (simp add: br_at_def)

lemma byte_count_word:
  assumes "n \<noteq> 0"
  shows "MakeByteCount n - MakeByteCount n mod 8 = 8 * (n div 64 + (if 56 < n mod 64 then 1 else 0))"
proof -
  have m: "MakeByteCount n = (n + 7) div 8" using assms by (cases n) (simp_all add: MakeByteCount_def)
  have "(n + 7) div 8 - (n + 7) div 8 mod 8 = 8 * ((n + 7) div 8 div 8)"
    by (simp add: minus_mod_eq_mult_div)
  also have "(n + 7) div 8 div 8 = (n + 7) div 64" by (simp flip: div_mult2_eq)
  also have "(n + 7) div 64 = n div 64 + (if 56 < n mod 64 then 1 else 0)"
  proof (cases "56 < n mod 64")
    case True
    then have "(n mod 64 + 7) div 64 = 1" by (intro div_nat_eqI) auto
    with True show ?thesis by (simp add: div_add1_eq [of n 7])
  qed (simp add: div_add1_eq [of n 7])
  finally show ?thesis using m by simp
qed

lemma setProxy_at_word:
  assumes "8 * w < length bs" "off \<le> 56 \<or> 8 * w + 8 \<le> length bs" "off < 64" "64 * w + off \<le> 8 * length bs"
    and "unat (NBits p) mod 64 = off" "Bytes p = bs"
    and "(if NBits p = 0 then 0 else MakeByteCount (unat (NBits p)) - MakeByteCount (unat (NBits p)) mod 8) = 8 * w"
    and "BitsInStore r = 0"
  shows "\<exists>r'. BitReader_setProxy p r = Ret () r' \<and> br_at bs r' (64 * w + off)"
proof -
  let ?r1 = "(setProxyBase p r)\<lparr>ByteOffset := 8 * w\<rparr>"
  have r1: "br_at bs ?r1 (64 * w)"
    using assms by (intro br_at_word_start) (auto simp: setProxyBase_def)
  have b0: "BitsInStore ?r1 = 0" using assms(8) by (simp add: setProxyBase_def)
  then obtain r2 where r2: "BitReader_fillStore ?r1 = Ret () r2" "br_at bs r2 (64 * w)"
      "BitsInStore r2 = 8 * min 8 (length bs - 8 * w)"
    using fillStore_at [OF r1] assms(1) by auto
  have step: "BitReader_setProxy p r = Ret () (r2\<lparr>Store := push_bit off (Store r2),
      BitsInStore := usub (BitsInStore r2) off\<rparr>)"
    using assms(5,7) r2(1) by (simp add: BitReader_setProxy_def expectM_def setProxyBase_def
        kBitsPerWord_def Let_def split: if_splits)
  have le: "off \<le> BitsInStore r2" using r2(3) assms(3,4) by auto
  show ?thesis
  proof (cases "off = 0")
    case True
    have "r2\<lparr>Store := Store r2, BitsInStore := BitsInStore r2\<rparr> = r2" by (cases r2) simp
    then show ?thesis using True step r2(2) by simp
  next
    case False
    then have "\<exists>r'. BitReader_readFullBits64V off r2 = Ret (stream_word bs (64 * w) off) r' \<and> br_at bs r' (64 * w + off)"
      using readFull_at [OF r2(2) le] assms(3) by simp
    then show ?thesis using step False assms(3) le
      by (auto simp: BitReader_readFullBits64V_def BitReader_readImpl_def kBitsPerWord_def)
  qed
qed


section \<open>What the reads promise\<close>

text \<open>The stream holds the octets \<open>ys\<close> from bit \<open>p\<close> on, at any alignment.\<close>

definition spelled :: "bytes \<Rightarrow> nat \<Rightarrow> bytes \<Rightarrow> bool" where
  "spelled bs p ys \<longleftrightarrow> p + 8 * length ys \<le> 8 * length bs
    \<and> (\<forall>i < length ys. stream_octet bs (p + 8 * i) = ys ! i)"

lemma bits_spells [simp]: "octet_source.spells (stream_octet bs) (8 * length bs) p ys = spelled bs p ys"
  by (simp add: bits.spells_def spelled_def)

lemma spelled_prefix:
  assumes "spelled bs p (xs @ ys)"
  shows "spelled bs p xs"
proof -
  have "stream_octet bs (p + 8 * i) = xs ! i" if "i < length xs" for i
    using assms that by (auto simp: spelled_def nth_append dest: spec [of _ i])
  then show ?thesis using assms by (simp add: spelled_def)
qed

lemma spelled_self: "spelled bs 0 bs"
  using stream_octet_aligned [of bs] by (simp add: spelled_def)



text \<open>Property C9. A read that asks for more bits than are left reports an out-of-bounds error when the
  stream is a whole number of words, or shorter than one.\<close>

theorem BitReader_past_end:
  assumes "br_at bs r p" "8 * length bs < p + n" "n < 64" "length bs mod 8 = 0 \<or> length bs < 8"
  shows "\<exists>r'. BitReader_readBits64 n r = Err ExiError_OOB r'"
  using readNBits_oob [OF assms] assms(3) by (simp add: readBits64_readNBits)

theorem BitReader_past_end_witness:
  "\<exists>r'. BitReader_readBits64 9 (BitReader_new [7]) = Err ExiError_OOB r'"
  using BitReader_past_end [OF br_at_new, of "[7]" 9] by simp

text \<open>On any longer stream whose length is not a multiple of eight, reading past the end
  does not fail: the refill restarts inside the buffer, and the read returns the last bits
  followed by bits the reader already returned.\<close>

theorem BitReader_rewinds:
  assumes "br_at bs r p" "p + BitsInStore r = 8 * length bs" "length bs mod 8 \<noteq> 0" "8 < length bs"
    and "BitsInStore r < n" "n < 64"
  shows "\<exists>r'. BitReader_readBits64 n r
    = Ret (push_bit (n - BitsInStore r) (stream_word bs p (BitsInStore r))
        OR stream_word bs (8 * (length bs mod 8)) (n - BitsInStore r)) r'"
  using readNBits_rewind [OF assms] assms(6) by (simp add: readBits64_readNBits)

lemma br_at_used_up:
  "bs \<noteq> [] \<Longrightarrow> length bs mod 8 \<noteq> 0 \<Longrightarrow> 8 < length bs \<Longrightarrow>
    br_at bs \<lparr>Stream = bs, ByteOffset = length bs mod 8, Store = 0, BitsInStore = 0\<rparr> (8 * length bs)"
  by (simp add: br_at_def end_offset_def)

theorem BitReader_rewinds_witness:
  "\<exists>r'. BitReader_readBits64 8 \<lparr>Stream = [0, 1, 2, 3, 4, 5, 6, 7, 8], ByteOffset = 1, Store = 0, BitsInStore = 0\<rparr>
    = Ret (stream_word [0, 1, 2, 3, 4, 5, 6, 7, 8] 8 8) r'"
  using BitReader_rewinds [OF br_at_used_up, of "[0, 1, 2, 3, 4, 5, 6, 7, 8]" 8] by simp

text \<open>Property C10. An EXI unsigned integer below 2^56 is decoded exactly from wherever it starts,
  aligned or not.\<close>

theorem BitReader_readUInt_decodes:
  assumes "br_at bs r p" "spelled bs p (enc_uint v)" "v < 2 ^ 56"
  shows "\<exists>r'. BitReader_readUInt r = Ret (of_nat v) r' \<and> br_at bs r' (p + 8 * length (enc_uint v))"
  using bits.readNByteUInt_ok [OF assms(1), of v 8] assms(2,3) by (simp add: BitReader_readUInt_def)

theorem BitReader_readUInt_decodes_witness:
  "\<exists>r'. BitReader_readUInt (BitReader_new [0xAC, 2]) = Ret 300 r' \<and> br_at [0xAC, 2] r' 16"
proof -
  have "enc_uint 300 = [0xAC, 2]" by (simp add: enc_uint_big enc_uint_small)
  then show ?thesis
    using BitReader_readUInt_decodes [OF br_at_new, of "[0xAC, 2]" 300] spelled_self [of "[0xAC, 2]"]
    by simp
qed

text \<open>A string, encoded as its length and its code points, is decoded to its UTF-8 bytes.\<close>

theorem BitReader_decodeString_decodes:
  assumes "br_at bs r p" "spelled bs p (enc_string rs)" "list_all (\<lambda>c. c \<le> 0x10ffff) rs"
    and "length rs < 2 ^ 56"
  shows "\<exists>r'. BitReader_decodeString r = Ret (concat (map RuneEncoder_EncodeValid rs)) r'
    \<and> br_at bs r' (p + 8 * length (enc_string rs))"
  using bits.decodeString_ok [OF assms(1), of rs] assms(2-4) by (simp add: BitReader_decodeString_def)

theorem BitReader_decodeString_decodes_witness:
  "\<exists>r'. BitReader_decodeString (BitReader_new [2, 0x61, 0x62]) = Ret [0x61, 0x62] r'"
proof -
  have "enc_string [0x61, 0x62] = [2, 0x61, 0x62]"
    by (simp add: enc_string_def enc_uint_small)
  then show ?thesis
    using BitReader_decodeString_decodes [OF br_at_new, of "[2, 0x61, 0x62]" "[0x61, 0x62]"]
      spelled_self [of "[2, 0x61, 0x62]"] by (auto simp: RuneEncoder_EncodeValid_def)
qed

text \<open>The position a reader reports is exact until the last word is loaded; from then on, on
  streams of whole words or of less than a word, it is eight bits too large and the reader
  claims to have no data, whatever is still in the store.\<close>

theorem BitReader_position:
  assumes "br_at bs r p" "bs \<noteq> []"
  shows "if p + BitsInStore r < 8 * length bs
    then BitReader_bitPos r = p \<and> hasData r
    else length bs mod 8 \<noteq> 0 \<and> 8 < length bs \<or> BitReader_bitPos r = p + 8 \<and> \<not> hasData r"
proof (cases "p + BitsInStore r < 8 * length bs")
  case True
  then show ?thesis using assms(1) by (auto simp: br_at_def BitReader_bitPos_def hasData_def)
next
  case False
  show ?thesis
  proof (cases "length bs mod 8 = 0 \<or> length bs < 8")
    case True
    then have "ByteOffset r = length bs + 1" "Stream r = bs" "p + BitsInStore r = 8 * length bs"
      using False assms by (auto simp: br_at_def end_offset_def)
    moreover from this have "8 + length bs * 8 - BitsInStore r = p + 8" by linarith
    ultimately show ?thesis by (simp add: BitReader_bitPos_def hasData_def)
  next
    case long: False
    then have "length bs \<noteq> 8" by auto
    then show ?thesis using long False by simp
  qed
qed

theorem BitReader_position_witness:
  "BitReader_bitPos \<lparr>Stream = [0], ByteOffset = 2, Store = 0, BitsInStore = 8\<rparr> = 8"
proof -
  have "br_at [0] \<lparr>Stream = [0], ByteOffset = 2, Store = 0, BitsInStore = 8\<rparr> 0"
    by (simp add: br_at_def end_offset_def sbit_def)
  from BitReader_position [OF this] show ?thesis by simp
qed

lemma setProxy_at:
  assumes "unat (NBits p) < 8 * length (Bytes p)" "BitsInStore r = 0"
    and "unat (NBits p) mod 64 \<le> 56 \<or> 8 * (unat (NBits p) div 64) + 16 \<le> length (Bytes p)"
  shows "\<exists>r'. BitReader_setProxy p r = Ret () r' \<and>
    br_at (Bytes p) r' (unat (NBits p) + (if unat (NBits p) mod 64 \<le> 56 then 0 else 64))"
proof -
  define n off where "n = unat (NBits p)" and "off = n mod 64"
  define w where "w = n div 64 + (if 56 < off then 1 else 0)"
  have z: "NBits p = 0 \<longleftrightarrow> n = 0" by (simp add: n_def unat_eq_0)
  have al: "(if NBits p = 0 then 0 else MakeByteCount (unat (NBits p)) - MakeByteCount (unat (NBits p)) mod 8) = 8 * w"
    using byte_count_word [of n] z by (auto simp: n_def [symmetric] w_def off_def)
  have n: "64 * (n div 64) + off = n" by (simp add: off_def)
  have pos: "64 * w + off = n + (if off \<le> 56 then 0 else 64)" using n by (auto simp: w_def)
  have lim: "n < 8 * length (Bytes p)" "off \<le> 56 \<or> 8 * (n div 64) + 16 \<le> length (Bytes p)"
    using assms(1,3) by (simp_all add: n_def off_def)
  have o64: "off < 64" by (simp add: off_def)
  have "8 * w < length (Bytes p) \<and> (off \<le> 56 \<or> 8 * w + 8 \<le> length (Bytes p)) \<and> 64 * w + off \<le> 8 * length (Bytes p)"
  proof (cases "off \<le> 56")
    case True
    then have "64 * w + off = n" "64 * w \<le> n" using pos by auto
    then show ?thesis using True lim(1) by linarith
  next
    case False
    then have "w = n div 64 + 1" "8 * (n div 64) + 16 \<le> length (Bytes p)" using lim(2) by (auto simp: w_def)
    then show ?thesis using o64 by auto
  qed
  then have "\<exists>r'. BitReader_setProxy p r = Ret () r' \<and> br_at (Bytes p) r' (64 * w + off)"
    using assms(2) o64 al by (intro setProxy_at_word) (auto simp: n_def off_def)
  then show ?thesis unfolding pos by (simp add: n_def off_def)
qed

text \<open>Resuming from a proxy puts the reader at the proxied bit, unless that bit is one of
  the last seven of a word: then the next word is loaded and the reader is a whole word too far.\<close>

theorem BitReader_setProxy_resumes:
  assumes "unat (NBits p) < 8 * length (Bytes p)" "BitsInStore r = 0"
    and "unat (NBits p) mod 64 \<le> 56 \<or> 8 * (unat (NBits p) div 64) + 16 \<le> length (Bytes p)"
  shows "\<exists>r'. BitReader_setProxy p r = Ret () r' \<and>
    br_at (Bytes p) r' (unat (NBits p) + (if unat (NBits p) mod 64 \<le> 56 then 0 else 64))"
  using assms by (rule setProxy_at)

theorem BitReader_setProxy_resumes_witness:
  "\<exists>r'. BitReader_setProxy \<lparr>Bytes = replicate 16 0, NBits = 60\<rparr> (BitReader_new []) = Ret () r'
    \<and> br_at (replicate 16 0) r' 124"
  using BitReader_setProxy_resumes [of "\<lparr>Bytes = replicate 16 0, NBits = 60\<rparr>" "BitReader_new []"]
  by (simp add: BitReader_new_def)

end
