(* ===== verification/ByteReader.thy ===== *)
theory ByteReader
  imports BitReader
begin

text \<open>
  \<open>ByteReader\<close> (\<open>exi/Stream/OrderedReader.hpp\<close>): the byte-packed reader. Its store is counted in
  bytes; every read takes whole octets. It is refined onto \<open>BitReader\<close>: seen through
  \<open>as_bits\<close>, reading \<open>n\<close> bits does what the bit reader does for the octets that hold them.
\<close>

record ByteReader = OrderedReader +
  BytesInStore :: nat

definition ByteReader_new :: "bytes \<Rightarrow> ByteReader" where
  "ByteReader_new buf = \<lparr>Stream = buf, ByteOffset = 0, Store = 0, BytesInStore = 0\<rparr>"

definition ByteReader_fillStore :: "ByteReader \<Rightarrow> (unit, ByteReader) exi" where
  "ByteReader_fillStore = bindM fillStoreImpl (\<lambda>n.
     modM (\<lambda>r. r\<lparr>Store := byteswap64 (Store r), BytesInStore := n\<rparr>))"

definition ByteReader_readBit :: "ByteReader \<Rightarrow> (bool, ByteReader) exi" where
  "ByteReader_readBit =
    thenM (\<lambda>r. if BytesInStore r = 0 then ByteReader_fillStore r else Ret () r)
      (\<lambda>r. Ret (drop_bit (kBitsPerWord - 8) (Store r) \<noteq> 0)
         (r\<lparr>Store := push_bit 8 (Store r), BytesInStore := usub (BytesInStore r) 1\<rparr>))"

definition ByteReader_readImpl :: "nat \<Rightarrow> ByteReader \<Rightarrow> 64 word option" where
  "ByteReader_readImpl n r = shr64 (usub 8 n * 8) (Store r)"

definition ByteReader_readFullBytes64V :: "nat \<Rightarrow> ByteReader \<Rightarrow> (64 word, ByteReader) exi" where
  "ByteReader_readFullBytes64V n r =
    definedM (ByteReader_readImpl n r) (\<lambda>out.
      definedM (shl64 (n * 8) (Store r)) (\<lambda>st r.
        Ret out (r\<lparr>Store := st, BytesInStore := usub (BytesInStore r) n\<rparr>))) r"

definition ByteReader_readPartialBytes64 :: "nat \<Rightarrow> ByteReader \<Rightarrow> (64 word, ByteReader) exi" where
  "ByteReader_readPartialBytes64 n =
    thenM (invariantM (\<lambda>r. BytesInStore r < n)) (\<lambda>r.
      (let head = n - BytesInStore r in
       definedM (if BytesInStore r \<noteq> 0 then ByteReader_readImpl (BytesInStore r) r else Some 0) (\<lambda>out.
         thenM ByteReader_fillStore (\<lambda>r.
           if BytesInStore r < head then Err ExiError_OOB r
           else bindM (ByteReader_readFullBytes64V head) (\<lambda>t.
             definedM (shl64 (head * 8) out) (\<lambda>o'. retM (o' OR t))) r)) r))"

definition ByteReader_readBits64 :: "nat \<Rightarrow> ByteReader \<Rightarrow> (64 word, ByteReader) exi" where
  "ByteReader_readBits64 bits =
    thenM (invariantM (\<lambda>_. bits \<le> kBitsPerWord)) (\<lambda>r.
      if bits = 0 then Ret 0 r
      else (let n = MakeByteCount bits in
        if n \<le> BytesInStore r then ByteReader_readFullBytes64V n r
        else ByteReader_readPartialBytes64 n r))"

definition ByteReader_readNBits :: "nat \<Rightarrow> ByteReader \<Rightarrow> (64 word, ByteReader) exi" where
  "ByteReader_readNBits bits r =
    (if bits = 0 then Ret 0 r
     else (let n = MakeByteCount bits in
       if n \<le> BytesInStore r then ByteReader_readFullBytes64V n r
       else ByteReader_readPartialBytes64 n r))"

definition ByteReader_readByte :: "ByteReader \<Rightarrow> (8 word, ByteReader) exi" where
  "ByteReader_readByte = bindM (ByteReader_readNBits 8) (\<lambda>out.
     bindM (promotion_cast u8_t u64_t (uint out)) (\<lambda>x. retM (word_of_int x)))"

definition ByteReader_readUInt :: "ByteReader \<Rightarrow> (64 word, ByteReader) exi" where
  "ByteReader_readUInt = readNByteUInt (ByteReader_readNBits 8) 8"

definition ByteReader_readString :: "64 word \<Rightarrow> ByteReader \<Rightarrow> (bytes, ByteReader) exi" where
  "ByteReader_readString = readString (ByteReader_readNBits 8)"

definition ByteReader_decodeString :: "ByteReader \<Rightarrow> (bytes, ByteReader) exi" where
  "ByteReader_decodeString = decodeString (ByteReader_readNBits 8)"

definition ByteReader_getProxy :: "ByteReader \<Rightarrow> StreamProxy" where
  "ByteReader_getProxy r = \<lparr>Bytes = Stream r, NBits = of_nat (usub (ByteOffset r) (BytesInStore r) * 8)\<rparr>"

text \<open>The offset is kept whole for the shift, so it can be seven octets at most.\<close>

definition ByteReader_setProxy :: "StreamProxy \<Rightarrow> ByteReader \<Rightarrow> (unit, ByteReader) exi" where
  "ByteReader_setProxy p =
    thenM (modM (setProxyBase p)) (\<lambda>r.
      let off = ByteOffset r mod 8 in
      thenM (modM (\<lambda>r. r\<lparr>ByteOffset := ByteOffset r - off\<rparr>))
      (thenM (expectM Unreachable ByteReader_fillStore)
        (modM (\<lambda>r. r\<lparr>Store := push_bit (off * 8) (Store r), BytesInStore := usub (BytesInStore r) off\<rparr>))) r)"

section \<open>Refinement onto the bit reader\<close>

definition as_bits :: "ByteReader \<Rightarrow> BitReader" where
  "as_bits r = \<lparr>Stream = Stream r, ByteOffset = ByteOffset r, Store = Store r,
     BitsInStore = 8 * BytesInStore r\<rparr>"

lemma as_bits_simps [simp]:
  "Stream (as_bits r) = Stream r" "ByteOffset (as_bits r) = ByteOffset r"
  "Store (as_bits r) = Store r" "BitsInStore (as_bits r) = 8 * BytesInStore r"
  by (simp_all add: as_bits_def)

lemma as_bits_fillStore:
  "map_state as_bits (ByteReader_fillStore r) = BitReader_fillStore (as_bits r)"
  by (auto simp: ByteReader_fillStore_def BitReader_fillStore_def fillStoreImpl_def Let_def as_bits_def
      bindM_def)

lemma as_bits_readFull:
  assumes "n \<le> BytesInStore r" "n \<le> 8"
  shows "map_state as_bits (ByteReader_readFullBytes64V n r) = BitReader_readFullBits64V (8 * n) (as_bits r)"
proof -
  have "(8 - n) * 8 = 64 - 8 * n" using assms(2) by simp
  then show ?thesis using assms
    by (cases "n = 0"; cases "n = 8")
      (simp_all add: ByteReader_readFullBytes64V_def BitReader_readFullBits64V_def ByteReader_readImpl_def
        BitReader_readImpl_def kBitsPerWord_def as_bits_def shl64_def shr64_def mult.commute diff_mult_distrib2)
qed

lemma as_bits_readImpl:
  "n \<le> 8 \<Longrightarrow> BitReader_readImpl (8 * n) (as_bits r) = ByteReader_readImpl n r"
  by (simp add: BitReader_readImpl_def ByteReader_readImpl_def kBitsPerWord_def diff_mult_distrib2 mult.commute)


lemma as_bits_readPartial:
  assumes "n \<le> 8"
  shows "map_state as_bits (ByteReader_readPartialBytes64 n r)
    = BitReader_readPartialBits64 (8 * n) (as_bits r)"
proof (cases "BytesInStore r < n")
  case False
  then show ?thesis
    by (simp add: ByteReader_readPartialBytes64_def BitReader_readPartialBits64_def)
next
  case True
  define h where "h = n - BytesInStore r"
  have h: "8 * n - 8 * BytesInStore r = 8 * h" "h \<le> 8" using assms by (simp_all add: h_def)
  let ?out = "if BytesInStore r \<noteq> 0 then ByteReader_readImpl (BytesInStore r) r else Some 0"
  have out: "(if BitsInStore (as_bits r) \<noteq> 0 then BitReader_readImpl (BitsInStore (as_bits r)) (as_bits r) else Some 0)
      = ?out"
    using as_bits_readImpl [of "BytesInStore r" r] True assms by simp
  have some: "\<exists>w. ?out = Some w"
    using True assms by (auto simp: ByteReader_readImpl_def)
  then obtain w where w: "?out = Some w" by blast
  let ?m = "\<lambda>r. if BytesInStore r < h then Err ExiError_OOB r
      else bindM (ByteReader_readFullBytes64V h) (\<lambda>t. definedM (shl64 (h * 8) w) (\<lambda>o'. retM (o' OR t))) r"
  let ?m' = "\<lambda>r. if BitsInStore r < 8 * h then Err ExiError_OOB r
      else bindM (BitReader_readFullBits64V (8 * h)) (\<lambda>t. definedM (shl64 (8 * h) w) (\<lambda>o'. retM (o' OR t))) r"
  have l: "ByteReader_readPartialBytes64 n r = thenM ByteReader_fillStore ?m r"
  proof -
    have i: "(invariantM (\<lambda>r. BytesInStore r < n) r :: (unit, ByteReader) exi) = Ret () r"
      using True by simp
    show ?thesis unfolding ByteReader_readPartialBytes64_def
      by (simp only: thenM_run(1) i Let_def w definedM_simps h_def)
  qed
  have "BitsInStore (as_bits r) < 8 * n" using True by simp
  from readPartial_step [OF this out [unfolded w]]
  have r: "BitReader_readPartialBits64 (8 * n) (as_bits r) = thenM BitReader_fillStore ?m' (as_bits r)"
    by (simp only: as_bits_simps h)
  show ?thesis
    unfolding l r
  proof (rule map_state_thenM)
    show "map_state as_bits (ByteReader_fillStore r) = BitReader_fillStore (as_bits r)"
      by (rule as_bits_fillStore)
    fix a t
    show "map_state as_bits (?m t) = ?m' (as_bits t)"
    proof (cases "BytesInStore t < h")
      case False
      have "map_state as_bits (bindM (ByteReader_readFullBytes64V h)
            (\<lambda>t. definedM (shl64 (h * 8) w) (\<lambda>o'. retM (o' OR t))) t)
          = bindM (BitReader_readFullBits64V (8 * h))
            (\<lambda>t. definedM (shl64 (8 * h) w) (\<lambda>o'. retM (o' OR t))) (as_bits t)"
        using False h(2)
        by (intro map_state_bindM as_bits_readFull)
          (auto simp: definedM_def mult.commute split: option.split)
      then show ?thesis using False by simp
    qed simp
  qed
qed

lemma as_bits_readNBits:
  assumes "n \<le> 64"
  shows "map_state as_bits (ByteReader_readNBits n r)
    = BitReader_readNBits (if n = 0 then 0 else 8 * MakeByteCount n) (as_bits r)"
proof -
  have "n \<noteq> 0 \<Longrightarrow> MakeByteCount n \<le> 8" using assms by (simp add: MakeByteCount_def)
  moreover have "MakeByteCount n \<noteq> 0" by (simp add: MakeByteCount_def)
  ultimately show ?thesis
    using as_bits_readFull [of "MakeByteCount n" r] as_bits_readPartial [of "MakeByteCount n" r]
    by (simp add: ByteReader_readNBits_def BitReader_readNBits_def Let_def)
qed

text \<open>A byte reader at bit \<open>p\<close>, which is then a multiple of eight.\<close>

definition by_at :: "bytes \<Rightarrow> ByteReader \<Rightarrow> nat \<Rightarrow> bool" where
  "by_at bs r p \<longleftrightarrow> br_at bs (as_bits r) p"

lemma by_at_new: "by_at bs (ByteReader_new bs) 0"
  by (simp add: by_at_def br_at_def ByteReader_new_def end_offset_def)

lemma ByteReader_readNBits_at:
  assumes "by_at bs r p" "n \<le> 56" "n \<noteq> 0" "p + 8 * MakeByteCount n \<le> 8 * length bs"
    and "n \<le> 8 \<or> length bs mod 8 = 0 \<or> length bs < 8"
  shows "\<exists>r'. ByteReader_readNBits n r = Ret (stream_word bs p (8 * MakeByteCount n)) r'
    \<and> by_at bs r' (p + 8 * MakeByteCount n)"
proof -
  have c: "8 * MakeByteCount n < 64" "n \<le> 8 \<Longrightarrow> MakeByteCount n = 1"
    using assms(2,3) by (simp_all add: MakeByteCount_def)
  have "n \<le> 8 \<Longrightarrow> 8 * MakeByteCount n \<le> 9" using c(2) by simp
  then obtain r' where r': "BitReader_readNBits (8 * MakeByteCount n) (as_bits r)
        = Ret (stream_word bs p (8 * MakeByteCount n)) r'"
      "br_at bs r' (p + 8 * MakeByteCount n)"
    using readNBits_at [OF assms(1) [unfolded by_at_def] c(1)] assms(4,5) by blast
  have "map_state as_bits (ByteReader_readNBits n r) = Ret (stream_word bs p (8 * MakeByteCount n)) r'"
    using as_bits_readNBits [of n r] assms(2,3) r'(1) by simp
  then show ?thesis using r'(2) by (auto simp: map_state_eq_iff by_at_def)
qed

lemma MakeByteCount_8: "MakeByteCount 8 = 1"
  by (simp add: MakeByteCount_def)

interpretation octets: octet_source "ByteReader_readNBits 8" "by_at bs" "stream_octet bs" "8 * length bs" for bs
  by unfold_locales
    (use ByteReader_readNBits_at [of _ _ _ 8] in \<open>auto simp: ucast_stream_octet MakeByteCount_8\<close>)

lemma octets_spells [simp]: "octet_source.spells (stream_octet bs) (8 * length bs) p ys = spelled bs p ys"
  by (simp add: octets.spells_def spelled_def)

lemma ByteReader_readBits64_readNBits:
  "n \<le> 64 \<Longrightarrow> ByteReader_readBits64 n r = ByteReader_readNBits n r"
  by (simp add: ByteReader_readBits64_def ByteReader_readNBits_def kBitsPerWord_def Let_def)

text \<open>Property C11. Seen as a bit reader, a byte reader that reads \<open>n\<close> bits reads the octets that hold
  them: same result, same errors, same faults, and related states after.\<close>

theorem ByteReader_refines_BitReader:
  assumes "n \<le> 64" "n \<noteq> 0"
  shows "map_state as_bits (ByteReader_readBits64 n r)
    = BitReader_readBits64 (8 * MakeByteCount n) (as_bits r)"
proof -
  have "8 * MakeByteCount n \<le> 64" using assms by (simp add: MakeByteCount_def)
  then show ?thesis
    using as_bits_readNBits [OF assms(1)] assms
    by (simp add: ByteReader_readBits64_readNBits readBits64_readNBits)
qed

theorem ByteReader_refines_BitReader_witness:
  "map_state as_bits (ByteReader_readBits64 11 (ByteReader_new [1, 2, 3]))
    = BitReader_readBits64 16 (as_bits (ByteReader_new [1, 2, 3]))"
  using ByteReader_refines_BitReader [of 11 "ByteReader_new [1, 2, 3]"] by (simp add: MakeByteCount_def)

text \<open>The byte reader decodes integers and strings of the format to the same values.\<close>

theorem ByteReader_decodes:
  assumes "by_at bs r p" "spelled bs p (enc_string rs)" "list_all (\<lambda>c. c \<le> 0x10ffff) rs" "length rs < 2 ^ 56"
  shows "\<exists>r1 r2. ByteReader_readUInt r = Ret (of_nat (length rs)) r1
    \<and> ByteReader_decodeString r = Ret (concat (map RuneEncoder_EncodeValid rs)) r2
    \<and> by_at bs r2 (p + 8 * length (enc_string rs))"
proof -
  have "spelled bs p (enc_uint (length rs))"
    using assms(2) unfolding enc_string_def by (rule spelled_prefix)
  then show ?thesis
    using octets.readNByteUInt_ok [OF assms(1), of "length rs" 8] octets.decodeString_ok [OF assms(1), of rs] assms(2-4)
    by (auto simp: ByteReader_readUInt_def ByteReader_decodeString_def)
qed

theorem ByteReader_decodes_witness:
  "\<exists>r2. ByteReader_decodeString (ByteReader_new [1, 0xE9, 1]) = Ret [0xC3, 0xA9] r2"
proof -
  have "enc_string [0xE9] = [1, 0xE9, 1]" by (simp add: enc_string_def enc_uint_small enc_uint_big)
  then show ?thesis
    using ByteReader_decodes [OF by_at_new, of "[1, 0xE9, 1]" "[0xE9]"] spelled_self [of "[1, 0xE9, 1]"]
    by (auto simp: RuneEncoder_EncodeValid_def)
qed

text \<open>An eight-octet read served from the store alone shifts the 64-bit store by 64, which
  C++ leaves undefined; no read of at most 56 bits does.\<close>

theorem ByteReader_wide_read:
  "BytesInStore r = 8 \<Longrightarrow> ByteReader_readBits64 57 r = Fault Undefined"
  by (simp add: ByteReader_readBits64_def kBitsPerWord_def MakeByteCount_def Let_def
      ByteReader_readFullBytes64V_def ByteReader_readImpl_def shl64_def)

theorem ByteReader_wide_read_witness:
  "ByteReader_readBits64 57 \<lparr>Stream = [], ByteOffset = 0, Store = 0, BytesInStore = 8\<rparr> = Fault Undefined"
  by (rule ByteReader_wide_read) simp

end
