(* ===== verification/OrdReader.thy ===== *)
theory OrdReader
  imports ByteReader
begin

text \<open>
  \<open>OrdReader\<close> (\<open>exi/Stream/OrderedReader.hpp\<close>), the tagged union of the two readers, with its
  virtual calls. The locale \<open>code_source\<close> is the interface the grammars read event codes through;
  it is interpreted on the bit reader, the byte reader and the union.
\<close>

section \<open>Dispatch\<close>

datatype OrdReader =
    OrdBit BitReader
  | OrdByte ByteReader

text \<open>A call on the active reader.\<close>

definition OrdReader_call ::
  "(BitReader \<Rightarrow> ('a, BitReader) exi) \<Rightarrow> (ByteReader \<Rightarrow> ('a, ByteReader) exi) \<Rightarrow> OrdReader \<Rightarrow> ('a, OrdReader) exi" where
  "OrdReader_call fbit fbyte r =
    (case r of OrdBit b \<Rightarrow> map_state OrdBit (fbit b) | OrdByte b \<Rightarrow> map_state OrdByte (fbyte b))"

definition OrdReader_readBit :: "OrdReader \<Rightarrow> (bool, OrdReader) exi" where
  "OrdReader_readBit = OrdReader_call BitReader_readBit ByteReader_readBit"

definition OrdReader_readBits64 :: "nat \<Rightarrow> OrdReader \<Rightarrow> (64 word, OrdReader) exi" where
  "OrdReader_readBits64 n = OrdReader_call (BitReader_readBits64 n) (ByteReader_readBits64 n)"

definition OrdReader_readUInt :: "OrdReader \<Rightarrow> (64 word, OrdReader) exi" where
  "OrdReader_readUInt = OrdReader_call BitReader_readUInt ByteReader_readUInt"

definition OrdReader_readString :: "64 word \<Rightarrow> OrdReader \<Rightarrow> (bytes, OrdReader) exi" where
  "OrdReader_readString n = OrdReader_call (BitReader_readString n) (ByteReader_readString n)"

definition OrdReader_decodeString :: "OrdReader \<Rightarrow> (bytes, OrdReader) exi" where
  "OrdReader_decodeString = OrdReader_call BitReader_decodeString ByteReader_decodeString"

definition OrdReader_getProxy :: "OrdReader \<Rightarrow> StreamProxy" where
  "OrdReader_getProxy r = (case r of OrdBit b \<Rightarrow> BitReader_getProxy b | OrdByte b \<Rightarrow> ByteReader_getProxy b)"

definition OrdReader_hasData :: "OrdReader \<Rightarrow> bool" where
  "OrdReader_hasData r = (case r of OrdBit b \<Rightarrow> hasData b | OrdByte b \<Rightarrow> hasData b)"

primrec isBitReader :: "OrdReader \<Rightarrow> bool" where
  "isBitReader (OrdBit b) = True"
| "isBitReader (OrdByte b) = False"

lemma OrdReader_call_kind:
  "leaves (\<lambda>r'. isBitReader r' = isBitReader r) (OrdReader_call f g r)"
  by (cases r; cases "f (case r of OrdBit b \<Rightarrow> b | _ \<Rightarrow> undefined)";
      cases "g (case r of OrdByte b \<Rightarrow> b | _ \<Rightarrow> undefined)") (simp_all add: OrdReader_call_def)

text \<open>A reader at bit \<open>p\<close> of its stream.\<close>

definition or_at :: "bytes \<Rightarrow> OrdReader \<Rightarrow> nat \<Rightarrow> bool" where
  "or_at bs r p = (case r of OrdBit b \<Rightarrow> br_at bs b p | OrdByte b \<Rightarrow> by_at bs b p)"

section \<open>A source of event codes\<close>

text \<open>
  \<open>holds s xs\<close> says that the parts \<open>xs\<close> of event codes, each with its width and its value, are
  next in the source \<open>s\<close>. The law: reading a width that is next yields its value and leaves the
  rest.
\<close>

locale code_source =
  fixes rd :: "nat \<Rightarrow> 's \<Rightarrow> (64 word, 's) exi"
    and holds :: "'s \<Rightarrow> (nat \<times> nat) list \<Rightarrow> bool"
  assumes rd_next: "holds s ((n, v) # xs) \<Longrightarrow> \<exists>s'. rd n s = Ret (of_nat v) s' \<and> holds s' xs"
    and holds_fits: "holds s ((n, v) # xs) \<Longrightarrow> n \<le> 8 \<and> v < 2 ^ n"
begin

lemma rd_nat:
  assumes "holds s ((n, v) # xs)"
  shows "\<exists>w s'. rd n s = Ret w s' \<and> unat w = v \<and> holds s' xs"
proof -
  obtain s' where "rd n s = Ret (of_nat v) s'" "holds s' xs" using rd_next [OF assms] by blast
  moreover have "unat (of_nat v :: 64 word) = v"
  proof -
    have "(2 :: nat) ^ n \<le> 2 ^ 8" using holds_fits [OF assms] by (intro power_increasing) auto
    moreover have "(2 :: nat) ^ 8 < 2 ^ 64" by simp
    ultimately have "v < 2 ^ 64" using holds_fits [OF assms] by linarith
    then show ?thesis by (simp only: unsigned_of_nat) (simp add: take_bit_nat_eq_self)
  qed
  ultimately show ?thesis by auto
qed

end

text \<open>The parts are in the stream from bit \<open>p\<close> on, each in the number of bits the reader takes
  for its width.\<close>

primrec codes_at :: "(nat \<Rightarrow> nat) \<Rightarrow> bytes \<Rightarrow> nat \<Rightarrow> (nat \<times> nat) list \<Rightarrow> bool" where
  "codes_at w bs p [] \<longleftrightarrow> True"
| "codes_at w bs p (x # xs) \<longleftrightarrow> fst x \<le> 8 \<and> snd x < 2 ^ fst x \<and> p + w (fst x) \<le> 8 * length bs
     \<and> stream_word bs p (w (fst x)) = of_nat (snd x) \<and> codes_at w bs (p + w (fst x)) xs"

definition octet_width :: "nat \<Rightarrow> nat" where
  "octet_width n = (if n = 0 then 0 else 8)"

definition bit_codes :: "BitReader \<Rightarrow> (nat \<times> nat) list \<Rightarrow> bool" where
  "bit_codes r xs \<longleftrightarrow> (\<exists>bs p. br_at bs r p \<and> codes_at id bs p xs)"

definition byte_codes :: "ByteReader \<Rightarrow> (nat \<times> nat) list \<Rightarrow> bool" where
  "byte_codes r xs \<longleftrightarrow> (\<exists>bs p. by_at bs r p \<and> codes_at octet_width bs p xs)"

definition ord_codes :: "OrdReader \<Rightarrow> (nat \<times> nat) list \<Rightarrow> bool" where
  "ord_codes r xs = (case r of OrdBit b \<Rightarrow> bit_codes b xs | OrdByte b \<Rightarrow> byte_codes b xs)"

lemma bit_codes_next:
  assumes "bit_codes r ((n, v) # xs)"
  shows "\<exists>r'. BitReader_readBits64 n r = Ret (of_nat v) r' \<and> bit_codes r' xs"
proof -
  obtain bs p where b: "br_at bs r p" "n \<le> 8" "p + n \<le> 8 * length bs" "stream_word bs p n = of_nat v"
      "codes_at id bs (p + n) xs"
    using assms by (auto simp: bit_codes_def)
  then obtain r' where "BitReader_readNBits n r = Ret (of_nat v) r'" "br_at bs r' (p + n)"
    using readNBits_at [OF b(1), of n] by auto
  then show ?thesis using b by (auto simp: readBits64_readNBits bit_codes_def)
qed

lemma byte_codes_next:
  assumes "byte_codes r ((n, v) # xs)"
  shows "\<exists>r'. ByteReader_readBits64 n r = Ret (of_nat v) r' \<and> byte_codes r' xs"
proof -
  obtain bs p where b: "by_at bs r p" "n \<le> 8" "p + octet_width n \<le> 8 * length bs"
      "stream_word bs p (octet_width n) = of_nat v" "codes_at octet_width bs (p + octet_width n) xs"
    using assms by (auto simp: byte_codes_def)
  show ?thesis
  proof (cases "n = 0")
    case True
    then show ?thesis using b
      by (auto simp: ByteReader_readBits64_readNBits ByteReader_readNBits_def octet_width_def byte_codes_def)
  next
    case False
    then have "8 * MakeByteCount n = 8" "octet_width n = 8" using b(2) by (simp_all add: MakeByteCount_def octet_width_def)
    then show ?thesis
      using ByteReader_readNBits_at [OF b(1), of n] b False
      by (auto simp: ByteReader_readBits64_readNBits byte_codes_def)
  qed
qed

lemma codes_fits:
  "bit_codes r ((n, v) # xs) \<Longrightarrow> n \<le> 8 \<and> v < 2 ^ n" "byte_codes b ((n, v) # xs) \<Longrightarrow> n \<le> 8 \<and> v < 2 ^ n"
  by (auto simp: bit_codes_def byte_codes_def)

interpretation bitc: code_source BitReader_readBits64 bit_codes
  by unfold_locales (auto dest: bit_codes_next codes_fits)

interpretation bytec: code_source ByteReader_readBits64 byte_codes
  by unfold_locales (auto dest: byte_codes_next codes_fits)

lemma ord_codes_next:
  assumes "ord_codes r ((n, v) # xs)"
  shows "\<exists>r'. OrdReader_readBits64 n r = Ret (of_nat v) r' \<and> ord_codes r' xs"
proof (cases r)
  case (OrdBit b)
  then show ?thesis using assms bitc.rd_next [of b n v xs]
    by (auto simp: ord_codes_def OrdReader_readBits64_def OrdReader_call_def)
next
  case (OrdByte b)
  then show ?thesis using assms bytec.rd_next [of b n v xs]
    by (auto simp: ord_codes_def OrdReader_readBits64_def OrdReader_call_def)
qed

lemma ord_codes_fits: "ord_codes r ((n, v) # xs) \<Longrightarrow> n \<le> 8 \<and> v < 2 ^ n"
  by (cases r) (auto simp: ord_codes_def dest: codes_fits)

interpretation ordc: code_source OrdReader_readBits64 ord_codes
  by unfold_locales (blast dest: ord_codes_next ord_codes_fits)+

end
