(* ===== verification/CompactID.thy ===== *)
theory CompactID
  imports Prelude
begin

text \<open>
  \<open>CompactIDLog2\<close> and \<open>CompactIDCounter\<close> (\<open>exi/Basic/CompactID.hpp\<close>) over the binary logarithms
  of \<open>core/Support/MathExtras.hpp\<close>. A \<open>CompactID\<close> is a 64-bit number; counts and logarithms are
  naturals with the wrap-around of the C++ arithmetic written out.
\<close>

section \<open>Binary logarithms\<close>

fun bit_length :: "nat \<Rightarrow> nat" where
  "bit_length n = (if n = 0 then 0 else Suc (bit_length (n div 2)))"

declare bit_length.simps [simp del]

text \<open>\<open>std::countl_zero\<close> of a value of the given width.\<close>

definition countl_zero :: "nat \<Rightarrow> nat \<Rightarrow> nat" where
  "countl_zero w v = w - bit_length v"

text \<open>The \<open>int\<close> difference is converted to \<open>unsigned\<close>: it wraps for zero.\<close>

definition Log2_32 :: "nat \<Rightarrow> nat" where
  "Log2_32 v = nat ((31 - int (countl_zero 32 v)) mod 2 ^ 32)"

definition Log2_64 :: "nat \<Rightarrow> nat" where
  "Log2_64 v = nat ((63 - int (countl_zero 64 v)) mod 2 ^ 32)"

definition Log2_32_Ceil :: "nat \<Rightarrow> nat" where
  "Log2_32_Ceil v = nat ((32 - int (countl_zero 32 ((v + 2 ^ 32 - 1) mod 2 ^ 32))) mod 2 ^ 32)"

definition Log2_64_Ceil :: "nat \<Rightarrow> nat" where
  "Log2_64_Ceil v = nat ((64 - int (countl_zero 64 ((v + 2 ^ 64 - 1) mod 2 ^ 64))) mod 2 ^ 32)"

lemma bit_length_0 [simp]: "bit_length 0 = 0"
  by (simp add: bit_length.simps)

lemma bit_length_le_iff: "bit_length n \<le> k \<longleftrightarrow> n < 2 ^ k"
proof (induction n arbitrary: k rule: bit_length.induct)
  case (1 n)
  show ?case
  proof (cases "n = 0")
    case False
    then show ?thesis
    proof (cases k)
      case (Suc j)
      have "bit_length n \<le> k \<longleftrightarrow> bit_length (n div 2) \<le> j"
        using False Suc by (simp add: bit_length.simps [of n])
      also have "\<dots> \<longleftrightarrow> n div 2 < 2 ^ j" using 1 [OF False] .
      also have "\<dots> \<longleftrightarrow> n < 2 ^ k" using Suc by (simp add: div_less_iff_less_mult mult.commute)
      finally show ?thesis .
    qed (simp add: bit_length.simps [of n])
  qed simp
qed

lemma bit_length_pos: "0 < n \<Longrightarrow> 0 < bit_length n"
  by (simp add: bit_length.simps [of n])

lemma Log2_64_bit_length:
  assumes "0 < v" "v < 2 ^ 64"
  shows "Log2_64 v = bit_length v - 1"
proof -
  have "0 < bit_length v" "bit_length v \<le> 64" using assms bit_length_pos bit_length_le_iff by auto
  then show ?thesis by (simp add: Log2_64_def countl_zero_def)
qed

lemma Log2_64_0: "Log2_64 0 = 2 ^ 32 - 1"
  by (simp add: Log2_64_def countl_zero_def)

section \<open>CompactIDLog2\<close>

text \<open>The template flag \<open>NeverZero\<close> turns the test for zero into an invariant. The sum is computed
  in \<open>unsigned\<close>.\<close>

definition CompactIDLog2 :: "nat \<Rightarrow> nat" where
  "CompactIDLog2 i = (if i = 0 then 0 else (Log2_64 (i - 1) + 1) mod 2 ^ 32)"

definition CompactIDLog2_NeverZero :: "nat \<Rightarrow> 's \<Rightarrow> ('e, nat, 's) outcome" where
  "CompactIDLog2_NeverZero i =
    thenM (invariantM (\<lambda>_. 0 < i)) (retM ((Log2_64 (i - 1) + 1) mod 2 ^ 32))"

lemma CompactIDLog2_bit_length: "i \<le> 2 ^ 64 \<Longrightarrow> CompactIDLog2 i = bit_length (i - 1)"
proof (cases "i \<le> 1")
  case True
  then show ?thesis by (cases i) (simp_all add: CompactIDLog2_def Log2_64_0)
next
  case False
  moreover assume "i \<le> 2 ^ 64"
  ultimately have i: "0 < i - 1" "i - 1 < 2 ^ 64" by simp_all
  then have "bit_length (i - 1) \<le> 64" "0 < bit_length (i - 1)"
    using bit_length_pos bit_length_le_iff by blast+
  then show ?thesis using False Log2_64_bit_length [OF i] by (simp add: CompactIDLog2_def)
qed

lemma CompactIDLog2_fits: "0 < i \<Longrightarrow> i \<le> 2 ^ 64 \<Longrightarrow> i \<le> 2 ^ CompactIDLog2 i"
  using bit_length_le_iff [of "i - 1" "CompactIDLog2 i"] by (simp add: CompactIDLog2_bit_length)

text \<open>For every 64-bit ID, \<open>CompactIDLog2\<close> is the least number of bits that tell that many
  values apart, that is the logarithm rounded up.\<close>

theorem CompactIDLog2_least:
  assumes "i < 2 ^ 64"
  shows "CompactIDLog2 i \<le> k \<longleftrightarrow> i \<le> 2 ^ k"
proof (cases "i = 0")
  case False
  then show ?thesis
    using assms bit_length_le_iff [of "i - 1" k] by (auto simp: CompactIDLog2_bit_length)
qed (simp add: CompactIDLog2_def)

theorem CompactIDLog2_least_witness: "CompactIDLog2 5 \<le> 3 \<and> \<not> CompactIDLog2 5 \<le> 2"
  using CompactIDLog2_least [of 5 3] CompactIDLog2_least [of 5 2] by simp

lemma CompactIDLog2_small:
  "CompactIDLog2 0 = 0" "CompactIDLog2 1 = 0" "CompactIDLog2 2 = 1" "CompactIDLog2 3 = 2"
  "CompactIDLog2 (Suc 0) = 0"
  by (simp_all add: CompactIDLog2_bit_length bit_length.simps)

section \<open>Counters\<close>

text \<open>The template parameter \<open>Offset\<close> is an argument of the operations; a counter with a nonzero
  offset uses the \<open>NeverZero\<close> logarithm.\<close>

record CompactIDCounter =
  Value :: nat
  LogValue :: nat

definition CompactIDCounter_Log2 :: "nat \<Rightarrow> nat \<Rightarrow> 's \<Rightarrow> ('e, nat, 's) outcome" where
  "CompactIDCounter_Log2 offset i =
    (if offset \<noteq> 0 then CompactIDLog2_NeverZero i else retM (CompactIDLog2 i))"

definition CompactIDCounter_zero :: CompactIDCounter where
  "CompactIDCounter_zero = \<lparr>Value = 0, LogValue = 0\<rparr>"

text \<open>The constructor takes the logarithm of the start value without the offset.\<close>

definition CompactIDCounter_new :: "nat \<Rightarrow> nat \<Rightarrow> 's \<Rightarrow> ('e, CompactIDCounter, 's) outcome" where
  "CompactIDCounter_new offset start =
    bindM (CompactIDCounter_Log2 offset start) (\<lambda>l. retM \<lparr>Value = start, LogValue = l\<rparr>)"

definition recalculateLog :: "nat \<Rightarrow> CompactIDCounter \<Rightarrow> ('e, unit, CompactIDCounter) outcome" where
  "recalculateLog offset c =
    bindM (CompactIDCounter_Log2 offset ((Value c + offset) mod 2 ^ 64))
      (\<lambda>l. modM (\<lambda>c. c\<lparr>LogValue := l\<rparr>)) c"

definition CompactIDCounter_bytes :: "CompactIDCounter \<Rightarrow> nat" where
  "CompactIDCounter_bytes c = (if Value c = 0 then 0 else LogValue c div 8 + 1)"

definition CompactIDCounter_add :: "nat \<Rightarrow> nat \<Rightarrow> CompactIDCounter \<Rightarrow> ('e, unit, CompactIDCounter) outcome" where
  "CompactIDCounter_add offset i =
    thenM (modM (\<lambda>c. c\<lparr>Value := (Value c + i) mod 2 ^ 64\<rparr>)) (recalculateLog offset)"

definition CompactIDCounter_inc :: "nat \<Rightarrow> CompactIDCounter \<Rightarrow> ('e, unit, CompactIDCounter) outcome" where
  "CompactIDCounter_inc offset =
    thenM (modM (\<lambda>c. c\<lparr>Value := (Value c + 1) mod 2 ^ 64\<rparr>)) (recalculateLog offset)"

definition CompactIDCounter_set :: "nat \<Rightarrow> nat \<Rightarrow> CompactIDCounter \<Rightarrow> ('e, unit, CompactIDCounter) outcome" where
  "CompactIDCounter_set offset i =
    thenM (modM (\<lambda>c. c\<lparr>Value := i\<rparr>)) (recalculateLog offset)"

text \<open>What the counter promises: its logarithm is that of the value plus the offset.\<close>

definition counter_ok :: "nat \<Rightarrow> CompactIDCounter \<Rightarrow> bool" where
  "counter_ok offset c \<longleftrightarrow> LogValue c = CompactIDLog2 (Value c + offset)"

lemma recalculateLog_ok:
  assumes "Value c + offset < 2 ^ 64"
  shows "recalculateLog offset c = Ret () (c\<lparr>LogValue := CompactIDLog2 (Value c + offset)\<rparr>)"
  using assms by (simp add: recalculateLog_def CompactIDCounter_Log2_def CompactIDLog2_NeverZero_def CompactIDLog2_def)

lemma CompactIDCounter_add_ok:
  assumes "Value c + i + offset < 2 ^ 64"
  shows "CompactIDCounter_add offset i c
    = Ret () (c\<lparr>Value := Value c + i, LogValue := CompactIDLog2 (Value c + i + offset)\<rparr>)"
  using assms recalculateLog_ok [of "c\<lparr>Value := Value c + i\<rparr>" offset] by (simp add: CompactIDCounter_add_def)

lemma CompactIDCounter_inc_ok:
  assumes "Value c + 1 + offset < 2 ^ 64"
  shows "CompactIDCounter_inc offset c
    = Ret () (c\<lparr>Value := Value c + 1, LogValue := CompactIDLog2 (Value c + 1 + offset)\<rparr>)"
  using assms recalculateLog_ok [of "c\<lparr>Value := Value c + 1\<rparr>" offset] by (simp add: CompactIDCounter_inc_def)

text \<open>The byte width a counter reports is one more than needed whenever its bit width is a
  positive multiple of eight.\<close>

theorem CompactIDCounter_bytes_excess:
  assumes "counter_ok 0 c" "Value c < 2 ^ 64" "1 < Value c"
  shows "CompactIDCounter_bytes c = (LogValue c + 7) div 8 + (if LogValue c mod 8 = 0 then 1 else 0)"
  using assms by (simp add: CompactIDCounter_bytes_def) presburger

theorem CompactIDCounter_bytes_excess_witness:
  "CompactIDCounter_bytes \<lparr>Value = 256, LogValue = 8\<rparr> = 2"
proof -
  have "CompactIDLog2 256 = 8" by (simp add: CompactIDLog2_bit_length bit_length.simps)
  then show ?thesis
    using CompactIDCounter_bytes_excess [of "\<lparr>Value = 256, LogValue = 8\<rparr>"] by (simp add: counter_ok_def)
qed

end
