(* ===== verification/EventCodes.thy ===== *)
theory EventCodes
  imports Prelude
begin

text \<open>
  Event terms, compressed qualified names and event identifiers
  (\<open>exi/Basic/EventCodes.hpp\<close>, \<open>lib/exi/Basic/EventCodes.cpp\<close>). The bit-fields are naturals that
  every construction truncates to the width of the field.
\<close>

datatype EventTerm =
    SD
  | ED
  | SE
  | SEUri
  | SEQName
  | EE
  | AT
  | ATUri
  | ATQName
  | CH
  | CHExtern
  | NS
  | CM
  | PI
  | DT
  | ER
  | SC
  | Void

primrec EventTerm_value :: "EventTerm \<Rightarrow> nat" where
  "EventTerm_value SD = 0"
| "EventTerm_value ED = 1"
| "EventTerm_value SE = 2"
| "EventTerm_value SEUri = 3"
| "EventTerm_value SEQName = 4"
| "EventTerm_value EE = 5"
| "EventTerm_value AT = 6"
| "EventTerm_value ATUri = 7"
| "EventTerm_value ATQName = 8"
| "EventTerm_value CH = 9"
| "EventTerm_value CHExtern = 10"
| "EventTerm_value NS = 11"
| "EventTerm_value CM = 12"
| "EventTerm_value PI = 13"
| "EventTerm_value DT = 14"
| "EventTerm_value ER = 15"
| "EventTerm_value SC = 16"
| "EventTerm_value Void = 17"

definition EventTermNames :: "string list" where
  "EventTermNames = [
    ''SD'', ''ED'',
    ''SE'', ''SE'', ''SE'',
    ''EE'',
    ''AT'', ''AT'', ''AT'',
    ''CH'', ''CH'',
    ''NS'',
    ''CM'',
    ''PI'', ''DT'', ''ER'',
    ''SC'']"

definition EventTermFullNames :: "string list" where
  "EventTermFullNames = [
    ''SD'', ''ED'',
    ''SE (*)'',
    ''SE (uri:*)'',
    ''SE (qname)'',
    ''EE'',
    ''AT (*)'',
    ''AT (uri:)'',
    ''AT (qname)'',
    ''CH'',
    ''CH (ext)'',
    ''NS'',
    ''CM'',
    ''PI'', ''DT'', ''ER'',
    ''SC'']"

definition EventTermMessages :: "string list" where
  "EventTermMessages = [
    ''Start Document'',
    ''End Document'',
    ''Start Element (*)'',
    ''Start Element (uri:*)'',
    ''Start Element (qname)'',
    ''End Element'',
    ''Attribute (*, value)'',
    ''Attribute (uri:*, value)'',
    ''Attribute (qname, value)'',
    ''Characters (value)'',
    ''Characters (external-value)'',
    ''Namespace Declaration (uri, prefix, local-element-ns)'',
    ''Comment text (text)'',
    ''Processing Instruction (name, text)'',
    ''DOCTYPE (name, public, system, text)'',
    ''Entity Reference (name)'',
    ''Self Contained'']"

text \<open>The name lookups take any 32-bit signed value.\<close>

definition get_event_name :: "int \<Rightarrow> string" where
  "get_event_name ix = (if ix < int (length EventTermNames) \<and> 0 \<le> ix then EventTermNames ! nat ix else ''??'')"

definition get_event_fullname :: "int \<Rightarrow> string" where
  "get_event_fullname ix =
    (if ix < int (length EventTermFullNames) \<and> 0 \<le> ix then EventTermFullNames ! nat ix else ''??'')"

definition get_event_signature :: "int \<Rightarrow> string" where
  "get_event_signature ix =
    (if ix < int (length EventTermMessages) \<and> 0 \<le> ix then EventTermMessages ! nat ix else ''Unknown Event'')"

section \<open>SmallQName\<close>

definition kInvalidURI :: nat where "kInvalidURI = 0xFFFF"
definition kInvalidLNI :: nat where "kInvalidLNI = 0xFFFFFFFFFFFF"
definition kInvalidPrefix :: nat where "kInvalidPrefix = 0xFF"
definition kInvalidTerm :: nat where "kInvalidTerm = 0b1111111"
definition kInvalidVID :: nat where "kInvalidVID = 0xFFFFFFFFFFFF"

lemmas invalid_defs = kInvalidURI_def kInvalidLNI_def kInvalidPrefix_def kInvalidTerm_def kInvalidVID_def

record SmallQName =
  LocalID :: nat
  URI :: nat

definition SmallQName_NewAny :: SmallQName where
  "SmallQName_NewAny = \<lparr>LocalID = kInvalidLNI, URI = kInvalidURI\<rparr>"

definition SmallQName_NewURI :: "nat \<Rightarrow> SmallQName" where
  "SmallQName_NewURI u = \<lparr>LocalID = kInvalidLNI, URI = u mod 2 ^ 16\<rparr>"

definition SmallQName_NewQName :: "nat \<Rightarrow> nat \<Rightarrow> 's \<Rightarrow> ('e, SmallQName, 's) outcome" where
  "SmallQName_NewQName u n =
    thenM (invariantM (\<lambda>_. u < kInvalidURI \<and> n < kInvalidLNI)) (retM \<lparr>LocalID = n, URI = u\<rparr>)"

definition SmallQName_hasURI :: "SmallQName \<Rightarrow> bool" where
  "SmallQName_hasURI q \<longleftrightarrow> URI q \<noteq> kInvalidURI"

text \<open>Both name tests of the source compare the URI.\<close>

definition SmallQName_hasLocalName :: "SmallQName \<Rightarrow> bool" where
  "SmallQName_hasLocalName q \<longleftrightarrow> URI q \<noteq> kInvalidLNI"

definition SmallQName_hasName :: "SmallQName \<Rightarrow> bool" where
  "SmallQName_hasName q \<longleftrightarrow> URI q \<noteq> kInvalidLNI"

definition SmallQName_isAny :: "SmallQName \<Rightarrow> bool" where
  "SmallQName_isAny q \<longleftrightarrow> q = SmallQName_NewAny"

definition SmallQName_isUri :: "SmallQName \<Rightarrow> bool" where
  "SmallQName_isUri q \<longleftrightarrow> SmallQName_hasURI q \<and> \<not> SmallQName_hasName q"

definition SmallQName_isQName :: "SmallQName \<Rightarrow> bool" where
  "SmallQName_isQName q \<longleftrightarrow> SmallQName_hasURI q \<and> SmallQName_hasName q"

section \<open>EventUID\<close>

record EventUID =
  ValueID :: nat
  Prefix :: nat
  Term :: nat
  IsLocal :: bool
  Name :: SmallQName

definition EventUID_NewNull :: EventUID where
  "EventUID_NewNull = \<lparr>ValueID = kInvalidVID, Prefix = kInvalidPrefix, Term = kInvalidTerm,
     IsLocal = False, Name = SmallQName_NewAny\<rparr>"

definition EventUID_NewTerm :: "EventTerm \<Rightarrow> EventUID" where
  "EventUID_NewTerm t = EventUID_NewNull\<lparr>Term := EventTerm_value t\<rparr>"

definition EventUID_NewQName :: "SmallQName \<Rightarrow> nat option \<Rightarrow> EventUID" where
  "EventUID_NewQName q pfx = (let real = (case pfx of None \<Rightarrow> kInvalidPrefix | Some p \<Rightarrow> p) in
     EventUID_NewNull\<lparr>Prefix := real mod 2 ^ 8, Name := q\<rparr>)"

definition EventUID_NewNS :: "SmallQName \<Rightarrow> nat \<Rightarrow> bool \<Rightarrow> EventUID" where
  "EventUID_NewNS q pfx local = EventUID_NewNull\<lparr>Prefix := pfx mod 2 ^ 8, IsLocal := local, Name := q\<rparr>"

definition EventUID_NewGlobalValue :: "nat \<Rightarrow> EventUID" where
  "EventUID_NewGlobalValue i = EventUID_NewNull\<lparr>ValueID := i mod 2 ^ 48, IsLocal := False\<rparr>"

definition EventUID_NewLocalValue :: "SmallQName \<Rightarrow> nat \<Rightarrow> EventUID" where
  "EventUID_NewLocalValue q i = EventUID_NewNull\<lparr>ValueID := i mod 2 ^ 48, IsLocal := True, Name := q\<rparr>"

definition EventUID_hasTerm :: "EventUID \<Rightarrow> bool" where
  "EventUID_hasTerm e \<longleftrightarrow> Term e \<noteq> kInvalidTerm"
definition EventUID_hasURI :: "EventUID \<Rightarrow> bool" where
  "EventUID_hasURI e \<longleftrightarrow> SmallQName_hasURI (Name e)"
definition EventUID_hasName :: "EventUID \<Rightarrow> bool" where
  "EventUID_hasName e \<longleftrightarrow> SmallQName_hasLocalName (Name e)"
definition EventUID_hasQName :: "EventUID \<Rightarrow> bool" where
  "EventUID_hasQName e \<longleftrightarrow> SmallQName_isQName (Name e)"
definition EventUID_hasPrefix :: "EventUID \<Rightarrow> bool" where
  "EventUID_hasPrefix e \<longleftrightarrow> Prefix e \<noteq> kInvalidPrefix"
definition EventUID_hasValue :: "EventUID \<Rightarrow> bool" where
  "EventUID_hasValue e \<longleftrightarrow> ValueID e \<noteq> kInvalidVID"
definition EventUID_isGlobal :: "EventUID \<Rightarrow> bool" where
  "EventUID_isGlobal e \<longleftrightarrow> \<not> IsLocal e"

text \<open>Values above \<open>Void\<close> read as \<open>Void\<close>; the order of the list is the enumeration's.\<close>

definition EventTerms :: "EventTerm list" where
  "EventTerms = [SD, ED, SE, SEUri, SEQName, EE, AT, ATUri, ATQName, CH, CHExtern, NS, CM, PI, DT, ER, SC, Void]"

definition EventUID_GetTerm :: "nat \<Rightarrow> EventTerm" where
  "EventUID_GetTerm t = (if EventTerm_value Void < t then Void else EventTerms ! t)"

definition EventUID_getTerm :: "EventUID \<Rightarrow> EventTerm" where
  "EventUID_getTerm e = EventUID_GetTerm (Term e)"

definition EventUID_getURI :: "EventUID \<Rightarrow> 's \<Rightarrow> ('e, nat, 's) outcome" where
  "EventUID_getURI e = thenM (invariantM (\<lambda>_. EventUID_hasURI e)) (retM (URI (Name e)))"

definition EventUID_getName :: "EventUID \<Rightarrow> 's \<Rightarrow> ('e, nat, 's) outcome" where
  "EventUID_getName e = thenM (invariantM (\<lambda>_. EventUID_hasName e)) (retM (LocalID (Name e)))"

definition EventUID_getPrefix :: "EventUID \<Rightarrow> 's \<Rightarrow> ('e, nat, 's) outcome" where
  "EventUID_getPrefix e = thenM (invariantM (\<lambda>_. EventUID_hasPrefix e)) (retM (Prefix e))"

definition EventUID_getValue :: "EventUID \<Rightarrow> 's \<Rightarrow> ('e, nat, 's) outcome" where
  "EventUID_getValue e = thenM (invariantM (\<lambda>_. EventUID_hasValue e)) (retM (ValueID e))"

definition EventUID_setTerm :: "EventTerm \<Rightarrow> EventUID \<Rightarrow> EventUID" where
  "EventUID_setTerm t e = e\<lparr>Term := EventTerm_value t\<rparr>"

definition EventUID_bool :: "EventUID \<Rightarrow> bool" where
  "EventUID_bool e \<longleftrightarrow> EventUID_hasTerm e \<or> EventUID_hasName e \<or> EventUID_hasValue e"

section \<open>Facts\<close>

lemma GetTerm_value [simp]: "EventUID_GetTerm (EventTerm_value t) = t"
  by (cases t) (simp_all add: EventUID_GetTerm_def EventTerms_def)

lemma getTerm_NewTerm [simp]: "EventUID_getTerm (EventUID_NewTerm t) = t"
  by (simp add: EventUID_getTerm_def EventUID_NewTerm_def)

lemma getTerm_setTerm [simp]: "EventUID_getTerm (EventUID_setTerm t e) = t"
  by (simp add: EventUID_getTerm_def EventUID_setTerm_def)

lemma Name_setTerm [simp]: "Name (EventUID_setTerm t e) = Name e"
  by (simp add: EventUID_setTerm_def)

lemma getTerm_NewNull [simp]: "EventUID_getTerm EventUID_NewNull = Void"
  by (simp add: EventUID_getTerm_def EventUID_NewNull_def EventUID_GetTerm_def kInvalidTerm_def)

text \<open>The 16-bit URI field.\<close>

definition SmallQName_ok :: "SmallQName \<Rightarrow> bool" where
  "SmallQName_ok q \<longleftrightarrow> URI q < 2 ^ 16 \<and> LocalID q < 2 ^ 48"

lemma SmallQName_ok_new:
  "SmallQName_ok SmallQName_NewAny" "SmallQName_ok (SmallQName_NewURI u)"
  by (simp_all add: SmallQName_ok_def SmallQName_NewAny_def SmallQName_NewURI_def invalid_defs)

lemma isQName_iff: "SmallQName_ok q \<Longrightarrow> SmallQName_isQName q \<longleftrightarrow> URI q \<noteq> kInvalidURI"
  by (auto simp: SmallQName_isQName_def SmallQName_hasURI_def SmallQName_hasName_def SmallQName_ok_def
      invalid_defs)

text \<open>The tests for a local name compare the 16-bit URI with the 48-bit mark of a missing
  name, so every name passes: no name is ever reported as a \<open>uri:*\<close> wildcard, a wildcard
  counts as a full name, and every event identifier converts to true.\<close>

theorem qname_tests_vacuous:
  "SmallQName_hasLocalName (SmallQName_NewURI u) \<and> \<not> SmallQName_isUri (SmallQName_NewURI u)
    \<and> (SmallQName_isQName (SmallQName_NewURI u) \<longleftrightarrow> u mod 2 ^ 16 \<noteq> kInvalidURI)
    \<and> EventUID_bool EventUID_NewNull"
  by (auto simp: SmallQName_NewURI_def SmallQName_hasLocalName_def SmallQName_isUri_def
      SmallQName_isQName_def SmallQName_hasURI_def SmallQName_hasName_def EventUID_bool_def
      EventUID_hasName_def EventUID_NewNull_def SmallQName_NewAny_def invalid_defs)

end
