(* ===== verification/Grammar.thy ===== *)
theory Grammar
  imports OrdReader CompactID EventCodes
begin

text \<open>
  \<open>BuiltinGrammar\<close> (\<open>exi/Grammar/Grammar.hpp\<close>, \<open>lib/exi/Grammar/Grammar.cpp\<close>): the grammar the
  decoder learns for one element name. Its two lists hold the productions learned for the start
  tag and for the content, newest last; the newest has the first part 0 of the event code. The
  template parameter \<open>StrmT\<close> is the read operation of the stream.
\<close>

section \<open>State and operations\<close>

record BuiltinGrammar =
  StartTagLog :: nat
  ElementLog :: nat
  bg_Name :: SmallQName
  StartTag :: "EventUID list"
  Element :: "EventUID list"

definition BuiltinGrammar_new :: "SmallQName \<Rightarrow> BuiltinGrammar" where
  "BuiltinGrammar_new name = \<lparr>StartTagLog = 0, ElementLog = 1, bg_Name = name, StartTag = [], Element = []\<rparr>"

text \<open>A \<open>Result\<close>: a full event, or the first part of an event code.\<close>

datatype GrammarTerm =
    GTerm EventUID
  | GFirst nat

definition getLog :: "bool \<Rightarrow> BuiltinGrammar \<Rightarrow> nat" where
  "getLog isStart g = (if isStart then StartTagLog g else ElementLog g)"

definition getElts :: "bool \<Rightarrow> BuiltinGrammar \<Rightarrow> EventUID list" where
  "getElts isStart g = (if isStart then StartTag g else Element g)"

definition getStartTagCount :: "BuiltinGrammar \<Rightarrow> nat" where
  "getStartTagCount g = length (StartTag g) + 1"

definition getElementCount :: "BuiltinGrammar \<Rightarrow> nat" where
  "getElementCount g = length (Element g) + 2"

text \<open>The counts are narrowed to 32 bits.\<close>

definition setLog :: "bool \<Rightarrow> BuiltinGrammar \<Rightarrow> BuiltinGrammar" where
  "setLog isStart g =
    (if isStart then g\<lparr>StartTagLog := CompactIDLog2 (getStartTagCount g mod 2 ^ 32)\<rparr>
     else g\<lparr>ElementLog := CompactIDLog2 (getElementCount g mod 2 ^ 32)\<rparr>)"

definition BuiltinGrammar_addTerm :: "EventUID \<Rightarrow> bool \<Rightarrow> BuiltinGrammar \<Rightarrow> BuiltinGrammar" where
  "BuiltinGrammar_addTerm e isStart g =
    setLog isStart (if isStart then g\<lparr>StartTag := StartTag g @ [e]\<rparr> else g\<lparr>Element := Element g @ [e]\<rparr>)"

definition BuiltinGrammar_getTerm ::
  "(nat \<Rightarrow> 's \<Rightarrow> (64 word, 's) exi) \<Rightarrow> bool \<Rightarrow> BuiltinGrammar \<Rightarrow> 's \<Rightarrow> (GrammarTerm, 's) exi" where
  "BuiltinGrammar_getTerm rd isStart g =
    bindM (expectM Unreachable (rd (getLog isStart g))) (\<lambda>w.
      let n = length (getElts isStart g); out = unat w in
      retM (if out < n then GTerm (getElts isStart g ! (n - 1 - out)) else GFirst (out - n)))"

section \<open>What a grammar means\<close>

text \<open>The base productions take one first part at the start of an element and two in its content.
  The logarithms are up to date.\<close>

definition base_parts :: "bool \<Rightarrow> nat" where
  "base_parts isStart = (if isStart then 1 else 2)"

definition grammar_ok :: "BuiltinGrammar \<Rightarrow> bool" where
  "grammar_ok g \<longleftrightarrow> (\<forall>b. getLog b g = CompactIDLog2 (length (getElts b g) + base_parts b))"

text \<open>The event behind the first part \<open>k\<close> of a code: the \<open>k\<close>-th newest learned production, then the
  base productions.\<close>

definition grammar_meaning :: "bool \<Rightarrow> BuiltinGrammar \<Rightarrow> nat \<Rightarrow> GrammarTerm" where
  "grammar_meaning b g k =
    (if k < length (getElts b g) then GTerm (rev (getElts b g) ! k) else GFirst (k - length (getElts b g)))"

lemma grammar_ok_new: "grammar_ok (BuiltinGrammar_new q)"
  by (simp add: grammar_ok_def getLog_def getElts_def BuiltinGrammar_new_def base_parts_def CompactIDLog2_small
      flip: numeral_2_eq_2)

lemma getElts_addTerm:
  "getElts b (BuiltinGrammar_addTerm e c g) = (if b = c then getElts b g @ [e] else getElts b g)"
  by (simp add: getElts_def BuiltinGrammar_addTerm_def setLog_def)

lemma bg_Name_addTerm [simp]: "bg_Name (BuiltinGrammar_addTerm e c g) = bg_Name g"
  by (simp add: BuiltinGrammar_addTerm_def setLog_def)

lemma grammar_ok_addTerm:
  assumes "grammar_ok g" "length (getElts c g) + 3 < 2 ^ 32"
  shows "grammar_ok (BuiltinGrammar_addTerm e c g)"
proof -
  have three: "CompactIDLog2 (3 + n) = CompactIDLog2 (Suc (Suc (Suc n)))" for n
    by (rule arg_cong [where f = CompactIDLog2]) simp
  have "getLog b (BuiltinGrammar_addTerm e c g)
    = CompactIDLog2 (length (getElts b (BuiltinGrammar_addTerm e c g)) + base_parts b)" for b
    using assms
    by (cases b; cases c) (simp_all add: grammar_ok_def getLog_def getElts_def BuiltinGrammar_addTerm_def setLog_def
        base_parts_def getStartTagCount_def getElementCount_def all_bool_eq three)
  then show ?thesis by (simp add: grammar_ok_def)
qed

lemma grammar_meaning_addTerm:
  "grammar_meaning b (BuiltinGrammar_addTerm e b g) 0 = GTerm e"
  "grammar_meaning b (BuiltinGrammar_addTerm e b g) (Suc k) = grammar_meaning b g k"
  "b \<noteq> c \<Longrightarrow> grammar_meaning b (BuiltinGrammar_addTerm e c g) k = grammar_meaning b g k"
  by (simp_all add: grammar_meaning_def getElts_addTerm)

lemma grammar_codes_fit:
  assumes "grammar_ok g" "length (getElts b g) + 2 < 2 ^ 64"
  shows "length (getElts b g) + base_parts b \<le> 2 ^ getLog b g"
proof -
  have "0 < base_parts b" "base_parts b \<le> 2" by (simp_all add: base_parts_def)
  then show ?thesis
    using assms CompactIDLog2_fits [of "length (getElts b g) + base_parts b"] by (simp add: grammar_ok_def)
qed

context code_source
begin

lemma getTerm_meaning:
  assumes "holds s ((getLog b g, k) # xs)"
  shows "\<exists>s'. BuiltinGrammar_getTerm rd b g s = Ret (grammar_meaning b g k) s' \<and> holds s' xs"
proof -
  obtain w s' where w: "rd (getLog b g) s = Ret w s'" "unat w = k" "holds s' xs"
    using rd_nat [OF assms] by blast
  then have "BuiltinGrammar_getTerm rd b g s = Ret (grammar_meaning b g k) s'"
    by (simp add: BuiltinGrammar_getTerm_def expectM_def grammar_meaning_def rev_nth Let_def)
  then show ?thesis using w(3) by blast
qed

end

text \<open>Property C2. A production that a grammar learns gets the first part 0 of the event codes, every
  older production and every base production moves up by one, the other list keeps its codes, and the
  new width has room for all of them; the reader takes exactly that code.\<close>

theorem learned_production_codes:
  assumes "grammar_ok g" "length (getElts b g) + 3 < 2 ^ 32"
    and "ord_codes r ((getLog b (BuiltinGrammar_addTerm e b g), k) # xs)"
  shows "grammar_ok (BuiltinGrammar_addTerm e b g)
    \<and> length (getElts b g) + 1 + base_parts b \<le> 2 ^ getLog b (BuiltinGrammar_addTerm e b g)
    \<and> (\<exists>r'. BuiltinGrammar_getTerm OrdReader_readBits64 b (BuiltinGrammar_addTerm e b g) r
          = Ret (case k of 0 \<Rightarrow> GTerm e | Suc k' \<Rightarrow> grammar_meaning b g k') r' \<and> ord_codes r' xs)
    \<and> (\<forall>j. grammar_meaning (\<not> b) (BuiltinGrammar_addTerm e b g) j = grammar_meaning (\<not> b) g j)"
proof -
  have ok: "grammar_ok (BuiltinGrammar_addTerm e b g)" by (rule grammar_ok_addTerm [OF assms(1,2)])
  have "length (getElts b (BuiltinGrammar_addTerm e b g)) + base_parts b
      \<le> 2 ^ getLog b (BuiltinGrammar_addTerm e b g)"
    by (rule grammar_codes_fit [OF ok]) (use assms(2) in \<open>simp add: getElts_addTerm\<close>)
  then show ?thesis
    using ok ordc.getTerm_meaning [OF assms(3)]
    by (cases k) (simp_all add: grammar_meaning_addTerm getElts_addTerm)
qed

theorem learned_production_codes_witness:
  "\<exists>r'. BuiltinGrammar_getTerm OrdReader_readBits64 False
      (BuiltinGrammar_addTerm (EventUID_NewTerm CHExtern) False (BuiltinGrammar_new SmallQName_NewAny))
      (OrdBit (BitReader_new [0x40])) = Ret (GFirst 0) r'"
proof -
  let ?g = "BuiltinGrammar_new SmallQName_NewAny"
  have l: "getLog False (BuiltinGrammar_addTerm e False ?g) = 2" for e
    by (simp add: getLog_def BuiltinGrammar_addTerm_def setLog_def getElementCount_def BuiltinGrammar_new_def
        CompactIDLog2_small numeral_3_eq_3 [symmetric])
  have "stream_word [0x40] 0 2 = 1"
    by (simp add: stream_word_def stream_bits_def msb_word_def sbit_def upt_rec bit_simps)
  then have "ord_codes (OrdBit (BitReader_new [0x40])) ((getLog False (BuiltinGrammar_addTerm
      (EventUID_NewTerm CHExtern) False ?g), 1) # [])"
    using br_at_new [of "[0x40]"] by (auto simp: ord_codes_def bit_codes_def l intro!: exI [of _ "[0x40]"] exI [of _ 0])
  from learned_production_codes [OF grammar_ok_new _ this] show ?thesis
    by (auto simp: grammar_meaning_def getElts_def BuiltinGrammar_new_def)
qed

end
