(* ===== verification/ExiOptions.thy ===== *)
theory ExiOptions
  imports ErrorCodes
begin

text \<open>
  \<open>ExiOptions\<close> and \<open>ExiHeader\<close> (\<open>exi/Basic/ExiOptions.hpp\<close>, \<open>exi/Basic/ExiHeader.hpp\<close> and their
  \<open>.cpp\<close> files): the options record, its defaults, the conversions between the preservation
  flags and their mask, and the validation routines, with and without fixing the alignment up.
  The field \<open>UserData\<close> is never read by the program and is left out.
\<close>

record PreserveOpts =
  Comments :: bool
  DTDs :: bool
  LexicalValues :: bool
  PIs :: bool
  Prefixes :: bool

text \<open>\<open>SchemaID\<close> is an optional box that may itself hold no string; the datatype map is a box.
  The two bounded fields hold their \<open>Data\<close>.\<close>

record ExiOptions =
  Alignment :: AlignKind
  Compression :: bool
  Strict :: bool
  SelfContained :: bool
  Preserve :: PreserveOpts
  SchemaID :: "bytes option option"
  DatatypeRepresentationMap :: "(bytes \<times> bytes) list option"
  BlockSize :: "64 word"
  ValueMaxLength :: int
  ValuePartitionCapacity :: int

definition make_preserve_opts :: "PreserveKind \<Rightarrow> PreserveOpts" where
  "make_preserve_opts opts = \<lparr>
     Comments = PreserveBuilder_has opts PK_Comments,
     DTDs = PreserveBuilder_has opts PK_DTDs,
     LexicalValues = PreserveBuilder_has opts PK_LexicalValues,
     PIs = PreserveBuilder_has opts PK_PIs,
     Prefixes = PreserveBuilder_has opts PK_Prefixes\<rparr>"

definition MARK_PRESERVED :: "bool \<Rightarrow> PreserveKind \<Rightarrow> PreserveKind \<Rightarrow> PreserveKind" where
  "MARK_PRESERVED b k opts = (if b then PreserveBuilder_set opts k else opts)"

definition make_preserve_builder :: "PreserveOpts \<Rightarrow> PreserveKind" where
  "make_preserve_builder p =
    MARK_PRESERVED (Prefixes p) PK_Prefixes
     (MARK_PRESERVED (PIs p) PK_PIs
       (MARK_PRESERVED (LexicalValues p) PK_LexicalValues
         (MARK_PRESERVED (DTDs p) PK_DTDs
           (MARK_PRESERVED (Comments p) PK_Comments PK_None))))"

definition default_ExiOptions :: ExiOptions where
  "default_ExiOptions = \<lparr>
     Alignment = BitPacked, Compression = False, Strict = False, SelfContained = False,
     Preserve = \<lparr>Comments = False, DTDs = False, LexicalValues = False, PIs = False, Prefixes = False\<rparr>,
     SchemaID = None, DatatypeRepresentationMap = None, BlockSize = 1000000,
     ValueMaxLength = kUnbounded u64_t, ValuePartitionCapacity = kUnbounded u64_t\<rparr>"

section \<open>Validation\<close>

definition HasValidSchemaID :: "ExiOptions \<Rightarrow> bool" where
  "HasValidSchemaID o' = (case SchemaID o' of
      None \<Rightarrow> False
    | Some None \<Rightarrow> False
    | Some (Some i) \<Rightarrow> i \<noteq> [])"

text \<open>The schema check of the source is computed once and cached; it has no effect.\<close>

definition ValidateCommon :: "ExiOptions \<Rightarrow> ExiError" where
  "ValidateCommon o' =
    (if Compression o' \<and> Alignment o' \<noteq> PreCompression then HeaderAlign (Alignment o') True
     else if SelfContained o' \<and> Alignment o' = PreCompression then ExiError_Mismatch
     else if Strict o' \<and> PreserveBuilder_has (make_preserve_builder (Preserve o')) (NOT PK_Strict)
       then ExiError_Mismatch
     else if Strict o' \<and> SelfContained o' then ExiError_Mismatch
     else if DatatypeRepresentationMap o' \<noteq> None
         \<and> PreserveBuilder_has (make_preserve_builder (Preserve o')) PK_LexicalValues
       then ExiError_Mismatch
     else if DatatypeRepresentationMap o' \<noteq> None \<and> \<not> HasValidSchemaID o' then ExiError_Mismatch
     else ExiError_OK)"

definition ValidateOptions :: "ExiOptions \<Rightarrow> ExiError" where
  "ValidateOptions o' =
    (if Compression o' \<and> Alignment o' = BitPacked then HeaderAlign BitPacked True
     else if Compression o' \<and> Alignment o' = BytePacked then HeaderAlign BytePacked True
     else ValidateCommon o')"

text \<open>The routine updates its argument; the result pairs the error with the updated options.\<close>

definition FixupAndValidateOptions :: "ExiOptions \<Rightarrow> ExiError \<times> ExiOptions" where
  "FixupAndValidateOptions o' =
    (let o1 = (if Alignment o' = AK_None
               then (if \<not> Compression o' then o'\<lparr>Alignment := BitPacked\<rparr>
                     else o'\<lparr>Alignment := PreCompression\<rparr>)
               else o') in
     if Compression o1 then
       (if Alignment o1 = BitPacked then (HeaderAlign BitPacked True, o1)
        else (let o2 = o1\<lparr>Alignment := PreCompression\<rparr> in (ValidateCommon o2, o2)))
     else (ValidateCommon o1, o1))"

section \<open>The header\<close>

record ExiHeader =
  HasCookie :: bool
  HasOptions :: bool
  IsPreviewVersion :: bool
  ExiVersion :: "30 word"
  Opts :: "ExiOptions option"

definition default_ExiHeader :: ExiHeader where
  "default_ExiHeader = \<lparr>HasCookie = True, HasOptions = True, IsPreviewVersion = False,
     ExiVersion = of_nat kCurrentExiVersion, Opts = None\<rparr>"

definition ValidateHeaderOnly :: "ExiHeader \<Rightarrow> ExiError" where
  "ValidateHeaderOnly h =
    (if Opts h = None then ExiError_Header
     else if IsPreviewVersion h then HeaderVerPreview
     else if kCurrentExiVersion < unat (ExiVersion h) then HeaderVer (ucast (ExiVersion h))
     else if ExiVersion h = 0 then HeaderVer 0
     else ExiError_OK)"

definition ValidateHeader :: "ExiHeader \<Rightarrow> ExiError" where
  "ValidateHeader h =
    (if ExiError_bool (ValidateHeaderOnly h) then ValidateHeaderOnly h
     else ValidateOptions (the (Opts h)))"

definition FixupAndValidateHeader :: "ExiHeader \<Rightarrow> ExiError \<times> ExiHeader" where
  "FixupAndValidateHeader h =
    (if ExiError_bool (ValidateHeaderOnly h) then (ValidateHeaderOnly h, h)
     else (case FixupAndValidateOptions (the (Opts h)) of (e, o') \<Rightarrow> (e, h\<lparr>Opts := Some o'\<rparr>)))"

section \<open>The preservation mask\<close>

lemma has_make_preserve_builder [simp]:
  "PreserveBuilder_has (make_preserve_builder p) PK_Comments = Comments p"
  "PreserveBuilder_has (make_preserve_builder p) PK_DTDs = DTDs p"
  "PreserveBuilder_has (make_preserve_builder p) PK_LexicalValues = LexicalValues p"
  "PreserveBuilder_has (make_preserve_builder p) PK_PIs = PIs p"
  "PreserveBuilder_has (make_preserve_builder p) PK_Prefixes = Prefixes p"
  "PreserveBuilder_has (make_preserve_builder p) (NOT PK_Strict)
     = (Comments p \<or> DTDs p \<or> PIs p \<or> Prefixes p)"
  by (simp_all add: PreserveBuilder_has_def make_preserve_builder_def MARK_PRESERVED_def
      PreserveBuilder_set_def PK_defs)

lemma make_preserve_opts_builder: "make_preserve_opts (make_preserve_builder p) = p"
  by (simp add: make_preserve_opts_def)

section \<open>What the validation accepts\<close>

text \<open>
  The rules of the EXI format on the options that the header documentation lists: compression
  needs the pre-compression alignment, self-contained elements exclude compression,
  pre-compression and strict mode, strict mode keeps nothing but lexical values, and a datatype
  map needs a schema and excludes lexical values.
\<close>

definition options_consistent :: "ExiOptions \<Rightarrow> bool" where
  "options_consistent o' \<longleftrightarrow>
    (Compression o' \<longrightarrow> Alignment o' = PreCompression) \<and>
    (SelfContained o' \<longrightarrow> Alignment o' \<noteq> PreCompression \<and> \<not> Strict o') \<and>
    (Strict o' \<longrightarrow> \<not> Comments (Preserve o') \<and> \<not> DTDs (Preserve o') \<and> \<not> PIs (Preserve o')
       \<and> \<not> Prefixes (Preserve o')) \<and>
    (DatatypeRepresentationMap o' \<noteq> None \<longrightarrow>
       \<not> LexicalValues (Preserve o') \<and> HasValidSchemaID o')"

lemma ExiError_bool_consts [simp]:
  "\<not> ExiError_bool ExiError_OK" "ExiError_bool ExiError_Mismatch" "ExiError_bool ExiError_Header"
  "ExiError_bool (HeaderAlign a c)" "ExiError_bool HeaderVerPreview" "ExiError_bool (HeaderVer v)"
  by (simp_all add: ExiError_bool_def ExiError_OK_def ExiError_Mismatch_def ExiError_Header_def
      ExiError_New_def HeaderAlign_def FROM_HEADER_def HeaderVerPreview_def HeaderVer_def)

lemma ValidateCommon_OK: "\<not> ExiError_bool (ValidateCommon o') \<longleftrightarrow> options_consistent o'"
  by (auto simp: ValidateCommon_def options_consistent_def)

lemma ValidateOptions_OK: "\<not> ExiError_bool (ValidateOptions o') \<longleftrightarrow> options_consistent o'"
proof (cases "Compression o' \<and> (Alignment o' = BitPacked \<or> Alignment o' = BytePacked)")
  case True
  then show ?thesis by (auto simp: ValidateOptions_def options_consistent_def)
next
  case False
  then show ?thesis by (auto simp: ValidateOptions_def ValidateCommon_OK)
qed

text \<open>The alignment the fix-up settles on.\<close>

definition fixed_alignment :: "ExiOptions \<Rightarrow> AlignKind" where
  "fixed_alignment o' =
    (if Compression o' \<and> Alignment o' \<noteq> BitPacked then PreCompression
     else if Alignment o' = AK_None then BitPacked else Alignment o')"

lemma FixupAndValidateOptions_snd:
  "snd (FixupAndValidateOptions o') = o'\<lparr>Alignment := fixed_alignment o'\<rparr>"
  by (cases "Alignment o'") (simp_all add: FixupAndValidateOptions_def fixed_alignment_def Let_def)

lemma Alignment_update_same: "Alignment o' = a \<Longrightarrow> o'\<lparr>Alignment := a\<rparr> = o'"
  by (cases o') simp

lemma FixupAndValidateOptions_OK:
  "\<not> ExiError_bool (fst (FixupAndValidateOptions o'))
    \<longleftrightarrow> options_consistent (o'\<lparr>Alignment := fixed_alignment o'\<rparr>)"
proof (cases "Compression o' \<and> Alignment o' = BitPacked")
  case True
  then show ?thesis
    by (simp add: FixupAndValidateOptions_def fixed_alignment_def options_consistent_def)
next
  case False
  then have "fst (FixupAndValidateOptions o') = ValidateCommon (o'\<lparr>Alignment := fixed_alignment o'\<rparr>)"
    by (cases "Alignment o'") (auto simp: FixupAndValidateOptions_def fixed_alignment_def Let_def Alignment_update_same)
  then show ?thesis by (simp add: ValidateCommon_OK)
qed

text \<open>Property C15. Validation accepts exactly the consistent options; fixing up changes the
  alignment only, what it accepts then passes validation unchanged, and fixing up again
  changes nothing.\<close>

theorem options_validation:
  "(\<not> ExiError_bool (ValidateOptions o') \<longleftrightarrow> options_consistent o')
    \<and> (case FixupAndValidateOptions o' of (e, o2) \<Rightarrow>
         o2 = o'\<lparr>Alignment := fixed_alignment o'\<rparr>
         \<and> (\<not> ExiError_bool e \<longleftrightarrow> \<not> ExiError_bool (ValidateOptions o2))
         \<and> snd (FixupAndValidateOptions o2) = o2)"
proof -
  obtain e o2 where r: "FixupAndValidateOptions o' = (e, o2)" by fastforce
  then have o2: "o2 = o'\<lparr>Alignment := fixed_alignment o'\<rparr>"
    using FixupAndValidateOptions_snd [of o'] by simp
  have "snd (FixupAndValidateOptions o2) = o2"
    by (cases "Alignment o'")
      (simp_all add: FixupAndValidateOptions_snd o2 fixed_alignment_def)
  moreover have "\<not> ExiError_bool e \<longleftrightarrow> options_consistent o2"
    using FixupAndValidateOptions_OK [of o'] r o2 by simp
  ultimately show ?thesis using r o2 by (simp add: ValidateOptions_OK)
qed

text \<open>The headers the processor accepts: options given, final version 1.\<close>

lemma ValidateHeaderOnly_OK:
  "\<not> ExiError_bool (ValidateHeaderOnly h) \<longleftrightarrow>
    Opts h \<noteq> None \<and> \<not> IsPreviewVersion h \<and> ExiVersion h = 1"
proof -
  have "\<not> kCurrentExiVersion < unat (ExiVersion h) \<and> ExiVersion h \<noteq> 0 \<longleftrightarrow> ExiVersion h = 1"
    by (auto simp: kCurrentExiVersion_def word_unat_eq_iff)
  then show ?thesis by (auto simp: ValidateHeaderOnly_def)
qed

text \<open>A header is accepted exactly when its options are present and consistent and its
  version is Final Version 1.\<close>

theorem header_validation:
  "\<not> ExiError_bool (ValidateHeader h) \<longleftrightarrow>
    (\<exists>o'. Opts h = Some o' \<and> options_consistent o') \<and> \<not> IsPreviewVersion h \<and> ExiVersion h = 1"
  using ValidateHeaderOnly_OK [of h]
  by (auto simp: ValidateHeader_def ValidateOptions_OK)

end
