(* ===== verification/GrammarTables.thy ===== *)
theory GrammarTables
  imports Grammar ExiOptions
begin

text \<open>
  The tables of the schemaless grammars (\<open>lib/exi/Grammar/Decode/BuiltinSchema.cpp\<close>): the builder
  that lays out the terms and event codes of the four grammars for a set of options, the reader of
  an event code, and the table of event codes that the source documents (and the EXI
  specification prescribes). Every documented code is read back as its event.
\<close>

section \<open>Event codes\<close>

definition SmallLog2 :: "nat list" where
  "SmallLog2 = [0, 0, 1, 2, 2, 3, 3, 3, 3, 4]"

record SEventCode =
  ec_Data :: "nat list"
  ec_Bits :: "nat list"
  ec_Length :: nat

record BIInfo =
  bi_Offset :: nat
  bi_Code :: SEventCode

definition Builder_Inc :: "nat \<Rightarrow> SEventCode \<Rightarrow> SEventCode" where
  "Builder_Inc i c = (if ec_Length c \<noteq> 0
     then c\<lparr>ec_Data := (ec_Data c)[ec_Length c - 1 := (ec_Data c ! (ec_Length c - 1) + i) mod 256]\<rparr> else c)"

definition Builder_Next :: "SEventCode \<Rightarrow> SEventCode" where
  "Builder_Next c = (if ec_Length c < 3 then c\<lparr>ec_Length := ec_Length c + 1\<rparr> else c)"

definition Builder_IncNext :: "SEventCode \<Rightarrow> SEventCode" where
  "Builder_IncNext c = Builder_Next (Builder_Inc 1 c)"

text \<open>The builder works on the terms so far and the code of the grammar it is building.\<close>

definition addCMPI :: "PreserveOpts \<Rightarrow> EventTerm list \<times> SEventCode \<Rightarrow> EventTerm list \<times> SEventCode" where
  "addCMPI p = (\<lambda>(t, c).
    if \<not> Comments p \<and> \<not> PIs p then (t, c)
    else (let c = Builder_IncNext c;
              (t, c) = (if Comments p then (t @ [CM], Builder_Inc 1 c) else (t, c))
          in if PIs p then (t @ [PI], Builder_Inc 1 c) else (t, c)))"

definition addCCItems :: "PreserveOpts \<Rightarrow> EventTerm list \<times> SEventCode \<Rightarrow> EventTerm list \<times> SEventCode" where
  "addCCItems p = (\<lambda>(t, c).
    let c = Builder_Inc 2 (c\<lparr>ec_Length := 2\<rparr>); t = t @ [SE, CH];
        (t, c) = (if DTDs p then (t @ [ER], Builder_Inc 1 c) else (t, c))
    in addCMPI p (t, c))"

definition CalculateLog :: "SEventCode \<Rightarrow> SEventCode" where
  "CalculateLog ec =
    (if ec_Length ec = 0 then ec
     else
      (let c = (if ec_Length ec = 3 \<and> ec_Data ec ! 2 = 0 then ec\<lparr>ec_Length := 2\<rparr> else ec);
           c = (if 2 \<le> ec_Length c \<and> ec_Data c ! 1 = 0
             then c\<lparr>ec_Data := (ec_Data c)[1 := ec_Data c ! 2, 2 := 0], ec_Length := ec_Length c - 1\<rparr> else c)
       in c\<lparr>ec_Bits := map (\<lambda>d. SmallLog2 ! d) (ec_Data c)\<rparr>))"

text \<open>The four scopes of \<open>init\<close>.\<close>

definition init_DocContent :: "PreserveOpts \<Rightarrow> EventTerm list \<times> SEventCode \<Rightarrow> EventTerm list \<times> SEventCode" where
  "init_DocContent p = (\<lambda>(t, c).
    let t = t @ [SE]; c = Builder_Inc 1 c;
        (t, c) = (if DTDs p then (t @ [DT], Builder_Inc 1 (Builder_IncNext c)) else (t, c))
    in addCMPI p (t, c))"

definition init_DocEnd :: "PreserveOpts \<Rightarrow> EventTerm list \<times> SEventCode \<Rightarrow> EventTerm list \<times> SEventCode" where
  "init_DocEnd p = (\<lambda>(t, c). addCMPI p (t @ [ED], Builder_Inc 1 c))"

definition init_StartTag :: "PreserveOpts \<Rightarrow> bool \<Rightarrow> EventTerm list \<times> SEventCode \<Rightarrow> EventTerm list \<times> SEventCode" where
  "init_StartTag p sc = (\<lambda>(t, c).
    let t = t @ [EE, AT]; c = Builder_Inc 2 (Builder_Next c);
        (t, c) = (if Prefixes p then (t @ [NS], Builder_Inc 1 c) else (t, c));
        (t, c) = (if sc then (t @ [SC], Builder_Inc 1 c) else (t, c))
    in addCCItems p (t, c))"

definition init_Element :: "PreserveOpts \<Rightarrow> EventTerm list \<times> SEventCode \<Rightarrow> EventTerm list \<times> SEventCode" where
  "init_Element p = (\<lambda>(t, c). addCCItems p (t @ [EE], Builder_Inc 2 c))"

text \<open>A scope starts with \<open>createBIInfo\<close> and ends with the logarithms of its code.\<close>

definition Builder_scope :: "(EventTerm list \<times> SEventCode \<Rightarrow> EventTerm list \<times> SEventCode)
    \<Rightarrow> EventTerm list \<times> BIInfo list \<Rightarrow> EventTerm list \<times> BIInfo list" where
  "Builder_scope body = (\<lambda>(t, infos).
    case body (t, \<lparr>ec_Data = [0, 0, 0], ec_Bits = [0, 0, 0], ec_Length = 1\<rparr>) of
      (t', c) \<Rightarrow> (t', infos @ [\<lparr>bi_Offset = length t mod 256, bi_Code = CalculateLog c\<rparr>]))"

definition Builder_init :: "PreserveOpts \<Rightarrow> bool \<Rightarrow> EventTerm list \<times> BIInfo list" where
  "Builder_init p sc =
    Builder_scope (init_Element p) (Builder_scope (init_StartTag p sc)
      (Builder_scope (init_DocEnd p) (Builder_scope (init_DocContent p) ([], []))))"

section \<open>Reading an event code\<close>

text \<open>The loop over the parts from \<open>ix\<close> on, \<open>n\<close> of them left; \<open>at\<close> is an \<open>unsigned\<close>. A failed
  read is dereferenced, which asserts.\<close>

primrec decodeTerm_loop :: "(nat \<Rightarrow> 's \<Rightarrow> (64 word, 's) exi) \<Rightarrow> SEventCode \<Rightarrow> nat \<Rightarrow> nat \<Rightarrow> nat \<Rightarrow> 's \<Rightarrow> (nat, 's) exi" where
  "decodeTerm_loop rd c 0 ix at = retM at"
| "decodeTerm_loop rd c (Suc n) ix at =
    bindM (expectM AssertFail (rd (ec_Bits c ! ix))) (\<lambda>w.
      let dat = unat w; at = (at + dat) mod 2 ^ 32 in
      thenM (invariantM (\<lambda>_. ec_Data c ! ix \<noteq> 0))
      (thenM (invariantM (\<lambda>_. dat \<le> ec_Data c ! ix - 1))
        (if dat \<noteq> ec_Data c ! ix - 1 then retM at else decodeTerm_loop rd c n (ix + 1) at)))"

text \<open>The position of the term behind the code, for a read that starts at part \<open>start\<close>.\<close>

definition decodeTerm_at :: "(nat \<Rightarrow> 's \<Rightarrow> (64 word, 's) exi) \<Rightarrow> SEventCode \<Rightarrow> nat \<Rightarrow> nat \<Rightarrow> 's \<Rightarrow> (nat, 's) exi" where
  "decodeTerm_at rd c start at =
    (if ec_Length c \<noteq> 0 \<and> start = 0
     then (let start = (if ec_Data c ! 0 = 0 then 1 else 0) in decodeTerm_loop rd c (ec_Length c - start) start at)
     else if start = 1 \<and> ec_Data c ! 0 \<noteq> 0 \<and> at \<noteq> ec_Data c ! 0 - 1 then retM at
     else decodeTerm_loop rd c (ec_Length c - start) start at)"

section \<open>The documented event codes\<close>

text \<open>The grammars that have a table.\<close>

datatype SchemaGrammar =
    Document
  | DocContent
  | DocEnd
  | StartTagContent
  | ElementContent
  | Fragment

text \<open>The productions of a grammar by the length of their event code, in the order of the last part.
  A level without productions is pruned, except the first.\<close>

definition doc_levels :: "PreserveOpts \<Rightarrow> bool \<Rightarrow> SchemaGrammar \<Rightarrow> EventTerm list list" where
  "doc_levels p sc G =
    (let cmpi = (if Comments p then [CM] else []) @ (if PIs p then [PI] else []);
         child = [SE, CH] @ (if DTDs p then [ER] else []);
         ls = (case G of
             DocContent \<Rightarrow> [[SE], if DTDs p then [DT] else [], cmpi]
           | DocEnd \<Rightarrow> [[ED], cmpi]
           | StartTagContent \<Rightarrow> [[], [EE, AT] @ (if Prefixes p then [NS] else []) @ (if sc then [SC] else []) @ child, cmpi]
           | ElementContent \<Rightarrow> [[EE], child, cmpi]
           | _ \<Rightarrow> [])
     in take 1 ls @ filter (\<lambda>l. l \<noteq> []) (drop 1 ls))"

text \<open>How many values part \<open>i\<close> of a code has: the productions that end there, and one more for the
  longer codes.\<close>

definition level_size :: "EventTerm list list \<Rightarrow> nat \<Rightarrow> nat" where
  "level_size ls i = length (ls ! i) + (if Suc i < length ls then 1 else 0)"

text \<open>The parts of the code of production \<open>j\<close> of level \<open>i\<close>, each with its width.\<close>

definition level_code :: "EventTerm list list \<Rightarrow> nat \<Rightarrow> nat \<Rightarrow> (nat \<times> nat) list" where
  "level_code ls i j = map (\<lambda>k. (CompactIDLog2 (level_size ls k), length (ls ! k))) [0..<i]
     @ [(CompactIDLog2 (level_size ls i), j)]"

text \<open>The position of the first production of level \<open>i\<close>.\<close>

definition level_start :: "EventTerm list list \<Rightarrow> nat \<Rightarrow> nat" where
  "level_start ls i = length (concat (take i ls))"

lemma CompactIDLog2_SmallLog2:
  assumes "i \<le> 8"
  shows "CompactIDLog2 i = SmallLog2 ! i"
proof -
  have "i \<in> {0, 1, 2, 3, 4, 5, 6, 7, 8}" using assms by auto
  then show ?thesis
    by (elim insertE) (simp_all add: CompactIDLog2_bit_length SmallLog2_def bit_length.simps)
qed

definition code_of :: "EventTerm list list \<Rightarrow> SEventCode" where
  "code_of ls = (let dat = map (\<lambda>i. if i < length ls then if ls ! i = [] then 0 else level_size ls i else 0) [0..<3]
     in \<lparr>ec_Data = dat, ec_Bits = map (\<lambda>d. SmallLog2 ! d) dat, ec_Length = length ls\<rparr>)"

lemma upt_3: "[0..<3] = [0, 1, 2 :: nat]" by (simp add: upt_rec)

text \<open>The builder's operations on a code that is written out.\<close>

lemma Builder_Inc_eval:
  "Builder_Inc i \<lparr>ec_Data = [x, y, z], ec_Bits = b, ec_Length = 1\<rparr> = \<lparr>ec_Data = [(x + i) mod 256, y, z], ec_Bits = b, ec_Length = 1\<rparr>"
  "Builder_Inc i \<lparr>ec_Data = [x, y, z], ec_Bits = b, ec_Length = 2\<rparr> = \<lparr>ec_Data = [x, (y + i) mod 256, z], ec_Bits = b, ec_Length = 2\<rparr>"
  "Builder_Inc i \<lparr>ec_Data = [x, y, z], ec_Bits = b, ec_Length = 3\<rparr> = \<lparr>ec_Data = [x, y, (z + i) mod 256], ec_Bits = b, ec_Length = 3\<rparr>"
  by (simp_all add: Builder_Inc_def)

lemma Builder_Next_eval:
  "Builder_Next \<lparr>ec_Data = d, ec_Bits = b, ec_Length = 1\<rparr> = \<lparr>ec_Data = d, ec_Bits = b, ec_Length = 2\<rparr>"
  "Builder_Next \<lparr>ec_Data = d, ec_Bits = b, ec_Length = 2\<rparr> = \<lparr>ec_Data = d, ec_Bits = b, ec_Length = 3\<rparr>"
  by (simp_all add: Builder_Next_def)

lemma CalculateLog_eval:
  "CalculateLog \<lparr>ec_Data = [x, y, z], ec_Bits = b, ec_Length = 1\<rparr>
    = \<lparr>ec_Data = [x, y, z], ec_Bits = [SmallLog2 ! x, SmallLog2 ! y, SmallLog2 ! z], ec_Length = 1\<rparr>"
  "y \<noteq> 0 \<Longrightarrow> CalculateLog \<lparr>ec_Data = [x, y, z], ec_Bits = b, ec_Length = 2\<rparr>
    = \<lparr>ec_Data = [x, y, z], ec_Bits = [SmallLog2 ! x, SmallLog2 ! y, SmallLog2 ! z], ec_Length = 2\<rparr>"
  "y \<noteq> 0 \<Longrightarrow> z \<noteq> 0 \<Longrightarrow> CalculateLog \<lparr>ec_Data = [x, y, z], ec_Bits = b, ec_Length = 3\<rparr>
    = \<lparr>ec_Data = [x, y, z], ec_Bits = [SmallLog2 ! x, SmallLog2 ! y, SmallLog2 ! z], ec_Length = 3\<rparr>"
  by (simp_all add: CalculateLog_def)

lemma code_of_eval:
  "code_of [l0] = (let d = [if l0 = [] then 0 else length l0, 0, 0]
     in \<lparr>ec_Data = d, ec_Bits = map (\<lambda>d. SmallLog2 ! d) d, ec_Length = 1\<rparr>)"
  "l1 \<noteq> [] \<Longrightarrow> code_of [l0, l1] = (let d = [if l0 = [] then 0 else length l0 + 1, length l1, 0]
     in \<lparr>ec_Data = d, ec_Bits = map (\<lambda>d. SmallLog2 ! d) d, ec_Length = 2\<rparr>)"
  "l1 \<noteq> [] \<Longrightarrow> l2 \<noteq> [] \<Longrightarrow> code_of [l0, l1, l2] = (let d = [if l0 = [] then 0 else length l0 + 1, length l1 + 1, length l2]
     in \<lparr>ec_Data = d, ec_Bits = map (\<lambda>d. SmallLog2 ! d) d, ec_Length = 3\<rparr>)"
  by (simp_all add: code_of_def upt_3 level_size_def Let_def)

lemmas builder_eval = Builder_scope_def init_DocContent_def init_DocEnd_def
  init_StartTag_def init_Element_def addCMPI_def addCCItems_def Builder_IncNext_def doc_levels_def Let_def
  Builder_Inc_eval Builder_Inc_eval [unfolded One_nat_def] Builder_Next_eval Builder_Next_eval [unfolded One_nat_def]
  CalculateLog_eval CalculateLog_eval [unfolded One_nat_def] code_of_eval

lemma scope_DocContent:
  "Builder_scope (init_DocContent p) (t, infos) = (t @ concat (doc_levels p sc DocContent),
     infos @ [\<lparr>bi_Offset = length t mod 256, bi_Code = code_of (doc_levels p sc DocContent)\<rparr>])"
  by (cases "Comments p"; cases "DTDs p"; cases "PIs p") (simp_all add: builder_eval)

lemma scope_DocEnd:
  "Builder_scope (init_DocEnd p) (t, infos) = (t @ concat (doc_levels p sc DocEnd),
     infos @ [\<lparr>bi_Offset = length t mod 256, bi_Code = code_of (doc_levels p sc DocEnd)\<rparr>])"
  by (cases "Comments p"; cases "PIs p") (simp_all add: builder_eval)

lemma scope_StartTag:
  "Builder_scope (init_StartTag p sc) (t, infos) = (t @ concat (doc_levels p sc StartTagContent),
     infos @ [\<lparr>bi_Offset = length t mod 256, bi_Code = code_of (doc_levels p sc StartTagContent)\<rparr>])"
  by (cases "Comments p"; cases "DTDs p"; cases "PIs p"; cases "Prefixes p"; cases sc) (simp_all add: builder_eval SmallLog2_def)

lemma scope_Element:
  "Builder_scope (init_Element p) (t, infos) = (t @ concat (doc_levels p sc ElementContent),
     infos @ [\<lparr>bi_Offset = length t mod 256, bi_Code = code_of (doc_levels p sc ElementContent)\<rparr>])"
  by (cases "Comments p"; cases "DTDs p"; cases "PIs p") (simp_all add: builder_eval SmallLog2_def)

lemma Builder_init_eq:
  "Builder_init p sc =
    (concat (doc_levels p sc DocContent) @ concat (doc_levels p sc DocEnd)
       @ concat (doc_levels p sc StartTagContent) @ concat (doc_levels p sc ElementContent),
     [\<lparr>bi_Offset = 0, bi_Code = code_of (doc_levels p sc DocContent)\<rparr>,
      \<lparr>bi_Offset = length (concat (doc_levels p sc DocContent)) mod 256, bi_Code = code_of (doc_levels p sc DocEnd)\<rparr>,
      \<lparr>bi_Offset = length (concat (doc_levels p sc DocContent) @ concat (doc_levels p sc DocEnd)) mod 256,
        bi_Code = code_of (doc_levels p sc StartTagContent)\<rparr>,
      \<lparr>bi_Offset = length (concat (doc_levels p sc DocContent) @ concat (doc_levels p sc DocEnd)
          @ concat (doc_levels p sc StartTagContent)) mod 256,
        bi_Code = code_of (doc_levels p sc ElementContent)\<rparr>])"
  unfolding Builder_init_def
  by (simp only: scope_DocContent [of p _ _ sc] scope_DocEnd [of p _ _ sc] scope_StartTag scope_Element [of p _ _ sc]
      append_Nil append_Cons append_assoc list.size(3) mod_0 length_0_conv)

text \<open>The levels are few and small.\<close>

definition levels_ok :: "EventTerm list list \<Rightarrow> bool" where
  "levels_ok ls \<longleftrightarrow> length ls \<le> 3 \<and> (\<forall>k < length ls. level_size ls k \<le> 8 \<and> (0 < k \<longrightarrow> ls ! k \<noteq> []))"

lemma levels_ok_length: "levels_ok ls \<Longrightarrow> k < length ls \<Longrightarrow> length (ls ! k) \<le> 8"
proof -
  assume "levels_ok ls" "k < length ls"
  then have "level_size ls k \<le> 8" by (simp add: levels_ok_def)
  then show "length (ls ! k) \<le> 8" by (simp add: level_size_def)
qed

lemma levels_ok_doc: "levels_ok (doc_levels p sc G)"
  by (cases G; cases "Comments p"; cases "DTDs p"; cases "PIs p"; cases "Prefixes p"; cases sc)
    (simp_all add: levels_ok_def doc_levels_def level_size_def Let_def All_less_Suc2 numeral_2_eq_2 numeral_3_eq_3)

lemma code_of_fields:
  assumes "levels_ok ls" "k < length ls"
  shows "ec_Data (code_of ls) ! k = (if ls ! k = [] then 0 else level_size ls k)"
    and "ec_Bits (code_of ls) ! k = CompactIDLog2 (if ls ! k = [] then 0 else level_size ls k)"
    and "ec_Length (code_of ls) = length ls"
proof -
  have k: "k < 3" "level_size ls k \<le> 8" using assms by (auto simp: levels_ok_def)
  then have "k = 0 \<or> k = 1 \<or> k = 2" by linarith
  then have d: "ec_Data (code_of ls) ! k = (if ls ! k = [] then 0 else level_size ls k)"
      "ec_Bits (code_of ls) ! k = SmallLog2 ! (ec_Data (code_of ls) ! k)"
    using assms(2) by (auto simp: code_of_def upt_3 Let_def)
  then show "ec_Data (code_of ls) ! k = (if ls ! k = [] then 0 else level_size ls k)" by blast
  show "ec_Bits (code_of ls) ! k = CompactIDLog2 (if ls ! k = [] then 0 else level_size ls k)"
    unfolding d(2) d(1) using k(2) by (intro CompactIDLog2_SmallLog2 [symmetric]) simp
  show "ec_Length (code_of ls) = length ls" by (simp add: code_of_def Let_def)
qed

lemma length_concat_take:
  "k < length ls \<Longrightarrow> length (concat (take (Suc k) ls)) = length (concat (take k ls)) + length (ls ! k)"
  by (simp add: take_Suc_conv_app_nth)

context code_source
begin

text \<open>From part \<open>k\<close> on, the loop reads the rest of the code of production \<open>j\<close> of level \<open>i\<close>.\<close>

lemma decodeTerm_loop_level:
  assumes "levels_ok ls" "k \<le> i" "i < length ls" "j < length (ls ! i)" "k = 0 \<longrightarrow> ls ! 0 \<noteq> []"
    and "holds s (drop k (level_code ls i j) @ xs)" "a + 16 * (length ls - k) < 2 ^ 32"
  shows "\<exists>s'. decodeTerm_loop rd (code_of ls) (length ls - k) k a s
      = Ret (a + (level_start ls i - level_start ls k) + j) s' \<and> holds s' xs"
  using assms(2-)
proof (induction "i - k" arbitrary: k a s)
  case 0
  then have k: "k = i" by simp
  have len: "length (map (\<lambda>k. (CompactIDLog2 (level_size ls k), length (ls ! k))) [0..<i]) = i" by simp
  have h: "holds s ((CompactIDLog2 (level_size ls i), j) # xs)"
    using "0.prems"(5) by (simp add: level_code_def k)
  obtain w s' where w: "rd (CompactIDLog2 (level_size ls i)) s = Ret w s'" "unat w = j" "holds s' xs"
    using rd_nat [OF h] by blast
  note f = code_of_fields [OF assms(1) "0.prems"(2)]
  have ne: "ls ! i \<noteq> []" using "0.prems"(3) by auto
  have sz: "level_size ls i \<noteq> 0" "j \<le> level_size ls i - 1" using "0.prems"(3) ne by (auto simp: level_size_def)
  have small: "a + j < 2 ^ 32"
  proof -
    have "level_size ls i \<le> 8" using assms(1) "0.prems"(2) by (auto simp: levels_ok_def)
    then show ?thesis using sz "0.prems"(2,6) k by linarith
  qed
  obtain m where m: "length ls - i = Suc m" using "0.prems"(2) by (cases "length ls - i") auto
  have done': "decodeTerm_loop rd (code_of ls) m (i + 1) (a + j) s' = Ret (a + j) s'" if "j = level_size ls i - 1"
  proof -
    have "Suc i = length ls" using that "0.prems"(2,3) by (auto simp: level_size_def split: if_splits)
    then have "m = 0" using m by linarith
    then show ?thesis by simp
  qed
  then have "decodeTerm_loop rd (code_of ls) (length ls - k) k a s = Ret (a + j) s'"
    unfolding k m using w sz f ne small by (simp add: expectM_def Let_def)
  then show ?case using w(3) k by auto
next
  case (Suc n)
  have ki: "k < i" "k < length ls" using Suc.hyps(2) Suc.prems(2) by linarith+
  have ne: "ls ! k \<noteq> []" using Suc.prems(4) assms(1) ki by (cases "k = 0") (auto simp: levels_ok_def)
  have sz: "level_size ls k = Suc (length (ls ! k))" using ki Suc.prems(2) by (simp add: level_size_def)
  have sz8: "length (ls ! k) \<le> 8" by (rule levels_ok_length [OF assms(1) ki(2)])
  have "drop k (level_code ls i j) = (CompactIDLog2 (level_size ls k), length (ls ! k)) # drop (Suc k) (level_code ls i j)"
    using ki by (subst Cons_nth_drop_Suc [symmetric]) (auto simp: level_code_def nth_append)
  then have h: "holds s ((CompactIDLog2 (level_size ls k), length (ls ! k)) # (drop (Suc k) (level_code ls i j) @ xs))"
    using Suc.prems(5) by simp
  obtain w s' where w: "rd (CompactIDLog2 (level_size ls k)) s = Ret w s'" "unat w = length (ls ! k)"
      "holds s' (drop (Suc k) (level_code ls i j) @ xs)"
    using rd_nat [OF h] by blast
  obtain m where m: "length ls - k = Suc m" "length ls - Suc k = m" using ki by (cases "length ls - k") auto
  have small: "a + length (ls ! k) + 16 * (length ls - Suc k) < 2 ^ 32" using Suc.prems(6) sz8 m by linarith
  have "\<exists>s''. decodeTerm_loop rd (code_of ls) (length ls - Suc k) (Suc k) (a + length (ls ! k)) s'
      = Ret (a + length (ls ! k) + (level_start ls i - level_start ls (Suc k)) + j) s'' \<and> holds s'' xs"
    by (rule Suc.hyps(1)) (use Suc.hyps(2) Suc.prems ki w(3) small in auto)
  then obtain s'' where s'': "decodeTerm_loop rd (code_of ls) m (Suc k) (a + length (ls ! k)) s'
      = Ret (a + length (ls ! k) + (level_start ls i - level_start ls (Suc k)) + j) s''" "holds s'' xs"
    using m by auto
  have st: "length (ls ! k) + (level_start ls i - level_start ls (Suc k)) = level_start ls i - level_start ls k"
  proof -
    have "level_start ls (Suc k) = level_start ls k + length (ls ! k)"
      using length_concat_take [OF ki(2)] by (simp add: level_start_def)
    moreover have "level_start ls (Suc k) \<le> level_start ls i"
    proof -
      have "take i ls = take (Suc k) ls @ take (i - Suc k) (drop (Suc k) ls)"
        using ki(1) by (simp flip: take_add)
      then show ?thesis by (simp add: level_start_def)
    qed
    ultimately show ?thesis by simp
  qed
  note f = code_of_fields [OF assms(1) ki(2)]
  have "a + length (ls ! k) < 2 ^ 32" using small by linarith
  then have "decodeTerm_loop rd (code_of ls) (length ls - k) k a s
      = decodeTerm_loop rd (code_of ls) m (Suc k) (a + length (ls ! k)) s'"
    unfolding m using w(1,2) sz f ne by (simp add: expectM_def Let_def)
  then show ?case using s'' st by (auto simp: add.assoc)
qed

end

section \<open>Every documented code is read as its event\<close>

definition grammar_index :: "SchemaGrammar \<Rightarrow> nat" where
  "grammar_index G = (case G of DocContent \<Rightarrow> 0 | DocEnd \<Rightarrow> 1 | StartTagContent \<Rightarrow> 2 | ElementContent \<Rightarrow> 3 | _ \<Rightarrow> 4)"

definition has_table :: "SchemaGrammar \<Rightarrow> bool" where
  "has_table G \<longleftrightarrow> G \<noteq> Document \<and> G \<noteq> Fragment"

lemma concat_level_nth:
  assumes "i < length ls" "j < length (ls ! i)"
  shows "concat ls ! (level_start ls i + j) = ls ! i ! j" "level_start ls i + j < length (concat ls)"
proof -
  have "ls = take i ls @ ls ! i # drop (Suc i) ls" using assms(1) by (rule id_take_nth_drop)
  then have c: "concat ls = concat (take i ls) @ ls ! i @ concat (drop (Suc i) ls)"
    by (metis concat.simps(2) concat_append)
  show "concat ls ! (level_start ls i + j) = ls ! i ! j" "level_start ls i + j < length (concat ls)"
    unfolding level_start_def using assms(2) by (subst c; simp add: nth_append)+
qed

lemma levels_length:
  assumes "levels_ok ls"
  shows "length (concat ls) \<le> 24"
proof -
  have "length (concat (take k ls)) \<le> 8 * k" if "k \<le> length ls" for k
    using that
  proof (induction k)
    case (Suc k)
    then have "length (ls ! k) \<le> 8" using levels_ok_length [OF assms] by simp
    then show ?case using Suc length_concat_take [of k ls] by simp
  qed simp
  from this [of "length ls"] show ?thesis using assms by (simp add: levels_ok_def)
qed

text \<open>The tables hold the code of a grammar and its productions in order.\<close>

lemma Builder_init_table:
  assumes "has_table G"
  shows "bi_Code (snd (Builder_init p sc) ! grammar_index G) = code_of (doc_levels p sc G)"
    and "k < length (concat (doc_levels p sc G)) \<Longrightarrow>
      bi_Offset (snd (Builder_init p sc) ! grammar_index G) + k < length (fst (Builder_init p sc))
      \<and> fst (Builder_init p sc) ! (bi_Offset (snd (Builder_init p sc) ! grammar_index G) + k)
        = concat (doc_levels p sc G) ! k"
  using assms levels_length [OF levels_ok_doc, of p sc DocContent] levels_length [OF levels_ok_doc, of p sc DocEnd]
    levels_length [OF levels_ok_doc, of p sc StartTagContent]
  by (cases G; simp add: Builder_init_eq grammar_index_def has_table_def nth_append nth_Cons' add.assoc)+

text \<open>The document grammars read a code from its first part on; in an element the first part has
  been read with the learned grammar.\<close>

definition first_part :: "SchemaGrammar \<Rightarrow> nat" where
  "first_part G = (if G = StartTagContent \<or> G = ElementContent then 1 else 0)"

definition first_value :: "SchemaGrammar \<Rightarrow> EventTerm list list \<Rightarrow> nat \<Rightarrow> nat \<Rightarrow> nat" where
  "first_value G ls i j = (if first_part G = 0 then 0 else if i = 0 then j else length (ls ! 0))"

lemma doc_levels_first:
  "has_table G \<Longrightarrow> doc_levels p sc G \<noteq> [] \<and> (doc_levels p sc G ! 0 = [] \<longleftrightarrow> G = StartTagContent)"
  by (cases G) (simp_all add: has_table_def doc_levels_def Let_def)

context code_source
begin

lemma decodeTerm_level:
  assumes G: "has_table G" and i: "i < length (doc_levels p sc G)" "j < length (doc_levels p sc G ! i)"
    and h: "holds s (drop (first_part G) (level_code (doc_levels p sc G) i j) @ xs)"
  shows "\<exists>s'. decodeTerm_at rd (code_of (doc_levels p sc G)) (first_part G) (first_value G (doc_levels p sc G) i j) s
      = Ret (level_start (doc_levels p sc G) i + j) s' \<and> holds s' xs"
proof -
  let ?ls = "doc_levels p sc G"
  note ok = levels_ok_doc [of p sc G]
  have l3: "length ?ls \<le> 3" using ok by (simp add: levels_ok_def)
  have "0 < length ?ls" using i(1) by linarith
  note f = code_of_fields [OF ok this]
  show ?thesis
  proof (cases "first_part G = 0")
    case True
    then have ne: "?ls ! 0 \<noteq> []" using doc_levels_first [OF G] by (auto simp: first_part_def split: if_splits)
    have "level_size ?ls 0 \<noteq> 0" using ne by (simp add: level_size_def)
    moreover have "\<exists>s'. decodeTerm_loop rd (code_of ?ls) (length ?ls - 0) 0 0 s
        = Ret (0 + (level_start ?ls i - level_start ?ls 0) + j) s' \<and> holds s' xs"
      by (rule decodeTerm_loop_level [OF ok _ i]) (use True ne h l3 in auto)
    ultimately show ?thesis using True f ne i(1)
      by (auto simp: decodeTerm_at_def first_value_def level_start_def Let_def)
  next
    case False
    then have fp: "first_part G = 1" by (simp add: first_part_def split: if_splits)
    show ?thesis
    proof (cases "i = 0")
      case True
      have "drop 1 (level_code ?ls i j) = []" using True by (simp add: level_code_def)
      then have hx: "holds s xs" using h fp by simp
      have ne: "?ls ! 0 \<noteq> []" using i(2) True by auto
      have fv: "first_value G ?ls i j = j" using True fp by (simp add: first_value_def)
      have "1 < length ?ls"
        using G fp i True by (cases G) (auto simp: first_part_def doc_levels_def Let_def has_table_def)
      then have "level_size ?ls 0 - 1 = length (?ls ! 0)" "level_size ?ls 0 \<noteq> 0" by (simp_all add: level_size_def)
      then have "j \<noteq> level_size ?ls 0 - 1" "level_size ?ls 0 \<noteq> 0" using i(2) True by auto
      then show ?thesis using fp fv f ne hx True by (simp add: decodeTerm_at_def level_start_def)
    next
      case i0: False
      let ?a = "length (?ls ! 0)"
      have fv: "first_value G ?ls i j = ?a" using i0 fp by (simp add: first_value_def)
      have l0: "0 < length ?ls" using i(1) by linarith
      have sz: "level_size ?ls 0 = Suc ?a" "?a \<le> 8"
        using i0 i(1) levels_ok_length [OF ok l0] by (simp_all add: level_size_def)
      have "\<exists>s'. decodeTerm_loop rd (code_of ?ls) (length ?ls - 1) 1 ?a s
          = Ret (?a + (level_start ?ls i - level_start ?ls 1) + j) s' \<and> holds s' xs"
        by (rule decodeTerm_loop_level [OF ok _ i]) (use fp h l3 sz i0 in auto)
      moreover have "?a + (level_start ?ls i - level_start ?ls 1) = level_start ?ls i"
      proof -
        have "level_start ?ls 1 = ?a" using i0 i(1) by (cases ?ls) (auto simp: level_start_def)
        moreover have "take i ?ls = take 1 ?ls @ take (i - 1) (drop 1 ?ls)" using i0 by (simp flip: take_add)
        then have "level_start ?ls 1 \<le> level_start ?ls i" by (simp add: level_start_def)
        ultimately show ?thesis by simp
      qed
      ultimately show ?thesis using fp fv f sz i(1) by (auto simp: decodeTerm_at_def)
    qed
  qed
qed

end

text \<open>Property C1. For every setting of the preservation options and of self-containment, the tables the
  builder lays out read each event code of the documented grammars as its event, at any position of
  a bit-packed or byte-packed stream, and consume exactly the code.\<close>

theorem documented_event_codes:
  assumes "has_table G" "i < length (doc_levels p sc G)" "j < length (doc_levels p sc G ! i)"
    and "ord_codes r (drop (first_part G) (level_code (doc_levels p sc G) i j) @ xs)"
  shows "\<exists>at r'. decodeTerm_at OrdReader_readBits64 (bi_Code (snd (Builder_init p sc) ! grammar_index G))
        (first_part G) (first_value G (doc_levels p sc G) i j) r = Ret at r'
    \<and> fst (Builder_init p sc) ! (bi_Offset (snd (Builder_init p sc) ! grammar_index G) + at) = doc_levels p sc G ! i ! j
    \<and> ord_codes r' xs"
  using ordc.decodeTerm_level [OF assms] Builder_init_table [OF assms(1)]
    concat_level_nth [OF assms(2,3)] by fastforce

theorem documented_event_codes_witness:
  "\<exists>at r'. decodeTerm_at OrdReader_readBits64
      (bi_Code (snd (Builder_init (Preserve default_ExiOptions) False) ! 2)) 1 0 (OrdBit (BitReader_new [0x40])) = Ret at r'
    \<and> fst (Builder_init (Preserve default_ExiOptions) False) !
        (bi_Offset (snd (Builder_init (Preserve default_ExiOptions) False) ! 2) + at) = AT"
proof -
  let ?ls = "doc_levels (Preserve default_ExiOptions) False StartTagContent"
  have ls: "?ls = [[], [EE, AT, SE, CH]]" by (simp add: doc_levels_def default_ExiOptions_def Let_def)
  have "CompactIDLog2 (Suc (Suc (Suc (Suc 0)))) = 2" by (simp add: CompactIDLog2_bit_length bit_length.simps)
  then have lc: "drop 1 (level_code ?ls 1 1) = [(2, 1)]"
    by (simp add: ls level_code_def level_size_def)
  have w: "stream_word [0x40] 0 2 = 1"
    by (simp add: stream_word_def stream_bits_def msb_word_def sbit_def upt_rec bit_simps)
  have "ord_codes (OrdBit (BitReader_new [0x40])) (drop (first_part StartTagContent) (level_code ?ls 1 1) @ [])"
    using br_at_new [of "[0x40]"] w
    by (auto simp: first_part_def lc [unfolded One_nat_def] ord_codes_def bit_codes_def
        intro!: exI [of _ "[0x40]"] exI [of _ 0])
  from documented_event_codes [OF _ _ _ this] show ?thesis
    by (auto simp: ls has_table_def grammar_index_def first_part_def first_value_def)
qed

end
