(* ===== verification/LRUCache.thy ===== *)
theory LRUCache
  imports Prelude
begin

text \<open>
  \<open>SmallLRUCache\<close> (\<open>core/Common/SmallLRUCache.hpp\<close>) and what a client may rely on. The cache is
  the list of its \<open>Size\<close> live entries, least recently used first. \<open>get\<close> returns a reference to
  the value of the most recently used entry, through which the client writes.
\<close>

section \<open>The cache\<close>

text \<open>\<open>shiftFrom\<close> moves the entries after position \<open>ix\<close> back by one.\<close>

definition shiftFrom :: "nat \<Rightarrow> ('k \<times> 'v) list \<Rightarrow> ('k \<times> 'v) list" where
  "shiftFrom ix elts = foldl (\<lambda>es i. es[i := es ! (i + 1)]) elts [ix..<length elts - 1]"

text \<open>The search runs from the most recently used end.\<close>

primrec lru_search :: "'k \<Rightarrow> ('k \<times> 'v) list \<Rightarrow> nat \<Rightarrow> nat option" where
  "lru_search key elts 0 = None"
| "lru_search key elts (Suc ix) = (if fst (elts ! ix) = key then Some ix else lru_search key elts ix)"

definition SmallLRUCache_get :: "nat \<Rightarrow> 'v \<Rightarrow> 'k \<Rightarrow> ('k \<times> 'v) list \<Rightarrow> 'v \<times> ('k \<times> 'v) list" where
  "SmallLRUCache_get n dflt key elts =
    (case lru_search key elts (length elts) of
       Some ix \<Rightarrow>
         (let mru = length elts - 1;
              elts' = (if ix < mru then (shiftFrom ix elts)[mru := elts ! ix] else elts)
          in (snd (elts' ! mru), elts'))
     | None \<Rightarrow>
         (if length elts = n
          then (let elts' = shiftFrom 0 elts in (dflt, elts'[length elts' - 1 := (key, dflt)]))
          else (dflt, elts @ [(key, dflt)])))"

text \<open>Writing through the reference.\<close>

definition SmallLRUCache_setMRU :: "'v \<Rightarrow> ('k \<times> 'v) list \<Rightarrow> ('k \<times> 'v) list" where
  "SmallLRUCache_setMRU v elts = elts[length elts - 1 := (fst (elts ! (length elts - 1)), v)]"

section \<open>The contract of a reference cache\<close>

text \<open>
  \<open>content c k\<close> is the value the cache holds for \<open>k\<close>, if any. A lookup returns that value or
  the default, leaves an entry for the key as the target of the next write, and may forget other
  keys but never changes them.
\<close>

locale reference_cache =
  fixes get :: "'k \<Rightarrow> 'c \<Rightarrow> 'v option \<times> 'c"
    and put :: "'v option \<Rightarrow> 'c \<Rightarrow> 'c"
    and content :: "'c \<Rightarrow> 'k \<Rightarrow> 'v option option"
    and ok :: "'c \<Rightarrow> bool"
  assumes get_value: "ok c \<Longrightarrow> fst (get k c) = (case content c k of None \<Rightarrow> None | Some v \<Rightarrow> v)"
    and get_other: "ok c \<Longrightarrow> content (snd (get k c)) k' = Some w \<Longrightarrow> content c k' = Some w \<or> k' = k \<and> w = fst (get k c)"
    and get_ok: "ok c \<Longrightarrow> ok (snd (get k c))"
    and put_other: "ok c \<Longrightarrow> content (put v (snd (get k c))) k' = Some w \<Longrightarrow>
      k' = k \<and> w = v \<or> content (snd (get k c)) k' = Some w"
    and put_ok: "ok c \<Longrightarrow> ok (put v (snd (get k c)))"
begin

text \<open>A cache in front of a lookup function: every value it holds is the function's.\<close>

definition coherent :: "('k \<Rightarrow> 'v option) \<Rightarrow> 'c \<Rightarrow> bool" where
  "coherent f c \<longleftrightarrow> ok c \<and> (\<forall>k v. content c k = Some (Some v) \<longrightarrow> f k = Some v)"

lemma coherentD: "coherent f c \<Longrightarrow> content c k = Some (Some v) \<Longrightarrow> f k = Some v"
  by (simp add: coherent_def)

lemma coherent_ok: "coherent f c \<Longrightarrow> ok c"
  by (simp add: coherent_def)

lemma coherent_hit:
  assumes "coherent f c" "fst (get k c) = Some v"
  shows "f k = Some v"
proof (rule coherentD [OF assms(1)])
  show "content c k = Some (Some v)"
    using get_value [OF coherent_ok [OF assms(1)], of k] assms(2) by (cases "content c k") auto
qed

lemma coherent_get:
  assumes "coherent f c"
  shows "coherent f (snd (get k c))"
  unfolding coherent_def
proof (intro conjI allI impI)
  show "ok (snd (get k c))" using get_ok coherent_ok assms by blast
  fix k' v assume "content (snd (get k c)) k' = Some (Some v)"
  then consider "content c k' = Some (Some v)" | "k' = k" "fst (get k c) = Some v"
    using get_other [OF coherent_ok [OF assms]] by metis
  then show "f k' = Some v"
    using coherentD [OF assms] coherent_hit [OF assms] by cases auto
qed

lemma coherent_fill:
  assumes "coherent f c" "f k = Some v"
  shows "coherent f (put (Some v) (snd (get k c)))"
  unfolding coherent_def
proof (intro conjI allI impI)
  show "ok (put (Some v) (snd (get k c)))" using put_ok coherent_ok assms(1) by blast
  fix k' w assume "content (put (Some v) (snd (get k c))) k' = Some (Some w)"
  then consider "k' = k" "w = v" | "content (snd (get k c)) k' = Some (Some w)"
    using put_other [OF coherent_ok [OF assms(1)]] by blast
  then show "f k' = Some w"
    using assms(2) coherentD [OF coherent_get [OF assms(1)]] by cases auto
qed

lemma coherent_mono:
  "coherent f c \<Longrightarrow> (\<And>k v. f k = Some v \<Longrightarrow> g k = Some v) \<Longrightarrow> coherent g c"
  by (auto simp: coherent_def)

end

section \<open>The cache meets the contract\<close>

lemma shiftFrom_eq:
  assumes "ix < length elts"
  shows "shiftFrom ix elts = take ix elts @ drop (Suc ix) elts @ [last elts]"
proof -
  have "k \<le> length elts - 1 - ix \<Longrightarrow>
    foldl (\<lambda>es i. es[i := es ! (i + 1)]) elts [ix..<ix + k]
      = take ix elts @ take k (drop (Suc ix) elts) @ drop (ix + k) elts" for k
  proof (induction k)
    case 0
    then show ?case by simp
  next
    case (Suc k)
    let ?es = "take ix elts @ take k (drop (Suc ix) elts) @ drop (ix + k) elts"
    have l: "ix + k + 1 < length elts" using Suc.prems by linarith
    have len: "length (take ix elts) = ix" "length (take k (drop (Suc ix) elts)) = k" using l by simp_all
    have n: "?es ! (ix + k + 1) = elts ! (ix + k + 1)"
      unfolding nth_append len using l by simp
    have d: "drop (ix + k) elts = elts ! (ix + k) # drop (Suc (ix + k)) elts"
      using l by (simp add: Cons_nth_drop_Suc)
    have t: "take (Suc k) (drop (Suc ix) elts) = take k (drop (Suc ix) elts) @ [elts ! (ix + k + 1)]"
      using l by (simp add: take_Suc_conv_app_nth add.commute)
    let ?A = "take ix elts @ take k (drop (Suc ix) elts)"
    have "(?A @ elts ! (ix + k) # drop (Suc (ix + k)) elts)[length ?A := elts ! (ix + k + 1)]
        = ?A @ elts ! (ix + k + 1) # drop (Suc (ix + k)) elts"
      by (rule list_update_length)
    moreover have "length ?A = ix + k" using len by simp
    ultimately have "?es[ix + k := elts ! (ix + k + 1)]
        = take ix elts @ take (Suc k) (drop (Suc ix) elts) @ drop (ix + Suc k) elts"
      unfolding d t by simp
    then show ?case using Suc n by simp
  qed
  moreover have "drop (length elts - 1) elts = [last elts]"
    using assms by (metis append_butlast_last_id append_eq_conv_conj length_butlast list.size(3) not_less0)
  ultimately show ?thesis
    using assms by (auto simp: shiftFrom_def dest: meta_spec [of _ "length elts - 1 - ix"])
qed


lemma lru_search_Some:
  "lru_search key elts n = Some ix \<Longrightarrow> ix < n \<and> fst (elts ! ix) = key"
  by (induction n) (auto split: if_splits)

lemma lru_search_None:
  "lru_search key elts n = None \<longleftrightarrow> (\<forall>i < n. fst (elts ! i) \<noteq> key)"
  by (induction n) (auto simp: less_Suc_eq)

text \<open>The two ways a lookup ends.\<close>

lemma get_hit:
  assumes "lru_search key elts (length elts) = Some ix"
  shows "SmallLRUCache_get n dflt key elts
    = (snd (elts ! ix), take ix elts @ drop (Suc ix) elts @ [elts ! ix])"
proof -
  have ix: "ix < length elts" using lru_search_Some [OF assms] by blast
  show ?thesis
  proof (cases "ix < length elts - 1")
    case True
    have "length elts - 1 = length (take ix elts @ drop (Suc ix) elts)" using ix by simp
    then have "(take ix elts @ drop (Suc ix) elts @ [last elts])[length elts - 1 := elts ! ix]
        = take ix elts @ drop (Suc ix) elts @ [elts ! ix]"
      by (metis append.assoc list_update_length)
    then show ?thesis
      using True assms shiftFrom_eq [OF ix] ix by (simp add: SmallLRUCache_get_def Let_def nth_append)
  next
    case False
    then have l: "ix = length elts - 1" using ix by linarith
    then have "elts = take ix elts @ drop (Suc ix) elts @ [elts ! ix]"
      using id_take_nth_drop [OF ix] by simp
    then show ?thesis using l assms by (simp add: SmallLRUCache_get_def Let_def)
  qed
qed

lemma get_miss:
  assumes "lru_search key elts (length elts) = None" "0 < n"
  shows "SmallLRUCache_get n dflt key elts
    = (dflt, (if length elts = n then tl elts else elts) @ [(key, dflt)])"
proof (cases "length elts = n")
  case True
  then have ne: "elts \<noteq> []" using assms(2) by auto
  have "shiftFrom 0 elts = tl elts @ [last elts]"
    using shiftFrom_eq [of 0 elts] ne by (simp add: drop_Suc)
  moreover have "(tl elts @ [last elts])[length (tl elts) := (key, dflt)] = tl elts @ [(key, dflt)]"
    by (rule list_update_length)
  moreover have "length (tl elts @ [last elts]) - 1 = length (tl elts)" by simp
  ultimately have "(shiftFrom 0 elts)[length (shiftFrom 0 elts) - 1 := (key, dflt)] = tl elts @ [(key, dflt)]"
    by (simp only:)
  then show ?thesis using True assms(1) by (simp add: SmallLRUCache_get_def Let_def)
qed (use assms in \<open>simp add: SmallLRUCache_get_def\<close>)

definition lru_ok :: "nat \<Rightarrow> ('k \<times> 'v) list \<Rightarrow> bool" where
  "lru_ok n elts \<longleftrightarrow> 0 < n \<and> length elts \<le> n \<and> distinct (map fst elts)"

lemma get_cases [consumes 1, case_names hit miss]:
  assumes "lru_ok n elts"
  obtains (hit) ix where "ix < length elts" "fst (elts ! ix) = key"
      "SmallLRUCache_get n dflt key elts = (snd (elts ! ix), take ix elts @ drop (Suc ix) elts @ [elts ! ix])"
  | (miss) "key \<notin> fst ` set elts"
      "SmallLRUCache_get n dflt key elts = (dflt, (if length elts = n then tl elts else elts) @ [(key, dflt)])"
proof (cases "lru_search key elts (length elts)")
  case None
  then have "key \<notin> fst ` set elts" unfolding lru_search_None by (metis imageE in_set_conv_nth)
  with miss get_miss [OF None] assms show ?thesis by (auto simp: lru_ok_def)
next
  case (Some ix)
  with hit get_hit [OF Some] lru_search_Some [OF Some] show ?thesis by blast
qed

lemma rotate_set:
  assumes "ix < length xs"
  shows "set (take ix xs @ drop (Suc ix) xs @ [xs ! ix]) = set xs"
    and "distinct (map fst xs) \<Longrightarrow> distinct (map fst (take ix xs @ drop (Suc ix) xs @ [xs ! ix]))"
proof -
  have x: "xs = take ix xs @ xs ! ix # drop (Suc ix) xs" using assms by (simp add: id_take_nth_drop)
  then have "set xs = set (take ix xs @ xs ! ix # drop (Suc ix) xs)" by simp
  then show "set (take ix xs @ drop (Suc ix) xs @ [xs ! ix]) = set xs" by auto
  assume "distinct (map fst xs)"
  then have "distinct (map fst (take ix xs @ xs ! ix # drop (Suc ix) xs))" using x by simp
  then show "distinct (map fst (take ix xs @ drop (Suc ix) xs @ [xs ! ix]))" by auto
qed


definition lru_content :: "('k \<times> 'v) list \<Rightarrow> 'k \<Rightarrow> 'v option" where
  "lru_content elts = map_of elts"

lemma lru_content_iff: "lru_ok n elts \<Longrightarrow> lru_content elts k = Some v \<longleftrightarrow> (k, v) \<in> set elts"
  by (simp add: lru_ok_def lru_content_def)

lemma lru_get_ok:
  assumes "lru_ok n elts"
  shows "lru_ok n (snd (SmallLRUCache_get n dflt key elts))"
using assms
proof (cases rule: get_cases [where key = key and dflt = dflt])
  case (hit ix)
  then show ?thesis using assms rotate_set(2) [OF hit(1)] by (auto simp: lru_ok_def)
next
  case miss
  have "distinct (map fst (tl elts))" "fst ` set (tl elts) \<subseteq> fst ` set elts"
    using assms by (cases elts; auto simp: lru_ok_def)+
  then show ?thesis using miss assms by (auto simp: lru_ok_def)
qed

lemma lru_get_set:
  assumes "lru_ok n elts"
  shows "set (snd (SmallLRUCache_get n dflt key elts)) \<subseteq> insert (key, fst (SmallLRUCache_get n dflt key elts)) (set elts)"
using assms
proof (cases rule: get_cases [where key = key and dflt = dflt])
  case (hit ix)
  then show ?thesis using rotate_set(1) [OF hit(1)] by auto
next
  case miss
  then show ?thesis by (cases elts) auto
qed

lemma lru_get_value:
  assumes "lru_ok n elts"
  shows "fst (SmallLRUCache_get n dflt key elts) = (case lru_content elts key of None \<Rightarrow> dflt | Some v \<Rightarrow> v)"
using assms
proof (cases rule: get_cases [where key = key and dflt = dflt])
  case (hit ix)
  then have "(key, snd (elts ! ix)) \<in> set elts" by (metis nth_mem prod.collapse)
  then have "lru_content elts key = Some (snd (elts ! ix))" using lru_content_iff [OF assms] by blast
  then show ?thesis using hit by simp
next
  case miss
  then have "lru_content elts key = None" by (simp add: lru_content_def map_of_eq_None_iff)
  then show ?thesis using miss by simp
qed

lemma lru_get_last:
  assumes "lru_ok n elts"
  shows "\<exists>es. snd (SmallLRUCache_get n dflt key elts) = es @ [(key, fst (SmallLRUCache_get n dflt key elts))]"
  using assms by (cases rule: get_cases [where key = key and dflt = dflt]) auto

lemma setMRU_snoc: "SmallLRUCache_setMRU v (es @ [(k, w)]) = es @ [(k, v)]"
  by (simp add: SmallLRUCache_setMRU_def)

lemma lru_put:
  assumes "lru_ok n elts"
    and "elts' = snd (SmallLRUCache_get n dflt key elts)"
  shows "lru_ok n (SmallLRUCache_setMRU v elts')"
    and "set (SmallLRUCache_setMRU v elts') \<subseteq> insert (key, v) (set elts')"
proof -
  obtain es w where e: "elts' = es @ [(key, w)]"
    using lru_get_last [OF assms(1)] unfolding assms(2) by blast
  have "lru_ok n elts'" unfolding assms(2) by (rule lru_get_ok [OF assms(1)])
  then show "lru_ok n (SmallLRUCache_setMRU v elts')" unfolding e setMRU_snoc by (simp add: lru_ok_def)
  show "set (SmallLRUCache_setMRU v elts') \<subseteq> insert (key, v) (set elts')"
    unfolding e setMRU_snoc by auto
qed

lemma lru_get_other:
  assumes "lru_ok n c" "lru_content (snd (SmallLRUCache_get n d k c)) k' = Some w"
  shows "lru_content c k' = Some w \<or> k' = k \<and> w = fst (SmallLRUCache_get n d k c)"
  using assms(2) lru_get_set [OF assms(1), of d k]
  unfolding lru_content_iff [OF lru_get_ok [OF assms(1)]] lru_content_iff [OF assms(1)] by auto

lemma lru_put_other:
  assumes "lru_ok n c" "lru_content (SmallLRUCache_setMRU v (snd (SmallLRUCache_get n d k c))) k' = Some w"
  shows "k' = k \<and> w = v \<or> lru_content (snd (SmallLRUCache_get n d k c)) k' = Some w"
  using assms(2) lru_put(2) [OF assms(1) refl, of v d k]
  unfolding lru_content_iff [OF lru_put(1) [OF assms(1) refl]] lru_content_iff [OF lru_get_ok [OF assms(1)]]
  by auto

interpretation lru: reference_cache "SmallLRUCache_get n None" SmallLRUCache_setMRU lru_content "lru_ok n" for n
  by unfold_locales
    (fact lru_get_value lru_get_ok lru_put(1) [OF _ refl] | erule (1) lru_get_other | erule (1) lru_put_other)+

end
