(* ===== verification/StringTables.thy ===== *)
theory StringTables
  imports CompactID EventCodes LRUCache ExiOptions
begin

text \<open>
  The decoder's string table (\<open>exi/Basic/StringTables.hpp\<close>, \<open>lib/exi/Decode/StringTables.cpp\<close>):
  the partitions for URIs, prefixes, local names and values, with the cache in front of the value
  partitions. A \<open>LocalName\<close> object lives in the allocator: its address is an index into
  \<open>LNHeap\<close>, and the partitions and the cache hold addresses. Interned strings are immutable and
  are their bytes. The paged vector \<open>LNMap\<close> is the list of its elements.
\<close>

section \<open>State\<close>

record URIInfo =
  uri_Name :: bytes
  PrefixElts :: nat
  LNElts :: nat

record LocalName =
  ln_Name :: bytes
  LocalValues :: "bytes list"

record StringTable =
  URIMap :: "URIInfo list"
  URICount :: CompactIDCounter
  PrefixMap :: "bytes list list"
  LNHeap :: "LocalName list"
  LNMap :: "nat list list"
  LNCount :: CompactIDCounter
  LNCache :: "(SmallQName \<times> nat option) list"
  GValueMap :: "bytes list"
  GValueCount :: CompactIDCounter
  DidSetup :: bool
  WrappingValues :: bool

definition StringTable_new :: StringTable where
  "StringTable_new = \<lparr>URIMap = [], URICount = CompactIDCounter_zero, PrefixMap = [], LNHeap = [],
     LNMap = [], LNCount = CompactIDCounter_zero, LNCache = [], GValueMap = [],
     GValueCount = CompactIDCounter_zero, DidSetup = False, WrappingValues = False\<rparr>"

definition LNCacheSize :: nat where "LNCacheSize = 4"

definition LocalName_bits :: "LocalName \<Rightarrow> nat" where
  "LocalName_bits ln = CompactIDLog2 (length (LocalValues ln) + 1)"

definition LocalName_bytes :: "LocalName \<Rightarrow> nat" where
  "LocalName_bytes ln = (if LocalValues ln = [] then 0 else LocalName_bits ln div 8 + 1)"

type_synonym 'a st = "StringTable \<Rightarrow> ('a, StringTable) exi"

section \<open>Creating entries\<close>

definition assertPartitionsInSync :: "unit st" where
  "assertPartitionsInSync =
    thenM (invariantM (\<lambda>s. length (URIMap s) = length (PrefixMap s)))
      (invariantM (\<lambda>s. length (URIMap s) = Value (LNCount s)))"

definition createLocalName :: "bytes \<Rightarrow> nat st" where
  "createLocalName name s =
    Ret (length (LNHeap s)) (s\<lparr>LNHeap := LNHeap s @ [\<lparr>ln_Name = name, LocalValues = []\<rparr>]\<rparr>)"

definition createGlobalValue :: "bytes \<Rightarrow> bytes st" where
  "createGlobalValue v =
    thenM (modM (\<lambda>s. s\<lparr>GValueMap := GValueMap s @ [v]\<rparr>))
    (thenM (zoomM GValueCount (\<lambda>c s. s\<lparr>GValueCount := c\<rparr>) (CompactIDCounter_inc 0))
      (retM v))"

text \<open>\<open>PagedVec::resize\<close> to \<open>n\<close> elements, never fewer than there are (the table only grows): new
  elements are default constructed.\<close>

definition PagedVec_resize :: "nat \<Rightarrow> 'a list list \<Rightarrow> 'a list list" where
  "PagedVec_resize n v = (if n = 0 then [] else take n v @ replicate (n - length v) [])"

text \<open>The count of prefixes starts at one when a prefix is given, and is incremented again.\<close>

definition createURI :: "bytes \<Rightarrow> bytes option \<Rightarrow> nat st" where
  "createURI uri pfx =
    thenM assertPartitionsInSync
    (bindM (getM (\<lambda>s. Value (URICount s))) (\<lambda>i.
     thenM (zoomM URICount (\<lambda>c s. s\<lparr>URICount := c\<rparr>) (CompactIDCounter_inc 1))
    (thenM (modM (\<lambda>s. s\<lparr>
        URIMap := URIMap s @ [\<lparr>uri_Name = uri, PrefixElts = (if pfx = None then 0 else 1), LNElts = 0\<rparr>],
        PrefixMap := PrefixMap s @ [[]]\<rparr>))
    (thenM (case pfx of None \<Rightarrow> retM () | Some p \<Rightarrow>
        modM (\<lambda>s. let k = length (URIMap s) - 1 in s\<lparr>
          PrefixMap := (PrefixMap s)[length (PrefixMap s) - 1 := PrefixMap s ! (length (PrefixMap s) - 1) @ [p]],
          URIMap := (URIMap s)[k := (URIMap s ! k)\<lparr>PrefixElts := (PrefixElts (URIMap s ! k) + 1) mod 2 ^ 32\<rparr>]\<rparr>))
    (thenM (zoomM LNCount (\<lambda>c s. s\<lparr>LNCount := c\<rparr>) (CompactIDCounter_inc 0))
    (thenM (modM (\<lambda>s. s\<lparr>LNMap := PagedVec_resize (Value (LNCount s)) (LNMap s)\<rparr>))
      (retM i)))))))"

primrec appendLocalNames_loop :: "nat \<Rightarrow> bytes list \<Rightarrow> unit st" where
  "appendLocalNames_loop i [] = retM ()"
| "appendLocalNames_loop i (n # ns) =
    bindM (createLocalName n) (\<lambda>a.
      thenM (modM (\<lambda>s. s\<lparr>LNMap := (LNMap s)[i := LNMap s ! i @ [a]]\<rparr>)) (appendLocalNames_loop i ns))"

definition appendLocalNames :: "nat \<Rightarrow> bytes list \<Rightarrow> unit st" where
  "appendLocalNames i names =
    thenM (invariantM (\<lambda>s. i < Value (LNCount s)))
    (thenM (assertM (\<lambda>s. i < length (LNMap s))) (appendLocalNames_loop i names))"

definition str :: "string \<Rightarrow> bytes" where
  "str s = map of_char s"

definition XML_URI :: bytes where
  "XML_URI = str ''http://www.w3.org/XML/1998/namespace''"
definition XML_InitialValues :: "bytes list" where
  "XML_InitialValues = map str [''base'', ''id'', ''lang'', ''space'']"
definition XSI_URI :: bytes where
  "XSI_URI = str ''http://www.w3.org/2001/XMLSchema-instance''"
definition XSI_InitialValues :: "bytes list" where
  "XSI_InitialValues = map str [''nil'', ''type'']"
definition XSD_URI :: bytes where
  "XSD_URI = str ''http://www.w3.org/2001/XMLSchema''"
definition XSD_InitialValues :: "bytes list" where
  "XSD_InitialValues = map str [
    ''ENTITIES'', ''ENTITY'', ''ID'', ''IDREF'', ''IDREFS'',
    ''NCName'', ''NMTOKEN'', ''NMTOKENS'', ''NOTATION'', ''Name'', ''QName'',
    ''anySimpleType'', ''anyType'', ''anyURI'',
    ''base64Binary'', ''boolean'', ''byte'',
    ''date'', ''dateTime'', ''decimal'', ''double'', ''duration'', ''float'',
    ''gDay'', ''gMonth'', ''gMonthDay'', ''gYear'', ''gYearMonth'',
    ''hexBinary'', ''int'', ''integer'', ''language'', ''long'',
    ''negativeInteger'', ''nonNegativeInteger'', ''nonPositiveInteger'',
    ''normalizedString'', ''positiveInteger'', ''short'', ''string'', ''time'', ''token'',
    ''unsignedByte'', ''unsignedInt'', ''unsignedLong'', ''unsignedShort'']"

definition createInitialEntries :: "bool \<Rightarrow> unit st" where
  "createInitialEntries usesSchema =
    bindM (createURI [] (Some [])) (\<lambda>_.
    bindM (createURI XML_URI (Some (str ''xml''))) (\<lambda>xml.
    bindM (createURI XSI_URI (Some (str ''xsi''))) (\<lambda>xsi.
    thenM (appendLocalNames xml XML_InitialValues)
    (thenM (appendLocalNames xsi XSI_InitialValues)
      (if usesSchema
       then bindM (createURI XSD_URI None) (\<lambda>xsd. appendLocalNames xsd XSD_InitialValues)
       else retM ())))))"

text \<open>The schema ID must be resolved; a box without a string means no schema.\<close>

definition StringTable_setup :: "ExiOptions \<Rightarrow> unit st" where
  "StringTable_setup opts s =
    (if DidSetup s then Ret () s
     else
      thenM (modM (\<lambda>s. s\<lparr>DidSetup := True\<rparr>))
      (thenM (assertM (\<lambda>_. SchemaID opts \<noteq> None))
      (thenM (createInitialEntries (SchemaID opts \<noteq> Some None))
      (thenM (if Bounded_bounded u64_t (ValuePartitionCapacity opts)
              then modM (\<lambda>s. s\<lparr>WrappingValues := True\<rparr>) else retM ())
        (if DatatypeRepresentationMap opts \<noteq> None then faultM Unreachable else retM ())))) s)"

section \<open>Setters\<close>

definition addURI :: "bytes \<Rightarrow> bytes option \<Rightarrow> (bytes \<times> nat) st" where
  "addURI uri pfx = bindM (createURI uri pfx) (\<lambda>i s. Ret (uri_Name (last (URIMap s)), i) s)"

definition addPrefix :: "nat \<Rightarrow> bytes \<Rightarrow> (bytes \<times> nat) st" where
  "addPrefix u pfx =
    thenM (invariantM (\<lambda>s. u < length (URIMap s)))
    (thenM assertPartitionsInSync (\<lambda>s.
      let i = PrefixElts (URIMap s ! u) in
      Ret (pfx, i) (s\<lparr>
        URIMap := (URIMap s)[u := (URIMap s ! u)\<lparr>PrefixElts := (i + 1) mod 2 ^ 32\<rparr>],
        PrefixMap := (PrefixMap s)[u := PrefixMap s ! u @ [pfx]]\<rparr>)))"

definition addLocalName :: "nat \<Rightarrow> bytes \<Rightarrow> (bytes \<times> nat) st" where
  "addLocalName u name =
    thenM (invariantM (\<lambda>s. u < length (URIMap s)))
    (thenM assertPartitionsInSync
    (bindM (getM (\<lambda>s. LNElts (URIMap s ! u))) (\<lambda>i.
     thenM (modM (\<lambda>s. s\<lparr>URIMap := (URIMap s)[u := (URIMap s ! u)\<lparr>LNElts := (i + 1) mod 2 ^ 32\<rparr>]\<rparr>))
    (bindM (createLocalName name) (\<lambda>a.
     thenM (assertM (\<lambda>s. u < length (LNMap s)))
    (thenM (modM (\<lambda>s. s\<lparr>LNMap := (LNMap s)[u := LNMap s ! u @ [a]]\<rparr>))
      (retM (name, i))))))))"

definition addGlobalValue :: "bytes \<Rightarrow> (bytes \<times> nat) st" where
  "addGlobalValue v = bindM (getM (\<lambda>s. Value (GValueCount s))) (\<lambda>i.
     bindM (createGlobalValue v) (\<lambda>w. retM (w, i)))"

text \<open>The address of the value partition of a name, through the cache.\<close>

definition getLVPartition :: "SmallQName \<Rightarrow> nat st" where
  "getLVPartition q =
    bindM (\<lambda>s. case SmallLRUCache_get LNCacheSize None q (LNCache s) of
        (v, c) \<Rightarrow> Ret v (s\<lparr>LNCache := c\<rparr>))
      (\<lambda>v. case v of
        Some a \<Rightarrow> retM a
      | None \<Rightarrow>
          thenM (invariantM (\<lambda>s. URI q < length (URIMap s)))
          (thenM (invariantM (\<lambda>s. LocalID q < LNElts (URIMap s ! URI q)))
          (thenM assertPartitionsInSync
          (bindM (nthM LNMap (URI q)) (\<lambda>lns.
           bindM (nthM (\<lambda>_. lns) (LocalID q)) (\<lambda>a.
           thenM (modM (\<lambda>s. s\<lparr>LNCache := SmallLRUCache_setMRU (Some a) (LNCache s)\<rparr>)) (retM a)))))))"

definition addLocalValue :: "SmallQName \<Rightarrow> bytes \<Rightarrow> (bytes \<times> nat) st" where
  "addLocalValue q v =
    thenM (invariantM (\<lambda>_. SmallQName_isQName q))
    (bindM (getLVPartition q) (\<lambda>a.
     bindM (getM (\<lambda>s. length (LocalValues (LNHeap s ! a)))) (\<lambda>i.
     bindM (createGlobalValue v) (\<lambda>w.
     thenM (modM (\<lambda>s. s\<lparr>LNHeap := (LNHeap s)[a := (LNHeap s ! a)\<lparr>LocalValues := LocalValues (LNHeap s ! a) @ [w]\<rparr>]\<rparr>))
      (retM (w, i))))))"

record IDTriple =
  idt_Value :: bytes
  GlobalID :: nat
  idt_LocalID :: nat

definition addValue :: "SmallQName \<Rightarrow> bytes \<Rightarrow> IDTriple st" where
  "addValue q v =
    thenM (invariantM (\<lambda>_. SmallQName_isQName q))
    (bindM (addLocalValue q v) (\<lambda>(w, l) s.
      Ret \<lparr>idt_Value = w, GlobalID = usub (Value (GValueCount s)) 1, idt_LocalID = l\<rparr> s))"

section \<open>Validators and getters\<close>

definition hasURI :: "nat \<Rightarrow> StringTable \<Rightarrow> bool" where
  "hasURI u s \<longleftrightarrow> u < length (URIMap s)"

definition hasPrefixes :: "nat \<Rightarrow> bool st" where
  "hasPrefixes u s = (if \<not> hasURI u s then Ret False s
     else thenM assertPartitionsInSync (getM (\<lambda>s. 0 < PrefixElts (URIMap s ! u))) s)"

definition hasPrefix :: "nat \<Rightarrow> nat \<Rightarrow> bool st" where
  "hasPrefix u p = bindM (hasPrefixes u) (\<lambda>b.
     if \<not> b then retM False else getM (\<lambda>s. p < PrefixElts (URIMap s ! u)))"

definition getURI :: "nat \<Rightarrow> bytes st" where
  "getURI u =
    thenM (invariantM (\<lambda>s. u < length (URIMap s)))
    (thenM assertPartitionsInSync (getM (\<lambda>s. uri_Name (URIMap s ! u))))"

definition getPrefix :: "nat \<Rightarrow> nat \<Rightarrow> bytes st" where
  "getPrefix u p =
    bindM (hasPrefixes u) (\<lambda>b. thenM (assertM (\<lambda>_. b))
      (bindM (nthM PrefixMap u) (\<lambda>pfx.
        thenM (invariantM (\<lambda>_. p < length pfx)) (retM (pfx ! p)))))"

definition getLocalName :: "nat \<Rightarrow> nat \<Rightarrow> bytes st" where
  "getLocalName u l =
    thenM (invariantM (\<lambda>s. u < length (URIMap s)))
    (thenM (invariantM (\<lambda>s. l < LNElts (URIMap s ! u)))
    (thenM assertPartitionsInSync
    (bindM (nthM LNMap u) (\<lambda>lns. bindM (nthM (\<lambda>_. lns) l) (\<lambda>a.
      getM (\<lambda>s. ln_Name (LNHeap s ! a)))))))"

definition getLocalNameQ :: "SmallQName \<Rightarrow> bytes st" where
  "getLocalNameQ q = thenM (assertM (\<lambda>_. SmallQName_isQName q)) (getLocalName (URI q) (LocalID q))"

definition getQName :: "nat \<Rightarrow> nat \<Rightarrow> (bytes \<times> bytes) st" where
  "getQName u l =
    bindM (getLocalName u l) (\<lambda>n. getM (\<lambda>s. (uri_Name (URIMap s ! u), n)))"

definition getGlobalValue :: "nat \<Rightarrow> bytes st" where
  "getGlobalValue i =
    thenM (invariantM (\<lambda>s. i < Value (GValueCount s))) (nthM GValueMap i)"

definition getLocalValue :: "SmallQName \<Rightarrow> nat \<Rightarrow> bytes st" where
  "getLocalValue q i =
    thenM (assertM (\<lambda>_. SmallQName_isQName q))
    (bindM (getLVPartition q) (\<lambda>a.
     bindM (getM (\<lambda>s. LocalValues (LNHeap s ! a))) (\<lambda>vs.
      thenM (invariantM (\<lambda>_. i < length vs)) (retM (vs ! i)))))"

definition getValue :: "EventUID \<Rightarrow> bytes st" where
  "getValue e =
    thenM (assertM (\<lambda>_. EventUID_hasValue e))
      (if EventUID_isGlobal e then getGlobalValue (ValueID e) else getLocalValue (Name e) (ValueID e))"

section \<open>Bit widths\<close>

definition getURILog :: "nat st" where
  "getURILog = getM (\<lambda>s. LogValue (URICount s))"

definition getPrefixLogQ :: "nat \<Rightarrow> nat st" where
  "getPrefixLogQ u =
    thenM (invariantM (\<lambda>s. u < length (URIMap s)))
    (thenM assertPartitionsInSync (getM (\<lambda>s. let n = PrefixElts (URIMap s ! u) in
      if n = 0 then 0 else CompactIDLog2 (n - 1))))"

definition getPrefixLog :: "nat \<Rightarrow> nat st" where
  "getPrefixLog u =
    thenM (invariantM (\<lambda>s. u < length (URIMap s)))
    (thenM assertPartitionsInSync (getM (\<lambda>s. CompactIDLog2 (PrefixElts (URIMap s ! u)))))"

definition getLocalNameLog :: "nat \<Rightarrow> nat st" where
  "getLocalNameLog u =
    thenM (invariantM (\<lambda>s. u < length (URIMap s)))
    (thenM assertPartitionsInSync (getM (\<lambda>s. CompactIDLog2 (LNElts (URIMap s ! u)))))"

definition getGlobalValueLog :: "nat st" where
  "getGlobalValueLog = getM (\<lambda>s. LogValue (GValueCount s))"

definition getLocalValueLog :: "SmallQName \<Rightarrow> nat st" where
  "getLocalValueLog q =
    thenM (assertM (\<lambda>_. SmallQName_isQName q))
    (bindM (getLVPartition q) (\<lambda>a. getM (\<lambda>s. CompactIDLog2 (length (LocalValues (LNHeap s ! a))))))"


section \<open>The invariant of the table\<close>

text \<open>Where a name's value partition is, without the cache.\<close>

definition ln_lookup :: "StringTable \<Rightarrow> SmallQName \<Rightarrow> nat option" where
  "ln_lookup s q = (if URI q < length (URIMap s) \<and> LocalID q < LNElts (URIMap s ! URI q)
     then Some (LNMap s ! URI q ! LocalID q) else None)"

text \<open>The partitions have one entry per URI, the counters count them, no two names share a value
  partition, every address is allocated, and the cache agrees with the tables.\<close>

definition st_ok :: "StringTable \<Rightarrow> bool" where
  "st_ok s \<longleftrightarrow>
    length (PrefixMap s) = length (URIMap s) \<and> length (LNMap s) = length (URIMap s) \<and>
    Value (URICount s) = length (URIMap s) \<and> Value (LNCount s) = length (URIMap s) \<and>
    Value (GValueCount s) = length (GValueMap s) \<and>
    LogValue (URICount s) = CompactIDLog2 (length (URIMap s) + 1) \<and>
    LogValue (GValueCount s) = CompactIDLog2 (length (GValueMap s)) \<and>
    (\<forall>u < length (URIMap s). LNElts (URIMap s ! u) \<le> length (LNMap s ! u)) \<and>
    distinct (concat (LNMap s)) \<and> set (concat (LNMap s)) \<subseteq> {..<length (LNHeap s)} \<and>
    lru.coherent LNCacheSize (ln_lookup s) (LNCache s)"

text \<open>The counts are far from the limits of their types.\<close>

definition st_room :: "StringTable \<Rightarrow> bool" where
  "st_room s \<longleftrightarrow> length (URIMap s) + 2 < 2 ^ 64 \<and> length (GValueMap s) + 1 < 2 ^ 64 \<and>
    (\<forall>u < length (URIMap s). LNElts (URIMap s ! u) + 1 < 2 ^ 32 \<and> PrefixElts (URIMap s ! u) + 1 < 2 ^ 32)"

lemma coherent_empty: "lru.coherent LNCacheSize f []"
  by (simp add: lru.coherent_def lru_ok_def LNCacheSize_def lru_content_def)

lemma st_ok_new: "st_ok StringTable_new"
  by (simp add: st_ok_def StringTable_new_def CompactIDCounter_zero_def coherent_empty CompactIDLog2_small)

lemma sync_ok: "st_ok s \<Longrightarrow> assertPartitionsInSync s = Ret () s"
  by (simp add: assertPartitionsInSync_def st_ok_def)

section \<open>What the operations do\<close>

definition with_new_uri :: "bytes \<Rightarrow> bytes option \<Rightarrow> StringTable \<Rightarrow> StringTable" where
  "with_new_uri uri pfx s = s\<lparr>
     URIMap := URIMap s @ [\<lparr>uri_Name = uri, PrefixElts = (if pfx = None then 0 else 2), LNElts = 0\<rparr>],
     URICount := \<lparr>Value = length (URIMap s) + 1, LogValue = CompactIDLog2 (length (URIMap s) + 2)\<rparr>,
     PrefixMap := PrefixMap s @ [case pfx of None \<Rightarrow> [] | Some p \<Rightarrow> [p]],
     LNMap := LNMap s @ [[]],
     LNCount := \<lparr>Value = length (URIMap s) + 1, LogValue = CompactIDLog2 (length (URIMap s) + 1)\<rparr>\<rparr>"

lemma createURI_eq:
  assumes "st_ok s" "length (URIMap s) + 2 < 2 ^ 64"
  shows "createURI uri pfx s = Ret (length (URIMap s)) (with_new_uri uri pfx s)"
proof -
  let ?n = "length (URIMap s)"
  have l: "length (PrefixMap s) = ?n" "length (LNMap s) = ?n" "Value (URICount s) = ?n" "Value (LNCount s) = ?n"
    using assms(1) by (simp_all add: st_ok_def)
  have u: "(CompactIDCounter_inc 1 (URICount s) :: (unit, CompactIDCounter) exi)
      = Ret () \<lparr>Value = ?n + 1, LogValue = CompactIDLog2 (?n + 2)\<rparr>"
    using CompactIDCounter_inc_ok [of "URICount s" 1, where 'a = ExiError] assms(2) l
    by (cases "URICount s") simp
  have n: "(CompactIDCounter_inc 0 (LNCount s) :: (unit, CompactIDCounter) exi)
      = Ret () \<lparr>Value = ?n + 1, LogValue = CompactIDLog2 (?n + 1)\<rparr>"
    using CompactIDCounter_inc_ok [of "LNCount s" 0, where 'a = ExiError] assms(2) l
    by (cases "LNCount s") simp
  have r: "PagedVec_resize (?n + 1) (LNMap s) = LNMap s @ [[]]"
    using l by (simp add: PagedVec_resize_def)
  show ?thesis
  proof (cases pfx)
    case None
    then show ?thesis using sync_ok [OF assms(1)] u n r l
      by (simp add: createURI_def with_new_uri_def)
  next
    case (Some p)
    have "(PrefixMap s @ [[]])[length (URIMap s) := [p]] = PrefixMap s @ [[p]]"
      by (metis l(1) list_update_length)
    then show ?thesis using Some sync_ok [OF assms(1)] u n r l
      by (simp add: createURI_def with_new_uri_def nth_append Let_def flip: numeral_2_eq_2)
  qed
qed

lemma ln_lookup_new_uri:
  "ln_lookup s q = Some a \<Longrightarrow> length (LNMap s) = length (URIMap s)
    \<Longrightarrow> ln_lookup (with_new_uri uri pfx s) q = Some a"
  by (auto simp: ln_lookup_def with_new_uri_def nth_append split: if_splits)

lemma st_ok_new_uri:
  assumes "st_ok s"
  shows "st_ok (with_new_uri uri pfx s)"
proof -
  have "lru.coherent LNCacheSize (ln_lookup (with_new_uri uri pfx s)) (LNCache s)"
    using assms by (auto simp: st_ok_def intro: lru.coherent_mono ln_lookup_new_uri)
  then show ?thesis
    using assms by (simp add: st_ok_def with_new_uri_def nth_append All_less_Suc)
qed

definition with_new_prefix :: "nat \<Rightarrow> bytes \<Rightarrow> StringTable \<Rightarrow> StringTable" where
  "with_new_prefix u pfx s = s\<lparr>
     URIMap := (URIMap s)[u := (URIMap s ! u)\<lparr>PrefixElts := PrefixElts (URIMap s ! u) + 1\<rparr>],
     PrefixMap := (PrefixMap s)[u := PrefixMap s ! u @ [pfx]]\<rparr>"

lemma addPrefix_eq:
  assumes "st_ok s" "st_room s" "u < length (URIMap s)"
  shows "addPrefix u pfx s = Ret (pfx, PrefixElts (URIMap s ! u)) (with_new_prefix u pfx s)"
  using assms sync_ok [OF assms(1)]
  by (simp add: addPrefix_def with_new_prefix_def Let_def st_room_def)

lemma st_ok_new_prefix:
  assumes "st_ok s" "u < length (URIMap s)"
  shows "st_ok (with_new_prefix u pfx s)"
proof -
  have "ln_lookup (with_new_prefix u pfx s) = ln_lookup s"
    using assms(2) by (auto simp: ln_lookup_def with_new_prefix_def nth_list_update)
  then show ?thesis
    using assms by (auto simp: st_ok_def with_new_prefix_def nth_list_update)
qed

definition with_new_name :: "nat \<Rightarrow> bytes \<Rightarrow> StringTable \<Rightarrow> StringTable" where
  "with_new_name u name s = s\<lparr>
     URIMap := (URIMap s)[u := (URIMap s ! u)\<lparr>LNElts := LNElts (URIMap s ! u) + 1\<rparr>],
     LNHeap := LNHeap s @ [\<lparr>ln_Name = name, LocalValues = []\<rparr>],
     LNMap := (LNMap s)[u := LNMap s ! u @ [length (LNHeap s)]]\<rparr>"

lemma addLocalName_eq:
  assumes "st_ok s" "st_room s" "u < length (URIMap s)"
  shows "addLocalName u name s = Ret (name, LNElts (URIMap s ! u)) (with_new_name u name s)"
proof -
  have "u < length (LNMap s)" using assms by (simp add: st_ok_def)
  then show ?thesis
    using assms sync_ok [OF assms(1)]
    by (simp add: addLocalName_def with_new_name_def createLocalName_def st_room_def)
qed

text \<open>Appending a fresh address to one partition.\<close>

lemma distinct_insert_mid:
  "distinct (a @ b @ c) \<Longrightarrow> n \<notin> set (a @ b @ c) \<Longrightarrow> distinct (a @ (b @ [n]) @ c)"
  by auto

lemma distinct_concat_append:
  assumes "distinct (concat xss)" "set (concat xss) \<subseteq> {..<(n :: nat)}" "u < length xss"
  shows "distinct (concat (xss[u := xss ! u @ [n]]))"
    and "set (concat (xss[u := xss ! u @ [n]])) = insert n (set (concat xss))"
proof -
  have x: "xss = take u xss @ xss ! u # drop (Suc u) xss" using assms(3) by (simp add: id_take_nth_drop)
  have upd: "xss[u := xss ! u @ [n]] = take u xss @ (xss ! u @ [n]) # drop (Suc u) xss"
    using assms(3) by (simp add: upd_conv_take_nth_drop)
  have c: "concat xss = concat (take u xss) @ xss ! u @ concat (drop (Suc u) xss)"
    using arg_cong [OF x, of concat] by (simp only: concat_append concat.simps)
  have n: "n \<notin> set (concat xss)"
  proof
    assume "n \<in> set (concat xss)"
    then have "n \<in> {..<n}" by (rule subsetD [OF assms(2)])
    then show False by simp
  qed
  show "set (concat (xss[u := xss ! u @ [n]])) = insert n (set (concat xss))"
    unfolding upd c by simp
  show "distinct (concat (xss[u := xss ! u @ [n]]))"
    using distinct_insert_mid [OF assms(1) [unfolded c] n [unfolded c]] by (simp add: upd)
qed

lemma ln_lookup_new_name:
  assumes "st_ok s" "u < length (URIMap s)" "ln_lookup s q = Some a"
  shows "ln_lookup (with_new_name u name s) q = Some a"
proof -
  have q: "URI q < length (URIMap s)" "LocalID q < LNElts (URIMap s ! URI q)" "a = LNMap s ! URI q ! LocalID q"
    using assms(3) by (auto simp: ln_lookup_def split: if_splits)
  have l: "LocalID q < length (LNMap s ! URI q)" "length (LNMap s) = length (URIMap s)"
    using assms(1) q(1,2) by (auto simp: st_ok_def)
  show ?thesis
    using q l assms(2) by (auto simp: ln_lookup_def with_new_name_def nth_list_update nth_append)
qed

lemma st_ok_new_name:
  assumes "st_ok s" "u < length (URIMap s)"
  shows "st_ok (with_new_name u name s)"
proof -
  let ?t = "with_new_name u name s"
  have l: "length (LNMap s) = length (URIMap s)" "distinct (concat (LNMap s))"
    "set (concat (LNMap s)) \<subseteq> {..<length (LNHeap s)}" using assms(1) by (simp_all add: st_ok_def)
  have "lru.coherent LNCacheSize (ln_lookup ?t) (LNCache s)"
    using assms(1) by (auto simp: st_ok_def intro: lru.coherent_mono ln_lookup_new_name [OF assms])
  moreover have "\<forall>v < length (URIMap ?t). LNElts (URIMap ?t ! v) \<le> length (LNMap ?t ! v)"
    using assms l(1) by (auto simp: st_ok_def with_new_name_def nth_list_update)
  moreover have "distinct (concat (LNMap ?t))" "set (concat (LNMap ?t)) \<subseteq> {..<length (LNHeap ?t)}"
    using distinct_concat_append [OF l(2,3), of u] assms(2) l by (auto simp: with_new_name_def)
  ultimately show ?thesis
    using assms by (simp add: st_ok_def with_new_name_def)
qed


section \<open>The cache is transparent\<close>

lemma ln_lookup_cache [simp]: "ln_lookup (s\<lparr>LNCache := c\<rparr>) = ln_lookup s"
  by (simp add: ln_lookup_def fun_eq_iff)

lemma ln_lookup_heap [simp]: "ln_lookup (s\<lparr>LNHeap := h\<rparr>) = ln_lookup s"
  by (simp add: ln_lookup_def fun_eq_iff)

lemma ln_lookup_values [simp]: "ln_lookup (s\<lparr>GValueMap := m, GValueCount := c\<rparr>) = ln_lookup s"
  by (simp add: ln_lookup_def fun_eq_iff)

lemma st_ok_cache: "st_ok s \<Longrightarrow> lru.coherent LNCacheSize (ln_lookup s) c \<Longrightarrow> st_ok (s\<lparr>LNCache := c\<rparr>)"
  by (simp add: st_ok_def)

lemma ln_lookup_Some:
  assumes "st_ok s" "ln_lookup s q = Some a"
  shows "URI q < length (URIMap s)" "LocalID q < LNElts (URIMap s ! URI q)" "URI q < length (LNMap s)"
    "LocalID q < length (LNMap s ! URI q)" "a = LNMap s ! URI q ! LocalID q" "a < length (LNHeap s)"
proof -
  show q: "URI q < length (URIMap s)" "LocalID q < LNElts (URIMap s ! URI q)" "a = LNMap s ! URI q ! LocalID q"
    using assms(2) by (auto simp: ln_lookup_def split: if_splits)
  show l: "URI q < length (LNMap s)" "LocalID q < length (LNMap s ! URI q)"
    using assms(1) q(1,2) by (auto simp: st_ok_def)
  have "a \<in> set (concat (LNMap s))" using l q(3) nth_mem by fastforce
  then show "a < length (LNHeap s)" using assms(1) by (auto simp: st_ok_def)
qed

lemma getLVPartition_eq:
  assumes "st_ok s" "ln_lookup s q = Some a"
  shows "\<exists>c. getLVPartition q s = Ret a (s\<lparr>LNCache := c\<rparr>) \<and> st_ok (s\<lparr>LNCache := c\<rparr>)"
proof -
  let ?g = "SmallLRUCache_get LNCacheSize None q (LNCache s)"
  have coh: "lru.coherent LNCacheSize (ln_lookup s) (LNCache s)" using assms(1) by (simp add: st_ok_def)
  have c: "lru.coherent LNCacheSize (ln_lookup s) (snd ?g)" by (rule lru.coherent_get [OF coh])
  then have ok: "st_ok (s\<lparr>LNCache := snd ?g\<rparr>)" using st_ok_cache [OF assms(1)] by simp
  show ?thesis
  proof (cases "fst ?g")
    case (Some b)
    then have "ln_lookup s q = Some b" using lru.coherent_hit [OF coh] by blast
    then have "getLVPartition q s = Ret a (s\<lparr>LNCache := snd ?g\<rparr>)"
      using Some assms(2) by (cases ?g) (simp add: getLVPartition_def)
    then show ?thesis using ok by blast
  next
    case None
    have f: "lru.coherent LNCacheSize (ln_lookup s) (SmallLRUCache_setMRU (Some a) (snd ?g))"
      by (rule lru.coherent_fill [OF coh assms(2)])
    have "getLVPartition q s = Ret a (s\<lparr>LNCache := SmallLRUCache_setMRU (Some a) (snd ?g)\<rparr>)"
      using None sync_ok [OF ok] ln_lookup_Some [OF assms] by (cases ?g) (simp add: getLVPartition_def)
    then show ?thesis using st_ok_cache [OF assms(1)] f by auto
  qed
qed

lemma getLVPartition_unknown:
  assumes "st_ok s" "ln_lookup s q = None"
  shows "getLVPartition q s = Fault InvariantFail"
proof -
  let ?g = "SmallLRUCache_get LNCacheSize None q (LNCache s)"
  have "lru.coherent LNCacheSize (ln_lookup s) (LNCache s)" using assms(1) by (simp add: st_ok_def)
  then have n: "fst ?g = None" using lru.coherent_hit [of LNCacheSize "ln_lookup s" "LNCache s" q] assms(2)
    by (cases "fst ?g") auto
  have "\<not> URI q < length (URIMap s) \<or> \<not> LocalID q < LNElts (URIMap s ! URI q)"
    using assms(2) by (auto simp: ln_lookup_def split: if_splits)
  then show ?thesis using n
    by (cases ?g; cases "URI q < length (URIMap s)") (simp_all add: getLVPartition_def)
qed

section \<open>Values\<close>

definition with_new_value :: "bytes \<Rightarrow> StringTable \<Rightarrow> StringTable" where
  "with_new_value v s = s\<lparr>GValueMap := GValueMap s @ [v],
     GValueCount := \<lparr>Value = length (GValueMap s) + 1, LogValue = CompactIDLog2 (length (GValueMap s) + 1)\<rparr>\<rparr>"

lemma createGlobalValue_eq:
  assumes "st_ok s" "length (GValueMap s) + 1 < 2 ^ 64"
  shows "createGlobalValue v s = Ret v (with_new_value v s)"
proof -
  have "Value (GValueCount s) = length (GValueMap s)" using assms(1) by (simp add: st_ok_def)
  then show ?thesis
    using CompactIDCounter_inc_ok [of "GValueCount s" 0, where 'a = ExiError] assms(2)
    by (cases "GValueCount s") (simp add: createGlobalValue_def with_new_value_def)
qed

lemma st_ok_new_value: "st_ok s \<Longrightarrow> st_ok (with_new_value v s)"
  by (simp add: st_ok_def with_new_value_def)

lemma addGlobalValue_eq:
  assumes "st_ok s" "length (GValueMap s) + 1 < 2 ^ 64"
  shows "addGlobalValue v s = Ret (v, length (GValueMap s)) (with_new_value v s)"
  using createGlobalValue_eq [OF assms, of v] assms(1) by (simp add: addGlobalValue_def st_ok_def)

definition push_local :: "nat \<Rightarrow> bytes \<Rightarrow> StringTable \<Rightarrow> StringTable" where
  "push_local a v s = s\<lparr>LNHeap := (LNHeap s)[a := (LNHeap s ! a)\<lparr>LocalValues := LocalValues (LNHeap s ! a) @ [v]\<rparr>]\<rparr>"

lemma st_ok_push_local: "st_ok s \<Longrightarrow> st_ok (push_local a v s)"
  by (simp add: st_ok_def push_local_def)

lemma addValue_eq:
  assumes "st_ok s" "length (GValueMap s) + 1 < 2 ^ 64" "SmallQName_isQName q" "ln_lookup s q = Some a"
  shows "\<exists>c. addValue q v s = Ret \<lparr>idt_Value = v, GlobalID = length (GValueMap s),
      idt_LocalID = length (LocalValues (LNHeap s ! a))\<rparr> (push_local a v (with_new_value v (s\<lparr>LNCache := c\<rparr>)))
    \<and> st_ok (push_local a v (with_new_value v (s\<lparr>LNCache := c\<rparr>)))"
proof -
  obtain c where c: "getLVPartition q s = Ret a (s\<lparr>LNCache := c\<rparr>)" "st_ok (s\<lparr>LNCache := c\<rparr>)"
    using getLVPartition_eq [OF assms(1,4)] by blast
  have "createGlobalValue v (s\<lparr>LNCache := c\<rparr>) = Ret v (with_new_value v (s\<lparr>LNCache := c\<rparr>))"
    using createGlobalValue_eq [OF c(2)] assms(2) by simp
  then have "addValue q v s = Ret \<lparr>idt_Value = v, GlobalID = length (GValueMap s),
      idt_LocalID = length (LocalValues (LNHeap s ! a))\<rparr> (push_local a v (with_new_value v (s\<lparr>LNCache := c\<rparr>)))"
    using assms(3) c(1) by (simp add: addValue_def addLocalValue_def push_local_def with_new_value_def)
  then show ?thesis using st_ok_push_local st_ok_new_value c(2) by blast
qed

section \<open>Reading back\<close>

lemma getLocalName_eq:
  assumes "st_ok s" "ln_lookup s \<lparr>LocalID = l, URI = u\<rparr> = Some a"
  shows "getLocalName u l s = Ret (ln_Name (LNHeap s ! a)) s"
  using ln_lookup_Some [OF assms] sync_ok [OF assms(1)] by (simp add: getLocalName_def)

lemma getLocalName_unknown:
  assumes "ln_lookup s \<lparr>LocalID = l, URI = u\<rparr> = None"
  shows "getLocalName u l s = Fault InvariantFail"
  using assms
  by (cases "u < length (URIMap s)") (simp_all add: getLocalName_def ln_lookup_def split: if_splits)

lemma getGlobalValue_eq:
  "st_ok s \<Longrightarrow> i < length (GValueMap s) \<Longrightarrow> getGlobalValue i s = Ret (GValueMap s ! i) s"
  by (simp add: getGlobalValue_def st_ok_def)

lemma getLocalValue_eq:
  assumes "st_ok s" "SmallQName_isQName q" "ln_lookup s q = Some a" "i < length (LocalValues (LNHeap s ! a))"
  shows "\<exists>c. getLocalValue q i s = Ret (LocalValues (LNHeap s ! a) ! i) (s\<lparr>LNCache := c\<rparr>)"
proof -
  obtain c where "getLVPartition q s = Ret a (s\<lparr>LNCache := c\<rparr>)"
    using getLVPartition_eq [OF assms(1,3)] by blast
  then show ?thesis using assms by (intro exI [of _ c]) (simp add: getLocalValue_def)
qed


section \<open>What the table promises\<close>

text \<open>The operations that change the table.\<close>

datatype st_op =
    OpURI bytes "bytes option"
  | OpPrefix nat bytes
  | OpLocalName nat bytes
  | OpGlobalValue bytes
  | OpValue SmallQName bytes
  | OpGetLocal SmallQName nat

definition st_step :: "st_op \<Rightarrow> unit st" where
  "st_step o' = (case o' of
      OpURI u p \<Rightarrow> bindM (addURI u p) (\<lambda>_. retM ())
    | OpPrefix u p \<Rightarrow> bindM (addPrefix u p) (\<lambda>_. retM ())
    | OpLocalName u n \<Rightarrow> bindM (addLocalName u n) (\<lambda>_. retM ())
    | OpGlobalValue v \<Rightarrow> bindM (addGlobalValue v) (\<lambda>_. retM ())
    | OpValue q v \<Rightarrow> bindM (addValue q v) (\<lambda>_. retM ())
    | OpGetLocal q i \<Rightarrow> bindM (getLocalValue q i) (\<lambda>_. retM ()))"

lemma st_step_ok:
  assumes "st_ok s" "st_room s" "st_step o' s = Ret () t"
  shows "st_ok t"
proof (cases o')
  case (OpURI u p)
  then show ?thesis
    using assms createURI_eq [OF assms(1), of u p] st_ok_new_uri [OF assms(1)]
    by (auto simp: st_step_def addURI_def st_room_def)
next
  case (OpPrefix u p)
  show ?thesis
  proof (cases "u < length (URIMap s)")
    case True
    then show ?thesis using OpPrefix assms addPrefix_eq [OF assms(1,2) True, of p] st_ok_new_prefix [OF assms(1) True]
      by (auto simp: st_step_def)
  qed (use OpPrefix assms in \<open>simp add: st_step_def addPrefix_def\<close>)
next
  case (OpLocalName u n)
  show ?thesis
  proof (cases "u < length (URIMap s)")
    case True
    then show ?thesis using OpLocalName assms addLocalName_eq [OF assms(1,2) True, of n] st_ok_new_name [OF assms(1) True]
      by (auto simp: st_step_def)
  qed (use OpLocalName assms in \<open>simp add: st_step_def addLocalName_def\<close>)
next
  case (OpGlobalValue v)
  then show ?thesis
    using assms addGlobalValue_eq [OF assms(1), of v] st_ok_new_value [OF assms(1)]
    by (auto simp: st_step_def st_room_def)
next
  case (OpValue q v)
  show ?thesis
  proof (cases "SmallQName_isQName q")
    case True
    show ?thesis
    proof (cases "ln_lookup s q")
      case None
      then show ?thesis using OpValue True assms(3) getLVPartition_unknown [OF assms(1) None]
        by (simp add: st_step_def addValue_def addLocalValue_def)
    next
      case (Some a)
      then show ?thesis using OpValue True assms addValue_eq [OF assms(1) _ True Some, of v]
        by (auto simp: st_step_def st_room_def)
    qed
  qed (use OpValue assms in \<open>simp add: st_step_def addValue_def\<close>)
next
  case (OpGetLocal q i)
  show ?thesis
  proof (cases "SmallQName_isQName q")
    case True
    show ?thesis
    proof (cases "ln_lookup s q")
      case None
      then show ?thesis using OpGetLocal True assms(3) getLVPartition_unknown [OF assms(1) None]
        by (simp add: st_step_def getLocalValue_def)
    next
      case (Some a)
      then obtain c where "getLVPartition q s = Ret a (s\<lparr>LNCache := c\<rparr>)" "st_ok (s\<lparr>LNCache := c\<rparr>)"
        using getLVPartition_eq [OF assms(1)] by blast
      then show ?thesis using OpGetLocal True assms(3)
        by (auto simp: st_step_def getLocalValue_def shape_simps)
    qed
  qed (use OpGetLocal assms in \<open>simp add: st_step_def getLocalValue_def\<close>)
qed



text \<open>Property C26. The cache in front of the value partitions is transparent: whatever lookups came
  before, a lookup finds the partition the tables hold and changes nothing but the cache, and it
  fails exactly for names the tables do not have.\<close>

theorem LNCache_transparent:
  assumes "st_ok s"
  shows "case ln_lookup s q of
      Some a \<Rightarrow> \<exists>c. getLVPartition q s = Ret a (s\<lparr>LNCache := c\<rparr>) \<and> st_ok (s\<lparr>LNCache := c\<rparr>)
    | None \<Rightarrow> getLVPartition q s = Fault InvariantFail"
  using getLVPartition_eq [OF assms] getLVPartition_unknown [OF assms] by (simp split: option.split)

theorem LNCache_transparent_witness:
  "getLVPartition \<lparr>LocalID = 0, URI = 0\<rparr> StringTable_new = Fault InvariantFail"
  using LNCache_transparent [OF st_ok_new, of "\<lparr>LocalID = 0, URI = 0\<rparr>"]
  by (simp add: ln_lookup_def StringTable_new_def)

text \<open>A URI whose count of local names is the size of its partition.\<close>

definition names_in_step :: "StringTable \<Rightarrow> nat \<Rightarrow> bool" where
  "names_in_step s u \<longleftrightarrow> LNElts (URIMap s ! u) = length (LNMap s ! u)"

lemma getLocalName_old:
  assumes "st_ok s" "u < length (URIMap s)" "getLocalName v j s = Ret n s"
  shows "getLocalName v j (with_new_name u name s) = Ret n (with_new_name u name s)"
proof -
  obtain a where a: "ln_lookup s \<lparr>LocalID = j, URI = v\<rparr> = Some a"
    using getLocalName_unknown [of s j v] assms(3) by (cases "ln_lookup s \<lparr>LocalID = j, URI = v\<rparr>") auto
  have "n = ln_Name (LNHeap s ! a)" using getLocalName_eq [OF assms(1) a] assms(3) by simp
  moreover have "ln_Name (LNHeap (with_new_name u name s) ! a) = ln_Name (LNHeap s ! a)"
    using ln_lookup_Some(6) [OF assms(1) a] by (simp add: with_new_name_def nth_append)
  ultimately show ?thesis
    using getLocalName_eq [OF st_ok_new_name [OF assms(1,2)] ln_lookup_new_name [OF assms(1,2) a]] by simp
qed

text \<open>Adding a local name to a URI in step returns an ID under which the name is found from
  then on, leaves every other name where it was, and keeps the URI in step.\<close>

theorem addLocalName_lookup:
  assumes "st_ok s" "st_room s" "u < length (URIMap s)" "names_in_step s u"
  shows "\<exists>i t. addLocalName u name s = Ret (name, i) t \<and> getLocalName u i t = Ret name t
    \<and> names_in_step t u \<and> (\<forall>v j n. getLocalName v j s = Ret n s \<longrightarrow> getLocalName v j t = Ret n t)"
proof -
  let ?t = "with_new_name u name s" and ?i = "LNElts (URIMap s ! u)"
  have l: "u < length (LNMap s)" using assms by (simp add: st_ok_def)
  have "ln_lookup ?t \<lparr>LocalID = ?i, URI = u\<rparr> = Some (length (LNHeap s))"
    using assms(3,4) l by (simp add: ln_lookup_def with_new_name_def names_in_step_def nth_append)
  then have "getLocalName u ?i ?t = Ret name ?t"
    using getLocalName_eq [OF st_ok_new_name [OF assms(1,3)]] by (simp add: with_new_name_def)
  moreover have "names_in_step ?t u"
    using assms(3,4) l by (simp add: names_in_step_def with_new_name_def)
  ultimately show ?thesis
    using addLocalName_eq [OF assms(1-3)] getLocalName_old [OF assms(1,3)] by blast
qed

theorem addLocalName_lookup_witness:
  "\<exists>i t. addLocalName 0 [98] (with_new_uri [97] None StringTable_new) = Ret ([98], i) t
    \<and> getLocalName 0 i t = Ret [98] t"
  using addLocalName_lookup [OF st_ok_new_uri [OF st_ok_new], of "[97]" None 0 "[98]"]
  by (auto simp: st_room_def with_new_uri_def StringTable_new_def names_in_step_def)



text \<open>A URI created with a prefix counts two prefixes and holds one: the table claims to
  have a prefix with ID 1, and fetching it fails an invariant. A prefix added later gets the ID 2
  and is stored under 1.\<close>

theorem prefix_count_off:
  assumes "st_ok s" "length (URIMap s) + 2 < 2 ^ 64"
  shows "\<exists>u t. createURI uri (Some p) s = Ret u t \<and> hasPrefix u 1 t = Ret True t
    \<and> getPrefix u 1 t = Fault InvariantFail
    \<and> (\<exists>t'. addPrefix u p2 t = Ret (p2, 2) t' \<and> getPrefix u 1 t' = Ret p2 t')"
proof -
  let ?u = "length (URIMap s)" and ?t = "with_new_uri uri (Some p) s"
  have ok: "st_ok ?t" by (rule st_ok_new_uri [OF assms(1)])
  have l: "length (PrefixMap s) = length (URIMap s)" using assms(1) by (simp add: st_ok_def)
  let ?t' = "with_new_prefix ?u p2 ?t"
  have "addPrefix ?u p2 ?t = Ret (p2, 2) ?t'"
    using sync_ok [OF ok] by (simp add: addPrefix_def with_new_prefix_def with_new_uri_def Let_def)
  moreover have ok': "st_ok ?t'" by (rule st_ok_new_prefix [OF ok]) (simp add: with_new_uri_def)
  moreover have "getPrefix ?u 1 ?t' = Ret p2 ?t'"
    using sync_ok [OF ok'] l
    by (simp add: getPrefix_def hasPrefixes_def hasURI_def with_new_prefix_def with_new_uri_def nth_append)
  moreover have "hasPrefix ?u 1 ?t = Ret True ?t" "getPrefix ?u 1 ?t = Fault InvariantFail"
    using sync_ok [OF ok] l
    by (simp_all add: hasPrefix_def getPrefix_def hasPrefixes_def hasURI_def with_new_uri_def nth_append)
  ultimately show ?thesis using createURI_eq [OF assms] by blast
qed

theorem prefix_count_off_witness:
  "\<exists>u t. createURI [97] (Some [98]) StringTable_new = Ret u t \<and> getPrefix u 1 t = Fault InvariantFail"
proof -
  have "length (URIMap StringTable_new) + 2 < 2 ^ 64" by (simp add: StringTable_new_def)
  from prefix_count_off [OF st_ok_new this, of "[97]" "[98]" "[99]"] show ?thesis by blast
qed

section \<open>The initial entries\<close>

definition with_hidden_name :: "nat \<Rightarrow> bytes \<Rightarrow> StringTable \<Rightarrow> StringTable" where
  "with_hidden_name u name s = s\<lparr>
     LNHeap := LNHeap s @ [\<lparr>ln_Name = name, LocalValues = []\<rparr>],
     LNMap := (LNMap s)[u := LNMap s ! u @ [length (LNHeap s)]]\<rparr>"

lemma appendLocalNames_loop_eq:
  "appendLocalNames_loop u ns s = Ret () (foldl (\<lambda>s n. with_hidden_name u n s) s ns)"
  by (induction ns arbitrary: s) (simp_all add: createLocalName_def with_hidden_name_def)

lemma st_ok_hidden_name:
  assumes "st_ok s" "u < length (URIMap s)"
  shows "st_ok (with_hidden_name u name s)"
proof -
  let ?t = "with_hidden_name u name s"
  have l: "length (LNMap s) = length (URIMap s)" "distinct (concat (LNMap s))"
    "set (concat (LNMap s)) \<subseteq> {..<length (LNHeap s)}" using assms(1) by (simp_all add: st_ok_def)
  have k: "ln_lookup ?t q = ln_lookup s q" for q
  proof (cases "URI q < length (URIMap s) \<and> LocalID q < LNElts (URIMap s ! URI q)")
    case True
    then have "LocalID q < length (LNMap s ! URI q)" using assms(1) by (auto simp: st_ok_def)
    then show ?thesis using True l(1) assms(2)
      by (simp add: ln_lookup_def with_hidden_name_def nth_list_update nth_append)
  qed (auto simp: ln_lookup_def with_hidden_name_def)
  have "\<forall>v < length (URIMap ?t). LNElts (URIMap ?t ! v) \<le> length (LNMap ?t ! v)"
    using assms l(1) by (auto simp: st_ok_def with_hidden_name_def nth_list_update)
  moreover have "distinct (concat (LNMap ?t))" "set (concat (LNMap ?t)) \<subseteq> {..<length (LNHeap ?t)}"
    using distinct_concat_append [OF l(2,3), of u] assms(2) l by (auto simp: with_hidden_name_def)
  moreover have "ln_lookup ?t = ln_lookup s" using k by blast
  ultimately show ?thesis using assms by (simp add: st_ok_def with_hidden_name_def)
qed

lemma st_ok_hidden_names:
  assumes "st_ok s" "u < length (URIMap s)"
  shows "st_ok (foldl (\<lambda>s n. with_hidden_name u n s) s ns)"
  using assms
proof (induction ns arbitrary: s)
  case (Cons n ns)
  then show ?case using st_ok_hidden_name [of s u n] by (simp add: with_hidden_name_def)
qed simp

lemma hidden_names_fields [simp]:
  "URIMap (foldl (\<lambda>s n. with_hidden_name u n s) s ns) = URIMap s"
  "LNCount (foldl (\<lambda>s n. with_hidden_name u n s) s ns) = LNCount s"
  "length (LNMap (foldl (\<lambda>s n. with_hidden_name u n s) s ns)) = length (LNMap s)"
  "GValueMap (foldl (\<lambda>s n. with_hidden_name u n s) s ns) = GValueMap s"
  "DidSetup (foldl (\<lambda>s n. with_hidden_name u n s) s ns) = DidSetup s"
  by (induction ns arbitrary: s) (simp_all add: with_hidden_name_def)

text \<open>A hidden name keeps its address, and the one at its address its name.\<close>

lemma hidden_names_keep:
  assumes "v < length (LNMap s)" "i < length (LNMap s ! v)" "LNMap s ! v ! i < length (LNHeap s)"
  shows "let t = foldl (\<lambda>s n. with_hidden_name u n s) s ns in
    LNMap t ! v ! i = LNMap s ! v ! i \<and> LNHeap t ! (LNMap s ! v ! i) = LNHeap s ! (LNMap s ! v ! i)
    \<and> i < length (LNMap t ! v) \<and> LNMap s ! v ! i < length (LNHeap t)"
  using assms
proof (induction ns arbitrary: s)
  case (Cons n ns)
  have "v < length (LNMap (with_hidden_name u n s)) \<and> i < length (LNMap (with_hidden_name u n s) ! v)
    \<and> LNMap (with_hidden_name u n s) ! v ! i = LNMap s ! v ! i
    \<and> LNHeap (with_hidden_name u n s) ! (LNMap s ! v ! i) = LNHeap s ! (LNMap s ! v ! i)
    \<and> LNMap s ! v ! i < length (LNHeap (with_hidden_name u n s))"
    using Cons.prems by (cases "u = v") (auto simp: with_hidden_name_def nth_append)
  then show ?case using Cons.IH [of "with_hidden_name u n s"] by (simp add: Let_def)
qed simp

text \<open>The first built-in name of the XML namespace is at index 0 of its partition.\<close>

definition base_stored :: "StringTable \<Rightarrow> bool" where
  "base_stored s \<longleftrightarrow> 1 < length (LNMap s) \<and> 0 < length (LNMap s ! 1) \<and>
    LNMap s ! 1 ! 0 < length (LNHeap s) \<and> ln_Name (LNHeap s ! (LNMap s ! 1 ! 0)) = str ''base''"

lemma base_stored_uri: "base_stored s \<Longrightarrow> base_stored (with_new_uri uri p s)"
  by (auto simp: base_stored_def with_new_uri_def nth_append)

lemma base_stored_name: "base_stored s \<Longrightarrow> base_stored (with_new_name u name s)"
  by (cases "u = 1") (auto simp: base_stored_def with_new_name_def nth_append)

lemma base_stored_hidden:
  "base_stored s \<Longrightarrow> base_stored (foldl (\<lambda>s n. with_hidden_name u n s) s ns)"
  using hidden_names_keep [of 1 s 0 u ns] by (simp add: base_stored_def Let_def)

definition setup_builtin :: "StringTable" where
  "setup_builtin =
    (let s = with_new_uri XSI_URI (Some (str ''xsi'')) (with_new_uri XML_URI (Some (str ''xml''))
        (with_new_uri [] (Some []) (StringTable_new\<lparr>DidSetup := True\<rparr>)))
     in foldl (\<lambda>s n. with_hidden_name 2 n s) (foldl (\<lambda>s n. with_hidden_name 1 n s) s XML_InitialValues)
        XSI_InitialValues)"

definition setup_tables :: "bool \<Rightarrow> StringTable" where
  "setup_tables usesSchema = (if usesSchema
    then foldl (\<lambda>s n. with_hidden_name 3 n s) (with_new_uri XSD_URI None setup_builtin) XSD_InitialValues
    else setup_builtin)"

lemma ln_lookup_flags [simp]:
  "ln_lookup (s\<lparr>DidSetup := b\<rparr>) = ln_lookup s" "ln_lookup (s\<lparr>WrappingValues := b\<rparr>) = ln_lookup s"
  by (simp_all add: ln_lookup_def fun_eq_iff)

lemma st_ok_flags [simp]:
  "st_ok (s\<lparr>DidSetup := b\<rparr>) = st_ok s" "st_ok (s\<lparr>WrappingValues := b\<rparr>) = st_ok s"
  by (simp_all add: st_ok_def)

lemma setup_builtin_ok: "st_ok setup_builtin"
proof -
  have "st_ok (StringTable_new\<lparr>DidSetup := True\<rparr>)" by (simp add: st_ok_new)
  then show ?thesis unfolding setup_builtin_def Let_def
    by (intro st_ok_hidden_names st_ok_new_uri) (simp_all add: with_new_uri_def)
qed

lemma setup_builtin_uris: "length (URIMap setup_builtin) = 3" "LNElts (URIMap setup_builtin ! 1) = 0"
  by (simp_all add: setup_builtin_def Let_def with_new_uri_def StringTable_new_def)

lemma setup_builtin_base: "base_stored setup_builtin"
  unfolding setup_builtin_def Let_def
  by (rule base_stored_hidden)
    (simp add: base_stored_def with_new_uri_def StringTable_new_def XML_InitialValues_def with_hidden_name_def)

lemma setup_tables_ok: "st_ok (setup_tables b)"
proof -
  have "3 < length (URIMap (with_new_uri XSD_URI None setup_builtin))"
    using setup_builtin_uris by (simp add: with_new_uri_def)
  then show ?thesis
    using setup_builtin_ok by (simp add: setup_tables_def st_ok_hidden_names st_ok_new_uri)
qed

lemma setup_tables_base:
  "base_stored (setup_tables b)" "length (URIMap (setup_tables b)) \<le> 4"
  "1 < length (URIMap (setup_tables b))" "LNElts (URIMap (setup_tables b) ! 1) = 0"
  using setup_builtin_base setup_builtin_uris
  by (simp_all add: setup_tables_def base_stored_hidden base_stored_uri)
    (simp_all add: with_new_uri_def nth_append)

lemma createInitialEntries_eq:
  "createInitialEntries b (StringTable_new\<lparr>DidSetup := True\<rparr>) = Ret () (setup_tables b)"
proof -
  let ?s0 = "StringTable_new\<lparr>DidSetup := True\<rparr>"
  let ?s1 = "with_new_uri [] (Some []) ?s0"
  let ?s2 = "with_new_uri XML_URI (Some (str ''xml'')) ?s1"
  let ?s3 = "with_new_uri XSI_URI (Some (str ''xsi'')) ?s2"
  let ?s4 = "foldl (\<lambda>s n. with_hidden_name 1 n s) ?s3 XML_InitialValues"
  have ok: "st_ok ?s0" "st_ok ?s1" "st_ok ?s2" by (simp_all add: st_ok_new st_ok_new_uri)
  have l: "length (URIMap ?s0) = 0" "length (URIMap ?s1) = 1" "length (URIMap ?s2) = 2"
    by (simp_all add: with_new_uri_def StringTable_new_def)
  have n: "Value (LNCount ?s3) = 3" "length (LNMap ?s3) = 3"
    by (simp_all add: with_new_uri_def StringTable_new_def)
  have "setup_builtin = foldl (\<lambda>s n. with_hidden_name 2 n s) ?s4 XSI_InitialValues"
    by (simp only: setup_builtin_def Let_def)
  moreover have "createURI XSD_URI None setup_builtin = Ret 3 (with_new_uri XSD_URI None setup_builtin)"
    using createURI_eq [OF setup_builtin_ok] setup_builtin_uris by simp
  moreover have "Value (LNCount (with_new_uri XSD_URI None setup_builtin)) = 4"
    "length (LNMap (with_new_uri XSD_URI None setup_builtin)) = 4"
    using setup_builtin_ok setup_builtin_uris by (simp_all add: with_new_uri_def st_ok_def)
  ultimately show ?thesis
    using createURI_eq [OF ok(1), of "[]" "Some []"] createURI_eq [OF ok(2), of XML_URI "Some (str ''xml'')"]
      createURI_eq [OF ok(3), of XSI_URI "Some (str ''xsi'')"] l n
    by (simp add: createInitialEntries_def appendLocalNames_def appendLocalNames_loop_eq setup_tables_def)
qed

text \<open>Setting up a fresh table stores the built-in names of the XML namespace but counts
  none: no ID reaches them, and the first name a document adds to the namespace gets the ID 0, under
  which the table answers \<open>base\<close> instead of that name.\<close>

theorem builtin_names_shadow:
  assumes "SchemaID opts = Some sch" "DatatypeRepresentationMap opts = None"
  shows "\<exists>t t'. StringTable_setup opts StringTable_new = Ret () t \<and> st_ok t
    \<and> getLocalName 1 0 t = Fault InvariantFail
    \<and> addLocalName 1 name t = Ret (name, 0) t' \<and> getLocalName 1 0 t' = Ret (str ''base'') t'"
proof -
  let ?b = "SchemaID opts \<noteq> Some None"
  have d: "DidSetup StringTable_new = False" by (simp add: StringTable_new_def)
  obtain w where t: "StringTable_setup opts StringTable_new = Ret () ((setup_tables ?b)\<lparr>WrappingValues := w\<rparr>)"
  proof (cases "Bounded_bounded u64_t (ValuePartitionCapacity opts)")
    case True
    then have "StringTable_setup opts StringTable_new = Ret () ((setup_tables ?b)\<lparr>WrappingValues := True\<rparr>)"
      using assms d createInitialEntries_eq [of ?b] by (simp add: StringTable_setup_def)
    then show ?thesis by (rule that)
  next
    case False
    have "(setup_tables ?b)\<lparr>WrappingValues := WrappingValues (setup_tables ?b)\<rparr> = setup_tables ?b" by simp
    then have "StringTable_setup opts StringTable_new =
        Ret () ((setup_tables ?b)\<lparr>WrappingValues := WrappingValues (setup_tables ?b)\<rparr>)"
      using False assms d createInitialEntries_eq [of ?b] by (simp add: StringTable_setup_def)
    then show ?thesis by (rule that)
  qed
  let ?t = "(setup_tables ?b)\<lparr>WrappingValues := w\<rparr>"
  have ok: "st_ok ?t" by (simp add: setup_tables_ok)
  have n: "1 < length (URIMap ?t)" "LNElts (URIMap ?t ! 1) = 0" using setup_tables_base by simp_all
  have base: "base_stored ?t" using setup_tables_base(1) [of ?b] by (simp add: base_stored_def)
  have "getLocalName 1 0 ?t = Fault InvariantFail"
    by (rule getLocalName_unknown) (use n in \<open>simp add: ln_lookup_def\<close>)
  moreover have "addLocalName 1 name ?t = Ret (name, 0) (with_new_name 1 name ?t)"
    using n sync_ok [OF ok] base
    by (simp add: addLocalName_def with_new_name_def createLocalName_def base_stored_def)
  moreover have "getLocalName 1 0 (with_new_name 1 name ?t) = Ret (str ''base'') (with_new_name 1 name ?t)"
  proof -
    let ?u = "with_new_name 1 name ?t"
    have "base_stored ?u" by (rule base_stored_name [OF base])
    then have b: "ln_Name (LNHeap ?u ! (LNMap ?u ! 1 ! 0)) = str ''base''" by (simp add: base_stored_def)
    have "ln_lookup ?u \<lparr>LocalID = 0, URI = 1\<rparr> = Some (LNMap ?u ! 1 ! 0)"
      using n by (simp add: ln_lookup_def with_new_name_def)
    from getLocalName_eq [OF st_ok_new_name [OF ok n(1)] this] b show ?thesis by simp
  qed
  ultimately show ?thesis using t ok by blast
qed

theorem builtin_names_shadow_witness:
  "\<exists>t t'. StringTable_setup (default_ExiOptions\<lparr>SchemaID := Some None\<rparr>) StringTable_new = Ret () t
    \<and> addLocalName 1 [120] t = Ret ([120], 0) t' \<and> getLocalName 1 0 t' = Ret (str ''base'') t'"
proof -
  have "SchemaID (default_ExiOptions\<lparr>SchemaID := Some None\<rparr>) = Some None"
    "DatatypeRepresentationMap (default_ExiOptions\<lparr>SchemaID := Some None\<rparr>) = None"
    by (simp_all add: default_ExiOptions_def)
  from builtin_names_shadow [OF this, of "[120]"] show ?thesis by blast
qed

end
