(* ===== verification/Decoder.thy ===== *)
theory Decoder
  imports GrammarTables StringTables
begin

text \<open>
  The state of \<open>ExiDecoder\<close> (\<open>exi/Decode/BodyDecoder.hpp\<close>) with the schema it owns
  (\<open>DynBuiltinSchema\<close>), and the decoding of names, prefixes and values
  (\<open>lib/exi/Decode/BodyDecoder.cpp\<close>, the sections Util and Values). The log statements read the
  string table in the default build (\<open>EXI_LOGGING\<close>), so a failed lookup stops the decoder there;
  these reads are kept. The printing itself, the allocator and the diagnostics stream are not.
\<close>

section \<open>State\<close>

record DecoderFlags =
  SetReader :: bool
  DidHeader :: bool
  DidInit :: bool

text \<open>
  The schema of a document without one. \<open>sch_Bit\<close> is the template parameter (the bit reader or
  the byte reader). A grammar pointer is an index into \<open>sch_Heap\<close>. \<open>GStack\<close> has the back of the
  vector first. \<open>sch_Grammars\<close> is the hash map.
\<close>

record BuiltinSchema =
  sch_Bit :: bool
  sch_Terms :: "EventTerm list"
  sch_Info :: "BIInfo list"
  sch_Event :: EventUID
  Current :: SchemaGrammar
  GStack :: "(nat \<times> bool) list"
  Grammars :: "(SmallQName \<times> nat) list"
  sch_Heap :: "BuiltinGrammar list"

record ExiDecoder =
  Header :: ExiHeader
  Reader :: "OrdReader option"
  Idents :: StringTable
  CurrentSchema :: "BuiltinSchema option"
  Flags :: DecoderFlags
  dec_Preserve :: PreserveOpts

definition ExiDecoder_new :: "ExiDecoder" where
  "ExiDecoder_new = \<lparr>Header = default_ExiHeader, Reader = None, Idents = StringTable_new, CurrentSchema = None,
     Flags = \<lparr>SetReader = False, DidHeader = False, DidInit = False\<rparr>,
     dec_Preserve = Preserve default_ExiOptions\<rparr>"

type_synonym 'a dec = "ExiDecoder \<Rightarrow> ('a, ExiDecoder) exi"

text \<open>Calls on the members. The reader is dereferenced without a check.\<close>

definition readerM :: "(OrdReader \<Rightarrow> ('a, OrdReader) exi) \<Rightarrow> 'a dec" where
  "readerM m d = (case Reader d of None \<Rightarrow> Fault Undefined
     | Some r \<Rightarrow> map_state (\<lambda>r'. d\<lparr>Reader := Some r'\<rparr>) (m r))"

definition identsM :: "'a st \<Rightarrow> 'a dec" where
  "identsM = zoomM Idents (\<lambda>s d. d\<lparr>Idents := s\<rparr>)"

lemma readerM_run [simp, run_simps]:
  "Reader d = Some r \<Longrightarrow> m r = Ret a r' \<Longrightarrow> readerM m d = Ret a (d\<lparr>Reader := Some r'\<rparr>)"
  "Reader d = Some r \<Longrightarrow> m r = Err e r' \<Longrightarrow> readerM m d = Err e (d\<lparr>Reader := Some r'\<rparr>)"
  "Reader d = Some r \<Longrightarrow> m r = Fault f \<Longrightarrow> readerM m d = Fault f"
  by (simp_all add: readerM_def)

lemma identsM_run [simp, run_simps]:
  "m (Idents d) = Ret a s \<Longrightarrow> identsM m d = Ret a (d\<lparr>Idents := s\<rparr>)"
  "m (Idents d) = Err e s \<Longrightarrow> identsM m d = Err e (d\<lparr>Idents := s\<rparr>)"
  "m (Idents d) = Fault f \<Longrightarrow> identsM m d = Fault f"
  by (simp_all add: identsM_def)

section \<open>Names of events\<close>

record QName =
  qn_URI :: bytes
  qn_Name :: bytes
  qn_Prefix :: bytes

definition ExiDecoder_getQName :: "EventUID \<Rightarrow> QName dec" where
  "ExiDecoder_getQName e =
    thenM (invariantM (\<lambda>_. EventUID_hasQName e))
    (bindM (identsM (getQName (URI (Name e)) (LocalID (Name e)))) (\<lambda>(u, n).
      if \<not> EventUID_hasPrefix e then retM \<lparr>qn_URI = u, qn_Name = n, qn_Prefix = []\<rparr>
      else bindM (EventUID_getURI e) (\<lambda>ui. bindM (EventUID_getPrefix e) (\<lambda>pi.
        bindM (identsM (getPrefix ui pi)) (\<lambda>p. retM \<lparr>qn_URI = u, qn_Name = n, qn_Prefix = p\<rparr>)))))"

definition tryGetPfx :: "nat \<Rightarrow> nat \<Rightarrow> bytes option dec" where
  "tryGetPfx u p =
    bindM (identsM (hasPrefix u p)) (\<lambda>b.
      if \<not> b then retM None
      else bindM (identsM (getPrefix u p)) (\<lambda>pfx. retM (if pfx = [] \<and> u \<noteq> 0 then None else Some pfx)))"

definition getPfxOrURI :: "EventUID \<Rightarrow> bytes dec" where
  "getPfxOrURI e =
    (if \<not> EventUID_hasQName e then retM (str ''*'')
     else bindM (EventUID_getURI e) (\<lambda>u.
       bindM (identsM (hasPrefixes u)) (\<lambda>b.
         if \<not> b then (\<lambda>d. if hasURI u (Idents d) then identsM (getURI u) d else Ret (str ''?'') d)
         else
           bindM (if EventUID_hasPrefix e then bindM (EventUID_getPrefix e) (tryGetPfx u) else retM None) (\<lambda>x.
             case x of Some pfx \<Rightarrow> retM pfx
             | None \<Rightarrow> bindM (tryGetPfx u 0) (\<lambda>y.
                 case y of Some pfx \<Rightarrow> retM pfx | None \<Rightarrow> identsM (getURI u))))))"

section \<open>Decoding names\<close>

definition decodeURI :: "nat dec" where
  "decodeURI =
    bindM (identsM getURILog) (\<lambda>bits.
    bindM (readerM (OrdReader_readBits64 bits)) (\<lambda>w.
      if unat w = 0
      then bindM (readerM OrdReader_decodeString) (\<lambda>s. bindM (identsM (addURI s None)) (\<lambda>(_, u). retM u))
      else bindM (identsM (getURI (unat w - 1))) (\<lambda>_. retM (unat w - 1))))"

definition decodeName :: "nat \<Rightarrow> nat dec" where
  "decodeName u =
    bindM (readerM OrdReader_readUInt) (\<lambda>w.
      if unat w = 0
      then bindM (identsM (getLocalNameLog u)) (\<lambda>bits.
           bindM (readerM (OrdReader_readBits64 bits)) (\<lambda>v.
           bindM (identsM (getLocalName u (unat v))) (\<lambda>_. retM (unat v))))
      else bindM (readerM (OrdReader_readString (w - 1))) (\<lambda>s.
           bindM (identsM (addLocalName u s)) (\<lambda>(_, l). retM l)))"

definition decodePfxQ :: "nat \<Rightarrow> nat option dec" where
  "decodePfxQ u d =
    (if \<not> Prefixes (dec_Preserve d) then Ret None d
     else bindM (identsM (hasPrefixes u)) (\<lambda>b.
       if \<not> b then retM None
       else bindM (identsM (getPrefixLogQ u)) (\<lambda>bits.
         bindM (if bits \<noteq> 0 then bindM (readerM (OrdReader_readBits64 bits)) (\<lambda>w. retM (unat w)) else retM 0) (\<lambda>p.
         bindM (identsM (getPrefix u p)) (\<lambda>_. retM (Some p))))) d)"

definition decodePfx :: "nat \<Rightarrow> nat dec" where
  "decodePfx u =
    thenM (invariantM (\<lambda>d. Prefixes (dec_Preserve d)))
    (bindM (identsM (getPrefixLog u)) (\<lambda>bits.
     bindM (readerM (OrdReader_readBits64 bits)) (\<lambda>w.
       if unat w \<noteq> 0
       then bindM (identsM (hasPrefix u (unat w - 1))) (\<lambda>b.
         if \<not> b then errM (ExiError_New kInvalidEXIInput)
         else bindM (identsM (getPrefix u (unat w - 1))) (\<lambda>_. retM (unat w - 1)))
       else bindM (readerM OrdReader_decodeString) (\<lambda>s.
         bindM (identsM (addPrefix u s)) (\<lambda>(_, p). retM p)))))"

definition decodeQName :: "EventUID dec" where
  "decodeQName =
    bindM decodeURI (\<lambda>u. bindM (decodeName u) (\<lambda>l. bindM (decodePfxQ u) (\<lambda>p.
      bindM (SmallQName_NewQName u l) (\<lambda>q. retM (EventUID_NewQName q p)))))"

definition decodeNS :: "EventUID dec" where
  "decodeNS =
    bindM decodeURI (\<lambda>u. bindM (decodePfx u) (\<lambda>p. bindM (readerM OrdReader_readBit) (\<lambda>local.
      if \<not> local then errM (ExiError_New kUnimplemented)
      else retM (EventUID_NewNS (SmallQName_NewURI u) p local))))"

section \<open>Decoding values\<close>

definition decodeValue :: "SmallQName \<Rightarrow> EventUID dec" where
  "decodeValue q =
    thenM (invariantM (\<lambda>_. SmallQName_isQName q))
    (bindM (readerM OrdReader_readUInt) (\<lambda>w.
      if unat w = 0
      then bindM (identsM (getLocalValueLog q)) (\<lambda>bits.
           bindM (readerM (OrdReader_readBits64 bits)) (\<lambda>v.
           bindM (identsM (getQName (URI q) (LocalID q))) (\<lambda>_.
           bindM (identsM (getLocalValue q (unat v))) (\<lambda>_.
             retM (EventUID_NewLocalValue q (unat v))))))
      else if unat w = 1
      then bindM (identsM getGlobalValueLog) (\<lambda>bits.
           bindM (readerM (OrdReader_readBits64 bits)) (\<lambda>v.
           bindM (identsM (getGlobalValue (unat v))) (\<lambda>_.
             retM (EventUID_NewGlobalValue (unat v)))))
      else bindM (readerM (OrdReader_readString (w - 2))) (\<lambda>s.
           bindM (identsM (addValue q s)) (\<lambda>t.
           bindM (identsM (getQName (URI q) (LocalID q))) (\<lambda>_.
             retM (EventUID_NewLocalValue q (idt_LocalID t)))))))"

end
