(* ===== verification/SchemaMachine.thy ===== *)
theory SchemaMachine
  imports Decoder
begin

text \<open>
  \<open>DynBuiltinSchema\<close> (\<open>lib/exi/Grammar/Decode/BuiltinSchema.cpp\<close>): the state machine that turns
  event codes into events for a document without a schema. The functions are the member functions
  of the source, over the state of the decoder that calls them; a tail call is a call.
\<close>

section \<open>The schema inside the decoder\<close>

definition schemaM :: "(BuiltinSchema \<Rightarrow> ('a, BuiltinSchema) exi) \<Rightarrow> 'a dec" where
  "schemaM m d = (case CurrentSchema d of None \<Rightarrow> Fault Undefined
     | Some s \<Rightarrow> map_state (\<lambda>s'. d\<lparr>CurrentSchema := Some s'\<rparr>) (m s))"

lemma schemaM_run [simp, run_simps]:
  "CurrentSchema d = Some s \<Longrightarrow> m s = Ret a s' \<Longrightarrow> schemaM m d = Ret a (d\<lparr>CurrentSchema := Some s'\<rparr>)"
  "CurrentSchema d = Some s \<Longrightarrow> m s = Err e s' \<Longrightarrow> schemaM m d = Err e (d\<lparr>CurrentSchema := Some s'\<rparr>)"
  "CurrentSchema d = Some s \<Longrightarrow> m s = Fault f \<Longrightarrow> schemaM m d = Fault f"
  by (simp_all add: schemaM_def)

text \<open>The cast of the reader to the reader type of the schema.\<close>

definition castReader :: "unit dec" where
  "castReader = assertM (\<lambda>d. case (Reader d, CurrentSchema d) of
     (Some r, Some s) \<Rightarrow> isBitReader r = sch_Bit s | _ \<Rightarrow> False)"

definition strm_read :: "nat \<Rightarrow> (64 word) dec" where
  "strm_read n = readerM (OrdReader_readBits64 n)"

text \<open>A call whose error is diagnosed and answered with the null event.\<close>

definition orNull :: "EventUID dec \<Rightarrow> (EventUID \<Rightarrow> EventUID dec) \<Rightarrow> EventUID dec" where
  "orNull m k d = (case m d of Ret e d' \<Rightarrow> k e d' | Err _ d' \<Rightarrow> Ret EventUID_NewNull d' | Fault f \<Rightarrow> Fault f)"

section \<open>The state of the machine\<close>

type_synonym 'a sch = "BuiltinSchema \<Rightarrow> ('a, BuiltinSchema) exi"

definition setEvent :: "EventUID \<Rightarrow> unit sch" where
  "setEvent e = modM (\<lambda>s. s\<lparr>sch_Event := e\<rparr>)"

definition getEvent :: "EventUID sch" where
  "getEvent = getM sch_Event"

definition pushGrammar :: "SchemaGrammar \<Rightarrow> unit sch" where
  "pushGrammar G = modM (\<lambda>s. s\<lparr>Current := G\<rparr>)"

definition Schema_NewTerm :: "EventTerm \<Rightarrow> EventUID sch" where
  "Schema_NewTerm t = thenM (setEvent (EventUID_NewTerm t)) getEvent"

section \<open>Terms\<close>

definition createDecodedTerm :: "nat \<Rightarrow> EventTerm sch" where
  "createDecodedTerm at =
    thenM (assertM (\<lambda>s. grammar_index (Current s) < length (sch_Info s)))
    (bindM (getM (\<lambda>s. (bi_Offset (sch_Info s ! grammar_index (Current s)) + at) mod 2 ^ 32)) (\<lambda>i.
     thenM (invariantM (\<lambda>s. i < length (sch_Terms s))) (\<lambda>s.
       Ret (sch_Terms s ! i) (s\<lparr>sch_Event := EventUID_NewTerm (sch_Terms s ! i)\<rparr>))))"

definition decodeTerm :: "nat \<Rightarrow> nat \<Rightarrow> EventTerm dec" where
  "decodeTerm start at =
    thenM castReader
    (bindM (schemaM (thenM (assertM (\<lambda>s. grammar_index (Current s) < length (sch_Info s)))
        (getM (\<lambda>s. bi_Code (sch_Info s ! grammar_index (Current s)))))) (\<lambda>code.
     bindM (decodeTerm_at strm_read code start at) (\<lambda>at'. schemaM (createDecodedTerm at'))))"

definition getGrammarTerm :: "GrammarTerm dec" where
  "getGrammarTerm =
    bindM (schemaM (thenM (invariantM (\<lambda>s. GStack s \<noteq> [])) (getM (\<lambda>s. hd (GStack s))))) (\<lambda>(g, isStart).
    thenM castReader
    (bindM (schemaM (thenM (checkM Undefined (\<lambda>s. g < length (sch_Heap s))) (getM (\<lambda>s. sch_Heap s ! g)))) (\<lambda>G.
      BuiltinGrammar_getTerm strm_read isStart G)))"

definition decodeTermGrammar :: "EventUID dec" where
  "decodeTermGrammar =
    bindM getGrammarTerm (\<lambda>t. case t of
      GTerm e \<Rightarrow> thenM (schemaM (setEvent e)) (retM e)
    | GFirst k \<Rightarrow> thenM (decodeTerm 1 (k mod 2 ^ 32)) (schemaM getEvent))"

section \<open>Grammars\<close>

text \<open>A change of the grammar on top of the stack.\<close>

definition topGrammar :: "(BuiltinGrammar \<Rightarrow> BuiltinGrammar) \<Rightarrow> BuiltinSchema \<Rightarrow> BuiltinSchema" where
  "topGrammar f s = s\<lparr>sch_Heap := (sch_Heap s)[fst (hd (GStack s)) := f (sch_Heap s ! fst (hd (GStack s)))]\<rparr>"

definition Schema_isStart :: "BuiltinSchema \<Rightarrow> bool" where
  "Schema_isStart s \<longleftrightarrow> Current s = StartTagContent"

definition Schema_addTerm :: "EventTerm \<Rightarrow> EventUID \<Rightarrow> unit sch" where
  "Schema_addTerm t e = thenM (invariantM (\<lambda>s. GStack s \<noteq> []))
     (modM (\<lambda>s. topGrammar (BuiltinGrammar_addTerm (EventUID_setTerm t e) (Schema_isStart s)) s))"

text \<open>The name of the grammar on top of the stack.\<close>

definition topName :: "BuiltinSchema \<Rightarrow> SmallQName" where
  "topName s = bg_Name (sch_Heap s ! fst (hd (GStack s)))"

definition addQNameToEvent :: "unit sch" where
  "addQNameToEvent = thenM (invariantM (\<lambda>s. GStack s \<noteq> []))
     (modM (\<lambda>s. s\<lparr>sch_Event := (sch_Event s)\<lparr>Name := topName s\<rparr>\<rparr>))"

definition makeGrammar :: "SmallQName \<Rightarrow> nat sch" where
  "makeGrammar name =
    bindM (getM (\<lambda>s. length (sch_Heap s))) (\<lambda>g.
    thenM (modM (\<lambda>s. s\<lparr>sch_Heap := sch_Heap s @ [BuiltinGrammar_new name]\<rparr>))
    (thenM (invariantM (\<lambda>s. map_of (Grammars s) name = None))
    (thenM (modM (\<lambda>s. s\<lparr>Grammars := (name, g) # Grammars s\<rparr>)) (retM g))))"

definition loadGrammar :: "SmallQName \<Rightarrow> (nat \<times> bool) sch" where
  "loadGrammar name s = (case map_of (Grammars s) name of
     Some g \<Rightarrow> Ret (g, True) s
   | None \<Rightarrow> bindM (makeGrammar name) (\<lambda>g. retM (g, False)) s)"

text \<open>The flag of the stack entry on top.\<close>

definition setTopInt :: "bool \<Rightarrow> unit sch" where
  "setTopInt b = modM (\<lambda>s. s\<lparr>GStack := (fst (hd (GStack s)), b) # tl (GStack s)\<rparr>)"

section \<open>Elements\<close>

definition handleSEQName :: "bool \<Rightarrow> EventUID sch" where
  "handleSEQName knownCached =
    thenM (invariantM (\<lambda>s. EventUID_hasQName (sch_Event s)))
    (bindM getEvent (\<lambda>e.
     bindM (loadGrammar (Name e)) (\<lambda>(g, cached).
     thenM (if knownCached then retM () else Schema_addTerm SEQName e)
    (thenM (pushGrammar StartTagContent)
    (thenM (modM (\<lambda>s. s\<lparr>sch_Event := EventUID_setTerm (if cached then SEQName else SE) (sch_Event s)\<rparr>))
    (thenM (modM (\<lambda>s. s\<lparr>GStack := (g, True) # GStack s\<rparr>))
      getEvent))))))"

definition Schema_handleSE :: "bool \<Rightarrow> EventUID dec" where
  "Schema_handleSE isRoot = orNull decodeQName (\<lambda>e. schemaM (thenM (setEvent e) (handleSEQName isRoot)))"

definition Schema_handleEE :: "bool \<Rightarrow> EventUID sch" where
  "Schema_handleEE isStart =
    thenM (invariantM (\<lambda>s. GStack s \<noteq> []))
    (thenM (if isStart then retM () else addQNameToEvent)
    (thenM (modM (\<lambda>s. s\<lparr>GStack := tl (GStack s)\<rparr>))
    (bindM (getM (\<lambda>s. GStack s \<noteq> [])) (\<lambda>more.
      thenM (if more then thenM (pushGrammar ElementContent) (setTopInt False) else pushGrammar DocEnd)
        getEvent))))"

definition handleEEStartTag :: "EventUID sch" where
  "handleEEStartTag =
    bindM getEvent (\<lambda>e.
      thenM (if EventUID_hasQName e then retM ()
        else thenM addQNameToEvent (modM (\<lambda>s. topGrammar (BuiltinGrammar_addTerm (sch_Event s) True) s)))
      (Schema_handleEE True))"

section \<open>Attributes and characters\<close>

definition handleATQName :: "bool \<Rightarrow> EventUID sch" where
  "handleATQName cached =
    thenM (invariantM (\<lambda>s. EventUID_hasQName (sch_Event s)))
    (bindM getEvent (\<lambda>e.
     thenM (if cached then retM () else Schema_addTerm ATQName e)
    (thenM (modM (\<lambda>s. s\<lparr>sch_Event := EventUID_setTerm (if cached then ATQName else AT) (sch_Event s)\<rparr>))
      getEvent)))"

definition Schema_handleAT :: "bool \<Rightarrow> EventUID dec" where
  "Schema_handleAT cached = orNull decodeQName (\<lambda>e. schemaM (thenM (setEvent e) (handleATQName cached)))"

definition handleCHValue :: "bool \<Rightarrow> EventUID sch" where
  "handleCHValue cached =
    thenM (invariantM (\<lambda>s. EventUID_hasQName (sch_Event s)))
    (thenM (if cached then retM () else Schema_addTerm CHExtern EventUID_NewNull)
    (thenM (pushGrammar ElementContent)
    (thenM (setTopInt False)
    (thenM (modM (\<lambda>s. s\<lparr>sch_Event := EventUID_setTerm (if cached then CHExtern else CH) (sch_Event s)\<rparr>))
      getEvent))))"

definition Schema_handleCH :: "bool \<Rightarrow> EventUID dec" where
  "Schema_handleCH cached =
    bindM (schemaM (thenM (invariantM (\<lambda>s. GStack s \<noteq> [])) (getM topName))) (\<lambda>name.
      orNull (decodeValue name) (\<lambda>e. schemaM (thenM (setEvent (e\<lparr>Name := name\<rparr>)) (handleCHValue cached))))"

section \<open>States\<close>

definition handleChildContent :: "bool \<Rightarrow> EventUID dec" where
  "handleChildContent isStart =
    bindM (schemaM getEvent) (\<lambda>e. case EventUID_getTerm e of
        SE \<Rightarrow> Schema_handleSE False
      | CH \<Rightarrow> Schema_handleCH False
      | ER \<Rightarrow> schemaM (thenM (pushGrammar ElementContent) (Schema_NewTerm ER))
      | CM \<Rightarrow> schemaM (thenM (pushGrammar ElementContent) (Schema_NewTerm CM))
      | PI \<Rightarrow> schemaM (thenM (pushGrammar ElementContent) (Schema_NewTerm PI))
      | _ \<Rightarrow> faultM Unreachable)"

definition handleSharedContent :: "bool \<Rightarrow> EventUID dec" where
  "handleSharedContent isStart =
    bindM (schemaM getEvent) (\<lambda>e. case EventUID_getTerm e of
        EE \<Rightarrow> schemaM (Schema_handleEE False)
      | SEQName \<Rightarrow> schemaM (handleSEQName True)
      | CHExtern \<Rightarrow> Schema_handleCH True
      | _ \<Rightarrow> handleChildContent isStart)"

definition handleStartTag :: "EventUID dec" where
  "handleStartTag =
    thenM decodeTermGrammar
    (bindM (schemaM getEvent) (\<lambda>e. case EventUID_getTerm e of
        SE \<Rightarrow> handleChildContent True
      | EE \<Rightarrow> schemaM handleEEStartTag
      | AT \<Rightarrow> Schema_handleAT False
      | ATQName \<Rightarrow> schemaM (handleATQName True)
      | NS \<Rightarrow> schemaM (Schema_NewTerm NS)
      | SC \<Rightarrow> schemaM (thenM (pushGrammar Fragment) (Schema_NewTerm SC))
      | _ \<Rightarrow> handleSharedContent True))"

definition handleElement :: "EventUID dec" where
  "handleElement = thenM decodeTermGrammar (handleSharedContent False)"

definition handleDocument :: "EventUID dec" where
  "handleDocument = schemaM (thenM (pushGrammar DocContent) (Schema_NewTerm SD))"

definition handleDocContent :: "EventUID dec" where
  "handleDocContent =
    bindM (decodeTerm 0 0) (\<lambda>m.
      if m = SE then thenM (schemaM (assertM (\<lambda>s. GStack s = [] \<and> Grammars s = []))) (Schema_handleSE True)
      else if m = DT \<or> m = CM \<or> m = PI then schemaM (Schema_NewTerm m)
      else faultM Unreachable)"

definition handleDocEnd :: "EventUID dec" where
  "handleDocEnd =
    bindM (decodeTerm 0 0) (\<lambda>m.
      if m = ED then schemaM (thenM (assertM (\<lambda>s. GStack s = [])) (Schema_NewTerm ED))
      else if m = CM \<or> m = PI then schemaM (Schema_NewTerm m)
      else faultM Unreachable)"

definition getDocTerm :: "EventUID dec" where
  "getDocTerm = bindM (schemaM (getM Current)) (\<lambda>G. case G of
      Document \<Rightarrow> handleDocument
    | DocContent \<Rightarrow> handleDocContent
    | DocEnd \<Rightarrow> handleDocEnd
    | _ \<Rightarrow> faultM Unreachable)"

definition getTermImpl :: "EventUID dec" where
  "getTermImpl = bindM (schemaM (getM Current)) (\<lambda>G. case G of
      StartTagContent \<Rightarrow> handleStartTag
    | ElementContent \<Rightarrow> handleElement
    | Fragment \<Rightarrow> faultM Unreachable
    | _ \<Rightarrow> getDocTerm)"

section \<open>A new schema\<close>

definition DynBuiltinSchema_New :: "bool \<Rightarrow> ExiOptions \<Rightarrow> BuiltinSchema" where
  "DynBuiltinSchema_New bits opts = (case Builder_init (Preserve opts) (SelfContained opts) of
     (terms, infos) \<Rightarrow> \<lparr>sch_Bit = bits, sch_Terms = terms, sch_Info = infos, sch_Event = EventUID_NewNull,
       Current = Document, GStack = [], Grammars = [], sch_Heap = []\<rparr>)"

definition BuiltinSchema_New :: "ExiOptions \<Rightarrow> 's \<Rightarrow> (BuiltinSchema, 's) exi" where
  "BuiltinSchema_New opts = (case Alignment opts of
      BitPacked \<Rightarrow> retM (DynBuiltinSchema_New True opts)
    | BytePacked \<Rightarrow> retM (DynBuiltinSchema_New False opts)
    | _ \<Rightarrow> faultM Unreachable)"

end
