(* ===== verification/Execution.thy ===== *)
theory Execution
  imports SchemaMachine
begin

text \<open>
  Bundles that let \<open>simp\<close> run the model on a concrete decoder: the definitions of the operations,
  applied to their state, so that only the step that runs is unfolded. A run evaluates with
  \<open>(simp add: eval_simps del: eval_del)\<close>; the inputs are byte-aligned streams, whose reads are
  shifts of a literal word.
\<close>

section \<open>Combinators\<close>

lemma if_run: "(if b then m else n) s = (if b then m s else n s)"
  by simp

lemmas eval_combinators = bindM_def thenM_def [THEN fun_cong] zoomM_def checkM_def invariantM_def [THEN fun_cong]
  assertM_def [THEN fun_cong] nthM_def expectM_def definedM_def readerM_def identsM_def [THEN fun_cong]
  schemaM_def castReader_def [THEN fun_cong] strm_read_def [THEN fun_cong] orNull_def if_run Let_def

text \<open>The conditional rules of the combinators try every kind of outcome; a run uses the definitions.\<close>

lemmas eval_del = bindM_run thenM_run zoomM_run checkM_run assertM_run nthM_run readerM_run identsM_run schemaM_run
  readNByteUInt_loop.simps readString_loop.simps decodeTerm_loop.simps

section \<open>Reading\<close>

lemma readNByteUInt_loop_numeral:
  "readNByteUInt_loop read8 (numeral n) m v s = bindM read8 (\<lambda>octet.
     definedM (shl64 m (octet AND 0b01111111)) (\<lambda>lo.
       if octet AND 0b10000000 \<noteq> 0 then readNByteUInt_loop read8 (pred_numeral n) (m + 7) (v + lo)
       else retM (v + lo))) s"
  by (simp add: numeral_eq_Suc)

lemmas eval_reader_ops = OrdReader_readBits64_def OrdReader_readUInt_def OrdReader_readString_def
  OrdReader_decodeString_def OrdReader_readBit_def ByteReader_readBits64_def ByteReader_readPartialBytes64_def
  ByteReader_fillStore_def ByteReader_readBit_def ByteReader_readUInt_def ByteReader_readByte_def
  ByteReader_readString_def ByteReader_decodeString_def readNByteUInt_def readString_def decodeString_def
  readNByteUInt_loop.simps readString_loop.simps

lemmas eval_reader = eval_reader_ops [THEN fun_cong] OrdReader_call_def ByteReader_readFullBytes64V_def
  ByteReader_readImpl_def ByteReader_readNBits_def ByteReader_new_def fillStoreImpl_def or_bytes_def
  MakeByteCount_def kBitsPerWord_def shr64_def shl64_def usub_def byteswap64_def byteswap32_def
  readNByteUInt_loop_numeral UnicodeReads_def RuneEncoder_Encode_def RuneEncoder_EncodeValid_def
  upt_rec nth_Cons'

section \<open>Names and values\<close>

lemmas eval_table_ops = getURILog_def getURI_def assertPartitionsInSync_def addURI_def createURI_def
  addLocalName_def getLocalName_def getLocalNameLog_def getLVPartition_def addLocalValue_def addValue_def
  addGlobalValue_def createGlobalValue_def getLocalValueLog_def getLocalValue_def getGlobalValueLog_def
  getGlobalValue_def getQName_def

lemmas eval_names_ops = decodeURI_def decodeName_def decodeQName_def decodeValue_def SmallQName_NewQName_def

lemmas eval_names = eval_names_ops [THEN fun_cong] eval_table_ops [THEN fun_cong] decodePfxQ_def
  EventUID_NewQName_def createLocalName_def EventUID_hasQName_def SmallQName_isQName_def SmallQName_hasURI_def
  SmallQName_hasName_def invalid_defs EventUID_NewNull_def SmallQName_NewAny_def EventUID_NewTerm_def
  EventUID_setTerm_def EventUID_getTerm_def EventUID_GetTerm_def EventTerms_def EventUID_NewLocalValue_def
  EventUID_NewGlobalValue_def CompactIDCounter_inc_ok

section \<open>The state machine\<close>

lemmas eval_schema_ops = setEvent_def getEvent_def pushGrammar_def Schema_NewTerm_def createDecodedTerm_def
  decodeTerm_def getGrammarTerm_def decodeTermGrammar_def Schema_addTerm_def addQNameToEvent_def makeGrammar_def
  setTopInt_def handleSEQName_def Schema_handleSE_def Schema_handleEE_def handleEEStartTag_def handleATQName_def
  Schema_handleAT_def handleCHValue_def Schema_handleCH_def handleChildContent_def handleSharedContent_def
  handleStartTag_def handleElement_def handleDocument_def handleDocContent_def handleDocEnd_def getDocTerm_def
  getTermImpl_def decodeTerm_at_def decodeTerm_loop.simps BuiltinGrammar_getTerm_def

lemmas eval_schema = eval_schema_ops [THEN fun_cong] loadGrammar_def topGrammar_def topName_def Schema_isStart_def
  BuiltinGrammar_addTerm_def setLog_def getStartTagCount_def getElementCount_def getLog_def getElts_def
  BuiltinGrammar_new_def grammar_index_def CompactIDLog2_small

lemma CompactIDLog2_Suc:
  "CompactIDLog2 (Suc (Suc 0)) = 1" "CompactIDLog2 (Suc (Suc (Suc 0))) = 2" "CompactIDLog2 (Suc (Suc (Suc (Suc 0)))) = 2"
  by (simp_all add: CompactIDLog2_bit_length bit_length.simps)

lemmas eval_simps = CompactIDLog2_Suc eval_combinators eval_reader eval_names eval_schema

section \<open>A small decoder\<close>

text \<open>A decoder in front of the body of a document with default options: an empty namespace is the
  only URI of its table, the stream is byte-packed.\<close>

definition small_table :: StringTable where
  "small_table = StringTable_new\<lparr>
     URIMap := [\<lparr>uri_Name = [], PrefixElts = 2, LNElts = 0\<rparr>], PrefixMap := [[[]]], LNMap := [[]],
     URICount := \<lparr>Value = 1, LogValue = 1\<rparr>, LNCount := \<lparr>Value = 1, LogValue = 0\<rparr>\<rparr>"

definition small_decoder :: "bytes \<Rightarrow> ExiDecoder" where
  "small_decoder bs = ExiDecoder_new\<lparr>Reader := Some (OrdByte (ByteReader_new bs)), Idents := small_table,
     CurrentSchema := Some (DynBuiltinSchema_New False default_ExiOptions)\<rparr>"

lemma small_table_setup: "createURI [] (Some []) StringTable_new = Ret 0 small_table"
  by (simp add: eval_combinators createURI_def assertPartitionsInSync_def CompactIDCounter_inc_ok CompactIDLog2_Suc CompactIDLog2_small StringTable_new_def
      CompactIDCounter_zero_def small_table_def PagedVec_resize_def del: eval_del)

lemma small_schema:
  assumes "Preserve opts = Preserve default_ExiOptions" "\<not> SelfContained opts"
  shows "DynBuiltinSchema_New b opts = \<lparr>sch_Bit = b, sch_Terms = [SE, ED, EE, AT, SE, CH, EE, SE, CH],
     sch_Info = [\<lparr>bi_Offset = 0, bi_Code = \<lparr>ec_Data = [1, 0, 0], ec_Bits = [0, 0, 0], ec_Length = 1\<rparr>\<rparr>,
       \<lparr>bi_Offset = 1, bi_Code = \<lparr>ec_Data = [1, 0, 0], ec_Bits = [0, 0, 0], ec_Length = 1\<rparr>\<rparr>,
       \<lparr>bi_Offset = 2, bi_Code = \<lparr>ec_Data = [0, 4, 0], ec_Bits = [0, 2, 0], ec_Length = 2\<rparr>\<rparr>,
       \<lparr>bi_Offset = 6, bi_Code = \<lparr>ec_Data = [2, 2, 0], ec_Bits = [1, 1, 0], ec_Length = 2\<rparr>\<rparr>],
     sch_Event = EventUID_NewNull, Current = Document, GStack = [], Grammars = [], sch_Heap = []\<rparr>"
  using assms
  by (simp add: DynBuiltinSchema_New_def Builder_init_eq default_ExiOptions_def doc_levels_def code_of_eval SmallLog2_def Let_def)

lemma small_options [simp]:
  "\<not> SelfContained default_ExiOptions" "DatatypeRepresentationMap default_ExiOptions = None"
  by (simp_all add: default_ExiOptions_def)

lemma small_preserve:
  "Preserve default_ExiOptions
    = \<lparr>Comments = False, DTDs = False, LexicalValues = False, PIs = False, Prefixes = False\<rparr>"
  by (simp add: default_ExiOptions_def)

text \<open>A decoder whose options and reader were set by the caller.\<close>

definition body_options :: ExiOptions where
  "body_options = default_ExiOptions\<lparr>Alignment := BytePacked, SchemaID := Some None\<rparr>"

definition body_decoder :: "bytes \<Rightarrow> ExiDecoder" where
  "body_decoder bs = (small_decoder bs)\<lparr>Header := default_ExiHeader\<lparr>Opts := Some body_options\<rparr>,
     Idents := small_table\<lparr>DidSetup := True\<rparr>, CurrentSchema := None,
     Flags := \<lparr>SetReader = True, DidHeader = True, DidInit = False\<rparr>\<rparr>"

lemmas eval_small = small_decoder_def small_table_def small_schema small_preserve ExiDecoder_new_def StringTable_new_def

end
