(* ===== verification/Nesting.thy ===== *)
theory Nesting
  imports Execution
begin

text \<open>
  What the state machine of the schema promises: the events it returns form a well-nested
  document. The specification is an automaton over phases with the stack of open elements; the
  schema refines it.
\<close>

section \<open>What decoding leaves alone\<close>

named_theorems keeps \<open>operations of the decoder that keep the schema\<close>

definition keeps_schema :: "'a dec \<Rightarrow> bool" where
  "keeps_schema m \<longleftrightarrow> (\<forall>d. leaves (\<lambda>d'. CurrentSchema d' = CurrentSchema d) (m d))"

lemma keeps_schemaD:
  assumes "keeps_schema m"
  shows "m d = Ret a d' \<Longrightarrow> CurrentSchema d' = CurrentSchema d" "m d = Err e d' \<Longrightarrow> CurrentSchema d' = CurrentSchema d"
  using assms unfolding keeps_schema_def by (metis leaves_simps(1), metis leaves_simps(2))

lemma keeps_leaf [keeps]:
  "keeps_schema (retM a)" "keeps_schema (errM e)" "keeps_schema (faultM f)" "keeps_schema (getM h)"
  "keeps_schema (invariantM P)" "keeps_schema (assertM P)" "keeps_schema (checkM g P)"
  by (simp_all add: keeps_schema_def invariantM_def assertM_def)
    (simp_all add: checkM_def)

lemma keeps_bindM [keeps]:
  assumes "keeps_schema m" "\<And>a. keeps_schema (k a)"
  shows "keeps_schema (bindM m k)"
  unfolding keeps_schema_def
proof
  fix d
  show "leaves (\<lambda>d'. CurrentSchema d' = CurrentSchema d) (bindM m k d)"
  proof (cases "m d")
    case (Ret a t)
    then have "CurrentSchema t = CurrentSchema d" by (rule keeps_schemaD(1) [OF assms(1)])
    moreover have "leaves (\<lambda>d'. CurrentSchema d' = CurrentSchema t) (k a t)"
      using assms(2) by (simp add: keeps_schema_def)
    ultimately show ?thesis using Ret by simp
  next
    case (Err e t)
    then have "CurrentSchema t = CurrentSchema d" by (rule keeps_schemaD(2) [OF assms(1)])
    then show ?thesis using Err by simp
  qed simp
qed

lemma keeps_thenM [keeps]: "keeps_schema m \<Longrightarrow> keeps_schema n \<Longrightarrow> keeps_schema (thenM m n)"
  by (simp add: thenM_def keeps_bindM)

lemma keeps_if [keeps]: "keeps_schema m \<Longrightarrow> keeps_schema n \<Longrightarrow> keeps_schema (if b then m else n)"
  by simp

lemma keeps_split [keeps]: "(\<And>a b. keeps_schema (f a b)) \<Longrightarrow> keeps_schema (case p of (a, b) \<Rightarrow> f a b)"
  by (simp split: prod.split)

lemma keeps_option [keeps]:
  "keeps_schema m \<Longrightarrow> (\<And>a. keeps_schema (f a)) \<Longrightarrow> keeps_schema (case p of None \<Rightarrow> m | Some a \<Rightarrow> f a)"
  by (simp split: option.split)

lemma keeps_readerM [keeps]: "keeps_schema (readerM m)"
  unfolding keeps_schema_def
proof
  fix d
  show "leaves (\<lambda>d'. CurrentSchema d' = CurrentSchema d) (readerM m d)"
    by (cases "Reader d"; cases "m (the (Reader d))") (simp_all add: readerM_def)
qed

lemma keeps_identsM [keeps]: "keeps_schema (identsM m)"
  unfolding keeps_schema_def
proof
  fix d
  show "leaves (\<lambda>d'. CurrentSchema d' = CurrentSchema d) (identsM m d)"
    by (cases "m (Idents d)") (simp_all add: identsM_def)
qed

lemma keeps_expectM [keeps]:
  assumes "keeps_schema m"
  shows "keeps_schema (expectM f m)"
  unfolding keeps_schema_def
proof
  fix d
  show "leaves (\<lambda>d'. CurrentSchema d' = CurrentSchema d) (expectM f m d)"
    by (cases "m d") (simp_all add: expectM_def keeps_schemaD(1) [OF assms])
qed

lemma keeps_state: "(\<And>d. keeps_schema (m d)) \<Longrightarrow> keeps_schema (\<lambda>d. m d d)"
  by (simp add: keeps_schema_def)

lemma keeps_decodeURI [keeps]: "keeps_schema decodeURI"
  unfolding decodeURI_def by (intro keeps)

lemma keeps_decodeName [keeps]: "keeps_schema (decodeName u)"
  unfolding decodeName_def by (intro keeps)

lemma keeps_decodePfxQ [keeps]: "keeps_schema (decodePfxQ u)"
proof -
  have e: "decodePfxQ u = (\<lambda>d. (if \<not> Prefixes (dec_Preserve d) then retM None
     else bindM (identsM (hasPrefixes u)) (\<lambda>b.
       if \<not> b then retM None
       else bindM (identsM (getPrefixLogQ u)) (\<lambda>bits.
         bindM (if bits \<noteq> 0 then bindM (readerM (OrdReader_readBits64 bits)) (\<lambda>w. retM (unat w)) else retM 0) (\<lambda>p.
         bindM (identsM (getPrefix u p)) (\<lambda>_. retM (Some p)))))) d)"
    by (rule ext) (simp add: decodePfxQ_def)
  show ?thesis unfolding e by (rule keeps_state) (intro keeps)
qed

lemma keeps_NewQName [keeps]: "keeps_schema (SmallQName_NewQName u n)"
  unfolding SmallQName_NewQName_def by (intro keeps)

lemma keeps_decodeQName [keeps]: "keeps_schema decodeQName"
  unfolding decodeQName_def by (intro keeps)

lemma keeps_decodeValue [keeps]: "keeps_schema (decodeValue q)"
  unfolding decodeValue_def by (intro keeps)

lemma keeps_strm_read [keeps]: "keeps_schema (strm_read n)"
  unfolding strm_read_def by (rule keeps)

lemma keeps_castReader [keeps]: "keeps_schema castReader"
  unfolding castReader_def by (rule keeps)

lemma keeps_decodeTerm_loop [keeps]: "keeps_schema (decodeTerm_loop strm_read c n ix at)"
  by (induction n arbitrary: ix at) (simp_all add: keeps Let_def)

lemma keeps_decodeTerm_at [keeps]: "keeps_schema (decodeTerm_at strm_read c start at)"
  unfolding decodeTerm_at_def Let_def by (intro keeps)

lemma keeps_getTerm [keeps]: "keeps_schema (BuiltinGrammar_getTerm strm_read b g)"
  unfolding BuiltinGrammar_getTerm_def Let_def by (intro keeps)

lemma NewQName_isQName:
  assumes "SmallQName_NewQName u n d = Ret q d'"
  shows "SmallQName_isQName q"
proof -
  have "u < kInvalidURI" "q = \<lparr>LocalID = n, URI = u\<rparr>"
    using assms by (auto simp: SmallQName_NewQName_def shape_simps)
  then show ?thesis
    by (simp add: SmallQName_isQName_def SmallQName_hasURI_def SmallQName_hasName_def invalid_defs)
qed

lemma decodeQName_isQName:
  assumes "decodeQName d = Ret e d'"
  shows "SmallQName_isQName (Name e)"
proof -
  obtain u l d2 q d3 p where "(SmallQName_NewQName u l d2 :: (SmallQName, ExiDecoder) exi) = Ret q d3"
      "e = EventUID_NewQName q p"
    using assms unfolding decodeQName_def bindM_Ret_iff run_combinators
    by (elim exE conjE) (rule that, assumption, erule outcome.inject(1) [THEN iffD1, THEN conjunct1, symmetric])
  then show ?thesis using NewQName_isQName by (simp add: EventUID_NewQName_def Let_def)
qed

section \<open>The automaton of well-nested documents\<close>

text \<open>Before the start event; before the root; inside the open elements, innermost first; after the
  root; and stuck at a self-contained element, which the source does not support.\<close>

datatype phase =
    Unstarted
  | Prolog
  | Inside "SmallQName list"
  | Epilog
  | Unsupported

inductive doc_step :: "phase \<Rightarrow> EventUID \<Rightarrow> phase \<Rightarrow> bool" where
  start: "EventUID_getTerm e = SD \<Longrightarrow> doc_step Unstarted e Prolog"
| prolog: "EventUID_getTerm e \<in> {DT, CM, PI} \<Longrightarrow> doc_step Prolog e Prolog"
| root: "EventUID_getTerm e \<in> {SE, SEQName} \<Longrightarrow> doc_step Prolog e (Inside [Name e])"
| child: "EventUID_getTerm e \<in> {SE, SEQName} \<Longrightarrow> doc_step (Inside (q # qs)) e (Inside (Name e # q # qs))"
| close: "EventUID_getTerm e = EE \<Longrightarrow> Name e = q \<Longrightarrow> doc_step (Inside (q # q' # qs)) e (Inside (q' # qs))"
| close_root: "EventUID_getTerm e = EE \<Longrightarrow> Name e = q \<Longrightarrow> doc_step (Inside [q]) e Epilog"
| content: "EventUID_getTerm e \<in> {AT, ATQName, NS, CM, PI, ER} \<Longrightarrow> doc_step (Inside (q # qs)) e (Inside (q # qs))"
| chars: "EventUID_getTerm e \<in> {CH, CHExtern} \<Longrightarrow> Name e = q \<Longrightarrow> doc_step (Inside (q # qs)) e (Inside (q # qs))"
| self_contained: "EventUID_getTerm e = SC \<Longrightarrow> doc_step (Inside (q # qs)) e Unsupported"
| epilog: "EventUID_getTerm e \<in> {CM, PI} \<Longrightarrow> doc_step Epilog e Epilog"
| finish: "EventUID_getTerm e = ED \<Longrightarrow> doc_step Epilog e Epilog"
| failed: "e = EventUID_NewNull \<Longrightarrow> doc_step p e p"

section \<open>The invariant of the schema\<close>

definition open_names :: "BuiltinSchema \<Rightarrow> SmallQName list" where
  "open_names s = map (\<lambda>x. bg_Name (sch_Heap s ! fst x)) (GStack s)"

definition phase_of :: "BuiltinSchema \<Rightarrow> phase" where
  "phase_of s = (case Current s of Document \<Rightarrow> Unstarted | DocContent \<Rightarrow> Prolog | DocEnd \<Rightarrow> Epilog
     | Fragment \<Rightarrow> Unsupported | _ \<Rightarrow> Inside (open_names s))"

text \<open>A grammar only learns end events of its own element.\<close>

definition own_ends :: "BuiltinGrammar \<Rightarrow> bool" where
  "own_ends g \<longleftrightarrow> SmallQName_isQName (bg_Name g) \<and>
     (\<forall>e \<in> set (StartTag g). EventUID_getTerm e = EE \<longrightarrow> Name e = bg_Name g)"

definition heap_ok :: "BuiltinSchema \<Rightarrow> bool" where
  "heap_ok s \<longleftrightarrow> (\<forall>x \<in> set (GStack s). fst x < length (sch_Heap s)) \<and>
     (\<forall>x \<in> set (Grammars s). snd x < length (sch_Heap s) \<and> bg_Name (sch_Heap s ! snd x) = fst x) \<and>
     (\<forall>g \<in> set (sch_Heap s). own_ends g)"

definition stack_ok :: "BuiltinSchema \<Rightarrow> bool" where
  "stack_ok s \<longleftrightarrow> (case Current s of
      Document \<Rightarrow> GStack s = [] \<and> Grammars s = []
    | DocContent \<Rightarrow> GStack s = [] \<and> Grammars s = []
    | DocEnd \<Rightarrow> GStack s = []
    | StartTagContent \<Rightarrow> GStack s \<noteq> [] \<and> snd (hd (GStack s))
    | _ \<Rightarrow> GStack s \<noteq> [])"

definition schema_ok :: "BuiltinSchema \<Rightarrow> bool" where
  "schema_ok s \<longleftrightarrow> heap_ok s \<and> stack_ok s"

lemma schema_ok_New: "schema_ok (DynBuiltinSchema_New b opts)"
  by (simp add: schema_ok_def heap_ok_def stack_ok_def DynBuiltinSchema_New_def split: prod.split)

lemma phase_of_New: "phase_of (DynBuiltinSchema_New b opts) = Unstarted"
  by (simp add: phase_of_def DynBuiltinSchema_New_def split: prod.split)

lemma heap_ok_event [simp]:
  "heap_ok (s\<lparr>sch_Event := e\<rparr>) = heap_ok s" "heap_ok (s\<lparr>Current := G\<rparr>) = heap_ok s"
  by (simp_all add: heap_ok_def)

lemma open_names_event [simp]:
  "open_names (s\<lparr>sch_Event := e\<rparr>) = open_names s" "open_names (s\<lparr>Current := G\<rparr>) = open_names s"
  by (simp_all add: open_names_def)

text \<open>Changing a grammar keeps the invariant when it keeps the name and learns no foreign end.\<close>

lemma topGrammar_fields [simp]:
  "Current (topGrammar f s) = Current s" "GStack (topGrammar f s) = GStack s" "Grammars (topGrammar f s) = Grammars s"
  "sch_Event (topGrammar f s) = sch_Event s" "length (sch_Heap (topGrammar f s)) = length (sch_Heap s)"
  by (simp_all add: topGrammar_def)

lemma topGrammar_name:
  assumes "\<And>g. bg_Name (f g) = bg_Name g"
  shows "bg_Name (sch_Heap (topGrammar f s) ! i) = bg_Name (sch_Heap s ! i)"
proof (cases "fst (hd (GStack s)) < length (sch_Heap s)")
  case True
  then show ?thesis using assms by (simp add: topGrammar_def nth_list_update)
qed (simp add: topGrammar_def list_update_beyond not_less)

lemma heap_ok_topGrammar:
  assumes "heap_ok s" "GStack s \<noteq> []" "\<And>g. bg_Name (f g) = bg_Name g"
    and "own_ends (sch_Heap s ! fst (hd (GStack s))) \<Longrightarrow> own_ends (f (sch_Heap s ! fst (hd (GStack s))))"
  shows "heap_ok (topGrammar f s)" "open_names (topGrammar f s) = open_names s"
proof -
  show "open_names (topGrammar f s) = open_names s"
    by (simp add: open_names_def topGrammar_name [OF assms(3)])
  have i: "fst (hd (GStack s)) < length (sch_Heap s)" using assms(1,2) by (simp add: heap_ok_def)
  have "own_ends (f (sch_Heap s ! fst (hd (GStack s))))" using assms(1,4) i by (simp add: heap_ok_def)
  then have "\<forall>g \<in> set (sch_Heap (topGrammar f s)). own_ends g"
    using assms(1) by (auto simp: topGrammar_def heap_ok_def dest!: set_update_subset_insert [THEN subsetD])
  then show "heap_ok (topGrammar f s)"
    using assms(1) by (simp add: heap_ok_def topGrammar_name [OF assms(3)])
qed

lemma own_ends_addTerm:
  assumes "own_ends g" "b \<longrightarrow> EventUID_getTerm e = EE \<longrightarrow> Name e = bg_Name g"
  shows "own_ends (BuiltinGrammar_addTerm e b g)"
  using assms by (auto simp: own_ends_def BuiltinGrammar_addTerm_def setLog_def)

lemma own_ends_new: "SmallQName_isQName q \<Longrightarrow> own_ends (BuiltinGrammar_new q)"
  by (simp add: own_ends_def BuiltinGrammar_new_def)

lemma heap_ok_top:
  assumes "heap_ok s" "GStack s = (g, b) # gs"
  shows "g < length (sch_Heap s)" "own_ends (sch_Heap s ! g)"
  using assms by (auto simp: heap_ok_def)

section \<open>What each handler does to the schema\<close>

lemma modM_Ret_iff [shape_simps]:
  "modM f s = Ret u t \<longleftrightarrow> t = f s"
  "getM h s = Ret a t \<longleftrightarrow> a = h s \<and> t = s" "retM b s = Ret a t \<longleftrightarrow> a = b \<and> t = s"
  by auto

lemmas schema_ops = Schema_addTerm_def addQNameToEvent_def setTopInt_def pushGrammar_def getEvent_def setEvent_def
  Schema_NewTerm_def

lemma schemaM_Ret_iff [shape_simps]:
  "schemaM m d = Ret a d' \<longleftrightarrow>
    (\<exists>s s'. CurrentSchema d = Some s \<and> m s = Ret a s' \<and> d' = d\<lparr>CurrentSchema := Some s'\<rparr>)"
  by (cases "CurrentSchema d") (auto simp: schemaM_def map_state_eq_iff)

lemma orNull_Ret:
  assumes "orNull m k d = Ret e d'"
  obtains e0 d0 where "m d = Ret e0 d0" "k e0 d0 = Ret e d'"
  | x where "m d = Err x d'" "e = EventUID_NewNull"
  using assms by (cases "m d") (auto simp: orNull_def)

text \<open>Reading a term sets the event.\<close>

lemma schema_id: "CurrentSchema d = Some s \<Longrightarrow> d\<lparr>CurrentSchema := Some s\<rparr> = d"
  by (cases d) simp

lemma castReader_Ret [shape_simps]:
  "castReader d = Ret u d' \<longleftrightarrow> d' = d \<and> (case (Reader d, CurrentSchema d) of
     (Some r, Some s) \<Rightarrow> isBitReader r = sch_Bit s | _ \<Rightarrow> False)"
  by (auto simp: castReader_def shape_simps)

lemma decodeTerm_schema:
  assumes "decodeTerm start at d = Ret t d'" "CurrentSchema d = Some s"
  shows "CurrentSchema d' = Some (s\<lparr>sch_Event := EventUID_NewTerm t\<rparr>)"
proof -
  have "\<exists>code at' d2. decodeTerm_at strm_read code start at d = Ret at' d2 \<and> schemaM (createDecodedTerm at') d2 = Ret t d'"
    using assms unfolding decodeTerm_def thenM_Ret_iff bindM_Ret_iff castReader_Ret schemaM_Ret_iff [of _ d]
    by (auto simp: shape_simps schema_id) blast
  then obtain code at' d2 where d2: "decodeTerm_at strm_read code start at d = Ret at' d2"
      "schemaM (createDecodedTerm at') d2 = Ret t d'" by blast
  have "CurrentSchema d2 = Some s"
    using keeps_schemaD(1) [OF keeps_decodeTerm_at d2(1)] assms(2) by simp
  then show ?thesis
    using d2(2) by (auto simp: shape_simps createDecodedTerm_def)
qed

lemma getGrammarTerm_schema:
  assumes "getGrammarTerm d = Ret t d'" "CurrentSchema d = Some s" "GStack s = (g, b) # gs"
  shows "CurrentSchema d' = Some s \<and> (\<forall>e. t = GTerm e \<longrightarrow> e \<in> set (getElts b (sch_Heap s ! g)))"
proof -
  have "\<exists>d1. CurrentSchema d1 = Some s \<and> BuiltinGrammar_getTerm strm_read b (sch_Heap s ! g) d1 = Ret t d'"
    using assms unfolding getGrammarTerm_def by (auto simp: shape_simps schema_id)
  then obtain d1 where d1: "CurrentSchema d1 = Some s" "BuiltinGrammar_getTerm strm_read b (sch_Heap s ! g) d1 = Ret t d'"
    by blast
  have "e \<in> set (getElts b (sch_Heap s ! g))" if "t = GTerm e" for e
    using d1(2) that by (auto simp: BuiltinGrammar_getTerm_def shape_simps Let_def split: if_splits)
  then show ?thesis using keeps_schemaD(1) [OF keeps_getTerm d1(2)] d1(1) by simp
qed

lemma decodeTermGrammar_schema:
  assumes "decodeTermGrammar d = Ret e d'" "CurrentSchema d = Some s" "GStack s = (g, b) # gs"
  shows "CurrentSchema d' = Some (s\<lparr>sch_Event := e\<rparr>) \<and>
    (e \<in> set (getElts b (sch_Heap s ! g)) \<or> (\<exists>t. e = EventUID_NewTerm t))"
proof -
  obtain t d1 where t: "getGrammarTerm d = Ret t d1"
      "(case t of GTerm e \<Rightarrow> thenM (schemaM (setEvent e)) (retM e)
        | GFirst k \<Rightarrow> thenM (decodeTerm 1 (k mod 2 ^ 32)) (schemaM getEvent)) d1 = Ret e d'"
    using assms(1) unfolding decodeTermGrammar_def bindM_Ret_iff by blast
  have s: "CurrentSchema d1 = Some s" "\<And>e. t = GTerm e \<Longrightarrow> e \<in> set (getElts b (sch_Heap s ! g))"
    using getGrammarTerm_schema [OF t(1) assms(2,3)] by auto
  show ?thesis
  proof (cases t)
    case (GTerm e')
    then show ?thesis using t(2) s by (auto simp: schema_ops shape_simps)
  next
    case (GFirst k)
    then obtain u d2 where u: "decodeTerm 1 (k mod 2 ^ 32) d1 = Ret u d2" "schemaM getEvent d2 = Ret e d'"
      using t(2) by (auto simp: shape_simps)
    then show ?thesis using decodeTerm_schema [OF u(1) s(1)] by (auto simp: schema_ops shape_simps schema_id)
  qed
qed

text \<open>The handlers that do not read.\<close>

definition popped :: "BuiltinSchema \<Rightarrow> BuiltinSchema" where
  "popped s = (case tl (GStack s) of [] \<Rightarrow> s\<lparr>GStack := [], Current := DocEnd\<rparr>
     | (g, b) # gs \<Rightarrow> s\<lparr>GStack := (g, False) # gs, Current := ElementContent\<rparr>)"

lemma handleEE_schema:
  assumes "Schema_handleEE isStart s = Ret e s'"
  shows "GStack s \<noteq> [] \<and> e = (if isStart then sch_Event s else (sch_Event s)\<lparr>Name := topName s\<rparr>)
    \<and> s' = popped (s\<lparr>sch_Event := e\<rparr>)"
proof -
  define s1 where "s1 = (if isStart then s else s\<lparr>sch_Event := (sch_Event s)\<lparr>Name := topName s\<rparr>\<rparr>)"
  have ne: "GStack s \<noteq> []" and r: "e = sch_Event s1"
    "s' = (if tl (GStack s) \<noteq> [] then s1\<lparr>GStack := (fst (hd (tl (GStack s))), False) # tl (tl (GStack s)), Current := ElementContent\<rparr>
      else s1\<lparr>GStack := [], Current := DocEnd\<rparr>)"
    using assms by (auto simp: Schema_handleEE_def schema_ops shape_simps s1_def split: if_splits)
  show ?thesis
    using ne r by (cases isStart; cases "tl (GStack s)") (auto simp: s1_def popped_def)
qed

text \<open>A state inside an element.\<close>

definition inside :: "BuiltinSchema \<Rightarrow> bool" where
  "inside s \<longleftrightarrow> schema_ok s \<and> GStack s \<noteq> [] \<and> Current s \<in> {StartTagContent, ElementContent}"

definition good_step :: "BuiltinSchema \<Rightarrow> EventUID \<Rightarrow> BuiltinSchema \<Rightarrow> bool" where
  "good_step s e s' \<longleftrightarrow> schema_ok s' \<and> doc_step (phase_of s) e (phase_of s')"

lemma phase_of_inside: "inside s \<Longrightarrow> phase_of s = Inside (open_names s)"
  by (auto simp: inside_def phase_of_def)

lemma open_names_Nil [simp]: "open_names s = [] \<longleftrightarrow> GStack s = []"
  by (simp add: open_names_def)

lemma hd_open_names: "GStack s \<noteq> [] \<Longrightarrow> hd (open_names s) = topName s"
  by (simp add: open_names_def topName_def hd_map)

lemma open_names_Cons: "GStack s \<noteq> [] \<Longrightarrow> open_names s = topName s # tl (open_names s)"
  using hd_open_names by (metis list.collapse open_names_Nil)

lemma inside_event [simp]: "inside (s\<lparr>sch_Event := e\<rparr>) = inside s"
  by (auto simp: inside_def schema_ok_def stack_ok_def)

lemma phase_of_event [simp]: "phase_of (s\<lparr>sch_Event := e\<rparr>) = phase_of s"
  by (simp add: phase_of_def split: SchemaGrammar.split)

lemma schema_ok_event [simp]: "schema_ok (s\<lparr>sch_Event := e\<rparr>) = schema_ok s"
  by (simp add: schema_ok_def stack_ok_def split: SchemaGrammar.split)

lemma good_step_event: "good_step (s\<lparr>sch_Event := x\<rparr>) e s' = good_step s e s'"
  by (simp add: good_step_def)

lemma good_failed: "schema_ok s \<Longrightarrow> good_step s EventUID_NewNull s"
  by (simp add: good_step_def doc_step.failed)

lemma popped_ok:
  assumes "inside s" "Name e = topName s" "EventUID_getTerm e = EE"
  shows "good_step s e (popped s)"
proof -
  have h: "heap_ok s" "GStack s \<noteq> []" using assms(1) by (auto simp: inside_def schema_ok_def)
  have "heap_ok (popped s)"
    using h by (cases "GStack s") (auto simp: heap_ok_def popped_def split: list.split)
  moreover have "stack_ok (popped s)"
    by (auto simp: popped_def stack_ok_def split: list.split)
  moreover have "phase_of (popped s) = (if tl (GStack s) = [] then Epilog else Inside (tl (open_names s)))"
    using h(2) by (cases "GStack s") (auto simp: popped_def phase_of_def open_names_def split: list.split)
  moreover have "doc_step (Inside (open_names s)) e (if tl (GStack s) = [] then Epilog else Inside (tl (open_names s)))"
  proof (cases "tl (open_names s)")
    case Nil
    then have "tl (GStack s) = []" by (simp add: open_names_def map_tl [symmetric])
    moreover have "open_names s = [topName s]" using open_names_Cons [OF h(2)] Nil by simp
    ultimately show ?thesis using assms(2,3) by (simp add: doc_step.close_root)
  next
    case (Cons q qs)
    then have "tl (GStack s) \<noteq> []" by (auto simp: open_names_def map_tl [symmetric])
    moreover have "open_names s = topName s # q # qs" using open_names_Cons [OF h(2)] Cons by simp
    ultimately show ?thesis using assms(2,3) by (simp add: doc_step.close)
  qed
  ultimately show ?thesis
    using phase_of_inside [OF assms(1)] by (simp add: good_step_def schema_ok_def)
qed

lemma popped_event: "(popped s)\<lparr>sch_Event := e\<rparr> = popped (s\<lparr>sch_Event := e\<rparr>)"
  by (simp add: popped_def split: list.split prod.split)

lemma topName_event [simp]: "topName (s\<lparr>sch_Event := e\<rparr>) = topName s"
  by (simp add: topName_def)

lemma handleEE_step:
  assumes "Schema_handleEE isStart s = Ret e s'" "inside s" "EventUID_getTerm (sch_Event s) = EE"
    and "isStart \<Longrightarrow> Name (sch_Event s) = topName s"
  shows "good_step s e s'"
proof -
  have r: "e = (if isStart then sch_Event s else (sch_Event s)\<lparr>Name := topName s\<rparr>)" "s' = popped (s\<lparr>sch_Event := e\<rparr>)"
    using handleEE_schema [OF assms(1)] by auto
  have "Name e = topName s" "EventUID_getTerm e = EE"
    using r(1) assms(3,4) by (auto simp: EventUID_getTerm_def)
  then have "good_step (s\<lparr>sch_Event := e\<rparr>) e (popped (s\<lparr>sch_Event := e\<rparr>))"
    using assms(2) by (intro popped_ok) simp_all
  then show ?thesis using r(2) by (simp add: good_step_event)
qed

lemma own_ends_new_term:
  assumes "own_ends g" "EventUID_getTerm e \<noteq> EE"
  shows "own_ends (BuiltinGrammar_addTerm e b g)"
  using own_ends_addTerm [OF assms(1)] assms(2) by blast

lemma addTerm_schema:
  assumes "Schema_addTerm t e s = Ret u s'" "heap_ok s" "t \<noteq> EE"
  shows "heap_ok s'" "open_names s' = open_names s" "GStack s' = GStack s" "Grammars s' = Grammars s"
    "Current s' = Current s" "sch_Event s' = sch_Event s"
    "map bg_Name (sch_Heap s') = map bg_Name (sch_Heap s)"
proof -
  define f where "f = BuiltinGrammar_addTerm (EventUID_setTerm t e) (Schema_isStart s)"
  have s': "s' = topGrammar f s" and ne: "GStack s \<noteq> []"
    using assms(1) by (auto simp: Schema_addTerm_def shape_simps f_def)
  have n: "bg_Name (f g) = bg_Name g" for g by (simp add: f_def)
  have o: "own_ends g \<Longrightarrow> own_ends (f g)" for g
    unfolding f_def using assms(3) by (intro own_ends_new_term) simp_all
  show "heap_ok s'" "open_names s' = open_names s"
    unfolding s' by (rule heap_ok_topGrammar [OF assms(2) ne n o], assumption)+
  show "GStack s' = GStack s" "Grammars s' = Grammars s" "Current s' = Current s" "sch_Event s' = sch_Event s"
    by (simp_all add: s')
  show "map bg_Name (sch_Heap s') = map bg_Name (sch_Heap s)"
    by (rule nth_equalityI) (simp_all add: s' topGrammar_name [OF n])
qed

lemma loadGrammar_schema:
  assumes "loadGrammar name s = Ret (g, c) s'" "heap_ok s" "SmallQName_isQName name"
  shows "heap_ok s'" "g < length (sch_Heap s')" "bg_Name (sch_Heap s' ! g) = name" "open_names s' = open_names s"
    "GStack s' = GStack s" "Current s' = Current s" "sch_Event s' = sch_Event s"
proof -
  have "heap_ok s' \<and> g < length (sch_Heap s') \<and> bg_Name (sch_Heap s' ! g) = name \<and> open_names s' = open_names s
    \<and> GStack s' = GStack s \<and> Current s' = Current s \<and> sch_Event s' = sch_Event s"
  proof (cases "map_of (Grammars s) name")
    case None
    then have s': "s' = s\<lparr>sch_Heap := sch_Heap s @ [BuiltinGrammar_new name], Grammars := (name, length (sch_Heap s)) # Grammars s\<rparr>"
        "g = length (sch_Heap s)"
      using assms(1) by (auto simp: loadGrammar_def makeGrammar_def shape_simps)
    have n: "bg_Name (BuiltinGrammar_new name) = name" by (simp add: BuiltinGrammar_new_def)
    have "heap_ok s'"
      using assms(2,3) n by (auto simp: s' heap_ok_def nth_append own_ends_new)
    moreover have "open_names s' = open_names s"
      using assms(2) by (auto simp: s' open_names_def heap_ok_def nth_append)
    ultimately show ?thesis using n by (simp add: s')
  next
    case (Some k)
    then have "(name, k) \<in> set (Grammars s)" by (rule map_of_SomeD)
    then show ?thesis using Some assms(1,2) by (auto simp: loadGrammar_def heap_ok_def)
  qed
  then show "heap_ok s'" "g < length (sch_Heap s')" "bg_Name (sch_Heap s' ! g) = name" "open_names s' = open_names s"
    "GStack s' = GStack s" "Current s' = Current s" "sch_Event s' = sch_Event s"
    by simp_all
qed

lemma handleSEQName_schema:
  assumes "handleSEQName c s = Ret e s'" "heap_ok s"
  shows "schema_ok s' \<and> phase_of s' = Inside (Name e # open_names s) \<and> EventUID_getTerm e \<in> {SE, SEQName}"
proof -
  define q where "q = Name (sch_Event s)"
  obtain g cd s1 s2 where q: "SmallQName_isQName q"
    and s1: "loadGrammar q s = Ret (g, cd) s1"
    and s2: "(if c then retM () else Schema_addTerm SEQName (sch_Event s)) s1 = Ret () s2"
    and e: "e = EventUID_setTerm (if cd then SEQName else SE) (sch_Event s2)"
    and s': "s' = s2\<lparr>Current := StartTagContent, sch_Event := e, GStack := (g, True) # GStack s2\<rparr>"
    using assms(1) unfolding handleSEQName_def schema_ops q_def EventUID_hasQName_def
    by (auto simp only: shape_simps split_paired_Ex prod.case) (auto simp: shape_simps)
  note l = loadGrammar_schema [OF s1 assms(2) q]
  have a: "heap_ok s2" "open_names s2 = open_names s" "sch_Event s2 = sch_Event s" "GStack s2 = GStack s"
      "map bg_Name (sch_Heap s2) = map bg_Name (sch_Heap s1)"
    using s2 l addTerm_schema [of SEQName "sch_Event s" s1 "()" s2] by (auto split: if_splits)
  have g: "g < length (sch_Heap s2)" "bg_Name (sch_Heap s2 ! g) = q"
    using l(2,3) a(5) by (metis length_map, metis length_map nth_map)
  have "heap_ok s'" using a(1) g by (auto simp: s' heap_ok_def)
  moreover have "open_names s' = q # open_names s" using a(2) g by (simp add: s' open_names_def)
  moreover have "Name e = q" by (simp add: e a q_def)
  moreover have "EventUID_getTerm e \<in> {SE, SEQName}" by (simp add: e)
  ultimately show ?thesis by (simp add: schema_ok_def stack_ok_def phase_of_def s')
qed

lemma handleSEQName_step:
  assumes "handleSEQName c s = Ret e s'" "inside s"
  shows "good_step s e s'"
proof -
  have h: "schema_ok s'" "phase_of s' = Inside (Name e # open_names s)" "EventUID_getTerm e \<in> {SE, SEQName}"
    using handleSEQName_schema [OF assms(1)] assms(2) by (auto simp: inside_def schema_ok_def)
  have "GStack s \<noteq> []" using assms(2) by (simp add: inside_def)
  then obtain q qs where "open_names s = q # qs" by (cases "open_names s") auto
  then show ?thesis using h phase_of_inside [OF assms(2)] by (simp add: good_step_def doc_step.child)
qed

text \<open>Content that leaves the open elements as they are.\<close>

lemma good_content:
  assumes "inside s" "EventUID_getTerm e \<in> {AT, ATQName, NS, CM, PI, ER}
      \<or> EventUID_getTerm e \<in> {CH, CHExtern} \<and> Name e = topName s"
    and "inside s'" "open_names s' = open_names s"
  shows "good_step s e s'"
proof -
  have "GStack s \<noteq> []" using assms(1) by (simp add: inside_def)
  note o = open_names_Cons [OF this]
  have "doc_step (Inside (open_names s)) e (Inside (open_names s))"
    using assms(2) by (subst (1 2) o) (auto intro: doc_step.content doc_step.chars)
  then show ?thesis
    using assms(3,4) phase_of_inside [OF assms(1)] phase_of_inside [OF assms(3)]
    by (simp add: good_step_def inside_def)
qed

lemma inside_element: "inside s \<Longrightarrow> inside (s\<lparr>Current := ElementContent\<rparr>)"
  by (auto simp: inside_def schema_ok_def stack_ok_def)

lemma inside_addTerm:
  assumes "Schema_addTerm t e s = Ret u s'" "inside s" "t \<noteq> EE"
  shows "inside s'" "open_names s' = open_names s" "topName s' = topName s" "sch_Event s' = sch_Event s"
proof -
  have h: "heap_ok s" "GStack s \<noteq> []" using assms(2) by (auto simp: inside_def schema_ok_def)
  note a = addTerm_schema [OF assms(1) h(1) assms(3)]
  show "open_names s' = open_names s" "sch_Event s' = sch_Event s" by (rule a)+
  show "inside s'" using assms(2) a(1-5) by (auto simp: inside_def schema_ok_def stack_ok_def)
  show "topName s' = topName s" using a(2,3) h(2) hd_open_names by metis
qed

lemma handleATQName_step:
  assumes "handleATQName c s = Ret e s'" "inside s"
  shows "good_step s e s'"
proof -
  obtain s2 where s2: "(if c then retM () else Schema_addTerm ATQName (sch_Event s)) s = Ret () s2"
    and e: "e = EventUID_setTerm (if c then ATQName else AT) (sch_Event s2)" and s': "s' = s2\<lparr>sch_Event := e\<rparr>"
    using assms(1) unfolding handleATQName_def schema_ops by (auto simp only: shape_simps) (auto simp: shape_simps)
  have "inside s2 \<and> open_names s2 = open_names s"
    using s2 assms(2) inside_addTerm [of ATQName "sch_Event s" s "()" s2] by (auto split: if_splits)
  then show ?thesis using assms(2) by (intro good_content) (auto simp: e s')
qed

lemma handleCHValue_step:
  assumes "handleCHValue c s = Ret e s'" "inside s" "Name (sch_Event s) = topName s"
  shows "good_step s e s'"
proof -
  obtain s2 where s2: "(if c then retM () else Schema_addTerm CHExtern EventUID_NewNull) s = Ret () s2"
    and e: "e = EventUID_setTerm (if c then CHExtern else CH) (sch_Event s2)"
    and s': "s' = s2\<lparr>Current := ElementContent, GStack := (fst (hd (GStack s2)), False) # tl (GStack s2), sch_Event := e\<rparr>"
    using assms(1) unfolding handleCHValue_def schema_ops by (auto simp only: shape_simps) (auto simp: shape_simps)
  have i: "inside s2" "open_names s2 = open_names s" "sch_Event s2 = sch_Event s"
    using s2 assms(2) inside_addTerm [of CHExtern EventUID_NewNull s "()" s2] by (auto split: if_splits)
  have "GStack s2 \<noteq> []" using i(1) by (simp add: inside_def)
  then have "inside s'" "open_names s' = open_names s"
    using i by (cases "GStack s2"; auto simp: s' inside_def schema_ok_def stack_ok_def heap_ok_def open_names_def)+
  then show ?thesis using assms(2,3) i(3) by (intro good_content) (auto simp: e)
qed

text \<open>An end in a start tag learns the end event of the open element.\<close>

lemma handleEEStartTag_step:
  assumes "handleEEStartTag s = Ret e s'" "inside s" "EventUID_getTerm (sch_Event s) = EE"
    and "EventUID_hasQName (sch_Event s) \<Longrightarrow> Name (sch_Event s) = topName s"
  shows "good_step s e s'"
proof -
  obtain s2 where s2: "(if EventUID_hasQName (sch_Event s) then retM ()
        else thenM addQNameToEvent (modM (\<lambda>s. topGrammar (BuiltinGrammar_addTerm (sch_Event s) True) s))) s = Ret () s2"
    and e: "Schema_handleEE True s2 = Ret e s'"
    using assms(1) unfolding handleEEStartTag_def getEvent_def by (simp only: shape_simps) (metis old.unit.exhaust)
  have h: "heap_ok s" "GStack s \<noteq> []" using assms(2) by (auto simp: inside_def schema_ok_def)
  have "good_step s2 e s' \<and> phase_of s2 = phase_of s"
  proof (cases "EventUID_hasQName (sch_Event s)")
    case True
    then show ?thesis using s2 handleEE_step [OF e] assms(2-4) by auto
  next
    case False
    define f where "f = BuiltinGrammar_addTerm ((sch_Event s)\<lparr>Name := topName s\<rparr>) True"
    define s1 where "s1 = s\<lparr>sch_Event := (sch_Event s)\<lparr>Name := topName s\<rparr>\<rparr>"
    have eq: "s2 = topGrammar f s1"
      using s2 False by (auto simp: schema_ops shape_simps f_def s1_def)
    have ne: "GStack s1 \<noteq> []" and h1: "heap_ok s1" using h by (auto simp: s1_def)
    have n: "bg_Name (f g) = bg_Name g" for g by (simp add: f_def)
    have o: "own_ends (sch_Heap s1 ! fst (hd (GStack s1))) \<Longrightarrow> own_ends (f (sch_Heap s1 ! fst (hd (GStack s1))))"
      unfolding f_def by (rule own_ends_addTerm) (simp_all add: topName_def s1_def)
    have t: "heap_ok s2" "open_names s2 = open_names s"
      unfolding eq using heap_ok_topGrammar [OF h1 ne n o] by (simp_all add: s1_def)
    have f: "GStack s2 = GStack s" "Current s2 = Current s" "sch_Event s2 = (sch_Event s)\<lparr>Name := topName s\<rparr>"
        "Grammars s2 = Grammars s"
      by (simp_all add: eq s1_def)
    have i: "inside s2" using assms(2) t f by (auto simp: inside_def schema_ok_def stack_ok_def)
    have "topName s2 = topName s" using t(2) f(1) h(2) hd_open_names by metis
    then have "good_step s2 e s'"
      using e i assms(3) by (intro handleEE_step) (auto simp: f EventUID_getTerm_def)
    then show ?thesis using phase_of_inside [OF i] phase_of_inside [OF assms(2)] t(2) by simp
  qed
  then show ?thesis by (metis good_step_def)
qed

section \<open>The decoder around the schema\<close>

text \<open>The operation takes a good step from every state of the schema that satisfies \<open>P\<close>.\<close>

definition steps_from :: "(BuiltinSchema \<Rightarrow> bool) \<Rightarrow> EventUID dec \<Rightarrow> bool" where
  "steps_from P m \<longleftrightarrow> (\<forall>d s e d'. CurrentSchema d = Some s \<and> P s \<and> m d = Ret e d' \<longrightarrow>
     (\<exists>s'. CurrentSchema d' = Some s' \<and> good_step s e s'))"

lemma steps_fromI:
  "(\<And>d s e d'. CurrentSchema d = Some s \<Longrightarrow> P s \<Longrightarrow> m d = Ret e d' \<Longrightarrow>
     \<exists>s'. CurrentSchema d' = Some s' \<and> good_step s e s') \<Longrightarrow> steps_from P m"
  by (auto simp: steps_from_def)

lemma steps_fromD:
  "steps_from P m \<Longrightarrow> CurrentSchema d = Some s \<Longrightarrow> P s \<Longrightarrow> m d = Ret e d' \<Longrightarrow>
     \<exists>s'. CurrentSchema d' = Some s' \<and> good_step s e s'"
  by (auto simp: steps_from_def)

lemma steps_from_mono: "steps_from P m \<Longrightarrow> (\<And>s. Q s \<Longrightarrow> P s) \<Longrightarrow> steps_from Q m"
  by (auto simp: steps_from_def)

lemma steps_from_schemaM:
  assumes "\<And>s e s'. P s \<Longrightarrow> m s = Ret e s' \<Longrightarrow> good_step s e s'"
  shows "steps_from P (schemaM m)"
  using assms by (auto simp: steps_from_def shape_simps)

lemma steps_from_fault: "steps_from P (faultM f)"
  by (simp add: steps_from_def)

lemma steps_from_orNull:
  assumes "keeps_schema m" "\<And>e d d'. m d = Ret e d' \<Longrightarrow> Q e" "\<And>s. P s \<Longrightarrow> schema_ok s"
    and "\<And>e s r s'. P s \<Longrightarrow> Q e \<Longrightarrow> k e s = Ret r s' \<Longrightarrow> good_step s r s'"
  shows "steps_from P (orNull m (\<lambda>e. schemaM (k e)))"
proof (rule steps_fromI)
  fix d s e d' assume d: "CurrentSchema d = Some s" "P s" and r: "orNull m (\<lambda>e. schemaM (k e)) d = Ret e d'"
  from r show "\<exists>s'. CurrentSchema d' = Some s' \<and> good_step s e s'"
  proof (cases rule: orNull_Ret)
    case (1 e0 d0)
    have "CurrentSchema d0 = Some s" using keeps_schemaD(1) [OF assms(1) 1(1)] d(1) by simp
    then obtain s' where "k e0 s = Ret e s'" "CurrentSchema d' = Some s'"
      using 1(2) by (auto simp: shape_simps)
    then show ?thesis using assms(2) [OF 1(1)] assms(4) d(2) by blast
  next
    case (2 x)
    then have "CurrentSchema d' = Some s" using keeps_schemaD(2) [OF assms(1)] d(1) by simp
    then show ?thesis using 2(2) good_failed assms(3) d(2) by blast
  qed
qed

lemma inside_ok: "inside s \<Longrightarrow> schema_ok s"
  by (simp add: inside_def)

lemma steps_handleSE: "steps_from inside (Schema_handleSE c)"
  unfolding Schema_handleSE_def
proof (rule steps_from_orNull [OF keeps_decodeQName, where Q = "\<lambda>_. True"])
  fix e s r s' assume "inside s" "thenM (setEvent e) (handleSEQName c) s = Ret r s'"
  then have "handleSEQName c (s\<lparr>sch_Event := e\<rparr>) = Ret r s'" "inside (s\<lparr>sch_Event := e\<rparr>)"
    by (auto simp: setEvent_def shape_simps)
  then show "good_step s r s'" using handleSEQName_step good_step_event by blast
qed (simp_all add: inside_ok)

lemma steps_handleAT: "steps_from inside (Schema_handleAT c)"
  unfolding Schema_handleAT_def
proof (rule steps_from_orNull [OF keeps_decodeQName, where Q = "\<lambda>_. True"])
  fix e s r s' assume "inside s" "thenM (setEvent e) (handleATQName c) s = Ret r s'"
  then have "handleATQName c (s\<lparr>sch_Event := e\<rparr>) = Ret r s'" "inside (s\<lparr>sch_Event := e\<rparr>)"
    by (auto simp: setEvent_def shape_simps)
  then show "good_step s r s'" using handleATQName_step good_step_event by blast
qed (simp_all add: inside_ok)

lemma steps_handleCH: "steps_from inside (Schema_handleCH c)"
proof (rule steps_fromI)
  fix d s e d' assume d: "CurrentSchema d = Some s" "inside s" and r: "Schema_handleCH c d = Ret e d'"
  have r: "orNull (decodeValue (topName s))
      (\<lambda>e. schemaM (thenM (setEvent (e\<lparr>Name := topName s\<rparr>)) (handleCHValue c))) d = Ret e d'"
    using r d(1) by (auto simp: Schema_handleCH_def shape_simps schema_id)
  have "steps_from (\<lambda>t. t = s) (orNull (decodeValue (topName s))
      (\<lambda>e. schemaM (thenM (setEvent (e\<lparr>Name := topName s\<rparr>)) (handleCHValue c))))"
  proof (rule steps_from_orNull [OF keeps_decodeValue, where Q = "\<lambda>_. True"])
    fix e t u t' assume t: "t = s" "thenM (setEvent (e\<lparr>Name := topName s\<rparr>)) (handleCHValue c) t = Ret u t'"
    then have h: "handleCHValue c (s\<lparr>sch_Event := e\<lparr>Name := topName s\<rparr>\<rparr>) = Ret u t'"
      by (auto simp: setEvent_def shape_simps)
    have "good_step (s\<lparr>sch_Event := e\<lparr>Name := topName s\<rparr>\<rparr>) u t'"
      by (rule handleCHValue_step [OF h]) (simp_all add: d(2))
    then show "good_step t u t'" by (simp add: t(1) good_step_event)
  qed (simp_all add: d(2) inside_ok)
  then show "\<exists>s'. CurrentSchema d' = Some s' \<and> good_step s e s'"
    using steps_fromD d(1) r by blast
qed

text \<open>Dispatch on the event that was read.\<close>

lemma steps_from_getEvent:
  assumes "\<And>e. steps_from (\<lambda>s. P s \<and> sch_Event s = e) (k e)"
  shows "steps_from P (bindM (schemaM getEvent) k)"
proof (rule steps_fromI)
  fix d s e d' assume "CurrentSchema d = Some s" "P s" "bindM (schemaM getEvent) k d = Ret e d'"
  then have "CurrentSchema d = Some s" "P s \<and> sch_Event s = sch_Event s" "k (sch_Event s) d = Ret e d'"
    by (auto simp: getEvent_def shape_simps schema_id)
  then show "\<exists>s'. CurrentSchema d' = Some s' \<and> good_step s e s'"
    by (rule steps_fromD [OF assms])
qed

lemma NewTerm_content:
  assumes "inside s" "t \<in> {NS, CM, PI, ER}"
  shows "inside s' \<Longrightarrow> open_names s' = open_names s \<Longrightarrow> good_step s (EventUID_NewTerm t) s'"
  using assms by (intro good_content) auto

lemma steps_content:
  assumes "t \<in> {CM, PI, ER}"
  shows "steps_from inside (schemaM (thenM (pushGrammar ElementContent) (Schema_NewTerm t)))"
proof (rule steps_from_schemaM)
  fix s e s' assume "inside s" and "thenM (pushGrammar ElementContent) (Schema_NewTerm t) s = Ret e s'"
  then have "e = EventUID_NewTerm t" "inside s'" "open_names s' = open_names s"
    by (auto simp: schema_ops shape_simps inside_element)
  then show "good_step s e s'" using NewTerm_content \<open>inside s\<close> assms by auto
qed

lemma steps_handleChildContent: "steps_from inside (handleChildContent b)"
  unfolding handleChildContent_def
proof (rule steps_from_getEvent, rule steps_from_mono)
  fix e
  show "steps_from inside (case EventUID_getTerm e of SE \<Rightarrow> Schema_handleSE False | CH \<Rightarrow> Schema_handleCH False
      | ER \<Rightarrow> schemaM (thenM (pushGrammar ElementContent) (Schema_NewTerm ER))
      | CM \<Rightarrow> schemaM (thenM (pushGrammar ElementContent) (Schema_NewTerm CM))
      | PI \<Rightarrow> schemaM (thenM (pushGrammar ElementContent) (Schema_NewTerm PI)) | _ \<Rightarrow> faultM Unreachable)"
    by (cases "EventUID_getTerm e")
      (simp_all add: steps_handleSE steps_handleCH steps_content steps_from_fault)
qed simp

lemma steps_handleEE: "steps_from (\<lambda>s. inside s \<and> EventUID_getTerm (sch_Event s) = EE) (schemaM (Schema_handleEE False))"
  by (rule steps_from_schemaM) (auto intro: handleEE_step)

lemma steps_handleSEQName: "steps_from inside (schemaM (handleSEQName c))"
  by (rule steps_from_schemaM) (rule handleSEQName_step)

lemma steps_handleATQName: "steps_from inside (schemaM (handleATQName c))"
  by (rule steps_from_schemaM) (rule handleATQName_step)

lemma steps_handleSharedContent: "steps_from inside (handleSharedContent b)"
  unfolding handleSharedContent_def
proof (rule steps_from_getEvent)
  fix e
  let ?P = "\<lambda>s. inside s \<and> sch_Event s = e"
  have "steps_from ?P (schemaM (Schema_handleEE False))" if "EventUID_getTerm e = EE"
    using that by (intro steps_from_mono [OF steps_handleEE]) auto
  moreover have "steps_from ?P (schemaM (handleSEQName True))" "steps_from ?P (Schema_handleCH True)"
      "steps_from ?P (handleChildContent b)"
    by (rule steps_from_mono, rule steps_handleSEQName steps_handleCH steps_handleChildContent, simp)+
  ultimately show "steps_from ?P (case EventUID_getTerm e of EE \<Rightarrow> schemaM (Schema_handleEE False)
      | SEQName \<Rightarrow> schemaM (handleSEQName True) | CHExtern \<Rightarrow> Schema_handleCH True | _ \<Rightarrow> handleChildContent b)"
    by (cases "EventUID_getTerm e") simp_all
qed

text \<open>After the first read in an element; in a start tag, an end that has a name names the element.\<close>

lemma steps_from_decode:
  assumes "steps_from (\<lambda>s. inside s \<and> (Current s = StartTagContent \<longrightarrow> EventUID_getTerm (sch_Event s) = EE \<longrightarrow>
      EventUID_hasQName (sch_Event s) \<longrightarrow> Name (sch_Event s) = topName s) \<and> Q (Current s)) m"
  shows "steps_from (\<lambda>s. inside s \<and> Q (Current s)) (thenM decodeTermGrammar m)"
proof (rule steps_fromI)
  fix d s e d' assume d: "CurrentSchema d = Some s" "inside s \<and> Q (Current s)"
    and r: "thenM decodeTermGrammar m d = Ret e d'"
  obtain x d1 where x: "decodeTermGrammar d = Ret x d1" "m d1 = Ret e d'"
    using r by (auto simp: shape_simps)
  obtain g b gs where g: "GStack s = (g, b) # gs"
    using d(2) by (cases "GStack s") (auto simp: inside_def)
  have i: "inside s" "heap_ok s" using d(2) by (auto simp: inside_def schema_ok_def)
  note o = decodeTermGrammar_schema [OF x(1) d(1) g]
  have "Name x = topName s" if "Current s = StartTagContent" "EventUID_getTerm x = EE" "EventUID_hasQName x"
  proof -
    have "b" using i(1) that(1) g by (auto simp: inside_def schema_ok_def stack_ok_def)
    moreover have "\<not> EventUID_hasQName (EventUID_NewTerm t)" for t
      by (simp add: EventUID_hasQName_def SmallQName_isQName_def SmallQName_hasURI_def EventUID_NewTerm_def
          EventUID_NewNull_def SmallQName_NewAny_def)
    ultimately have "x \<in> set (StartTag (sch_Heap s ! g))" using o that(3) by (auto simp: getElts_def)
    then show ?thesis
      using heap_ok_top(2) [OF i(2) g] that(2) g by (simp add: own_ends_def topName_def)
  qed
  then have "\<exists>s'. CurrentSchema d' = Some s' \<and> good_step (s\<lparr>sch_Event := x\<rparr>) e s'"
    using d(2) by (intro steps_fromD [OF assms _ _ x(2)]) (use o in auto)
  then show "\<exists>s'. CurrentSchema d' = Some s' \<and> good_step s e s'" by (simp add: good_step_event)
qed

lemma steps_handleElement: "steps_from (\<lambda>s. inside s \<and> Current s = ElementContent) handleElement"
  unfolding handleElement_def
  by (rule steps_from_decode, rule steps_from_mono, rule steps_handleSharedContent) simp

lemma steps_handleStartTag: "steps_from (\<lambda>s. inside s \<and> Current s = StartTagContent) handleStartTag"
  unfolding handleStartTag_def
proof (rule steps_from_decode, rule steps_from_getEvent)
  fix e
  let ?C = "\<lambda>s. inside s \<and> (Current s = StartTagContent \<longrightarrow> EventUID_getTerm (sch_Event s) = EE \<longrightarrow>
      EventUID_hasQName (sch_Event s) \<longrightarrow> Name (sch_Event s) = topName s) \<and> Current s = StartTagContent"
  let ?P = "\<lambda>s. ?C s \<and> sch_Event s = e"
  have "steps_from ?P (schemaM handleEEStartTag)" if "EventUID_getTerm e = EE"
    using that by (intro steps_from_schemaM) (auto intro: handleEEStartTag_step)
  moreover have "steps_from ?P (handleChildContent True)" "steps_from ?P (Schema_handleAT False)"
      "steps_from ?P (schemaM (handleATQName True))" "steps_from ?P (handleSharedContent True)"
    by (rule steps_from_mono, rule steps_handleChildContent steps_handleAT steps_handleATQName
        steps_handleSharedContent, simp)+
  moreover have "steps_from ?P (schemaM (Schema_NewTerm NS))"
    by (rule steps_from_schemaM) (auto simp: schema_ops shape_simps intro!: NewTerm_content)
  moreover have "steps_from ?P (schemaM (thenM (pushGrammar Fragment) (Schema_NewTerm SC)))"
  proof (rule steps_from_schemaM)
    fix s r s' assume p: "?P s" and "thenM (pushGrammar Fragment) (Schema_NewTerm SC) s = Ret r s'"
    then have s': "r = EventUID_NewTerm SC" "s' = s\<lparr>Current := Fragment, sch_Event := r\<rparr>"
      by (auto simp: schema_ops shape_simps)
    have "schema_ok s'" "phase_of s' = Unsupported" "open_names s = topName s # tl (open_names s)"
      using p open_names_Cons by (auto simp: s' schema_ok_def stack_ok_def inside_def phase_of_def)
    then show "good_step s r s'"
      using p phase_of_inside [of s] doc_step.self_contained [of r "topName s" "tl (open_names s)"]
      by (simp add: good_step_def s'(1))
  qed
  ultimately show "steps_from ?P (case EventUID_getTerm e of SE \<Rightarrow> handleChildContent True
      | EE \<Rightarrow> schemaM handleEEStartTag | AT \<Rightarrow> Schema_handleAT False
      | ATQName \<Rightarrow> schemaM (handleATQName True) | NS \<Rightarrow> schemaM (Schema_NewTerm NS)
      | SC \<Rightarrow> schemaM (thenM (pushGrammar Fragment) (Schema_NewTerm SC)) | _ \<Rightarrow> handleSharedContent True)"
    by (cases "EventUID_getTerm e") simp_all
qed

section \<open>Outside the root\<close>

lemma steps_handleDocument: "steps_from (\<lambda>s. schema_ok s \<and> Current s = Document) handleDocument"
  unfolding handleDocument_def
proof (rule steps_from_schemaM)
  fix s e s' assume p: "schema_ok s \<and> Current s = Document" and "thenM (pushGrammar DocContent) (Schema_NewTerm SD) s = Ret e s'"
  then have s': "e = EventUID_NewTerm SD" "s' = s\<lparr>Current := DocContent, sch_Event := e\<rparr>"
    by (auto simp: schema_ops shape_simps)
  then show "good_step s e s'"
    using p by (auto simp: good_step_def schema_ok_def stack_ok_def phase_of_def intro: doc_step.start)
qed

lemma decodeTerm_bind:
  assumes "bindM (decodeTerm i j) k d = Ret e d'" "CurrentSchema d = Some s"
  obtains t d1 where "CurrentSchema d1 = Some (s\<lparr>sch_Event := EventUID_NewTerm t\<rparr>)" "k t d1 = Ret e d'"
proof -
  obtain t d1 where "decodeTerm i j d = Ret t d1" "k t d1 = Ret e d'"
    using assms(1) by (auto simp: shape_simps)
  then show thesis using decodeTerm_schema [OF _ assms(2)] that by blast
qed

lemma root_step:
  assumes "CurrentSchema d = Some s" "schema_ok s" "Current s = DocContent" "Schema_handleSE True d = Ret e d'"
  shows "\<exists>s'. CurrentSchema d' = Some s' \<and> good_step s e s'"
proof (rule steps_fromD [where P = "\<lambda>t. t = s" and m = "Schema_handleSE True" and d = d, OF _ assms(1) refl assms(4)])
  show "steps_from (\<lambda>t. t = s) (Schema_handleSE True)"
    unfolding Schema_handleSE_def
  proof (rule steps_from_orNull [OF keeps_decodeQName, where Q = "\<lambda>_. True"])
    fix x t u t' assume t: "t = s" "thenM (setEvent x) (handleSEQName True) t = Ret u t'"
    then have h: "handleSEQName True (s\<lparr>sch_Event := x\<rparr>) = Ret u t'"
      by (auto simp: setEvent_def shape_simps)
    have "heap_ok s" "open_names s = []"
      using assms(2,3) by (auto simp: schema_ok_def stack_ok_def)
    then have "schema_ok t'" "phase_of t' = Inside [Name u]" "EventUID_getTerm u \<in> {SE, SEQName}"
      using handleSEQName_schema [OF h] by auto
    then show "good_step t u t'"
      using t(1) assms(3) by (simp add: good_step_def phase_of_def doc_step.root)
  qed (simp_all add: assms(2))
qed

lemma NewTerm_dec:
  assumes "schemaM (Schema_NewTerm t) d = Ret e d'" "CurrentSchema d = Some s"
  shows "e = EventUID_NewTerm t \<and> CurrentSchema d' = Some (s\<lparr>sch_Event := e\<rparr>)"
  using assms by (auto simp: schema_ops shape_simps)

lemma steps_handleDocContent: "steps_from (\<lambda>s. schema_ok s \<and> Current s = DocContent) handleDocContent"
proof (rule steps_fromI)
  fix d s e d' assume d: "CurrentSchema d = Some s" "schema_ok s \<and> Current s = DocContent"
    and r: "handleDocContent d = Ret e d'"
  obtain t d1 where t: "CurrentSchema d1 = Some (s\<lparr>sch_Event := EventUID_NewTerm t\<rparr>)"
    "(if t = SE then thenM (schemaM (assertM (\<lambda>s. GStack s = [] \<and> Grammars s = []))) (Schema_handleSE True)
      else if t = DT \<or> t = CM \<or> t = PI then schemaM (Schema_NewTerm t)
      else faultM Unreachable) d1 = Ret e d'"
    using r d(1) unfolding handleDocContent_def by (rule decodeTerm_bind)
  show "\<exists>s'. CurrentSchema d' = Some s' \<and> good_step s e s'"
  proof (cases "t = SE")
    case True
    then have "Schema_handleSE True d1 = Ret e d'" using t by (auto simp: shape_simps schema_id)
    then have "\<exists>s'. CurrentSchema d' = Some s' \<and> good_step (s\<lparr>sch_Event := EventUID_NewTerm t\<rparr>) e s'"
      using d(2) by (intro root_step [OF t(1)]) auto
    then show ?thesis by (simp add: good_step_event)
  next
    case False
    then have n: "t \<in> {DT, CM, PI}" "schemaM (Schema_NewTerm t) d1 = Ret e d'"
      using t(2) by (auto split: if_splits)
    note m = NewTerm_dec [OF n(2) t(1)]
    have "doc_step Prolog e Prolog" using m n(1) by (intro doc_step.prolog) auto
    then show ?thesis using m d(2) by (auto simp: good_step_def phase_of_def)
  qed
qed

lemma steps_handleDocEnd: "steps_from (\<lambda>s. schema_ok s \<and> Current s = DocEnd) handleDocEnd"
proof (rule steps_fromI)
  fix d s e d' assume d: "CurrentSchema d = Some s" "schema_ok s \<and> Current s = DocEnd"
    and r: "handleDocEnd d = Ret e d'"
  obtain t d1 where t: "CurrentSchema d1 = Some (s\<lparr>sch_Event := EventUID_NewTerm t\<rparr>)"
    "(if t = ED then schemaM (thenM (assertM (\<lambda>s. GStack s = [])) (Schema_NewTerm ED))
      else if t = CM \<or> t = PI then schemaM (Schema_NewTerm t)
      else faultM Unreachable) d1 = Ret e d'"
    using r d(1) unfolding handleDocEnd_def by (rule decodeTerm_bind)
  have n: "t \<in> {ED, CM, PI}" "schemaM (Schema_NewTerm t) d1 = Ret e d'"
    using t(1,2) by (auto simp: shape_simps split: if_splits)
  note m = NewTerm_dec [OF n(2) t(1)]
  have "doc_step Epilog e Epilog" using m n(1) by (auto intro: doc_step.epilog doc_step.finish)
  then show "\<exists>s'. CurrentSchema d' = Some s' \<and> good_step s e s'"
    using m d(2) by (auto simp: good_step_def phase_of_def)
qed

section \<open>Every event is a step of the automaton\<close>

lemma getTermImpl_step:
  assumes "CurrentSchema d = Some s" "schema_ok s" "getTermImpl d = Ret e d'"
  shows "\<exists>s'. CurrentSchema d' = Some s' \<and> good_step s e s'"
proof -
  have dispatch: "(case Current s of StartTagContent \<Rightarrow> handleStartTag | ElementContent \<Rightarrow> handleElement
      | Fragment \<Rightarrow> faultM Unreachable | _ \<Rightarrow> getDocTerm) d = Ret e d'"
    using assms(1,3) by (auto simp: getTermImpl_def shape_simps schema_id)
  have doc: "(case Current s of Document \<Rightarrow> handleDocument | DocContent \<Rightarrow> handleDocContent
      | DocEnd \<Rightarrow> handleDocEnd | _ \<Rightarrow> faultM Unreachable) d = Ret e d'" if "getDocTerm d = Ret e d'"
    using that assms(1) by (auto simp: getDocTerm_def shape_simps schema_id)
  show ?thesis
  proof (cases "Current s")
    case Document
    then show ?thesis using steps_fromD [OF steps_handleDocument assms(1)] assms(2) dispatch doc by simp
  next
    case DocContent
    then show ?thesis using steps_fromD [OF steps_handleDocContent assms(1)] assms(2) dispatch doc by simp
  next
    case DocEnd
    then show ?thesis using steps_fromD [OF steps_handleDocEnd assms(1)] assms(2) dispatch doc by simp
  next
    case StartTagContent
    moreover have "inside s" using assms(2) StartTagContent by (simp add: inside_def schema_ok_def stack_ok_def)
    ultimately show ?thesis using steps_fromD [OF steps_handleStartTag assms(1)] dispatch by simp
  next
    case ElementContent
    moreover have "inside s" using assms(2) ElementContent by (simp add: inside_def schema_ok_def stack_ok_def)
    ultimately show ?thesis using steps_fromD [OF steps_handleElement assms(1)] dispatch by simp
  next
    case Fragment
    then show ?thesis using dispatch by simp
  qed
qed

text \<open>Property C28. The schema refines the automaton of well-nested documents: from a state that
  satisfies the invariant, every event \<open>getTermImpl\<close> returns is a step of the automaton from the
  phase the state stands for to the phase of the new state, and the invariant holds there again.
  Start events push the name they carry, end events carry the innermost open name and pop it, and
  nothing but comments and processing instructions surround the root.\<close>

theorem getTermImpl_refines:
  assumes "CurrentSchema d = Some s" "schema_ok s" "getTermImpl d = Ret e d'"
  shows "\<exists>s'. CurrentSchema d' = Some s' \<and> schema_ok s' \<and> doc_step (phase_of s) e (phase_of s')"
  using getTermImpl_step [OF assms] by (simp add: good_step_def)

text \<open>An open root element with the name \<open>q\<close>, about to read its content.\<close>

definition in_root :: "SmallQName \<Rightarrow> BuiltinSchema" where
  "in_root q = (DynBuiltinSchema_New False default_ExiOptions)\<lparr>Current := ElementContent, GStack := [(0, False)],
     Grammars := [(q, 0)], sch_Heap := [BuiltinGrammar_new q]\<rparr>"

theorem getTermImpl_refines_witness:
  "\<exists>e d' s'. getTermImpl ((small_decoder [0])\<lparr>CurrentSchema := Some (in_root \<lparr>LocalID = 0, URI = 0\<rparr>)\<rparr>) = Ret e d'
    \<and> EventUID_getTerm e = EE \<and> CurrentSchema d' = Some s' \<and> doc_step (Inside [\<lparr>LocalID = 0, URI = 0\<rparr>]) e (phase_of s')"
proof -
  let ?q = "\<lparr>LocalID = 0, URI = 0\<rparr> :: SmallQName"
  let ?d = "(small_decoder [0])\<lparr>CurrentSchema := Some (in_root ?q)\<rparr>"
  have "\<exists>e d'. getTermImpl ?d = Ret e d' \<and> EventUID_getTerm e = EE"
    by (simp add: eval_simps eval_small in_root_def del: eval_del)
  then obtain e d' where r: "getTermImpl ?d = Ret e d'" "EventUID_getTerm e = EE" by blast
  have q: "SmallQName_isQName ?q"
    by (simp add: SmallQName_isQName_def SmallQName_hasURI_def SmallQName_hasName_def invalid_defs)
  have ok: "schema_ok (in_root ?q)"
    using own_ends_new [OF q]
    by (simp add: schema_ok_def heap_ok_def stack_ok_def in_root_def BuiltinGrammar_new_def)
  have p: "phase_of (in_root ?q) = Inside [?q]"
    by (simp add: phase_of_def in_root_def open_names_def BuiltinGrammar_new_def)
  show ?thesis using getTermImpl_refines [OF _ ok r(1)] r p by auto
qed

section \<open>Whole documents\<close>

text \<open>The events a decoder returns one after the other. Between two events the caller may use the
  reader and the string table as it likes.\<close>

inductive schema_run :: "ExiDecoder \<Rightarrow> EventUID list \<Rightarrow> ExiDecoder \<Rightarrow> bool" for d where
  none: "schema_run d [] d"
| event: "schema_run d es d' \<Longrightarrow> getTermImpl d' = Ret e d'' \<Longrightarrow> schema_run d (es @ [e]) d''"
| other: "schema_run d es d' \<Longrightarrow> CurrentSchema d'' = CurrentSchema d' \<Longrightarrow> schema_run d es d''"

text \<open>The next \<open>n\<close> events.\<close>

primrec getTerms :: "nat \<Rightarrow> ExiDecoder \<Rightarrow> (EventUID list \<times> ExiDecoder) option" where
  "getTerms 0 d = Some ([], d)"
| "getTerms (Suc n) d = (case getTermImpl d of
     Ret e d' \<Rightarrow> map_option (\<lambda>(es, f). (e # es, f)) (getTerms n d') | _ \<Rightarrow> None)"

lemma getTerms_run: "getTerms n d = Some (es, d') \<Longrightarrow> schema_run d0 fs d \<Longrightarrow> schema_run d0 (fs @ es) d'"
proof (induction n arbitrary: d es fs)
  case (Suc n)
  then obtain e d1 es' where "getTermImpl d = Ret e d1" "getTerms n d1 = Some (es', d')" "es = e # es'"
    by (auto split: outcome.splits)
  then show ?case using Suc.IH [of d1 es' "fs @ [e]"] schema_run.event [OF Suc.prems(2)] by simp
qed simp

text \<open>The open elements after a list of events, innermost first; \<open>None\<close> when an end event does not
  carry the innermost name.\<close>

primrec nest :: "SmallQName list \<Rightarrow> EventUID list \<Rightarrow> SmallQName list option" where
  "nest qs [] = Some qs"
| "nest qs (e # es) =
    (if EventUID_getTerm e \<in> {SE, SEQName} then nest (Name e # qs) es
     else if EventUID_getTerm e = EE then (case qs of [] \<Rightarrow> None | q # qs' \<Rightarrow> if Name e = q then nest qs' es else None)
     else nest qs es)"

lemma nest_append: "nest qs (es @ fs) = Option.bind (nest qs es) (\<lambda>rs. nest rs fs)"
  by (induction es arbitrary: qs) (auto split: list.split)

text \<open>The open elements a phase allows.\<close>

definition phase_opens :: "phase \<Rightarrow> SmallQName list \<Rightarrow> bool" where
  "phase_opens p qs = (case p of Inside rs \<Rightarrow> qs = rs | Unsupported \<Rightarrow> True | _ \<Rightarrow> qs = [])"

lemma doc_step_nest:
  assumes "doc_step p e p'" "phase_opens p qs"
  shows "\<exists>rs. nest qs [e] = Some rs \<and> phase_opens p' rs"
  using assms by (induction rule: doc_step.induct) (auto simp: phase_opens_def)

lemma doc_step_ED:
  assumes "doc_step p e p'" "EventUID_getTerm e = ED"
  shows "p' = Epilog"
  using assms by (induction rule: doc_step.induct) auto

lemma schema_run_step:
  assumes "schema_run d es d'" "CurrentSchema d = Some s" "schema_ok s" "phase_of s = Unstarted"
  shows "\<exists>s' rs. CurrentSchema d' = Some s' \<and> schema_ok s' \<and> nest [] es = Some rs \<and> phase_opens (phase_of s') rs
    \<and> (es \<noteq> [] \<longrightarrow> EventUID_getTerm (last es) = ED \<longrightarrow> phase_of s' = Epilog)"
  using assms
proof (induction rule: schema_run.induct)
  case none
  then show ?case by (simp add: phase_opens_def)
next
  case (event es d1 e d2)
  then obtain s1 rs where s1: "CurrentSchema d1 = Some s1" "schema_ok s1" "nest [] es = Some rs"
    "phase_opens (phase_of s1) rs" by blast
  obtain s2 where s2: "CurrentSchema d2 = Some s2" "schema_ok s2" "doc_step (phase_of s1) e (phase_of s2)"
    using getTermImpl_step [OF s1(1,2) event.hyps(2)] by (auto simp: good_step_def)
  obtain rs' where "nest rs [e] = Some rs'" "phase_opens (phase_of s2) rs'"
    using doc_step_nest [OF s2(3) s1(4)] by blast
  then show ?case using s1(3) s2 doc_step_ED by (auto simp: nest_append)
next
  case (other es d1 d2)
  then show ?case by simp
qed

text \<open>Property C29. However the caller reads values in between, the events decoded with a new schema
  are well nested: every end event carries the name of the innermost open element, and when the end
  of the document is reported, every element has been closed.\<close>

theorem documents_nest:
  assumes "schema_run d es d'" "CurrentSchema d = Some (DynBuiltinSchema_New b opts)"
  shows "\<exists>qs. nest [] es = Some qs \<and> (es \<noteq> [] \<longrightarrow> EventUID_getTerm (last es) = ED \<longrightarrow> qs = [])"
  using schema_run_step [OF assms schema_ok_New phase_of_New] by (auto simp: phase_opens_def)

theorem documents_nest_witness:
  "\<exists>es d'. schema_run (small_decoder [1, 2, 97, 0]) es d' \<and> map EventUID_getTerm es = [SD, SE, EE, ED]
    \<and> nest [] es = Some []"
proof -
  let ?d = "small_decoder [1, 2, 97, 0]"
  have "map_option (map EventUID_getTerm \<circ> fst) (getTerms (Suc (Suc (Suc (Suc 0)))) ?d) = Some [SD, SE, EE, ED]"
    by (simp add: eval_simps eval_small del: eval_del)
  then obtain es d' where r: "getTerms (Suc (Suc (Suc (Suc 0)))) ?d = Some (es, d')"
      "map EventUID_getTerm es = [SD, SE, EE, ED]"
    by auto
  have run: "schema_run ?d es d'" using getTerms_run [OF r(1) schema_run.none] by simp
  have new: "CurrentSchema ?d = Some (DynBuiltinSchema_New False default_ExiOptions)" by (simp add: small_decoder_def)
  have "EventUID_getTerm (last es) = ED" "es \<noteq> []" using r(2) by (auto simp: last_map [symmetric])
  then show ?thesis using documents_nest [OF run new] run r(2) by auto
qed

section \<open>A comment in a start tag\<close>

text \<open>The tables of the schema are those of the builder.\<close>

definition built :: "BuiltinSchema \<Rightarrow> bool" where
  "built s \<longleftrightarrow> (\<exists>p sc. sch_Terms s = fst (Builder_init p sc) \<and> sch_Info s = snd (Builder_init p sc))"

lemma built_New: "built (DynBuiltinSchema_New b opts)"
  by (auto simp: built_def DynBuiltinSchema_New_def split: prod.split intro!: exI [of _ "Preserve opts"] exI [of _ "SelfContained opts"])

text \<open>The first production of the content of an element ends it.\<close>

lemma built_content:
  assumes "built s"
  shows "length (sch_Info s) = 4" "ec_Data (bi_Code (sch_Info s ! 3)) ! 0 = 2"
    "bi_Offset (sch_Info s ! 3) mod 2 ^ 32 < length (sch_Terms s) \<and> sch_Terms s ! (bi_Offset (sch_Info s ! 3) mod 2 ^ 32) = EE"
proof -
  obtain p sc where t: "sch_Terms s = fst (Builder_init p sc)" "sch_Info s = snd (Builder_init p sc)"
    using assms by (auto simp: built_def)
  have i: "grammar_index ElementContent = 3" by (simp add: grammar_index_def)
  show "length (sch_Info s) = 4" by (simp add: t(2) Builder_init_eq)
  have l: "doc_levels p sc ElementContent ! 0 = [EE]" "1 < length (doc_levels p sc ElementContent)"
    by (simp_all add: doc_levels_def Let_def)
  then have "ec_Data (code_of (doc_levels p sc ElementContent)) ! 0 = 2"
    by (auto simp: code_of_def Let_def level_size_def upt_rec)
  then show "ec_Data (bi_Code (sch_Info s ! 3)) ! 0 = 2"
    using Builder_init_table(1) [of ElementContent p sc] by (simp add: t(2) i has_table_def)
  have "concat (doc_levels p sc ElementContent) ! 0 = EE" "0 < length (concat (doc_levels p sc ElementContent))"
    using l by (cases "doc_levels p sc ElementContent"; simp)+
  moreover have "bi_Offset (snd (Builder_init p sc) ! 3) < 2 ^ 32"
    by (simp add: Builder_init_eq less_trans [OF mod_less_divisor])
  ultimately show "bi_Offset (sch_Info s ! 3) mod 2 ^ 32 < length (sch_Terms s)
      \<and> sch_Terms s ! (bi_Offset (sch_Info s ! 3) mod 2 ^ 32) = EE"
    using Builder_init_table(2) [of ElementContent 0 p sc] by (simp add: t i has_table_def)
qed

lemma decodeTerm_content:
  assumes "CurrentSchema d = Some s" "built s" "Current s = ElementContent" "Reader d = Some r" "isBitReader r = sch_Bit s"
  shows "decodeTerm 1 0 d = Ret EE (d\<lparr>CurrentSchema := Some (s\<lparr>sch_Event := EventUID_NewTerm EE\<rparr>)\<rparr>)"
  using assms built_content [OF assms(2)]
  by (simp add: decodeTerm_def castReader_def eval_combinators createDecodedTerm_def decodeTerm_at_def grammar_index_def
      del: eval_del)

lemma read_nothing: "OrdReader_readBits64 0 r = Ret 0 r"
  by (cases r) (simp_all add: OrdReader_readBits64_def OrdReader_call_def BitReader_readBits64_def
      ByteReader_readBits64_def eval_combinators del: eval_del)

lemma element_reads_nothing:
  assumes "CurrentSchema d = Some s" "built s" "Current s = ElementContent" "Reader d = Some r" "isBitReader r = sch_Bit s"
    and "GStack s = (g, True) # gs" "g < length (sch_Heap s)" "StartTag (sch_Heap s ! g) = []" "StartTagLog (sch_Heap s ! g) = 0"
  shows "decodeTermGrammar d = Ret (EventUID_NewTerm EE) (d\<lparr>CurrentSchema := Some (s\<lparr>sch_Event := EventUID_NewTerm EE\<rparr>)\<rparr>)"
proof -
  have "d\<lparr>Reader := Some r\<rparr> = d" "d\<lparr>CurrentSchema := Some s\<rparr> = d" using assms(1,4) by (cases d; simp)+
  then have "getGrammarTerm d = Ret (GFirst 0) d"
    using assms by (simp add: getGrammarTerm_def eval_combinators BuiltinGrammar_getTerm_def getLog_def getElts_def
        read_nothing del: eval_del)
  then show ?thesis
    using decodeTerm_content [OF assms(1-5)]
    by (simp add: decodeTermGrammar_def eval_combinators getEvent_def del: eval_del)
qed

lemma handleEE_returns:
  assumes "CurrentSchema d = Some s" "GStack s \<noteq> []" "sch_Event s = EventUID_NewTerm EE"
  shows "\<exists>e s'. handleSharedContent b d = Ret e (d\<lparr>CurrentSchema := Some s'\<rparr>) \<and> EventUID_getTerm e = EE"
proof -
  have t: "EventUID_getTerm ((EventUID_NewTerm EE)\<lparr>Name := q\<rparr>) = EE" for q
    by (simp add: EventUID_getTerm_def EventUID_NewTerm_def EventUID_GetTerm_def EventTerms_def)
  have d: "d\<lparr>CurrentSchema := Some s\<rparr> = d" using assms(1) by (rule schema_id)
  show ?thesis
    using assms t d
    by (cases "tl (GStack s) = []") (simp_all add: handleSharedContent_def Schema_handleEE_def addQNameToEvent_def
        pushGrammar_def setTopInt_def getEvent_def eval_combinators del: eval_del, (rule exI, rule refl)+)
qed

text \<open>Property C30. A comment in the start tag of an element leaves the mark on the stack that says the
  element is in its start tag, while the grammar moves on to the content
  (\<open>BuiltinSchema.cpp:401-405\<close>). If the start tag has learned nothing yet, the next event is then
  read from no bits at all and is always the end of the element, whatever the stream holds.\<close>

theorem comment_in_start_tag:
  assumes "CurrentSchema d = Some s" "built s" "Current s = StartTagContent" "EventUID_getTerm (sch_Event s) = CM"
    and "Reader d = Some r" "isBitReader r = sch_Bit s" "GStack s = (g, True) # gs" "g < length (sch_Heap s)"
    and "StartTag (sch_Heap s ! g) = []" "StartTagLog (sch_Heap s ! g) = 0"
  shows "\<exists>d1 e d2. handleChildContent True d = Ret (EventUID_NewTerm CM) d1 \<and> getTermImpl d1 = Ret e d2
    \<and> EventUID_getTerm e = EE \<and> Reader d2 = Reader d"
proof -
  define s1 where "s1 = s\<lparr>Current := ElementContent, sch_Event := EventUID_NewTerm CM\<rparr>"
  define d1 where "d1 = d\<lparr>CurrentSchema := Some s1\<rparr>"
  define s2 where "s2 = s1\<lparr>sch_Event := EventUID_NewTerm EE\<rparr>"
  have 1: "handleChildContent True d = Ret (EventUID_NewTerm CM) d1"
    using assms(1,4) by (simp add: handleChildContent_def eval_combinators pushGrammar_def Schema_NewTerm_def setEvent_def
        getEvent_def d1_def s1_def schema_id del: eval_del)
  have c: "CurrentSchema d1 = Some s1" by (simp add: d1_def)
  have b: "built s1" using assms(2) by (simp add: built_def s1_def)
  have t: "decodeTermGrammar d1 = Ret (EventUID_NewTerm EE) (d1\<lparr>CurrentSchema := Some s2\<rparr>)"
    unfolding s2_def
    by (rule element_reads_nothing [OF c b, of r g gs]) (use assms in \<open>simp_all add: s1_def d1_def\<close>)
  have "getTermImpl d1 = handleElement d1"
    by (simp add: getTermImpl_def eval_combinators c s1_def schema_id del: eval_del)
  also have "\<dots> = handleSharedContent False (d1\<lparr>CurrentSchema := Some s2\<rparr>)"
    by (simp add: handleElement_def eval_combinators t del: eval_del)
  finally have 2: "getTermImpl d1 = handleSharedContent False (d1\<lparr>CurrentSchema := Some s2\<rparr>)" .
  obtain e s' where "handleSharedContent False (d1\<lparr>CurrentSchema := Some s2\<rparr>)
      = Ret e (d1\<lparr>CurrentSchema := Some s2, CurrentSchema := Some s'\<rparr>)" "EventUID_getTerm e = EE"
    using handleEE_returns [of "d1\<lparr>CurrentSchema := Some s2\<rparr>" s2 False] assms(7) by (auto simp: s2_def s1_def)
  then show ?thesis using 1 2 by (auto simp: d1_def)
qed

theorem comment_in_start_tag_witness:
  "\<exists>d s d1 e d2. CurrentSchema d = Some s \<and> sch_Terms s = fst (Builder_init (Preserve default_ExiOptions\<lparr>Comments := True\<rparr>) False)
    \<and> handleChildContent True d = Ret (EventUID_NewTerm CM) d1 \<and> getTermImpl d1 = Ret e d2 \<and> EventUID_getTerm e = EE"
proof -
  let ?o = "default_ExiOptions\<lparr>Preserve := Preserve default_ExiOptions\<lparr>Comments := True\<rparr>\<rparr>"
  define s where "s = (DynBuiltinSchema_New False ?o)\<lparr>Current := StartTagContent, GStack := [(0, True)],
     sch_Heap := [BuiltinGrammar_new \<lparr>LocalID = 0, URI = 0\<rparr>], sch_Event := EventUID_NewTerm CM\<rparr>"
  define d where "d = (small_decoder [0xff])\<lparr>CurrentSchema := Some s\<rparr>"
  have b: "built s" using built_New [of False ?o] by (simp add: built_def s_def)
  have n: "sch_Bit (DynBuiltinSchema_New False ?o) = False"
    by (simp add: DynBuiltinSchema_New_def split: prod.split)
  have "\<exists>d1 e d2. handleChildContent True d = Ret (EventUID_NewTerm CM) d1 \<and> getTermImpl d1 = Ret e d2
    \<and> EventUID_getTerm e = EE \<and> Reader d2 = Reader d"
    by (rule comment_in_start_tag [of d s "OrdByte (ByteReader_new [0xff])" 0 "[]"])
      (use b n in \<open>simp_all add: d_def s_def small_decoder_def BuiltinGrammar_new_def\<close>)
  moreover have "sch_Terms s = fst (Builder_init (Preserve default_ExiOptions\<lparr>Comments := True\<rparr>) False)"
    by (simp add: s_def DynBuiltinSchema_New_def default_ExiOptions_def split: prod.split)
  moreover have "CurrentSchema d = Some s" by (simp add: d_def)
  ultimately show ?thesis by blast
qed

end
