(* ===== verification/BodyDecoder.thy ===== *)
theory BodyDecoder
  imports Nesting
begin

text \<open>
  The driver of the decoder (\<open>exi/Decode/BodyDecoder.hpp\<close>, \<open>lib/exi/Decode/BodyDecoder.cpp\<close>, the
  sections Initialization and Terms): set-up, the loop over events and the dispatch of every event
  to the serializer (\<open>exi/Decode/Serializer.hpp\<close>). The serializer is the interface of the source: a
  record of operations on a state of its own. Copying strings for a serializer that keeps them
  (\<open>needsPersistence\<close>) does not change their bytes.
\<close>

section \<open>The serializer\<close>

record 'c Serializer =
  ser_SD :: "'c \<Rightarrow> (unit, 'c) exi"
  ser_ED :: "'c \<Rightarrow> (unit, 'c) exi"
  ser_SE :: "QName \<Rightarrow> 'c \<Rightarrow> (unit, 'c) exi"
  ser_EE :: "QName \<Rightarrow> 'c \<Rightarrow> (unit, 'c) exi"
  ser_SC :: "'c \<Rightarrow> (unit, 'c) exi"
  ser_AT :: "QName \<Rightarrow> bytes \<Rightarrow> 'c \<Rightarrow> (unit, 'c) exi"
  ser_NS :: "bytes \<Rightarrow> bytes \<Rightarrow> bool \<Rightarrow> 'c \<Rightarrow> (unit, 'c) exi"
  ser_CH :: "bytes \<Rightarrow> 'c \<Rightarrow> (unit, 'c) exi"
  ser_CM :: "bytes \<Rightarrow> 'c \<Rightarrow> (unit, 'c) exi"
  ser_PI :: "bytes \<Rightarrow> bytes \<Rightarrow> 'c \<Rightarrow> (unit, 'c) exi"
  ser_DT :: "bytes \<Rightarrow> bytes \<Rightarrow> bytes \<Rightarrow> bytes \<Rightarrow> 'c \<Rightarrow> (unit, 'c) exi"
  ser_ER :: "bytes \<Rightarrow> 'c \<Rightarrow> (unit, 'c) exi"

text \<open>The base class: every callback succeeds, the end of the document is \<open>DONE\<close>.\<close>

definition Serializer_base :: "'c Serializer" where
  "Serializer_base = \<lparr>ser_SD = retM (), ser_ED = errM ExiError_DONE, ser_SE = (\<lambda>_. retM ()), ser_EE = (\<lambda>_. retM ()),
     ser_SC = retM (), ser_AT = (\<lambda>_ _. retM ()), ser_NS = (\<lambda>_ _ _. retM ()), ser_CH = (\<lambda>_. retM ()),
     ser_CM = (\<lambda>_. retM ()), ser_PI = (\<lambda>_ _. retM ()), ser_DT = (\<lambda>_ _ _ _. retM ()), ser_ER = (\<lambda>_. retM ())\<rparr>"

section \<open>Initialization\<close>

definition ExiDecoder_with :: "ExiOptions option \<Rightarrow> ExiDecoder" where
  "ExiDecoder_with opts = ExiDecoder_new\<lparr>Header := (Header ExiDecoder_new)\<lparr>Opts := opts\<rparr>\<rparr>"

definition readerExists :: "unit dec" where
  "readerExists d = (if Reader d \<noteq> None then Err (ExiError_New kInvalidConfig) d else Ret () d)"

definition setOptions :: "ExiOptions option \<Rightarrow> unit dec" where
  "setOptions opts d =
    (if DidHeader (Flags d)
     then thenM (invariantM (\<lambda>d. Opts (Header d) \<noteq> None)) readerExists d
     else (let d1 = d\<lparr>Header := (Header d)\<lparr>Opts := opts\<rparr>\<rparr> in
       Ret () (if Reader d1 \<noteq> None then d1\<lparr>Flags := (Flags d1)\<lparr>DidHeader := True\<rparr>\<rparr> else d1)))"

definition setReader :: "bytes \<Rightarrow> unit dec" where
  "setReader buf d = (case Opts (Header d) of
      None \<Rightarrow> Err (ExiError_New kInvalidConfig) d
    | Some opts \<Rightarrow> Ret () (d\<lparr>
        Reader := Some (if Alignment opts = BitPacked then OrdBit (BitReader_new buf) else OrdByte (ByteReader_new buf)),
        Flags := (Flags d)\<lparr>DidHeader := True, SetReader := True\<rparr>\<rparr>))"

text \<open>Allocation of the schema is assumed to succeed.\<close>

definition init :: "unit dec" where
  "init d =
    (if DidInit (Flags d) then thenM (assertM (\<lambda>d. Opts (Header d) \<noteq> None)) readerExists d
     else (case (Opts (Header d), Reader d) of
        (Some opts, Some r) \<Rightarrow>
          thenM (assertM (\<lambda>_. SchemaID opts \<noteq> None))
          (thenM (if SchemaID opts = Some None
                  then bindM (BuiltinSchema_New opts) (\<lambda>s. modM (\<lambda>d. d\<lparr>CurrentSchema := Some s\<rparr>))
                  else faultM Unreachable)
          (thenM (identsM (StringTable_setup opts))
            (modM (\<lambda>d. d\<lparr>dec_Preserve := Preserve opts, Flags := (Flags d)\<lparr>DidHeader := True, DidInit := True\<rparr>\<rparr>)))) d
      | _ \<Rightarrow> Err (ExiError_New kInvalidConfig) d))"

definition prepareForDecoding :: "unit dec" where
  "prepareForDecoding d =
    (if \<not> DidInit (Flags d) \<and> \<not> SetReader (Flags d) then Err (ExiError_New kInvalidConfig) d
     else thenM (if DidInit (Flags d) then retM () else thenM (assertM (\<lambda>d. Reader d \<noteq> None)) init)
       (invariantM (\<lambda>d. Opts (Header d) \<noteq> None \<and> CurrentSchema d \<noteq> None)) d)"

section \<open>The decoder and its serializer\<close>

type_synonym ('a, 'c) body = "ExiDecoder \<times> 'c \<Rightarrow> ('a, ExiDecoder \<times> 'c) exi"

definition decM :: "'a dec \<Rightarrow> ('a, 'c) body" where
  "decM = zoomM fst (\<lambda>d x. (d, snd x))"

definition serM :: "('c \<Rightarrow> ('a, 'c) exi) \<Rightarrow> ('a, 'c) body" where
  "serM = zoomM snd (\<lambda>c x. (fst x, c))"

lemma decM_run [simp, run_simps]:
  "m d = Ret a d' \<Longrightarrow> decM m (d, c) = Ret a (d', c)"
  "m d = Err e d' \<Longrightarrow> decM m (d, c) = Err e (d', c)"
  "m d = Fault f \<Longrightarrow> decM m (d, c) = Fault f"
  by (simp_all add: decM_def zoomM_def)

lemma serM_run [simp, run_simps]:
  "m c = Ret a c' \<Longrightarrow> serM m (d, c) = Ret a (d, c')"
  "m c = Err e c' \<Longrightarrow> serM m (d, c) = Err e (d, c')"
  "m c = Fault f \<Longrightarrow> serM m (d, c) = Fault f"
  by (simp_all add: serM_def zoomM_def)

section \<open>Events\<close>

definition dec_handleSE :: "'c Serializer \<Rightarrow> EventUID \<Rightarrow> (unit, 'c) body" where
  "dec_handleSE S e = bindM (decM (ExiDecoder_getQName e)) (\<lambda>q. serM (ser_SE S q))"

definition dec_handleEE :: "'c Serializer \<Rightarrow> EventUID \<Rightarrow> (unit, 'c) body" where
  "dec_handleEE S e =
    (if \<not> EventUID_hasQName e then retM ()
     else bindM (decM (ExiDecoder_getQName e)) (\<lambda>q. serM (ser_EE S q)))"

definition dec_handleAT :: "'c Serializer \<Rightarrow> EventUID \<Rightarrow> (unit, 'c) body" where
  "dec_handleAT S e =
    thenM (invariantM (\<lambda>_. EventUID_hasQName e))
    (bindM (decM (decodeValue (Name e))) (\<lambda>v.
     bindM (decM (ExiDecoder_getQName e)) (\<lambda>q.
     bindM (decM (identsM (getValue v))) (\<lambda>s. serM (ser_AT S q s)))))"

definition dec_handleNS :: "'c Serializer \<Rightarrow> (unit, 'c) body" where
  "dec_handleNS S =
    bindM (decM decodeNS) (\<lambda>e.
    bindM (decM (identsM (getURI (URI (Name e))))) (\<lambda>u.
    bindM (decM (identsM (getPrefix (URI (Name e)) (Prefix e)))) (\<lambda>p. serM (ser_NS S u p (IsLocal e)))))"

definition dec_handleCH :: "'c Serializer \<Rightarrow> EventUID \<Rightarrow> (unit, 'c) body" where
  "dec_handleCH S e = bindM (decM (identsM (getValue e))) (\<lambda>s. serM (ser_CH S s))"

definition READ_STRING :: "bytes dec" where
  "READ_STRING = readerM OrdReader_decodeString"

definition dec_handleCM :: "'c Serializer \<Rightarrow> (unit, 'c) body" where
  "dec_handleCM S = bindM (decM READ_STRING) (\<lambda>s. serM (ser_CM S s))"

definition dec_handlePI :: "'c Serializer \<Rightarrow> (unit, 'c) body" where
  "dec_handlePI S = bindM (decM READ_STRING) (\<lambda>target. bindM (decM READ_STRING) (\<lambda>txt. serM (ser_PI S target txt)))"

definition dec_handleDT :: "'c Serializer \<Rightarrow> (unit, 'c) body" where
  "dec_handleDT S =
    bindM (decM READ_STRING) (\<lambda>name. bindM (decM READ_STRING) (\<lambda>pub.
    bindM (decM READ_STRING) (\<lambda>sys. bindM (decM READ_STRING) (\<lambda>txt. serM (ser_DT S name pub sys txt)))))"

text \<open>An entity reference is handed to the callback for comments, as in the source.\<close>

definition dec_handleER :: "'c Serializer \<Rightarrow> (unit, 'c) body" where
  "dec_handleER S = bindM (decM READ_STRING) (\<lambda>s. serM (ser_CM S s))"

definition dispatchUncommonEvent :: "'c Serializer \<Rightarrow> EventUID \<Rightarrow> (unit, 'c) body" where
  "dispatchUncommonEvent S e = (case EventUID_getTerm e of
      SD \<Rightarrow> serM (ser_SD S)
    | ED \<Rightarrow> thenM (serM (ser_ED S)) (errM ExiError_DONE)
    | CM \<Rightarrow> dec_handleCM S
    | PI \<Rightarrow> dec_handlePI S
    | DT \<Rightarrow> dec_handleDT S
    | ER \<Rightarrow> dec_handleER S
    | SC \<Rightarrow> errM (ExiError_New kUnimplemented)
    | _ \<Rightarrow> errM (ExiError_New kInvalidEXIInput))"

definition decodeEvent :: "'c Serializer \<Rightarrow> (unit, 'c) body" where
  "decodeEvent S = bindM (decM getTermImpl) (\<lambda>e.
    if EventUID_getTerm e \<in> {SE, SEUri, SEQName} then dec_handleSE S e
    else if EventUID_getTerm e = EE then dec_handleEE S e
    else if EventUID_getTerm e \<in> {AT, ATUri, ATQName} then dec_handleAT S e
    else if EventUID_getTerm e = NS then dec_handleNS S
    else if EventUID_getTerm e \<in> {CH, CHExtern} then dec_handleCH S e
    else dispatchUncommonEvent S e)"

section \<open>The loop\<close>

text \<open>The loop runs while the reader has data, whatever is open; it may not end, then its value is
  \<open>None\<close>. \<open>DONE\<close> ends it without an error (errors are compared by
  their code).\<close>

partial_function (option) body_loop ::
  "(ExiDecoder \<times> 'c \<Rightarrow> (unit, ExiDecoder \<times> 'c) exi) \<Rightarrow> ExiDecoder \<times> 'c \<Rightarrow> (unit, ExiDecoder \<times> 'c) exi option" where
  "body_loop ev x = (case Reader (fst x) of
      None \<Rightarrow> Some (Fault Undefined)
    | Some r \<Rightarrow>
        if \<not> OrdReader_hasData r then Some (Ret () x)
        else (case ev x of
            Ret _ y \<Rightarrow> body_loop ev y
          | Err e y \<Rightarrow> Some (if EC e = EC ExiError_DONE then Ret () y else Err e y)
          | Fault f \<Rightarrow> Some (Fault f)))"

lemma body_loop_invariant:
  assumes "body_loop ev x = Some r" "I x"
    and step: "\<And>x u y. I x \<Longrightarrow> ev x = Ret u y \<Longrightarrow> I y"
    and stop: "\<And>x. I x \<Longrightarrow> Q (Ret () x)"
    and error: "\<And>x e y. I x \<Longrightarrow> ev x = Err e y \<Longrightarrow> Q (if EC e = EC ExiError_DONE then Ret () y else Err e y)"
    and fault: "\<And>f. Q (Fault f)"
  shows "Q r"
proof -
  have "(case (ev, x) of (ev', x) \<Rightarrow> \<lambda>r. ev' = ev \<longrightarrow> I x \<longrightarrow> Q r) r"
  proof (rule body_loop.raw_induct [where P = "\<lambda>ev' x r. ev' = ev \<longrightarrow> I x \<longrightarrow> Q r"])
    show "(case (ev, x) of (ev, x) \<Rightarrow> body_loop ev x) = Some r" using assms(1) by simp
  next
    fix loop and ev' :: "ExiDecoder \<times> 'a \<Rightarrow> (unit, ExiDecoder \<times> 'a) exi" and x r
    assume IH: "\<And>ev' x r. loop ev' x = Some r \<Longrightarrow> ev' = ev \<longrightarrow> I x \<longrightarrow> Q r"
      and st: "(case Reader (fst x) of None \<Rightarrow> Some (Fault Undefined)
        | Some q \<Rightarrow> if \<not> OrdReader_hasData q then Some (Ret () x)
            else (case ev' x of Ret _ y \<Rightarrow> loop ev' y
              | Err e y \<Rightarrow> Some (if EC e = EC ExiError_DONE then Ret () y else Err e y)
              | Fault f \<Rightarrow> Some (Fault f))) = Some r"
    show "ev' = ev \<longrightarrow> I x \<longrightarrow> Q r"
    proof (intro impI)
      assume e: "ev' = ev" and i: "I x"
      show "Q r"
      proof (cases "ev x")
        case (Ret u y)
        then show ?thesis
          using st e fault stop [OF i] IH [of ev y r] step [OF i Ret] by (auto split: option.splits if_splits)
      next
        case (Err x' y)
        then show ?thesis
          using st e fault stop [OF i] error [OF i Err] by (auto split: option.splits if_splits)
      next
        case (Fault f)
        then show ?thesis using st e fault [of f] fault [of Undefined] stop [OF i] by (simp split: option.splits if_splits)
      qed
    qed
  qed
  then show ?thesis using assms(2) by simp
qed

definition decodeBody :: "'c Serializer option \<Rightarrow> ExiDecoder \<times> 'c \<Rightarrow> (unit, ExiDecoder \<times> 'c) exi option" where
  "decodeBody S x = (case S of
      None \<Rightarrow> Some (Err (ExiError_New kInvalidEXIInput) x)
    | Some S \<Rightarrow> (case decM prepareForDecoding x of
          Ret _ y \<Rightarrow> body_loop (decodeEvent S) y
        | Err e y \<Rightarrow> Some (Err e y)
        | Fault f \<Rightarrow> Some (Fault f)))"

text \<open>Without a serializer the events are dropped.\<close>

definition decodeBody_default :: "ExiDecoder \<times> unit \<Rightarrow> (unit, ExiDecoder \<times> unit) exi option" where
  "decodeBody_default = decodeBody (Some Serializer_base)"

section \<open>What a serializer can rely on\<close>

lemma decM_Ret_iff [shape_simps]:
  "decM m (d, c) = Ret a y \<longleftrightarrow> (\<exists>d'. m d = Ret a d' \<and> y = (d', c))"
  by (cases "m d") (auto simp: decM_def zoomM_def)

lemma serM_Ret_iff [shape_simps]:
  "serM m (d, c) = Ret a y \<longleftrightarrow> (\<exists>c'. m c = Ret a c' \<and> y = (d, c'))"
  by (cases "m c") (auto simp: serM_def zoomM_def)

lemma keeps_getQName [keeps]: "keeps_schema (ExiDecoder_getQName e)"
  unfolding ExiDecoder_getQName_def EventUID_getURI_def EventUID_getPrefix_def by (intro keeps)

lemma keeps_decodePfx [keeps]: "keeps_schema (decodePfx u)"
  unfolding decodePfx_def by (intro keeps)

lemma keeps_decodeNS [keeps]: "keeps_schema decodeNS"
  unfolding decodeNS_def by (intro keeps)

lemma keeps_READ_STRING [keeps]: "keeps_schema READ_STRING"
  unfolding READ_STRING_def by (intro keeps)

text \<open>A decoder that was not initialized before starts with a new schema.\<close>

lemma prepare_new:
  assumes "prepareForDecoding d = Ret u d'" "\<not> DidInit (Flags d)"
  shows "\<exists>b opts. CurrentSchema d' = Some (DynBuiltinSchema_New b opts)"
proof -
  have "init d = Ret () d'"
    using assms by (auto simp: prepareForDecoding_def shape_simps split: if_splits)
  then obtain opts r where o: "Opts (Header d) = Some opts" "Reader d = Some r"
    and i: "thenM (assertM (\<lambda>_. SchemaID opts \<noteq> None))
          (thenM (if SchemaID opts = Some None
                  then bindM (BuiltinSchema_New opts) (\<lambda>s. modM (\<lambda>d. d\<lparr>CurrentSchema := Some s\<rparr>))
                  else faultM Unreachable)
          (thenM (identsM (StringTable_setup opts))
            (modM (\<lambda>d. d\<lparr>dec_Preserve := Preserve opts, Flags := (Flags d)\<lparr>DidHeader := True, DidInit := True\<rparr>\<rparr>)))) d
        = Ret () d'"
    using assms(2) unfolding init_def by (auto split: option.splits)
  obtain s d1 where s: "(BuiltinSchema_New opts :: ExiDecoder \<Rightarrow> (BuiltinSchema, ExiDecoder) exi) d = Ret s d1"
      "CurrentSchema d' = Some s"
    using i by (auto simp: shape_simps BuiltinSchema_New_def split: if_splits AlignKind.splits
        dest!: keeps_schemaD(1) [OF keeps_identsM])
  then show ?thesis by (auto simp: BuiltinSchema_New_def split: AlignKind.splits)
qed

text \<open>How many elements are open.\<close>

definition depth :: "BuiltinSchema \<Rightarrow> nat" where
  "depth s = length (GStack s)"

text \<open>The serializer's own change in an event that was handled.\<close>

definition event_call :: "'c Serializer \<Rightarrow> EventUID \<Rightarrow> 'c \<Rightarrow> 'c \<Rightarrow> bool" where
  "event_call S e c c' \<longleftrightarrow>
     (EventUID_getTerm e \<in> {SE, SEUri, SEQName} \<and> (\<exists>q. ser_SE S q c = Ret () c'))
   \<or> (EventUID_getTerm e = EE \<and> (EventUID_hasQName e \<longrightarrow> (\<exists>q. ser_EE S q c = Ret () c')) \<and> (\<not> EventUID_hasQName e \<longrightarrow> c' = c))
   \<or> (EventUID_getTerm e \<in> {AT, ATUri, ATQName} \<and> (\<exists>q v. ser_AT S q v c = Ret () c'))
   \<or> (EventUID_getTerm e = NS \<and> (\<exists>u p b. ser_NS S u p b c = Ret () c'))
   \<or> (EventUID_getTerm e \<in> {CH, CHExtern} \<and> (\<exists>v. ser_CH S v c = Ret () c'))
   \<or> (EventUID_getTerm e = SD \<and> ser_SD S c = Ret () c')
   \<or> (EventUID_getTerm e \<in> {CM, ER} \<and> (\<exists>v. ser_CM S v c = Ret () c'))
   \<or> (EventUID_getTerm e = PI \<and> (\<exists>v w. ser_PI S v w c = Ret () c'))
   \<or> (EventUID_getTerm e = DT \<and> (\<exists>n p s t. ser_DT S n p s t c = Ret () c'))"

lemmas handler_defs = dec_handleSE_def dec_handleEE_def dec_handleAT_def dec_handleNS_def dec_handleCH_def
  dec_handleCM_def dec_handlePI_def dec_handleDT_def dec_handleER_def

lemma handlers_call:
  assumes "(if EventUID_getTerm e \<in> {SE, SEUri, SEQName} then dec_handleSE S e
    else if EventUID_getTerm e = EE then dec_handleEE S e
    else if EventUID_getTerm e \<in> {AT, ATUri, ATQName} then dec_handleAT S e
    else if EventUID_getTerm e = NS then dec_handleNS S
    else if EventUID_getTerm e \<in> {CH, CHExtern} then dec_handleCH S e
    else dispatchUncommonEvent S e) (d, c) = Ret u (d', c')"
  shows "CurrentSchema d' = CurrentSchema d \<and> event_call S e c c'"
  using assms
  by (cases "EventUID_getTerm e"; auto simp: handler_defs dispatchUncommonEvent_def event_call_def shape_simps
      split: if_splits dest!: keeps_schemaD(1) [OF keeps_getQName] keeps_schemaD(1) [OF keeps_decodeValue]
        keeps_schemaD(1) [OF keeps_decodeNS] keeps_schemaD(1) [OF keeps_READ_STRING] keeps_schemaD(1) [OF keeps_identsM])

lemma event_callD:
  assumes "event_call S e c c'"
  shows "EventUID_getTerm e \<in> {SE, SEQName} \<Longrightarrow> \<exists>q. ser_SE S q c = Ret () c'"
    "EventUID_getTerm e = EE \<Longrightarrow> EventUID_hasQName e \<Longrightarrow> \<exists>q. ser_EE S q c = Ret () c'"
    "EventUID_getTerm e \<in> {AT, ATQName} \<Longrightarrow> \<exists>q v. ser_AT S q v c = Ret () c'"
    "EventUID_getTerm e = NS \<Longrightarrow> \<exists>u p b. ser_NS S u p b c = Ret () c'"
    "EventUID_getTerm e \<in> {CH, CHExtern} \<Longrightarrow> \<exists>v. ser_CH S v c = Ret () c'"
    "EventUID_getTerm e = SD \<Longrightarrow> ser_SD S c = Ret () c'"
    "EventUID_getTerm e \<in> {CM, ER} \<Longrightarrow> \<exists>v. ser_CM S v c = Ret () c'"
    "EventUID_getTerm e = PI \<Longrightarrow> \<exists>v w. ser_PI S v w c = Ret () c'"
    "EventUID_getTerm e = DT \<Longrightarrow> \<exists>n p s t. ser_DT S n p s t c = Ret () c'"
    "EventUID_getTerm e \<notin> {ED, SC, Void}"
  using assms by (auto simp: event_call_def)

lemma depth_phase:
  assumes "schema_ok s" "phase_of s \<noteq> Unsupported"
  shows "depth s = (case phase_of s of Inside qs \<Rightarrow> length qs | _ \<Rightarrow> 0)"
  using assms by (cases "Current s") (simp_all add: depth_def phase_of_def schema_ok_def stack_ok_def open_names_def)

lemma open_isQName:
  assumes "schema_ok s" "phase_of s = Inside (q # qs)"
  shows "SmallQName_isQName q"
proof -
  have "open_names s = q # qs" using assms(2) by (cases "Current s") (simp_all add: phase_of_def)
  then obtain x xs where x: "GStack s = x # xs" "bg_Name (sch_Heap s ! fst x) = q"
    by (cases "GStack s") (auto simp: open_names_def)
  moreover have "own_ends (sch_Heap s ! fst x)"
    using heap_ok_top(2) [of s "fst x" "snd x" xs] assms(1) x(1) by (simp add: schema_ok_def)
  ultimately show ?thesis by (simp add: own_ends_def)
qed

text \<open>A failed event leaves the serializer as it was, or in the state of the callback that failed, or
  at the end of the document.\<close>

definition failed_call :: "'c Serializer \<Rightarrow> 'c \<Rightarrow> 'c \<Rightarrow> bool" where
  "failed_call S c c' \<longleftrightarrow> (\<exists>e. ser_SD S c = Err e c' \<or> (\<exists>q. ser_SE S q c = Err e c') \<or> (\<exists>q. ser_EE S q c = Err e c')
     \<or> (\<exists>q v. ser_AT S q v c = Err e c') \<or> (\<exists>u p b. ser_NS S u p b c = Err e c') \<or> (\<exists>v. ser_CH S v c = Err e c')
     \<or> (\<exists>v. ser_CM S v c = Err e c') \<or> (\<exists>v w. ser_PI S v w c = Err e c') \<or> (\<exists>n p s t. ser_DT S n p s t c = Err e c'))"

lemma bindM_Err_iff: "bindM m k s = Err e t \<longleftrightarrow> m s = Err e t \<or> (\<exists>a u. m s = Ret a u \<and> k a u = Err e t)"
  by (auto simp: bindM_def split: outcome.splits)

lemma thenM_Err_iff: "thenM m k s = Err e t \<longleftrightarrow> m s = Err e t \<or> (\<exists>a u. m s = Ret a u \<and> k u = Err e t)"
  by (simp add: thenM_def bindM_Err_iff)

lemma checkM_Err: "checkM f P s \<noteq> Err e t" "invariantM P s \<noteq> Err e t"
  by (simp_all add: checkM_def invariantM_def)

lemma decM_Err_iff: "decM m (d, c) = Err e y \<longleftrightarrow> (\<exists>d'. m d = Err e d' \<and> y = (d', c))"
  by (cases "m d") (auto simp: decM_def zoomM_def)

lemma serM_Err_iff: "serM m (d, c) = Err e y \<longleftrightarrow> (\<exists>c'. m c = Err e c' \<and> y = (d, c'))"
  by (cases "m c") (auto simp: serM_def zoomM_def)

lemmas error_simps = bindM_Err_iff thenM_Err_iff checkM_Err decM_Err_iff serM_Err_iff

lemma handlers_error:
  assumes "(if EventUID_getTerm e \<in> {SE, SEUri, SEQName} then dec_handleSE S e
    else if EventUID_getTerm e = EE then dec_handleEE S e
    else if EventUID_getTerm e \<in> {AT, ATUri, ATQName} then dec_handleAT S e
    else if EventUID_getTerm e = NS then dec_handleNS S
    else if EventUID_getTerm e \<in> {CH, CHExtern} then dec_handleCH S e
    else dispatchUncommonEvent S e) (d, c) = Err x (d', c')"
  shows "c' = c \<or> failed_call S c c' \<or> EventUID_getTerm e = ED \<and> (ser_ED S c = Ret () c' \<or> ser_ED S c = Err x c')"
  using assms
  by (cases "EventUID_getTerm e"; simp add: handler_defs dispatchUncommonEvent_def error_simps split: if_splits;
      unfold failed_call_def; fastforce simp: shape_simps error_simps)

text \<open>
  The contract between the decoder and a serializer. \<open>opens n\<close> is the serializer's own invariant
  when \<open>n\<close> elements are open; \<open>settled\<close> is what holds of it when decoding stops.
\<close>

locale document_consumer =
  fixes S :: "'c Serializer" and opens :: "nat \<Rightarrow> 'c \<Rightarrow> bool" and settled :: "'c \<Rightarrow> bool"
  assumes begins: "opens 0 c \<Longrightarrow> ser_SD S c = Ret () c' \<Longrightarrow> opens 0 c'"
    and opened: "opens n c \<Longrightarrow> ser_SE S q c = Ret () c' \<Longrightarrow> opens (Suc n) c'"
    and closing: "opens (Suc n) c \<Longrightarrow> ser_EE S q c = Ret () c' \<Longrightarrow> opens n c'"
    and attribute: "opens (Suc n) c \<Longrightarrow> ser_AT S q v c = Ret () c' \<Longrightarrow> opens (Suc n) c'"
    and namespace: "opens (Suc n) c \<Longrightarrow> ser_NS S u p b c = Ret () c' \<Longrightarrow> opens (Suc n) c'"
    and characters: "opens (Suc n) c \<Longrightarrow> ser_CH S v c = Ret () c' \<Longrightarrow> opens (Suc n) c'"
    and comment: "opens n c \<Longrightarrow> ser_CM S v c = Ret () c' \<Longrightarrow> opens n c'"
    and instruction: "opens n c \<Longrightarrow> ser_PI S v w c = Ret () c' \<Longrightarrow> opens n c'"
    and doctype: "opens 0 c \<Longrightarrow> ser_DT S m p y x c = Ret () c' \<Longrightarrow> opens 0 c'"
    and ends: "opens 0 c \<Longrightarrow> ser_ED S c = Ret () c' \<or> ser_ED S c = Err e c' \<Longrightarrow> settled c'"
    and pauses: "opens n c \<Longrightarrow> settled c"
    and fails: "opens n c \<Longrightarrow> failed_call S c c' \<Longrightarrow> settled c'"
begin

lemma call_opens:
  assumes "event_call S e c c'" "schema_ok s" "schema_ok s'" "doc_step (phase_of s) e (phase_of s')" "opens (depth s) c"
  shows "opens (depth s') c'"
proof -
  note calls = event_callD [OF assms(1)] and ds = depth_phase [OF assms(2)] depth_phase [OF assms(3)]
  show ?thesis
    using assms(4)
  proof cases
    case start
    then show ?thesis using calls(6) begins assms(5) ds by simp
  next
    case prolog
    then have d: "depth s = 0" "depth s' = 0" using ds by simp_all
    consider "EventUID_getTerm e = DT" | "EventUID_getTerm e = CM" | "EventUID_getTerm e = PI"
      using prolog(3) by blast
    then show ?thesis
    proof cases
      case 1 then show ?thesis using assms(5) calls(9) doctype by (auto simp: d)
    next
      case 2 then show ?thesis using assms(5) calls(7) comment by (auto simp: d)
    next
      case 3 then show ?thesis using assms(5) calls(8) instruction by (auto simp: d)
    qed
  next
    case root
    then have d: "depth s = 0" "depth s' = Suc 0" using ds by simp_all
    then show ?thesis using assms(5) calls(1) [OF root(3)] opened by auto
  next
    case (child q qs)
    then have d: "depth s = Suc (length qs)" "depth s' = Suc (Suc (length qs))" using ds by simp_all
    then show ?thesis using assms(5) calls(1) [OF child(3)] opened by auto
  next
    case (close q q' qs)
    then have d: "depth s = Suc (Suc (length qs))" "depth s' = Suc (length qs)" using ds by simp_all
    have "EventUID_hasQName e" using open_isQName [OF assms(2) close(1)] close(4) by (simp add: EventUID_hasQName_def)
    then show ?thesis using assms(5) calls(2) [OF close(3)] closing by (auto simp: d)
  next
    case (close_root q)
    then have d: "depth s = Suc 0" "depth s' = 0" using ds by simp_all
    have "EventUID_hasQName e" using open_isQName [OF assms(2) close_root(1)] close_root(4) by (simp add: EventUID_hasQName_def)
    then show ?thesis using assms(5) calls(2) [OF close_root(3)] closing by (auto simp: d)
  next
    case (content q qs)
    then have d: "depth s = Suc (length qs)" "depth s' = Suc (length qs)" using ds by simp_all
    consider "EventUID_getTerm e \<in> {AT, ATQName}" | "EventUID_getTerm e = NS" | "EventUID_getTerm e \<in> {CM, ER}"
      | "EventUID_getTerm e = PI" using content(3) by blast
    then show ?thesis
    proof cases
      case 1 then show ?thesis using assms(5) calls(3) attribute by (auto simp: d)
    next
      case 2 then show ?thesis using assms(5) calls(4) namespace by (auto simp: d)
    next
      case 3 then show ?thesis using assms(5) calls(7) comment by (auto simp: d)
    next
      case 4 then show ?thesis using assms(5) calls(8) instruction by (auto simp: d)
    qed
  next
    case (chars q qs)
    then have d: "depth s = Suc (length qs)" "depth s' = Suc (length qs)" using ds by simp_all
    then show ?thesis using assms(5) calls(5) [OF chars(3)] characters by auto
  next
    case epilog
    then have d: "depth s = 0" "depth s' = 0" using ds by simp_all
    consider "EventUID_getTerm e = CM" | "EventUID_getTerm e = PI" using epilog(3) by blast
    then show ?thesis
    proof cases
      case 1 then show ?thesis using assms(5) calls(7) comment by (auto simp: d)
    next
      case 2 then show ?thesis using assms(5) calls(8) instruction by (auto simp: d)
    qed
  qed (use calls(10) in simp_all)
qed

lemma decodeEvent_opens:
  assumes "decodeEvent S (d, c) = Ret u (d', c')" "CurrentSchema d = Some s" "schema_ok s" "opens (depth s) c"
  shows "\<exists>s'. CurrentSchema d' = Some s' \<and> schema_ok s' \<and> opens (depth s') c'"
proof -
  obtain e d1 where e: "getTermImpl d = Ret e d1" "(if EventUID_getTerm e \<in> {SE, SEUri, SEQName} then dec_handleSE S e
    else if EventUID_getTerm e = EE then dec_handleEE S e
    else if EventUID_getTerm e \<in> {AT, ATUri, ATQName} then dec_handleAT S e
    else if EventUID_getTerm e = NS then dec_handleNS S
    else if EventUID_getTerm e \<in> {CH, CHExtern} then dec_handleCH S e
    else dispatchUncommonEvent S e) (d1, c) = Ret u (d', c')"
    using assms(1) unfolding decodeEvent_def bindM_Ret_iff decM_Ret_iff by blast
  obtain s' where s': "CurrentSchema d1 = Some s'" "schema_ok s'" "doc_step (phase_of s) e (phase_of s')"
    using getTermImpl_step [OF assms(2,3) e(1)] by (auto simp: good_step_def)
  have "CurrentSchema d' = CurrentSchema d1 \<and> event_call S e c c'" by (rule handlers_call [OF e(2)])
  then show ?thesis using s' call_opens [OF _ assms(3) s'(2,3) assms(4)] by auto
qed

lemma decodeEvent_settled:
  assumes "decodeEvent S (d, c) = Err x (d', c')" "CurrentSchema d = Some s" "schema_ok s" "opens (depth s) c"
  shows "settled c'"
proof (cases "getTermImpl d")
  case (Ret e d1)
  then have h: "(if EventUID_getTerm e \<in> {SE, SEUri, SEQName} then dec_handleSE S e
    else if EventUID_getTerm e = EE then dec_handleEE S e
    else if EventUID_getTerm e \<in> {AT, ATUri, ATQName} then dec_handleAT S e
    else if EventUID_getTerm e = NS then dec_handleNS S
    else if EventUID_getTerm e \<in> {CH, CHExtern} then dec_handleCH S e
    else dispatchUncommonEvent S e) (d1, c) = Err x (d', c')"
    using assms(1) unfolding decodeEvent_def by simp
  have "depth s = 0" if "EventUID_getTerm e = ED"
  proof -
    obtain s' where "doc_step (phase_of s) e (phase_of s')"
      using getTermImpl_step [OF assms(2,3) Ret] by (auto simp: good_step_def)
    then have "phase_of s = Epilog" using that by cases auto
    then show ?thesis using depth_phase [OF assms(3)] by simp
  qed
  then show ?thesis using handlers_error [OF h] assms(4) ends pauses fails by metis
next
  case (Err e d1)
  then have "c' = c" using assms(1) unfolding decodeEvent_def by simp
  then show ?thesis using pauses assms(4) by simp
qed (use assms(1) in \<open>simp add: decodeEvent_def\<close>)

lemma body_loop_settled:
  assumes "body_loop (decodeEvent S) (d, c) = Some r" "outcome_state r = Some (d', c')"
    and "CurrentSchema d = Some s" "schema_ok s" "opens (depth s) c"
  shows "settled c'"
proof -
  let ?I = "\<lambda>x. \<exists>s. CurrentSchema (fst x) = Some s \<and> schema_ok s \<and> opens (depth s) (snd x)"
  have "\<forall>y. outcome_state r = Some y \<longrightarrow> settled (snd y)"
  proof (rule body_loop_invariant [OF assms(1), where I = ?I])
    show "?I (d, c)" using assms(3-5) by simp
    show "?I y" if "?I x" "decodeEvent S x = Ret u y" for x u y
      using that decodeEvent_opens [of "fst x" "snd x" u "fst y" "snd y"] by auto
    show "\<forall>y. outcome_state (Ret () x) = Some y \<longrightarrow> settled (snd y)" if "?I x" for x
      using that pauses by auto
    show "\<forall>z. outcome_state (if EC e = EC ExiError_DONE then Ret () y else Err e y) = Some z \<longrightarrow> settled (snd z)"
      if "?I x" "decodeEvent S x = Err e y" for x e y
      using that decodeEvent_settled [of "fst x" "snd x" e "fst y" "snd y"] by auto
  qed simp
  then show ?thesis using assms(2) by auto
qed

lemma decodeBody_settled:
  assumes "decodeBody (Some S) (d, c) = Some r" "outcome_state r = Some (d', c')" "\<not> DidInit (Flags d)" "opens 0 c"
  shows "settled c'"
proof (cases "prepareForDecoding d")
  case (Ret u d1)
  then obtain b opts where n: "CurrentSchema d1 = Some (DynBuiltinSchema_New b opts)"
    using prepare_new [OF Ret assms(3)] by blast
  have "depth (DynBuiltinSchema_New b opts) = 0"
    by (simp add: depth_def DynBuiltinSchema_New_def split: prod.split)
  then show ?thesis
    using assms(1) body_loop_settled [OF _ assms(2) n schema_ok_New] assms(4) Ret by (simp add: decodeBody_def)
qed (use assms pauses in \<open>auto simp: decodeBody_def\<close>)

end

section \<open>The calls a document makes\<close>

datatype call =
    cSD | cED | cSE QName | cEE QName | cSC | cAT QName bytes | cNS bytes bytes bool | cCH bytes
  | cCM bytes | cPI bytes bytes | cDT bytes bytes bytes bytes | cER bytes

text \<open>A serializer that records its calls.\<close>

definition recorder :: "call list Serializer" where
  "recorder = \<lparr>ser_SD = (\<lambda>cs. Ret () (cs @ [cSD])), ser_ED = (\<lambda>cs. Err ExiError_DONE (cs @ [cED])),
     ser_SE = (\<lambda>q cs. Ret () (cs @ [cSE q])), ser_EE = (\<lambda>q cs. Ret () (cs @ [cEE q])),
     ser_SC = (\<lambda>cs. Ret () (cs @ [cSC])), ser_AT = (\<lambda>q v cs. Ret () (cs @ [cAT q v])),
     ser_NS = (\<lambda>u p b cs. Ret () (cs @ [cNS u p b])), ser_CH = (\<lambda>v cs. Ret () (cs @ [cCH v])),
     ser_CM = (\<lambda>v cs. Ret () (cs @ [cCM v])), ser_PI = (\<lambda>v w cs. Ret () (cs @ [cPI v w])),
     ser_DT = (\<lambda>n p s t cs. Ret () (cs @ [cDT n p s t])), ser_ER = (\<lambda>v cs. Ret () (cs @ [cER v]))\<rparr>"

text \<open>The open elements after some calls; \<open>None\<close> for calls no document makes: an end without a start,
  content or attributes outside the root, a document type inside it, an early end of the document.\<close>

primrec open_count :: "nat \<Rightarrow> call list \<Rightarrow> nat option" where
  "open_count n [] = Some n"
| "open_count n (c # cs) = (case c of
      cSE q \<Rightarrow> open_count (Suc n) cs
    | cEE q \<Rightarrow> if n = 0 then None else open_count (n - 1) cs
    | cED \<Rightarrow> if n = 0 \<and> cs = [] then Some 0 else None
    | cAT q v \<Rightarrow> if n = 0 then None else open_count n cs
    | cNS u p b \<Rightarrow> if n = 0 then None else open_count n cs
    | cCH v \<Rightarrow> if n = 0 then None else open_count n cs
    | cDT m p s t \<Rightarrow> if n = 0 then open_count n cs else None
    | _ \<Rightarrow> open_count n cs)"

lemma open_count_append:
  "cED \<notin> set cs \<Longrightarrow> open_count m (cs @ ds) = Option.bind (open_count m cs) (\<lambda>n. open_count n ds)"
  by (induction cs arbitrary: m) (auto split: call.split)

interpretation rec: document_consumer recorder
  "\<lambda>n cs. open_count 0 cs = Some n \<and> cED \<notin> set cs" "\<lambda>cs. open_count 0 cs \<noteq> None"
  by unfold_locales (auto simp: recorder_def open_count_append failed_call_def)


lemma body_options_fields [simp]:
  "Alignment body_options = BytePacked" "SchemaID body_options = Some None" "DatatypeRepresentationMap body_options = None"
  "Preserve body_options = Preserve default_ExiOptions" "\<not> SelfContained body_options"
  by (simp_all add: body_options_def default_ExiOptions_def)

lemmas eval_body_ops = decodeEvent_def dispatchUncommonEvent_def dec_handleSE_def dec_handleEE_def
  dec_handleCH_def dec_handleAT_def dec_handleCM_def dec_handlePI_def dec_handleER_def READ_STRING_def decM_def serM_def
  ExiDecoder_getQName_def BuiltinSchema_New_def getValue_def

lemmas eval_body = eval_body_ops [THEN fun_cong] prepareForDecoding_def init_def StringTable_setup_def decodeBody_def
  body_loop.simps recorder_def EventUID_hasPrefix_def EventUID_hasValue_def EventUID_isGlobal_def OrdReader_hasData_def
  hasData_def body_decoder_def


section \<open>Short bodies\<close>

lemma fill_short:
  assumes "fillStoreImpl r = Ret n r'" "length (Stream r) \<le> 8" "ByteOffset r = 0"
  shows "\<not> hasData r'"
  using assms by (auto simp: fillStoreImpl_def hasData_def Let_def split: if_splits)

lemma hasData_more [simp]:
  "hasData (r\<lparr>Store := st\<rparr>) = hasData r" "hasData (b\<lparr>BitsInStore := n\<rparr>) = hasData b" "hasData (y\<lparr>BytesInStore := n\<rparr>) = hasData y"
  by (simp_all add: hasData_def)

lemma definedM_Ret_iff: "definedM x k s = Ret a t \<longleftrightarrow> (\<exists>v. x = Some v \<and> k v s = Ret a t)"
  by (cases x) (simp_all add: definedM_def)

lemma BitReader_short:
  assumes "BitReader_readBits64 n (BitReader_new bs) = Ret w r" "0 < n" "length bs \<le> 8"
  shows "\<not> hasData r"
proof -
  have "BitReader_readPartialBits64 n (BitReader_new bs) = Ret w r"
    using assms(1,2) by (auto simp: BitReader_readBits64_def BitReader_new_def shape_simps)
  then obtain m r1 where "fillStoreImpl (BitReader_new bs) = Ret m r1" "hasData r = hasData r1"
    by (auto simp: BitReader_readPartialBits64_def BitReader_fillStore_def BitReader_readFullBits64V_def Let_def shape_simps
        definedM_Ret_iff split: if_splits)
  then show ?thesis using fill_short assms(3) by (fastforce simp: BitReader_new_def)
qed

lemma ByteReader_short:
  assumes "ByteReader_readBits64 n (ByteReader_new bs) = Ret w r" "0 < n" "length bs \<le> 8"
  shows "\<not> hasData r"
proof -
  have "ByteReader_readPartialBytes64 (MakeByteCount n) (ByteReader_new bs) = Ret w r"
    using assms(1,2) by (auto simp: ByteReader_readBits64_def ByteReader_new_def MakeByteCount_def shape_simps Let_def)
  then obtain m r1 where "fillStoreImpl (ByteReader_new bs) = Ret m r1" "hasData r = hasData r1"
    by (auto simp: ByteReader_readPartialBytes64_def ByteReader_fillStore_def ByteReader_readFullBytes64V_def Let_def shape_simps
        definedM_Ret_iff split: if_splits)
  then show ?thesis using fill_short assms(3) by (fastforce simp: ByteReader_new_def)
qed



section \<open>Setting up\<close>

lemma StringTable_setup_ok:
  assumes "SchemaID opts \<noteq> None" "DatatypeRepresentationMap opts = None"
  shows "\<exists>t. StringTable_setup opts StringTable_new = Ret () t \<and> st_ok t"
proof (cases "Bounded_bounded u64_t (ValuePartitionCapacity opts)")
  case True
  then have "StringTable_setup opts StringTable_new = Ret () ((setup_tables (SchemaID opts \<noteq> Some None))\<lparr>WrappingValues := True\<rparr>)"
    using assms createInitialEntries_eq [of "SchemaID opts \<noteq> Some None"]
    by (simp add: StringTable_setup_def StringTable_new_def)
  then show ?thesis by (simp add: setup_tables_ok)
next
  case False
  then have "StringTable_setup opts StringTable_new = Ret () (setup_tables (SchemaID opts \<noteq> Some None))"
    using assms createInitialEntries_eq [of "SchemaID opts \<noteq> Some None"]
    by (simp add: StringTable_setup_def StringTable_new_def)
  then show ?thesis by (simp add: setup_tables_ok)
qed

text \<open>Options and then a buffer prepare a new decoder: the reader and the schema are those
  of the alignment, the string table is set up, and preparing again changes nothing. Options without
  a resolved schema or a schema ID are not accepted by \<open>init\<close>, so the hypotheses are needed. Setting
  options once more is refused although, and only because, the reader exists: \<open>readerExists\<close> reports
  an error when there is a reader, against its description.\<close>

theorem decoder_setup:
  assumes "SchemaID opts = Some None" "DatatypeRepresentationMap opts = None" "Alignment opts \<in> {BitPacked, BytePacked}"
  shows "\<exists>d. thenM (setOptions (Some opts)) (thenM (setReader buf) prepareForDecoding) ExiDecoder_new = Ret () d
    \<and> CurrentSchema d = Some (DynBuiltinSchema_New (Alignment opts = BitPacked) opts)
    \<and> Reader d = Some (if Alignment opts = BitPacked then OrdBit (BitReader_new buf) else OrdByte (ByteReader_new buf))
    \<and> dec_Preserve d = Preserve opts \<and> st_ok (Idents d) \<and> prepareForDecoding d = Ret () d
    \<and> setOptions opts' d = Err (ExiError_New kInvalidConfig) d
    \<and> setOptions opts' (d\<lparr>Reader := None\<rparr>) = Ret () (d\<lparr>Reader := None\<rparr>)"
proof -
  obtain t where t: "StringTable_setup opts StringTable_new = Ret () t" "st_ok t"
    using StringTable_setup_ok [of opts] assms(1,2) by auto
  have s: "(BuiltinSchema_New opts :: ExiDecoder \<Rightarrow> (BuiltinSchema, ExiDecoder) exi)
      = retM (DynBuiltinSchema_New (Alignment opts = BitPacked) opts)"
    using assms(3) by (auto simp: BuiltinSchema_New_def)
  show ?thesis
    using assms t s
    by (simp add: setOptions_def setReader_def prepareForDecoding_def init_def readerExists_def ExiDecoder_new_def
        default_ExiHeader_def eval_combinators del: eval_del)
qed

theorem decoder_setup_witness:
  "\<exists>d. thenM (setOptions (Some body_options)) (thenM (setReader [1, 2, 97, 0]) prepareForDecoding) ExiDecoder_new = Ret () d
    \<and> CurrentSchema d = Some (DynBuiltinSchema_New False body_options)"
  using decoder_setup [of body_options "[1, 2, 97, 0]" None] by auto

text \<open>The callbacks for entity references and self-contained elements are never called:
  two serializers that differ in nothing else behave the same on every stream. References arrive as
  comments (\<open>BodyDecoder.cpp:385\<close>), and a self-contained element is an error.\<close>

theorem unused_callbacks:
  "decodeBody (Some (S\<lparr>ser_ER := f, ser_SC := g\<rparr>)) = decodeBody (Some S)"
proof -
  let ?S = "S\<lparr>ser_ER := f, ser_SC := g\<rparr>"
  have h: "dec_handleSE ?S = dec_handleSE S" "dec_handleEE ?S = dec_handleEE S" "dec_handleAT ?S = dec_handleAT S"
    "dec_handleNS ?S = dec_handleNS S" "dec_handleCH ?S = dec_handleCH S" "dec_handleCM ?S = dec_handleCM S"
    "dec_handlePI ?S = dec_handlePI S" "dec_handleDT ?S = dec_handleDT S" "dec_handleER ?S = dec_handleER S"
    "ser_SD ?S = ser_SD S" "ser_ED ?S = ser_ED S"
    by (simp_all add: fun_eq_iff handler_defs)
  have "decodeEvent ?S = decodeEvent S"
    unfolding decodeEvent_def dispatchUncommonEvent_def h ..
  then show ?thesis by (intro ext) (simp only: decodeBody_def option.case)
qed

end
