(* ===== verification/EventCalls.thy ===== *)
theory EventCalls
  imports BodyDecoder
begin

text \<open>
  The decoder seen from its serializer: the callbacks an event leads to do not depend on the
  serializer, so a run with the recording serializer says what every other serializer is given.
\<close>

section \<open>Calls\<close>

primrec call_of :: "'c Serializer \<Rightarrow> call \<Rightarrow> 'c \<Rightarrow> (unit, 'c) exi" where
  "call_of S cSD = ser_SD S" | "call_of S cED = ser_ED S" | "call_of S (cSE q) = ser_SE S q"
| "call_of S (cEE q) = ser_EE S q" | "call_of S cSC = ser_SC S" | "call_of S (cAT q v) = ser_AT S q v"
| "call_of S (cNS u p b) = ser_NS S u p b" | "call_of S (cCH v) = ser_CH S v" | "call_of S (cCM v) = ser_CM S v"
| "call_of S (cPI t v) = ser_PI S t v" | "call_of S (cDT n p s t) = ser_DT S n p s t" | "call_of S (cER v) = ser_ER S v"

primrec run_calls :: "'c Serializer \<Rightarrow> call list \<Rightarrow> 'c \<Rightarrow> (unit, 'c) exi" where
  "run_calls S [] = retM ()"
| "run_calls S (c # cs) = thenM (call_of S c) (run_calls S cs)"

lemma run_calls_append: "run_calls S (cs @ ds) = thenM (run_calls S cs) (run_calls S ds)"
proof (induction cs)
  case (Cons c cs)
  show ?case by (rule ext) (simp add: Cons thenM_def bindM_def split: outcome.split)
qed (simp add: fun_eq_iff)

section \<open>The call of an event\<close>

text \<open>What an event reads, and the callback it leads to.\<close>

definition call_read :: "EventUID \<Rightarrow> (call option) dec" where
  "call_read e =
    (if EventUID_getTerm e \<in> {SE, SEUri, SEQName} then bindM (ExiDecoder_getQName e) (\<lambda>q. retM (Some (cSE q)))
     else if EventUID_getTerm e = EE then
       if \<not> EventUID_hasQName e then retM None else bindM (ExiDecoder_getQName e) (\<lambda>q. retM (Some (cEE q)))
     else if EventUID_getTerm e \<in> {AT, ATUri, ATQName} then
       thenM (invariantM (\<lambda>_. EventUID_hasQName e)) (bindM (decodeValue (Name e)) (\<lambda>v.
         bindM (ExiDecoder_getQName e) (\<lambda>q. bindM (identsM (getValue v)) (\<lambda>s. retM (Some (cAT q s))))))
     else if EventUID_getTerm e = NS then
       bindM decodeNS (\<lambda>e. bindM (identsM (getURI (URI (Name e)))) (\<lambda>u.
         bindM (identsM (getPrefix (URI (Name e)) (Prefix e))) (\<lambda>p. retM (Some (cNS u p (IsLocal e))))))
     else if EventUID_getTerm e \<in> {CH, CHExtern} then bindM (identsM (getValue e)) (\<lambda>s. retM (Some (cCH s)))
     else (case EventUID_getTerm e of
         SD \<Rightarrow> retM (Some cSD)
       | ED \<Rightarrow> retM (Some cED)
       | CM \<Rightarrow> bindM READ_STRING (\<lambda>s. retM (Some (cCM s)))
       | PI \<Rightarrow> bindM READ_STRING (\<lambda>t. bindM READ_STRING (\<lambda>s. retM (Some (cPI t s))))
       | DT \<Rightarrow> bindM READ_STRING (\<lambda>n. bindM READ_STRING (\<lambda>p. bindM READ_STRING (\<lambda>y. bindM READ_STRING (\<lambda>s.
           retM (Some (cDT n p y s))))))
       | ER \<Rightarrow> bindM READ_STRING (\<lambda>s. retM (Some (cCM s)))
       | SC \<Rightarrow> errM (ExiError_New kUnimplemented)
       | _ \<Rightarrow> errM (ExiError_New kInvalidEXIInput)))"

definition perform :: "'c Serializer \<Rightarrow> call option \<Rightarrow> (unit, 'c) body" where
  "perform S x = (case x of
      None \<Rightarrow> retM ()
    | Some c \<Rightarrow> if c = cED then thenM (serM (ser_ED S)) (errM ExiError_DONE) else serM (call_of S c))"

lemma decM_bindM: "decM (bindM m k) = bindM (decM m) (\<lambda>a. decM (k a))"
proof
  fix x show "decM (bindM m k) x = bindM (decM m) (\<lambda>a. decM (k a)) x"
    by (cases x; cases "m (fst x)") (simp_all add: decM_def zoomM_def bindM_def split: outcome.split)
qed

lemma decM_basic: "decM (retM a) = retM a" "decM (errM e) = errM e" "decM (invariantM (\<lambda>_. b)) = invariantM (\<lambda>_. b)"
  by (simp_all add: fun_eq_iff decM_def zoomM_def invariantM_def checkM_def)

lemma decM_thenM: "decM (thenM m n) = thenM (decM m) (decM n)"
  by (simp add: thenM_def decM_bindM)

lemma bindM_assoc: "bindM (bindM m k) l = bindM m (\<lambda>a. bindM (k a) l)"
  by (simp add: fun_eq_iff bindM_def split: outcome.split)

lemma bindM_thenM: "bindM (thenM m n) l = thenM m (bindM n l)"
  by (simp add: thenM_def bindM_assoc)

lemma bindM_basic: "bindM (retM a) k = k a" "bindM (errM e) k = errM e"
  by (simp_all add: fun_eq_iff)

lemmas monad_laws = decM_bindM decM_basic decM_thenM bindM_assoc bindM_thenM bindM_basic

lemma call_read_handlers:
  "(if EventUID_getTerm e \<in> {SE, SEUri, SEQName} then dec_handleSE S e
    else if EventUID_getTerm e = EE then dec_handleEE S e
    else if EventUID_getTerm e \<in> {AT, ATUri, ATQName} then dec_handleAT S e
    else if EventUID_getTerm e = NS then dec_handleNS S
    else if EventUID_getTerm e \<in> {CH, CHExtern} then dec_handleCH S e
    else dispatchUncommonEvent S e) = bindM (decM (call_read e)) (perform S)"
  by (cases "EventUID_getTerm e")
    (simp_all add: call_read_def handler_defs dispatchUncommonEvent_def perform_def monad_laws,
      simp add: fun_eq_iff)

lemma decodeEvent_perform: "decodeEvent S = bindM (decM (bindM getTermImpl call_read)) (perform S)"
  unfolding decodeEvent_def call_read_handlers by (simp add: monad_laws)

section \<open>Every serializer is given the recorded calls\<close>

text \<open>A serializer accepts calls when all but the end of the document return normally, and the end
  returns normally or as done.\<close>

definition accepts :: "'c Serializer \<Rightarrow> call list \<Rightarrow> 'c \<Rightarrow> 'c \<Rightarrow> bool" where
  "accepts S cs c c' \<longleftrightarrow> (\<exists>c1. run_calls S (filter (\<lambda>x. x \<noteq> cED) cs) c = Ret () c1
     \<and> (if cED \<in> set cs then ser_ED S c1 = Ret () c' \<or> (\<exists>e. ser_ED S c1 = Err e c' \<and> EC e = EC ExiError_DONE) else c' = c1))"

lemma recorder_call: "c \<noteq> cED \<Longrightarrow> call_of recorder c cs = Ret () (cs @ [c])"
  by (cases c) (simp_all add: recorder_def)

lemma event_replay:
  assumes "decodeEvent recorder (d, cs) = Ret u (d1, cs1)"
  shows "\<exists>new. cs1 = cs @ new \<and> cED \<notin> set new
    \<and> (\<forall>(S :: 'c Serializer) c c1. run_calls S new c = Ret () c1 \<longrightarrow> decodeEvent S (d, c) = Ret () (d1, c1))"
proof -
  obtain x d2 where x: "bindM getTermImpl call_read d = Ret x d2" "perform recorder x (d2, cs) = Ret u (d1, cs1)"
    using assms unfolding decodeEvent_perform bindM_Ret_iff [of "decM _"] decM_Ret_iff by blast
  have run: "decodeEvent S (d, c) = perform S x (d2, c)" for S :: "'c Serializer" and c
    unfolding decodeEvent_perform using x(1) by simp
  show ?thesis
  proof (cases x)
    case None
    then show ?thesis using x(2) run by (auto simp: perform_def intro!: exI [of _ "[]"])
  next
    case (Some a)
    then have a: "a \<noteq> cED" using x(2) by (auto simp: perform_def shape_simps)
    then have "d1 = d2" "cs1 = cs @ [a]" using x(2) Some by (auto simp: perform_def shape_simps recorder_call)
    moreover have "decodeEvent S (d, c) = Ret () (d2, c1)" if "run_calls S [a] c = Ret () c1" for S :: "'c Serializer" and c c1
      using that run a Some by (auto simp: perform_def shape_simps)
    ultimately show ?thesis using a by (intro exI [of _ "[a]"]) simp
  qed
qed

lemma event_replay_error:
  assumes "decodeEvent recorder (d, cs) = Err e (d1, cs1)"
  shows "(cs1 = cs \<and> (\<forall>(S :: 'c Serializer) c. decodeEvent S (d, c) = Err e (d1, c)))
    \<or> (cs1 = cs @ [cED] \<and> EC e = EC ExiError_DONE \<and> (\<forall>(S :: 'c Serializer) c c1. accepts S [cED] c c1 \<longrightarrow>
        (\<exists>e. decodeEvent S (d, c) = Err e (d1, c1) \<and> EC e = EC ExiError_DONE)))"
proof (cases "bindM getTermImpl call_read d")
  case (Ret x d2)
  have run: "decodeEvent S (d, c) = perform S x (d2, c)" for S :: "'c Serializer" and c
    unfolding decodeEvent_perform using Ret by simp
  have x: "perform recorder x (d2, cs) = Err e (d1, cs1)"
    using assms unfolding decodeEvent_perform using Ret by simp
  have "x = Some cED"
    using x recorder_call by (cases x) (auto simp: perform_def error_simps split: if_splits)
  then have d: "d1 = d2" "cs1 = cs @ [cED]" "e = ExiError_DONE"
    using x by (auto simp: perform_def error_simps recorder_def shape_simps)
  have "\<exists>e. decodeEvent S (d, c) = Err e (d1, c1) \<and> EC e = EC ExiError_DONE"
    if a: "accepts S [cED] c c1" for S :: "'c Serializer" and c c1
  proof -
    consider "ser_ED S c = Ret () c1" | e' where "ser_ED S c = Err e' c1" "EC e' = EC ExiError_DONE"
      using a by (auto simp: accepts_def)
    then show ?thesis using \<open>x = Some cED\<close> d(1) run [of S c] by cases (simp_all add: perform_def)
  qed
  then show ?thesis using d by blast
next
  case (Err e' d2)
  then show ?thesis using assms unfolding decodeEvent_perform by simp
qed (use assms in \<open>simp add: decodeEvent_perform\<close>)

lemma accepts_append:
  assumes "accepts S (new @ cs) c c'" "cED \<notin> set new"
  shows "\<exists>c1. run_calls S new c = Ret () c1 \<and> accepts S cs c1 c'"
proof -
  have "filter (\<lambda>x. x \<noteq> cED) new = new" using assms(2) by (auto intro: filter_True)
  then obtain c1 t where "run_calls S new c = Ret () t" "run_calls S (filter (\<lambda>x. x \<noteq> cED) cs) t = Ret () c1"
    "if cED \<in> set cs then ser_ED S c1 = Ret () c' \<or> (\<exists>e. ser_ED S c1 = Err e c' \<and> EC e = EC ExiError_DONE) else c' = c1"
    using assms by (auto simp: accepts_def run_calls_append thenM_Ret_iff)
  then show ?thesis unfolding accepts_def by blast
qed

lemma body_loop_replay:
  assumes "body_loop (decodeEvent recorder) x = Some r" "outcome_state r = Some (d', cs')"
  shows "\<exists>new. cs' = snd x @ new
    \<and> (\<forall>(S :: 'c Serializer) c c'. accepts S new c c' \<longrightarrow> body_loop (decodeEvent S) (fst x, c) = Some (map_state (\<lambda>y. (fst y, c')) r))"
proof -
  let ?P = "\<lambda>x r. \<forall>d' cs'. outcome_state r = Some (d', cs') \<longrightarrow> (\<exists>new. cs' = snd x @ new
    \<and> (\<forall>(S :: 'c Serializer) c c'. accepts S new c c' \<longrightarrow> body_loop (decodeEvent S) (fst x, c) = Some (map_state (\<lambda>y. (fst y, c')) r)))"
  have "(case (decodeEvent recorder, x) of (ev', x) \<Rightarrow> \<lambda>r. ev' = decodeEvent recorder \<longrightarrow> ?P x r) r"
  proof (rule body_loop.raw_induct [where P = "\<lambda>ev' x r. ev' = decodeEvent recorder \<longrightarrow> ?P x r"])
    show "(case (decodeEvent recorder, x) of (ev, x) \<Rightarrow> body_loop ev x) = Some r" using assms(1) by simp
  next
    fix loop and ev' :: "ExiDecoder \<times> call list \<Rightarrow> (unit, ExiDecoder \<times> call list) exi" and x r
    assume IH: "\<And>ev' x r. loop ev' x = Some r \<Longrightarrow> ev' = decodeEvent recorder \<longrightarrow> ?P x r"
      and st: "(case Reader (fst x) of None \<Rightarrow> Some (Fault Undefined)
        | Some q \<Rightarrow> if \<not> OrdReader_hasData q then Some (Ret () x)
            else (case ev' x of Ret _ y \<Rightarrow> loop ev' y
              | Err e y \<Rightarrow> Some (if EC e = EC ExiError_DONE then Ret () y else Err e y)
              | Fault f \<Rightarrow> Some (Fault f))) = Some r"
    show "ev' = decodeEvent recorder \<longrightarrow> ?P x r"
    proof (intro impI allI)
      fix d' cs' assume ev: "ev' = decodeEvent recorder" and out: "outcome_state r = Some (d', cs')"
      obtain d cs where x: "x = (d, cs)" by (cases x)
      obtain q where q: "Reader d = Some q" using st out x by (cases "Reader d") auto
      show "\<exists>new. cs' = snd x @ new \<and> (\<forall>(S :: 'c Serializer) c c'. accepts S new c c'
          \<longrightarrow> body_loop (decodeEvent S) (fst x, c) = Some (map_state (\<lambda>y. (fst y, c')) r))"
      proof (cases "OrdReader_hasData q")
        case False
        then have r: "r = Ret () (d, cs)" using st q x by simp
        have "body_loop (decodeEvent S) (d, c') = Some (Ret () (d, c'))" for S :: "'c Serializer" and c'
          using q False by (simp add: body_loop.simps)
        then show ?thesis using r out x by (auto simp: accepts_def intro!: exI [of _ "[]"])
      next
        case True
        have loop: "body_loop (decodeEvent S) (d, c) = (case decodeEvent S (d, c) of
            Ret _ y \<Rightarrow> body_loop (decodeEvent S) y
          | Err e y \<Rightarrow> Some (if EC e = EC ExiError_DONE then Ret () y else Err e y)
          | Fault f \<Rightarrow> Some (Fault f))" for S :: "'c Serializer" and c
          using q True by (subst body_loop.simps) simp
        show ?thesis
        proof (cases "decodeEvent recorder x")
          case (Ret u y)
          obtain d1 cs1 where y: "y = (d1, cs1)" by (cases y)
          obtain new where new: "cs1 = cs @ new" "cED \<notin> set new"
            "\<forall>(S :: 'c Serializer) c c1. run_calls S new c = Ret () c1 \<longrightarrow> decodeEvent S (d, c) = Ret () (d1, c1)"
            using event_replay Ret x y by blast
          have "loop (decodeEvent recorder) y = Some r" using st ev q x True Ret by simp
          then obtain more where more: "cs' = cs1 @ more" "\<forall>(S :: 'c Serializer) c c'. accepts S more c c'
              \<longrightarrow> body_loop (decodeEvent S) (d1, c) = Some (map_state (\<lambda>y. (fst y, c')) r)"
            using IH [of "decodeEvent recorder" y r] out y by auto
          have "body_loop (decodeEvent S) (d, c) = Some (map_state (\<lambda>y. (fst y, c')) r)"
            if "accepts S (new @ more) c c'" for S :: "'c Serializer" and c c'
            using accepts_append [OF that new(2)] new(3) more(2) loop by fastforce
          then show ?thesis using new(1) more(1) x by (intro exI [of _ "new @ more"]) simp
        next
          case (Err e y)
          obtain d1 cs1 where y: "y = (d1, cs1)" by (cases y)
          have r: "r = (if EC e = EC ExiError_DONE then Ret () y else Err e y)" using st ev q x True Err by simp
          from event_replay_error [where ?'c = 'c, of d cs e d1 cs1] Err x y
          consider (same) "cs1 = cs" "\<forall>(S :: 'c Serializer) c. decodeEvent S (d, c) = Err e (d1, c)"
            | (finish) "cs1 = cs @ [cED]" "EC e = EC ExiError_DONE" "\<forall>(S :: 'c Serializer) c c1. accepts S [cED] c c1 \<longrightarrow>
                (\<exists>e. decodeEvent S (d, c) = Err e (d1, c1) \<and> EC e = EC ExiError_DONE)"
            by blast
          then show ?thesis
          proof cases
            case same
            then have "body_loop (decodeEvent S) (d, c) = Some (map_state (\<lambda>y. (fst y, c)) r)" for S :: "'c Serializer" and c
              using loop [of S c] r y by simp
            then show ?thesis using same(1) r y out x by (auto simp: accepts_def intro!: exI [of _ "[]"] split: if_splits)
          next
            case finish
            have "body_loop (decodeEvent S) (d, c) = Some (map_state (\<lambda>y. (fst y, c')) r)"
              if a: "accepts S [cED] c c'" for S :: "'c Serializer" and c c'
            proof -
              obtain e' where "decodeEvent S (d, c) = Err e' (d1, c')" "EC e' = EC ExiError_DONE"
                using finish(3) a by blast
              then show ?thesis using loop [of S c] r y finish(2) by simp
            qed
            then show ?thesis using finish(1,2) r y out x by (intro exI [of _ "[cED]"]) simp
          qed
        next
          case (Fault f)
          then have "r = Fault f" using st ev q x True by simp
          then show ?thesis using out by simp
        qed
      qed
    qed
  qed
  then show ?thesis using assms(2) by simp
qed

lemma decodeBody_replay_lemma:
  fixes S :: "'c Serializer"
  assumes "decodeBody (Some recorder) (d, []) = Some r" "outcome_state r = Some (d', cs)" "accepts S cs c c'"
  shows "decodeBody (Some S) (d, c) = Some (map_state (\<lambda>y. (fst y, c')) r)"
proof (cases "prepareForDecoding d")
  case (Ret u d1)
  then have "body_loop (decodeEvent recorder) (d1, []) = Some r" using assms(1) by (simp add: decodeBody_def)
  from body_loop_replay [where ?'c = 'c, OF this assms(2)]
  have "body_loop (decodeEvent S) (d1, c) = Some (map_state (\<lambda>y. (fst y, c')) r)"
    using assms(3) by auto
  then show ?thesis using Ret by (simp add: decodeBody_def)
next
  case (Err e d1)
  then have r: "r = Err e (d1, [])" using assms(1) by (simp add: decodeBody_def)
  then show ?thesis using assms(2,3) Err by (auto simp: decodeBody_def accepts_def)
qed (use assms in \<open>auto simp: decodeBody_def\<close>)

text \<open>Property C5. The recording serializer stands for every serializer: when one that accepts the recorded
  calls takes its place, the decoder goes through the same states and ends the same way, and that
  serializer has run exactly those calls.\<close>

theorem decodeBody_replays:
  fixes S :: "'c Serializer"
  assumes "decodeBody (Some recorder) (d, []) = Some r" "outcome_state r = Some (d', cs)" "accepts S cs c c'"
  shows "decodeBody (Some S) (d, c) = Some (map_state (\<lambda>y. (fst y, c')) r)"
  using assms by (rule decodeBody_replay_lemma)

text \<open>An empty root element, end to end.\<close>

definition root_a :: QName where
  "root_a = \<lparr>qn_URI = [], qn_Name = [97], qn_Prefix = []\<rparr>"

lemma recorded_example:
  "\<exists>r d'. decodeBody (Some recorder) (body_decoder [1, 2, 97, 0, 0, 0, 0, 0, 0], []) = Some r
    \<and> outcome_state r = Some (d', [cSD, cSE root_a, cEE root_a, cED])"
proof -
  have "map_option (map_option snd \<circ> outcome_state) (decodeBody (Some recorder) (body_decoder [1, 2, 97, 0, 0, 0, 0, 0, 0], []))
    = Some (Some [cSD, cSE root_a, cEE root_a, cED])"
    by (simp add: eval_simps eval_small eval_body root_a_def del: eval_del decM_run serM_run)
  then show ?thesis by auto
qed

theorem decodeBody_replays_witness:
  "\<exists>r. decodeBody (Some Serializer_base) (body_decoder [1, 2, 97, 0, 0, 0, 0, 0, 0], ()) = Some r \<and> outcome_state r \<noteq> None"
proof -
  obtain r d' where r: "decodeBody (Some recorder) (body_decoder [1, 2, 97, 0, 0, 0, 0, 0, 0], []) = Some r"
    "outcome_state r = Some (d', [cSD, cSE root_a, cEE root_a, cED])" using recorded_example by blast
  have "accepts Serializer_base [cSD, cSE root_a, cEE root_a, cED] () ()"
    by (simp add: accepts_def Serializer_base_def)
  from decodeBody_replays [OF r this] show ?thesis using r(2) by (cases r) auto
qed

end
