(* ===== verification/XMLStore.thy ===== *)
theory XMLStore
  imports ErrorCodes
begin

text \<open>
  The document tree of the XML side (\<open>vendored/rapidxml/rapidxml.hpp\<close>, in the version the program
  modified): nodes and attributes as objects in a store, linked by parent, first, last, previous and
  next pointers, with the operations the serializer uses. A pointer is an index into the store;
  following a null or freed pointer is undefined. The children of a node are recovered as a list, the
  tree below a node as a datatype, and both are what the pointer operations are proved against.
\<close>

section \<open>Nodes and attributes\<close>

datatype NodeKind =
    node_document | node_element | node_data | node_cdata | node_comment | node_declaration
  | node_doctype | node_pi | node_last

text \<open>Links that the source leaves without a value are \<open>None\<close>, as are null pointers. A null name or
  value reads as the empty string.\<close>

record XMLNode =
  n_type :: NodeKind
  n_name :: bytes
  n_value :: bytes
  n_parent :: "nat option"
  n_first :: "nat option"
  n_last :: "nat option"
  n_prev :: "nat option"
  n_next :: "nat option"
  n_first_attr :: "nat option"
  n_last_attr :: "nat option"

record XMLAttribute =
  a_name :: bytes
  a_value :: bytes
  a_parent :: "nat option"
  a_prev :: "nat option"
  a_next :: "nat option"

definition XMLNode_new :: "NodeKind \<Rightarrow> XMLNode" where
  "XMLNode_new k = \<lparr>n_type = k, n_name = [], n_value = [], n_parent = None, n_first = None, n_last = None,
     n_prev = None, n_next = None, n_first_attr = None, n_last_attr = None\<rparr>"

definition XMLAttribute_new :: XMLAttribute where
  "XMLAttribute_new = \<lparr>a_name = [], a_value = [], a_parent = None, a_prev = None, a_next = None\<rparr>"

text \<open>A document is its root node, at index 0, and a pool that owns its memory.\<close>

record XMLDocument =
  xd_nodes :: "XMLNode list"
  xd_attrs :: "XMLAttribute list"

definition XMLDocument_new :: XMLDocument where
  "XMLDocument_new = \<lparr>xd_nodes = [XMLNode_new node_document], xd_attrs = []\<rparr>"

type_synonym 'a xd = "XMLDocument \<Rightarrow> ('a, XMLDocument) exi"

definition nodeM :: "nat \<Rightarrow> XMLNode xd" where
  "nodeM p d = (if p < length (xd_nodes d) then Ret (xd_nodes d ! p) d else Fault Undefined)"

definition setNode :: "nat \<Rightarrow> (XMLNode \<Rightarrow> XMLNode) \<Rightarrow> unit xd" where
  "setNode p f d = (if p < length (xd_nodes d) then Ret () (d\<lparr>xd_nodes := (xd_nodes d)[p := f (xd_nodes d ! p)]\<rparr>)
     else Fault Undefined)"

definition attrM :: "nat \<Rightarrow> XMLAttribute xd" where
  "attrM p d = (if p < length (xd_attrs d) then Ret (xd_attrs d ! p) d else Fault Undefined)"

definition setAttr :: "nat \<Rightarrow> (XMLAttribute \<Rightarrow> XMLAttribute) \<Rightarrow> unit xd" where
  "setAttr p f d = (if p < length (xd_attrs d) then Ret () (d\<lparr>xd_attrs := (xd_attrs d)[p := f (xd_attrs d ! p)]\<rparr>)
     else Fault Undefined)"

text \<open>A pointer that must not be null.\<close>

definition ptrM :: "nat option \<Rightarrow> nat xd" where
  "ptrM p = (case p of None \<Rightarrow> faultM Undefined | Some p \<Rightarrow> retM p)"

section \<open>Allocation\<close>

text \<open>Strings are passed as pointer and length; \<open>None\<close> is the null pointer. A length of zero makes the
  callee measure the string, which is empty: then the overload that takes one string is called, and
  the one for values sets the name.\<close>

definition node_name :: "bytes \<Rightarrow> XMLNode \<Rightarrow> XMLNode" where
  "node_name s n = n\<lparr>n_name := s\<rparr>"

definition node_value :: "bytes \<Rightarrow> XMLNode \<Rightarrow> XMLNode" where
  "node_value s n = n\<lparr>n_value := s\<rparr>"

definition node_value_str :: "bytes \<Rightarrow> XMLNode \<Rightarrow> XMLNode" where
  "node_value_str s n = node_name s n"

definition allocate_node :: "NodeKind \<Rightarrow> bytes option \<Rightarrow> bytes option \<Rightarrow> nat xd" where
  "allocate_node k name value d =
    (let n = XMLNode_new k;
         n = (case name of None \<Rightarrow> n | Some s \<Rightarrow> node_name s n);
         n = (case value of None \<Rightarrow> n | Some s \<Rightarrow> if 0 < length s then node_value s n else node_value_str s n)
     in Ret (length (xd_nodes d)) (d\<lparr>xd_nodes := xd_nodes d @ [n]\<rparr>))"

definition allocate_attribute :: "bytes option \<Rightarrow> bytes option \<Rightarrow> nat xd" where
  "allocate_attribute name value d =
    (let a = XMLAttribute_new;
         a = (case name of None \<Rightarrow> a | Some s \<Rightarrow> a\<lparr>a_name := s\<rparr>);
         a = (case value of None \<Rightarrow> a | Some s \<Rightarrow> if 0 < length s then a\<lparr>a_value := s\<rparr> else a\<lparr>a_name := s\<rparr>)
     in Ret (length (xd_attrs d)) (d\<lparr>xd_attrs := xd_attrs d @ [a]\<rparr>))"

section \<open>Linking\<close>

definition prepend_node :: "nat \<Rightarrow> nat \<Rightarrow> unit xd" where
  "prepend_node this child =
    bindM (nodeM child) (\<lambda>c.
    thenM (assertM (\<lambda>_. n_parent c = None \<and> n_type c \<noteq> node_document))
    (bindM (nodeM this) (\<lambda>t.
     thenM (case n_first t of
         Some f \<Rightarrow> thenM (setNode child (\<lambda>n. n\<lparr>n_next := Some f\<rparr>)) (setNode f (\<lambda>n. n\<lparr>n_prev := Some child\<rparr>))
       | None \<Rightarrow> thenM (setNode child (\<lambda>n. n\<lparr>n_next := None\<rparr>)) (setNode this (\<lambda>n. n\<lparr>n_last := Some child\<rparr>)))
    (thenM (setNode this (\<lambda>n. n\<lparr>n_first := Some child\<rparr>))
    (thenM (setNode child (\<lambda>n. n\<lparr>n_parent := Some this\<rparr>))
      (setNode child (\<lambda>n. n\<lparr>n_prev := None\<rparr>)))))))"

definition append_node :: "nat \<Rightarrow> nat \<Rightarrow> unit xd" where
  "append_node this child =
    bindM (nodeM child) (\<lambda>c.
    thenM (assertM (\<lambda>_. n_parent c = None \<and> n_type c \<noteq> node_document))
    (bindM (nodeM this) (\<lambda>t.
     thenM (case n_first t of
         Some _ \<Rightarrow> bindM (ptrM (n_last t)) (\<lambda>l.
           thenM (setNode child (\<lambda>n. n\<lparr>n_prev := Some l\<rparr>)) (setNode l (\<lambda>n. n\<lparr>n_next := Some child\<rparr>)))
       | None \<Rightarrow> thenM (setNode child (\<lambda>n. n\<lparr>n_prev := None\<rparr>)) (setNode this (\<lambda>n. n\<lparr>n_first := Some child\<rparr>)))
    (thenM (setNode this (\<lambda>n. n\<lparr>n_last := Some child\<rparr>))
    (thenM (setNode child (\<lambda>n. n\<lparr>n_parent := Some this\<rparr>))
      (setNode child (\<lambda>n. n\<lparr>n_next := None\<rparr>)))))))"

text \<open>The early return of the source is for the attributes its assertion asks for.\<close>

definition append_attribute :: "nat \<Rightarrow> nat \<Rightarrow> unit xd" where
  "append_attribute this attribute =
    bindM (attrM attribute) (\<lambda>a.
    thenM (assertM (\<lambda>_. a_parent a = None))
    (if a_parent a = None then retM ()
     else bindM (nodeM this) (\<lambda>t.
       thenM (case n_first_attr t of
           Some _ \<Rightarrow> bindM (ptrM (n_last_attr t)) (\<lambda>l.
             thenM (setAttr attribute (\<lambda>x. x\<lparr>a_prev := Some l\<rparr>)) (setAttr l (\<lambda>x. x\<lparr>a_next := Some attribute\<rparr>)))
         | None \<Rightarrow> thenM (setAttr attribute (\<lambda>x. x\<lparr>a_prev := None\<rparr>))
             (setNode this (\<lambda>n. n\<lparr>n_first_attr := Some attribute\<rparr>)))
      (thenM (setNode this (\<lambda>n. n\<lparr>n_last_attr := Some attribute\<rparr>))
      (thenM (setAttr attribute (\<lambda>x. x\<lparr>a_parent := Some this\<rparr>))
        (setAttr attribute (\<lambda>x. x\<lparr>a_next := None\<rparr>)))))))"

section \<open>Walking and clearing\<close>

text \<open>A loop that has no effect and does not end is undefined, as is one that reads freed memory: both
  have no value.\<close>

partial_function (option) root_loop :: "XMLNode list \<Rightarrow> nat \<Rightarrow> nat option" where
  "root_loop h p = (if p < length h
     then (case n_parent (h ! p) of None \<Rightarrow> Some p | Some q \<Rightarrow> root_loop h q) else None)"

declare root_loop.simps [code]

definition node_document_of :: "nat \<Rightarrow> (nat option) xd" where
  "node_document_of p d = (case root_loop (xd_nodes d) p of
      None \<Rightarrow> Fault Undefined
    | Some r \<Rightarrow> Ret (if n_type (xd_nodes d ! r) = node_document then Some r else None) d)"

partial_function (option) unlink_loop :: "XMLNode list \<Rightarrow> nat option \<Rightarrow> XMLNode list option" where
  "unlink_loop h p = (case p of None \<Rightarrow> Some h
     | Some p \<Rightarrow> if p < length h then unlink_loop (h[p := (h ! p)\<lparr>n_parent := None\<rparr>]) (n_next (h ! p)) else None)"

declare unlink_loop.simps [code]

definition remove_all_nodes :: "nat \<Rightarrow> unit xd" where
  "remove_all_nodes this = bindM (nodeM this) (\<lambda>t.
     thenM (\<lambda>d. case unlink_loop (xd_nodes d) (n_first t) of
         None \<Rightarrow> Fault Undefined | Some h \<Rightarrow> Ret () (d\<lparr>xd_nodes := h\<rparr>))
       (setNode this (\<lambda>n. n\<lparr>n_first := None\<rparr>)))"

partial_function (option) unlink_attrs :: "XMLAttribute list \<Rightarrow> nat option \<Rightarrow> XMLAttribute list option" where
  "unlink_attrs h p = (case p of None \<Rightarrow> Some h
     | Some p \<Rightarrow> if p < length h then unlink_attrs (h[p := (h ! p)\<lparr>a_parent := None\<rparr>]) (a_next (h ! p)) else None)"

declare unlink_attrs.simps [code]

definition remove_all_attributes :: "nat \<Rightarrow> unit xd" where
  "remove_all_attributes this = bindM (nodeM this) (\<lambda>t.
     thenM (\<lambda>d. case unlink_attrs (xd_attrs d) (n_first_attr t) of
         None \<Rightarrow> Fault Undefined | Some h \<Rightarrow> Ret () (d\<lparr>xd_attrs := h\<rparr>))
       (setNode this (\<lambda>n. n\<lparr>n_first_attr := None\<rparr>)))"

text \<open>Clearing resets the pool: everything but the root is freed.\<close>

definition MemoryPool_clear :: "unit xd" where
  "MemoryPool_clear = modM (\<lambda>d. d\<lparr>xd_nodes := take 1 (xd_nodes d), xd_attrs := []\<rparr>)"

definition XMLDocument_clear :: "unit xd" where
  "XMLDocument_clear = thenM (remove_all_nodes 0) (thenM (remove_all_attributes 0) MemoryPool_clear)"

section \<open>Children as lists\<close>

text \<open>\<open>chain h p q xs\<close>: the nodes \<open>xs\<close> are linked in this order, below \<open>p\<close>, behind the node \<open>q\<close>.\<close>

fun chain :: "XMLNode list \<Rightarrow> nat \<Rightarrow> nat option \<Rightarrow> nat list \<Rightarrow> bool" where
  "chain h p q [] \<longleftrightarrow> True"
| "chain h p q (x # xs) \<longleftrightarrow> x < length h \<and> n_parent (h ! x) = Some p \<and> n_prev (h ! x) = q
     \<and> n_next (h ! x) = (case xs of [] \<Rightarrow> None | y # _ \<Rightarrow> Some y) \<and> chain h p (Some x) xs"

definition kids_ok :: "XMLNode list \<Rightarrow> nat \<Rightarrow> nat list \<Rightarrow> bool" where
  "kids_ok h p xs \<longleftrightarrow> n_first (h ! p) = (case xs of [] \<Rightarrow> None | x # _ \<Rightarrow> Some x)
     \<and> (xs \<noteq> [] \<longrightarrow> n_last (h ! p) = Some (last xs)) \<and> chain h p None xs \<and> distinct xs"

text \<open>\<open>ch\<close> gives the children of every node; nodes are younger than their parents.\<close>

definition store_ok :: "XMLNode list \<Rightarrow> (nat \<Rightarrow> nat list) \<Rightarrow> bool" where
  "store_ok h ch \<longleftrightarrow> h \<noteq> [] \<and> n_type (h ! 0) = node_document \<and> n_parent (h ! 0) = None
     \<and> (\<forall>p < length h. kids_ok h p (ch p) \<and> (\<forall>x \<in> set (ch p). p < x))
     \<and> (\<forall>p. length h \<le> p \<longrightarrow> ch p = [])"

lemma chain_in:
  assumes "chain h p q xs" "x \<in> set xs"
  shows "x < length h \<and> n_parent (h ! x) = Some p"
  using assms by (induction xs arbitrary: q) auto

lemma store_okD:
  assumes "store_ok h ch" "x \<in> set (ch p)"
  shows "p < length h" "x < length h" "n_parent (h ! x) = Some p" "p < x"
proof -
  show p: "p < length h" using assms by (metis store_ok_def empty_iff list.set(1) not_le)
  have "chain h p None (ch p)" "p < x" using assms p by (auto simp: store_ok_def kids_ok_def)
  then show "x < length h" "n_parent (h ! x) = Some p" "p < x" using chain_in assms(2) by auto
qed

text \<open>Links of other nodes do not matter.\<close>

lemma chain_cong:
  assumes "length h \<le> length h'"
    and "\<And>x. x \<in> set xs \<Longrightarrow> n_parent (h' ! x) = n_parent (h ! x) \<and> n_prev (h' ! x) = n_prev (h ! x) \<and> n_next (h' ! x) = n_next (h ! x)"
    and "chain h p q xs"
  shows "chain h' p q xs"
  using assms(2,3) by (induction xs arbitrary: q) (use assms(1) in \<open>force+\<close>)

lemma chain_snoc:
  assumes "chain h p q xs" "xs \<noteq> []" "distinct (xs @ [y])" "y < length h'" "length h \<le> length h'"
    and "\<And>x. x \<in> set xs \<Longrightarrow> n_parent (h' ! x) = n_parent (h ! x) \<and> n_prev (h' ! x) = n_prev (h ! x)
      \<and> n_next (h' ! x) = (if x = last xs then Some y else n_next (h ! x))"
    and "n_parent (h' ! y) = Some p" "n_prev (h' ! y) = Some (last xs)" "n_next (h' ! y) = None"
  shows "chain h' p q (xs @ [y])"
  using assms(1-3,6,8)
proof (induction xs arbitrary: q)
  case (Cons x xs)
  show ?case
  proof (cases xs)
    case Nil
    then show ?thesis using Cons.prems assms(4,5,7,9) by auto
  next
    case (Cons z zs)
    have l: "last (x # xs) = last xs" "last xs \<in> set xs" using Cons by auto
    then have x: "x \<noteq> last xs" using Cons.prems(3) by auto
    have "chain h' p (Some x) (xs @ [y])"
      by (rule Cons.IH) (use Cons.prems l Cons in auto)
    then show ?thesis using Cons.prems(1) Cons.prems(4) [of x] x l assms(5) Cons by auto
  qed
qed simp

lemma kids_ok_cong:
  assumes "kids_ok h p xs" "length h \<le> length h'"
    and "n_first (h' ! p) = n_first (h ! p)" "n_last (h' ! p) = n_last (h ! p)"
    and "\<And>x. x \<in> set xs \<Longrightarrow> n_parent (h' ! x) = n_parent (h ! x) \<and> n_prev (h' ! x) = n_prev (h ! x) \<and> n_next (h' ! x) = n_next (h ! x)"
  shows "kids_ok h' p xs"
  using assms chain_cong [OF assms(2)] by (auto simp: kids_ok_def)

text \<open>Nothing but links differs.\<close>

definition same_data :: "XMLDocument \<Rightarrow> XMLDocument \<Rightarrow> bool" where
  "same_data d d' \<longleftrightarrow> xd_attrs d' = xd_attrs d \<and> length (xd_nodes d') = length (xd_nodes d)
     \<and> (\<forall>x < length (xd_nodes d). n_type (xd_nodes d' ! x) = n_type (xd_nodes d ! x)
       \<and> n_name (xd_nodes d' ! x) = n_name (xd_nodes d ! x) \<and> n_value (xd_nodes d' ! x) = n_value (xd_nodes d ! x)
       \<and> n_first_attr (xd_nodes d' ! x) = n_first_attr (xd_nodes d ! x))"

lemma same_data_refl [simp]: "same_data d d"
  by (simp add: same_data_def)

lemma same_data_trans: "same_data d e \<Longrightarrow> same_data e f \<Longrightarrow> same_data d f"
  by (simp add: same_data_def)

text \<open>A new child list for one node, when the links of the other nodes stay.\<close>

lemma store_ok_relink:
  assumes "store_ok h ch" "p < length h" "length h' = length h" "kids_ok h' p xs" "\<And>x. x \<in> set xs \<Longrightarrow> p < x"
    and "\<And>x. x < length h \<Longrightarrow> n_type (h' ! x) = n_type (h ! x)"
    and "\<And>x. x < length h \<Longrightarrow> x \<noteq> p \<Longrightarrow> n_first (h' ! x) = n_first (h ! x) \<and> n_last (h' ! x) = n_last (h ! x)"
    and "\<And>x. x < length h \<Longrightarrow> n_parent (h ! x) \<noteq> Some p \<Longrightarrow> x \<notin> set xs \<Longrightarrow> n_parent (h' ! x) = n_parent (h ! x)
      \<and> n_prev (h' ! x) = n_prev (h ! x) \<and> n_next (h' ! x) = n_next (h ! x)"
    and "\<And>x. x \<in> set xs \<Longrightarrow> n_parent (h ! x) = Some p \<or> n_parent (h ! x) = None"
  shows "store_ok h' (ch(p := xs))"
proof -
  have "kids_ok h' m (ch m)" if m: "m < length h" "m \<noteq> p" for m
  proof (rule kids_ok_cong [of h])
    show "kids_ok h m (ch m)" using assms(1) m(1) by (simp add: store_ok_def)
    fix x assume x: "x \<in> set (ch m)"
    then have "x < length h" "n_parent (h ! x) = Some m" using store_okD [OF assms(1)] by auto
    moreover from this have "x \<notin> set xs" using assms(9) m(2) by fastforce
    ultimately show "n_parent (h' ! x) = n_parent (h ! x) \<and> n_prev (h' ! x) = n_prev (h ! x) \<and> n_next (h' ! x) = n_next (h ! x)"
      using assms(8) m(2) by simp
  qed (use assms(3,7) m in auto)
  moreover have "0 < length h" "n_parent (h ! 0) = None" "n_type (h ! 0) = node_document" "0 \<notin> set xs"
    using assms(1,5) by (auto simp: store_ok_def)
  ultimately show ?thesis using assms(1-6) assms(8) [of 0] by (auto simp: store_ok_def)
qed

text \<open>The state after changes of nodes.\<close>

definition upd_node :: "nat \<Rightarrow> (XMLNode \<Rightarrow> XMLNode) \<Rightarrow> XMLDocument \<Rightarrow> XMLDocument" where
  "upd_node p f d = d\<lparr>xd_nodes := (xd_nodes d)[p := f (xd_nodes d ! p)]\<rparr>"

lemma upd_node_simps [simp]:
  "length (xd_nodes (upd_node p f d)) = length (xd_nodes d)" "xd_attrs (upd_node p f d) = xd_attrs d"
  "p < length (xd_nodes d) \<Longrightarrow> xd_nodes (upd_node p f d) ! x = (if x = p then f (xd_nodes d ! p) else xd_nodes d ! x)"
  by (simp_all add: upd_node_def nth_list_update)

lemma setNode_run [simp]: "p < length (xd_nodes d) \<Longrightarrow> setNode p f d = Ret () (upd_node p f d)"
  by (simp add: setNode_def upd_node_def)

lemma nodeM_run [simp]: "p < length (xd_nodes d) \<Longrightarrow> nodeM p d = Ret (xd_nodes d ! p) d"
  by (simp add: nodeM_def)

lemma append_node_run:
  assumes "p < length (xd_nodes d)" "c < length (xd_nodes d)" "n_parent (xd_nodes d ! c) = None"
    and "n_type (xd_nodes d ! c) \<noteq> node_document"
  shows "n_first (xd_nodes d ! p) = None \<Longrightarrow> append_node p c d = Ret () (upd_node c (\<lambda>n. n\<lparr>n_next := None\<rparr>)
      (upd_node c (\<lambda>n. n\<lparr>n_parent := Some p\<rparr>) (upd_node p (\<lambda>n. n\<lparr>n_last := Some c\<rparr>)
      (upd_node p (\<lambda>n. n\<lparr>n_first := Some c\<rparr>) (upd_node c (\<lambda>n. n\<lparr>n_prev := None\<rparr>) d)))))"
    and "n_first (xd_nodes d ! p) = Some f \<Longrightarrow> n_last (xd_nodes d ! p) = Some l \<Longrightarrow> l < length (xd_nodes d)
      \<Longrightarrow> append_node p c d = Ret () (upd_node c (\<lambda>n. n\<lparr>n_next := None\<rparr>)
      (upd_node c (\<lambda>n. n\<lparr>n_parent := Some p\<rparr>) (upd_node p (\<lambda>n. n\<lparr>n_last := Some c\<rparr>)
      (upd_node l (\<lambda>n. n\<lparr>n_next := Some c\<rparr>) (upd_node c (\<lambda>n. n\<lparr>n_prev := Some l\<rparr>) d)))))"
  using assms by (simp_all add: append_node_def ptrM_def)

lemma prepend_node_run:
  assumes "p < length (xd_nodes d)" "c < length (xd_nodes d)" "n_parent (xd_nodes d ! c) = None"
    and "n_type (xd_nodes d ! c) \<noteq> node_document"
  shows "n_first (xd_nodes d ! p) = None \<Longrightarrow> prepend_node p c d = Ret () (upd_node c (\<lambda>n. n\<lparr>n_prev := None\<rparr>)
      (upd_node c (\<lambda>n. n\<lparr>n_parent := Some p\<rparr>) (upd_node p (\<lambda>n. n\<lparr>n_first := Some c\<rparr>)
      (upd_node p (\<lambda>n. n\<lparr>n_last := Some c\<rparr>) (upd_node c (\<lambda>n. n\<lparr>n_next := None\<rparr>) d)))))"
    and "n_first (xd_nodes d ! p) = Some f \<Longrightarrow> f < length (xd_nodes d)
      \<Longrightarrow> prepend_node p c d = Ret () (upd_node c (\<lambda>n. n\<lparr>n_prev := None\<rparr>)
      (upd_node c (\<lambda>n. n\<lparr>n_parent := Some p\<rparr>) (upd_node p (\<lambda>n. n\<lparr>n_first := Some c\<rparr>)
      (upd_node f (\<lambda>n. n\<lparr>n_prev := Some c\<rparr>) (upd_node c (\<lambda>n. n\<lparr>n_next := Some f\<rparr>) d)))))"
  using assms by (simp_all add: prepend_node_def)

lemma append_node_ok:
  assumes "store_ok (xd_nodes d) ch" "p < c" "c < length (xd_nodes d)"
    and "n_parent (xd_nodes d ! c) = None" "n_type (xd_nodes d ! c) \<noteq> node_document"
  shows "\<exists>d'. append_node p c d = Ret () d' \<and> store_ok (xd_nodes d') (ch(p := ch p @ [c])) \<and> same_data d d'"
proof -
  let ?h = "xd_nodes d"
  have p: "p < length ?h" "kids_ok ?h p (ch p)" using assms(1-3) by (simp_all add: store_ok_def)
  have c: "c \<notin> set (ch p)" using store_okD(3) [OF assms(1)] assms(4) by fastforce
  note run = append_node_run [OF p(1) assms(3-5)]
  show ?thesis
  proof (cases "ch p = []")
    case True
    then obtain d' where d': "append_node p c d = Ret () d'" "xd_attrs d' = xd_attrs d" "length (xd_nodes d') = length ?h"
      "\<forall>x < length ?h. xd_nodes d' ! x = (if x = c then (?h ! c)\<lparr>n_prev := None, n_next := None, n_parent := Some p\<rparr>
        else if x = p then (?h ! p)\<lparr>n_first := Some c, n_last := Some c\<rparr> else ?h ! x)"
      using run(1) p assms(2,3) by (simp add: kids_ok_def)
    have "store_ok (xd_nodes d') (ch(p := [c]))"
      by (rule store_ok_relink [OF assms(1) p(1) d'(3)]) (use assms p d' in \<open>simp_all add: kids_ok_def\<close>)
    moreover have "same_data d d'" using d' by (simp add: same_data_def)
    ultimately show ?thesis using True d'(1) by simp
  next
    case False
    then obtain l f where l: "last (ch p) = l" "l \<in> set (ch p)" "n_last (?h ! p) = Some l" "n_first (?h ! p) = Some f"
      using p(2) by (auto simp: kids_ok_def split: list.splits)
    have ll: "l < length ?h" "p < l" "n_parent (?h ! l) = Some p" "l \<noteq> c"
      using store_okD [OF assms(1) l(2)] c l(2) by auto
    obtain d' where d': "append_node p c d = Ret () d'" "xd_attrs d' = xd_attrs d" "length (xd_nodes d') = length ?h"
      "\<forall>x < length ?h. xd_nodes d' ! x = (if x = c then (?h ! c)\<lparr>n_prev := Some l, n_next := None, n_parent := Some p\<rparr>
        else if x = l then (?h ! l)\<lparr>n_next := Some c\<rparr> else if x = p then (?h ! p)\<lparr>n_last := Some c\<rparr> else ?h ! x)"
      using run(2) [OF l(4,3) ll(1)] p assms(2,3) ll by simp
    have xs: "x < length ?h" "x \<noteq> p" "x \<noteq> c" "n_parent (?h ! x) = Some p" "p < x" if "x \<in> set (ch p)" for x
      using store_okD [OF assms(1) that] c that by auto
    have "chain (xd_nodes d') p None (ch p @ [c])"
      by (rule chain_snoc [of ?h]) (use p(2) False c l d' xs assms(2,3) in \<open>auto simp: kids_ok_def\<close>)
    then have k: "kids_ok (xd_nodes d') p (ch p @ [c])"
      using p False c l ll d' assms(2) by (auto simp: kids_ok_def split: list.splits)
    have "store_ok (xd_nodes d') (ch(p := ch p @ [c]))"
    proof (rule store_ok_relink [OF assms(1) p(1) d'(3) k])
      fix x
      show "p < x" "n_parent (?h ! x) = Some p \<or> n_parent (?h ! x) = None" if "x \<in> set (ch p @ [c])"
        using that xs assms(2,4) by auto
    qed (use d' ll assms(2) in auto)
    moreover have "same_data d d'" using d' by (simp add: same_data_def)
    ultimately show ?thesis using d'(1) by simp
  qed
qed

lemma prepend_node_ok:
  assumes "store_ok (xd_nodes d) ch" "p < c" "c < length (xd_nodes d)"
    and "n_parent (xd_nodes d ! c) = None" "n_type (xd_nodes d ! c) \<noteq> node_document"
  shows "\<exists>d'. prepend_node p c d = Ret () d' \<and> store_ok (xd_nodes d') (ch(p := c # ch p)) \<and> same_data d d'"
proof -
  let ?h = "xd_nodes d"
  have p: "p < length ?h" "kids_ok ?h p (ch p)" using assms(1-3) by (simp_all add: store_ok_def)
  have c: "c \<notin> set (ch p)" using store_okD(3) [OF assms(1)] assms(4) by fastforce
  note run = prepend_node_run [OF p(1) assms(3-5)]
  show ?thesis
  proof (cases "ch p")
    case Nil
    then obtain d' where d': "prepend_node p c d = Ret () d'" "xd_attrs d' = xd_attrs d" "length (xd_nodes d') = length ?h"
      "\<forall>x < length ?h. xd_nodes d' ! x = (if x = c then (?h ! c)\<lparr>n_prev := None, n_next := None, n_parent := Some p\<rparr>
        else if x = p then (?h ! p)\<lparr>n_first := Some c, n_last := Some c\<rparr> else ?h ! x)"
      using run(1) p assms(2,3) by (simp add: kids_ok_def)
    have "store_ok (xd_nodes d') (ch(p := [c]))"
      by (rule store_ok_relink [OF assms(1) p(1) d'(3)]) (use assms p d' in \<open>simp_all add: kids_ok_def\<close>)
    moreover have "same_data d d'" using d' by (simp add: same_data_def)
    ultimately show ?thesis using Nil d'(1) by simp
  next
    case (Cons f fs)
    then have f: "n_first (?h ! p) = Some f" "f \<in> set (ch p)" using p(2) by (auto simp: kids_ok_def)
    have ff: "f < length ?h" "p < f" "n_parent (?h ! f) = Some p" "f \<noteq> c"
      using store_okD [OF assms(1) f(2)] c f(2) by auto
    obtain d' where d': "prepend_node p c d = Ret () d'" "xd_attrs d' = xd_attrs d" "length (xd_nodes d') = length ?h"
      "\<forall>x < length ?h. xd_nodes d' ! x = (if x = c then (?h ! c)\<lparr>n_prev := None, n_next := Some f, n_parent := Some p\<rparr>
        else if x = f then (?h ! f)\<lparr>n_prev := Some c\<rparr> else if x = p then (?h ! p)\<lparr>n_first := Some c\<rparr> else ?h ! x)"
      using run(2) [OF f(1) ff(1)] p assms(2,3) ff by simp
    have xs: "x < length ?h" "x \<noteq> p" "x \<noteq> c" "n_parent (?h ! x) = Some p" "p < x" if "x \<in> set (ch p)" for x
      using store_okD [OF assms(1) that] c that by auto
    have ch: "chain ?h p (Some f) fs" "f \<notin> set fs" using p(2) Cons by (auto simp: kids_ok_def)
    have "chain (xd_nodes d') p (Some f) fs"
      by (rule chain_cong [OF _ _ ch(1)]) (use d' xs ch(2) Cons in auto)
    then have k: "kids_ok (xd_nodes d') p (c # ch p)"
      using p c f ff d' assms(2,3) Cons by (auto simp: kids_ok_def split: list.splits)
    have "store_ok (xd_nodes d') (ch(p := c # ch p))"
    proof (rule store_ok_relink [OF assms(1) p(1) d'(3) k])
      fix x
      show "p < x" "n_parent (?h ! x) = Some p \<or> n_parent (?h ! x) = None" if "x \<in> set (c # ch p)"
        using that xs assms(2,4) by auto
    qed (use d' ff assms(2) in auto)
    moreover have "same_data d d'" using d' by (simp add: same_data_def)
    ultimately show ?thesis using d'(1) by simp
  qed
qed

section \<open>New nodes and empty documents\<close>

definition fresh_node :: "NodeKind \<Rightarrow> bytes \<Rightarrow> bytes \<Rightarrow> XMLNode" where
  "fresh_node k name value = (XMLNode_new k)\<lparr>n_name := name, n_value := value\<rparr>"

lemma allocate_node_run:
  "allocate_node k None (Some v) d = Ret (length (xd_nodes d)) (d\<lparr>xd_nodes := xd_nodes d @ [fresh_node k [] v]\<rparr>)"
  "allocate_node k (Some n) None d = Ret (length (xd_nodes d)) (d\<lparr>xd_nodes := xd_nodes d @ [fresh_node k n []]\<rparr>)"
  "allocate_node k (Some n) (Some v) d =
     Ret (length (xd_nodes d)) (d\<lparr>xd_nodes := xd_nodes d @ [fresh_node k (if v = [] then [] else n) v]\<rparr>)"
  by (simp_all add: allocate_node_def fresh_node_def XMLNode_new_def node_name_def node_value_def node_value_str_def
      Let_def)

lemma fresh_node_simps [simp]:
  "n_type (fresh_node k n v) = k" "n_name (fresh_node k n v) = n" "n_value (fresh_node k n v) = v"
  "n_parent (fresh_node k n v) = None" "n_first (fresh_node k n v) = None" "n_first_attr (fresh_node k n v) = None"
  by (simp_all add: fresh_node_def XMLNode_new_def)

lemma store_ok_alloc:
  assumes "store_ok h ch" "n_first n = None"
  shows "store_ok (h @ [n]) ch"
proof -
  have "kids_ok (h @ [n]) p (ch p)" if "p < length h" for p
    by (rule kids_ok_cong [of h]) (use assms that store_okD(2) [OF assms(1)] in \<open>auto simp: store_ok_def nth_append\<close>)
  moreover have "kids_ok (h @ [n]) (length h) (ch (length h))"
    using assms by (simp add: store_ok_def kids_ok_def)
  ultimately show ?thesis using assms by (auto simp: store_ok_def nth_append less_Suc_eq)
qed

lemma store_ok_root:
  assumes "n_type n = node_document" "n_parent n = None" "n_first n = None"
  shows "store_ok [n] (\<lambda>_. [])"
  using assms by (simp add: store_ok_def kids_ok_def)

lemma root_loop_root: "store_ok h ch \<Longrightarrow> root_loop h 0 = Some 0"
  by (simp add: store_ok_def root_loop.simps)

lemma node_document_of_root: "store_ok (xd_nodes d) ch \<Longrightarrow> node_document_of 0 d = Ret (Some 0) d"
  by (simp add: node_document_of_def root_loop_root) (simp add: store_ok_def)

lemma unlink_loop_chain:
  assumes "chain h p q xs" "distinct xs"
  shows "\<exists>h'. unlink_loop h (case xs of [] \<Rightarrow> None | x # _ \<Rightarrow> Some x) = Some h' \<and> length h' = length h
    \<and> (\<forall>x. x \<notin> set xs \<longrightarrow> h' ! x = h ! x)"
  using assms
proof (induction xs arbitrary: h q)
  case (Cons x xs)
  let ?h = "h[x := (h ! x)\<lparr>n_parent := None\<rparr>]"
  have "chain h p (Some x) xs" "x \<notin> set xs" "x < length h" using Cons.prems by auto
  then have "chain ?h p (Some x) xs" by - (rule chain_cong [of h], auto simp: nth_list_update)
  moreover have "distinct xs" using Cons.prems(2) by simp
  ultimately obtain h' where h':
    "unlink_loop ?h (case xs of [] \<Rightarrow> None | y # _ \<Rightarrow> Some y) = Some h'" "length h' = length ?h"
    "\<forall>y. y \<notin> set xs \<longrightarrow> h' ! y = ?h ! y"
    using Cons.IH by blast
  have "unlink_loop h (Some x) = unlink_loop ?h (case xs of [] \<Rightarrow> None | y # _ \<Rightarrow> Some y)"
    using Cons.prems(1) by (subst unlink_loop.simps) simp
  moreover have "h' ! y = h ! y" if "y \<notin> set (x # xs)" for y
    using h'(3) that by simp
  ultimately show ?case using h'(1,2) by (intro exI [of _ h']) simp
qed (simp add: unlink_loop.simps)

lemma XMLDocument_clear_ok:
  assumes "store_ok (xd_nodes d) ch" "n_first_attr (xd_nodes d ! 0) = None"
  shows "XMLDocument_clear d = Ret () (d\<lparr>xd_nodes := [(xd_nodes d ! 0)\<lparr>n_first := None, n_first_attr := None\<rparr>], xd_attrs := []\<rparr>)"
proof -
  let ?h = "xd_nodes d"
  have h: "0 < length ?h" "kids_ok ?h 0 (ch 0)" "0 \<notin> set (ch 0)" using assms(1) by (auto simp: store_ok_def)
  obtain h' where h': "unlink_loop ?h (n_first (?h ! 0)) = Some h'" "length h' = length ?h" "h' ! 0 = ?h ! 0"
    using unlink_loop_chain [of ?h 0 None "ch 0"] h by (auto simp: kids_ok_def)
  have t: "take (Suc 0) (xs[0 := y]) = [y]" if "0 < length xs" for xs :: "XMLNode list" and y
    using that by (cases xs) simp_all
  show ?thesis
    using h(1) h' assms(2) by (simp add: XMLDocument_clear_def remove_all_nodes_def remove_all_attributes_def
        MemoryPool_clear_def unlink_attrs.simps upd_node_def t)
qed

section \<open>Documents as trees\<close>

datatype xtree = XTree NodeKind bytes bytes "xtree list"

text \<open>What a walk along the first and next pointers finds.\<close>

partial_function (option) walk :: "XMLNode list \<Rightarrow> nat option \<Rightarrow> xtree list option" where
  "walk h q = (case q of None \<Rightarrow> Some []
     | Some p \<Rightarrow> if p < length h
         then Option.bind (walk h (n_first (h ! p))) (\<lambda>ks. Option.bind (walk h (n_next (h ! p)))
           (\<lambda>ts. Some (XTree (n_type (h ! p)) (n_name (h ! p)) (n_value (h ! p)) ks # ts)))
         else None)"

declare walk.simps [code]

definition document_forest :: "XMLDocument \<Rightarrow> xtree list option" where
  "document_forest d = walk (xd_nodes d) (n_first (xd_nodes d ! 0))"

function tree :: "XMLNode list \<Rightarrow> (nat \<Rightarrow> nat list) \<Rightarrow> nat \<Rightarrow> xtree" where
  "tree h ch p = XTree (n_type (h ! p)) (n_name (h ! p)) (n_value (h ! p))
     (map (tree h ch) (filter (\<lambda>c. p < c \<and> c < length h) (ch p)))"
  by auto
termination by (relation "measure (\<lambda>(h, ch, p). length h - p)") auto

declare tree.simps [simp del]

lemma tree_eq:
  assumes "store_ok h ch"
  shows "tree h ch p = XTree (n_type (h ! p)) (n_name (h ! p)) (n_value (h ! p)) (map (tree h ch) (ch p))"
proof -
  have "filter (\<lambda>c. p < c \<and> c < length h) (ch p) = ch p"
    by (rule filter_True) (use store_okD [OF assms] in blast)
  then show ?thesis by (simp add: tree.simps [of h ch p])
qed

text \<open>A tree depends on the nodes younger than its root only.\<close>

lemma tree_cong:
  assumes "store_ok h ch" "store_ok h' ch'" "p < length h"
    and "\<And>x. p \<le> x \<Longrightarrow> x < length h \<Longrightarrow> ch' x = ch x \<and> n_type (h' ! x) = n_type (h ! x)
      \<and> n_name (h' ! x) = n_name (h ! x) \<and> n_value (h' ! x) = n_value (h ! x)"
  shows "tree h' ch' p = tree h ch p"
  using assms(3,4)
proof (induction "length h - p" arbitrary: p rule: less_induct)
  case less
  have "tree h' ch' c = tree h ch c" if "c \<in> set (ch p)" for c
  proof (rule less.hyps)
    show "length h - c < length h - p" "c < length h" using store_okD [OF assms(1) that] by auto
    fix x assume "c \<le> x" "x < length h"
    then show "ch' x = ch x \<and> n_type (h' ! x) = n_type (h ! x) \<and> n_name (h' ! x) = n_name (h ! x) \<and> n_value (h' ! x) = n_value (h ! x)"
      using less.prems(2) store_okD(4) [OF assms(1) that] by simp
  qed
  then show ?case using less.prems by (simp add: tree_eq [OF assms(1)] tree_eq [OF assms(2)])
qed

lemma walk_tree:
  assumes "store_ok h ch" "p < length h"
  shows "walk h (n_first (h ! p)) = Some (map (tree h ch) (ch p))"
  using assms(2)
proof (induction "length h - p" arbitrary: p rule: less_induct)
  case less
  have sib: "walk h (case xs of [] \<Rightarrow> None | x # _ \<Rightarrow> Some x) = Some (map (tree h ch) xs)"
    if "chain h p q xs" "set xs \<subseteq> set (ch p)" for q xs
    using that
  proof (induction xs arbitrary: q)
    case Nil
    show ?case by (simp add: walk.simps)
  next
    case (Cons x xs)
    then have x: "p < x" "x < length h" using store_okD [OF assms(1), of x p] by auto
    have "walk h (n_first (h ! x)) = Some (map (tree h ch) (ch x))" by (rule less.hyps) (use x in auto)
    moreover have "walk h (n_next (h ! x)) = Some (map (tree h ch) xs)" using Cons by auto
    ultimately show ?case using x by (simp add: walk.simps [of h "Some x"] tree_eq [OF assms(1), of x])
  qed
  have "kids_ok h p (ch p)" using assms(1) less.prems by (simp add: store_ok_def)
  then show ?case using sib [of None "ch p"] by (simp add: kids_ok_def)
qed

lemma document_forest_ok:
  assumes "store_ok (xd_nodes d) ch"
  shows "document_forest d = Some (map (tree (xd_nodes d) ch) (ch 0))"
  using walk_tree [OF assms, of 0] assms by (simp add: document_forest_def store_ok_def)

end
