(* ===== verification/XMLSerializer.thy ===== *)
theory XMLSerializer
  imports EventCalls XMLStore
begin

text \<open>
  The serializer that builds an XML document from the events of a decoder
  (\<open>exi/Decode/XMLSerializer.hpp\<close>), on the store of nodes, and what it builds from the calls of a
  document. The text it prints for entity references is not modelled; that callback is never called.
\<close>

section \<open>State and callbacks\<close>

record XMLSerializer =
  xs_Doc :: XMLDocument
  xs_Curr :: "nat option"
  xs_Attr :: "nat option"

definition XMLSerializer_new :: XMLSerializer where
  "XMLSerializer_new = \<lparr>xs_Doc = XMLDocument_new, xs_Curr = None, xs_Attr = None\<rparr>"

type_synonym 'a xs = "XMLSerializer \<Rightarrow> ('a, XMLSerializer) exi"

definition docM :: "'a xd \<Rightarrow> 'a xs" where
  "docM = zoomM xs_Doc (\<lambda>d s. s\<lparr>xs_Doc := d\<rparr>)"

text \<open>An operation on the current node.\<close>

definition currM :: "(nat \<Rightarrow> 'a xd) \<Rightarrow> 'a xs" where
  "currM f = bindM (getM xs_Curr) (\<lambda>p. docM (bindM (ptrM p) f))"

definition getFullName :: "QName \<Rightarrow> bytes" where
  "getFullName q = (if qn_Prefix q \<noteq> [] then qn_Prefix q @ [0x3A] @ qn_Name q else qn_Name q)"

definition allocNode :: "NodeKind \<Rightarrow> QName \<Rightarrow> nat xs" where
  "allocNode k q = docM (allocate_node k (Some (getFullName q)) None)"

definition allocValue :: "NodeKind \<Rightarrow> bytes \<Rightarrow> nat xs" where
  "allocValue k v = docM (allocate_node k None (Some v))"

definition allocNodeStr :: "NodeKind \<Rightarrow> bytes \<Rightarrow> bytes \<Rightarrow> nat xs" where
  "allocNodeStr k n v = docM (allocate_node k (Some n) (Some v))"

definition allocAttr :: "QName \<Rightarrow> bytes \<Rightarrow> nat xs" where
  "allocAttr q v = docM (allocate_attribute (Some (getFullName q)) (Some v))"

definition xml_SD :: "unit xs" where
  "xml_SD = thenM (docM XMLDocument_clear) (bindM (docM (node_document_of 0)) (\<lambda>p.
     modM (\<lambda>s. s\<lparr>xs_Curr := p, xs_Attr := None\<rparr>)))"

definition xml_ED :: "unit xs" where
  "xml_ED = bindM (docM (node_document_of 0)) (\<lambda>p.
     thenM (modM (\<lambda>s. s\<lparr>xs_Curr := p, xs_Attr := None\<rparr>)) (errM ExiError_DONE))"

definition xml_SE :: "QName \<Rightarrow> unit xs" where
  "xml_SE q = bindM (allocNode node_element q) (\<lambda>n.
     thenM (currM (\<lambda>c. append_node c n)) (modM (\<lambda>s. s\<lparr>xs_Curr := Some n\<rparr>)))"

definition xml_EE :: "QName \<Rightarrow> unit xs" where
  "xml_EE q = bindM (currM nodeM) (\<lambda>c.
     thenM (modM (\<lambda>s. s\<lparr>xs_Curr := n_parent c\<rparr>))
       (if n_parent c = None then bindM (docM (node_document_of 0)) (\<lambda>p. modM (\<lambda>s. s\<lparr>xs_Curr := p\<rparr>)) else retM ()))"

definition xml_AT :: "QName \<Rightarrow> bytes \<Rightarrow> unit xs" where
  "xml_AT q v = bindM (allocAttr q v) (\<lambda>a.
     thenM (modM (\<lambda>s. s\<lparr>xs_Attr := Some a\<rparr>)) (currM (\<lambda>c. append_attribute c a)))"

definition xml_NS :: "bytes \<Rightarrow> bytes \<Rightarrow> bool \<Rightarrow> unit xs" where
  "xml_NS uri prefix local = bindM (allocAttr \<lparr>qn_URI = [], qn_Name = prefix, qn_Prefix = str ''xmlns''\<rparr> uri) (\<lambda>a.
     thenM (modM (\<lambda>s. s\<lparr>xs_Attr := Some a\<rparr>)) (currM (\<lambda>c. append_attribute c a)))"

definition xml_CH :: "bytes \<Rightarrow> unit xs" where
  "xml_CH v = bindM (allocValue node_data v) (\<lambda>n. currM (\<lambda>c. prepend_node c n))"

definition xml_CM :: "bytes \<Rightarrow> unit xs" where
  "xml_CM v = bindM (allocValue node_comment v) (\<lambda>n. currM (\<lambda>c. append_node c n))"

definition xml_PI :: "bytes \<Rightarrow> bytes \<Rightarrow> unit xs" where
  "xml_PI target txt = bindM (allocNodeStr node_pi target txt) (\<lambda>n. currM (\<lambda>c. append_node c n))"

definition xml_DT :: "bytes \<Rightarrow> bytes \<Rightarrow> bytes \<Rightarrow> bytes \<Rightarrow> unit xs" where
  "xml_DT name pub sys txt = bindM (allocValue node_doctype txt) (\<lambda>n. currM (\<lambda>c. append_node c n))"

definition xml_serializer :: "XMLSerializer Serializer" where
  "xml_serializer = \<lparr>ser_SD = xml_SD, ser_ED = xml_ED, ser_SE = xml_SE, ser_EE = xml_EE,
     ser_SC = ser_SC Serializer_base, ser_AT = xml_AT, ser_NS = xml_NS, ser_CH = xml_CH, ser_CM = xml_CM,
     ser_PI = xml_PI, ser_DT = xml_DT, ser_ER = (\<lambda>_. retM ())\<rparr>"

section \<open>The callbacks on a sound document\<close>

text \<open>\<open>level ch p n\<close>: the node \<open>p\<close> is \<open>n\<close> steps below the root.\<close>

primrec level :: "(nat \<Rightarrow> nat list) \<Rightarrow> nat \<Rightarrow> nat \<Rightarrow> bool" where
  "level ch p 0 \<longleftrightarrow> p = 0"
| "level ch p (Suc n) \<longleftrightarrow> (\<exists>q. p \<in> set (ch q) \<and> level ch q n)"

lemma level_mono:
  assumes "level ch p n" "\<And>q. set (ch q) \<subseteq> set (ch' q)"
  shows "level ch' p n"
  using assms(1) by (induction n arbitrary: p) (use assms(2) in auto)

definition no_attributes :: "XMLNode list \<Rightarrow> bool" where
  "no_attributes h \<longleftrightarrow> (\<forall>x < length h. n_first_attr (h ! x) = None)"

definition xml_sound :: "XMLSerializer \<Rightarrow> (nat \<Rightarrow> nat list) \<Rightarrow> bool" where
  "xml_sound s ch \<longleftrightarrow> store_ok (xd_nodes (xs_Doc s)) ch \<and> no_attributes (xd_nodes (xs_Doc s))"

lemma no_attributes_same: "same_data d d' \<Longrightarrow> no_attributes (xd_nodes d) \<Longrightarrow> no_attributes (xd_nodes d')"
  by (simp add: no_attributes_def same_data_def)

lemma docM_run [simp]:
  "m (xs_Doc s) = Ret a d \<Longrightarrow> docM m s = Ret a (s\<lparr>xs_Doc := d\<rparr>)"
  "m (xs_Doc s) = Fault f \<Longrightarrow> docM m s = Fault f"
  by (simp_all add: docM_def zoomM_def)

lemma currM_run [simp]: "xs_Curr s = Some p \<Longrightarrow> currM f s = docM (f p) s"
  by (simp add: currM_def docM_def zoomM_def ptrM_def bindM_def)

lemma currM_None [simp]: "xs_Curr s = None \<Longrightarrow> currM f s = Fault Undefined"
  by (simp add: currM_def docM_def zoomM_def ptrM_def bindM_def)

text \<open>A new leaf below the current node, as its last or its first child.\<close>

definition grown :: "bool \<Rightarrow> XMLNode \<Rightarrow> XMLSerializer \<Rightarrow> (nat \<Rightarrow> nat list) \<Rightarrow> nat \<Rightarrow> XMLSerializer \<Rightarrow> (nat \<Rightarrow> nat list) \<Rightarrow> bool" where
  "grown front n s ch p s' ch' \<longleftrightarrow> xml_sound s' ch'
     \<and> ch' = ch(p := if front then length (xd_nodes (xs_Doc s)) # ch p else ch p @ [length (xd_nodes (xs_Doc s))])
     \<and> same_data ((xs_Doc s)\<lparr>xd_nodes := xd_nodes (xs_Doc s) @ [n]\<rparr>) (xs_Doc s') \<and> xs_Curr s' = xs_Curr s \<and> xs_Attr s' = xs_Attr s"

lemma grown_leaf:
  assumes "xml_sound s ch" "p < length (xd_nodes (xs_Doc s))" "xs_Curr s = Some p" "k \<noteq> node_document"
    and "n = fresh_node k nm v"
    and "link = (if front then prepend_node else append_node)"
  shows "\<exists>s'. docM (link p (length (xd_nodes (xs_Doc s)))) (s\<lparr>xs_Doc := (xs_Doc s)\<lparr>xd_nodes := xd_nodes (xs_Doc s) @ [n]\<rparr>\<rparr>) = Ret () s'
    \<and> grown front n s ch p s' (ch(p := if front then length (xd_nodes (xs_Doc s)) # ch p else ch p @ [length (xd_nodes (xs_Doc s))]))"
proof -
  define d where "d = (xs_Doc s)\<lparr>xd_nodes := xd_nodes (xs_Doc s) @ [n]\<rparr>"
  let ?c = "length (xd_nodes (xs_Doc s))"
  have d: "xd_nodes d = xd_nodes (xs_Doc s) @ [n]" by (simp add: d_def)
  have ok: "store_ok (xd_nodes d) ch" using store_ok_alloc [of "xd_nodes (xs_Doc s)" ch n] assms(1,5) by (simp add: d xml_sound_def)
  have c: "p < ?c" "?c < length (xd_nodes d)" "n_parent (xd_nodes d ! ?c) = None" "n_type (xd_nodes d ! ?c) \<noteq> node_document"
    using assms(2,4,5) by (simp_all add: d)
  have na: "no_attributes (xd_nodes d)" using assms(1,5) by (simp add: d no_attributes_def xml_sound_def nth_append less_Suc_eq)
  obtain d' where d': "link p ?c d = Ret () d'" "same_data d d'"
    "store_ok (xd_nodes d') (ch(p := if front then ?c # ch p else ch p @ [?c]))"
    using append_node_ok [OF ok c] prepend_node_ok [OF ok c] assms(6) by (cases front) auto
  have "docM (link p ?c) (s\<lparr>xs_Doc := d\<rparr>) = Ret () (s\<lparr>xs_Doc := d'\<rparr>)" using d'(1) by simp
  moreover have "grown front n s ch p (s\<lparr>xs_Doc := d'\<rparr>) (ch(p := if front then ?c # ch p else ch p @ [?c]))"
    using d' no_attributes_same [OF d'(2) na] by (auto simp: grown_def d_def xml_sound_def)
  ultimately show ?thesis unfolding d_def by blast
qed

lemma xml_leaf:
  assumes "xml_sound s ch" "p < length (xd_nodes (xs_Doc s))" "xs_Curr s = Some p"
  shows "\<exists>s'. xml_CH v s = Ret () s' \<and> grown True (fresh_node node_data [] v) s ch p s' (ch(p := length (xd_nodes (xs_Doc s)) # ch p))"
    and "\<exists>s'. xml_CM v s = Ret () s' \<and> grown False (fresh_node node_comment [] v) s ch p s' (ch(p := ch p @ [length (xd_nodes (xs_Doc s))]))"
    and "\<exists>s'. xml_PI t v s = Ret () s' \<and> grown False (fresh_node node_pi (if v = [] then [] else t) v) s ch p s'
      (ch(p := ch p @ [length (xd_nodes (xs_Doc s))]))"
    and "\<exists>s'. xml_DT a b e v s = Ret () s' \<and> grown False (fresh_node node_doctype [] v) s ch p s' (ch(p := ch p @ [length (xd_nodes (xs_Doc s))]))"
  using grown_leaf [OF assms(1-3) _ refl refl, of node_data True "[]" v] grown_leaf [OF assms(1-3) _ refl refl, of node_comment False "[]" v]
    grown_leaf [OF assms(1-3) _ refl refl, of node_doctype False "[]" v]
    grown_leaf [OF assms(1-3) _ refl refl, of node_pi False "if v = [] then [] else t" v] assms(3)
  by (simp_all add: xml_CH_def xml_CM_def xml_PI_def xml_DT_def allocValue_def allocNodeStr_def allocate_node_run)

lemma xml_SE_run:
  assumes "xml_sound s ch" "p < length (xd_nodes (xs_Doc s))" "xs_Curr s = Some p"
  shows "\<exists>s'. xml_SE q s = Ret () (s'\<lparr>xs_Curr := Some (length (xd_nodes (xs_Doc s)))\<rparr>)
    \<and> grown False (fresh_node node_element (getFullName q) []) s ch p s' (ch(p := ch p @ [length (xd_nodes (xs_Doc s))]))"
  using grown_leaf [OF assms(1-3) _ refl refl, of node_element False "getFullName q" "[]"] assms(3)
  by (auto simp add: xml_SE_def allocNode_def allocate_node_run)

lemma xml_EE_run:
  assumes "xml_sound s ch" "xs_Curr s = Some c" "c \<in> set (ch p)"
  shows "xml_EE q s = Ret () (s\<lparr>xs_Curr := Some p\<rparr>)"
  using store_okD [of "xd_nodes (xs_Doc s)" ch c p] assms by (simp add: xml_EE_def xml_sound_def)

text \<open>An attribute is allocated and recorded, and not linked to any node.\<close>

lemma append_attribute_drops:
  assumes "a < length (xd_attrs d)" "a_parent (xd_attrs d ! a) = None"
  shows "append_attribute p a d = Ret () d"
  using assms by (simp add: append_attribute_def attrM_def)

lemma allocate_attribute_fresh:
  "\<exists>a. allocate_attribute n v d = Ret (length (xd_attrs d)) (d\<lparr>xd_attrs := xd_attrs d @ [a]\<rparr>) \<and> a_parent a = None"
  unfolding allocate_attribute_def Let_def
  by (intro exI conjI, rule refl) (simp add: XMLAttribute_new_def split: option.split)

lemma xml_AT_run:
  assumes "xs_Curr s = Some p"
  shows "\<exists>d x. xml_AT q v s = Ret () (s\<lparr>xs_Attr := x, xs_Doc := d\<rparr>) \<and> xd_nodes d = xd_nodes (xs_Doc s)"
    and "\<exists>d x. xml_NS u f l s = Ret () (s\<lparr>xs_Attr := x, xs_Doc := d\<rparr>) \<and> xd_nodes d = xd_nodes (xs_Doc s)"
proof -
  have run: "\<exists>d x. bindM (allocAttr q v) (\<lambda>a. thenM (modM (\<lambda>s. s\<lparr>xs_Attr := Some a\<rparr>)) (currM (\<lambda>c. append_attribute c a))) s
    = Ret () (s\<lparr>xs_Attr := x, xs_Doc := d\<rparr>) \<and> xd_nodes d = xd_nodes (xs_Doc s)" for q v
  proof -
    obtain a where a: "allocate_attribute (Some (getFullName q)) (Some v) (xs_Doc s)
        = Ret (length (xd_attrs (xs_Doc s))) ((xs_Doc s)\<lparr>xd_attrs := xd_attrs (xs_Doc s) @ [a]\<rparr>)" "a_parent a = None"
      using allocate_attribute_fresh by blast
    then show ?thesis using assms by (auto simp: allocAttr_def append_attribute_drops intro!: exI [of _ "(xs_Doc s)\<lparr>xd_attrs := xd_attrs (xs_Doc s) @ [a]\<rparr>"])
  qed
  show "\<exists>d x. xml_AT q v s = Ret () (s\<lparr>xs_Attr := x, xs_Doc := d\<rparr>) \<and> xd_nodes d = xd_nodes (xs_Doc s)"
    using run by (simp add: xml_AT_def)
  show "\<exists>d x. xml_NS u f l s = Ret () (s\<lparr>xs_Attr := x, xs_Doc := d\<rparr>) \<and> xd_nodes d = xd_nodes (xs_Doc s)"
    using run by (simp add: xml_NS_def)
qed

lemma xml_SD_run:
  assumes "xml_sound s ch"
  shows "\<exists>s'. xml_SD s = Ret () s' \<and> xml_sound s' (\<lambda>_. []) \<and> xs_Curr s' = Some 0 \<and> xs_Attr s' = None"
proof -
  have ok: "store_ok (xd_nodes (xs_Doc s)) ch" "n_first_attr (xd_nodes (xs_Doc s) ! 0) = None"
    using assms by (auto simp: xml_sound_def no_attributes_def store_ok_def)
  define d where "d = (xs_Doc s)\<lparr>xd_nodes := [(xd_nodes (xs_Doc s) ! 0)\<lparr>n_first := None, n_first_attr := None\<rparr>], xd_attrs := []\<rparr>"
  have d: "store_ok (xd_nodes d) (\<lambda>_. [])" using ok(1) store_ok_root by (simp add: d_def store_ok_def kids_ok_def)
  then show ?thesis
    using XMLDocument_clear_ok [OF ok] node_document_of_root [OF d]
    by (auto simp: xml_SD_def xml_sound_def no_attributes_def d_def)
qed

lemma xml_ED_run:
  assumes "xml_sound s ch"
  shows "xml_ED s = Err ExiError_DONE (s\<lparr>xs_Curr := Some 0, xs_Attr := None\<rparr>)"
  using assms node_document_of_root [of "xs_Doc s" ch] by (simp add: xml_ED_def xml_sound_def docM_def zoomM_def)

section \<open>The document a list of calls builds\<close>

text \<open>The content of a document, its calls, and the nodes it becomes: text first, the last text in
  front, then the rest in order; attributes and namespaces become nothing.\<close>

datatype content =
    Element QName "content list" | Attribute QName bytes | Namespace bytes bytes bool | Characters bytes
  | Comment bytes | Instruction bytes bytes | Doctype bytes bytes bytes bytes

primrec calls_of :: "content \<Rightarrow> call list" where
  "calls_of (Element q cs) = cSE q # concat (map calls_of cs) @ [cEE q]"
| "calls_of (Attribute q v) = [cAT q v]"
| "calls_of (Namespace u p b) = [cNS u p b]"
| "calls_of (Characters v) = [cCH v]"
| "calls_of (Comment v) = [cCM v]"
| "calls_of (Instruction t v) = [cPI t v]"
| "calls_of (Doctype n p s t) = [cDT n p s t]"

definition text_of :: "content \<Rightarrow> xtree list" where
  "text_of c = (case c of Characters v \<Rightarrow> [XTree node_data [] v []] | _ \<Rightarrow> [])"

primrec nodes_of :: "content \<Rightarrow> xtree list" where
  "nodes_of (Element q cs) = [XTree node_element (getFullName q) [] (rev (concat (map text_of cs)) @ concat (map nodes_of cs))]"
| "nodes_of (Attribute q v) = []"
| "nodes_of (Namespace u p b) = []"
| "nodes_of (Characters v) = []"
| "nodes_of (Comment v) = [XTree node_comment [] v []]"
| "nodes_of (Instruction t v) = [XTree node_pi (if v = [] then [] else t) v []]"
| "nodes_of (Doctype n p s t) = [XTree node_doctype [] t []]"

definition built :: "content list \<Rightarrow> xtree list" where
  "built cs = rev (concat (map text_of cs)) @ concat (map nodes_of cs)"

text \<open>The document grew below \<open>p\<close>: \<open>A\<close> in front of its children, \<open>B\<close> behind them.\<close>

definition grows :: "XMLSerializer \<Rightarrow> (nat \<Rightarrow> nat list) \<Rightarrow> nat \<Rightarrow> XMLSerializer \<Rightarrow> (nat \<Rightarrow> nat list) \<Rightarrow> xtree list \<Rightarrow> xtree list \<Rightarrow> bool" where
  "grows s ch p s' ch' A B \<longleftrightarrow> xml_sound s' ch' \<and> xs_Curr s' = Some p
     \<and> length (xd_nodes (xs_Doc s)) \<le> length (xd_nodes (xs_Doc s'))
     \<and> (\<forall>x < length (xd_nodes (xs_Doc s)). (x \<noteq> p \<longrightarrow> ch' x = ch x)
         \<and> n_type (xd_nodes (xs_Doc s') ! x) = n_type (xd_nodes (xs_Doc s) ! x)
         \<and> n_name (xd_nodes (xs_Doc s') ! x) = n_name (xd_nodes (xs_Doc s) ! x)
         \<and> n_value (xd_nodes (xs_Doc s') ! x) = n_value (xd_nodes (xs_Doc s) ! x))
     \<and> (\<exists>as bs. ch' p = as @ ch p @ bs \<and> map (tree (xd_nodes (xs_Doc s')) ch') as = A
         \<and> map (tree (xd_nodes (xs_Doc s')) ch') bs = B)"

lemma grows_refl:
  assumes "xml_sound s ch" "xs_Curr s = Some p"
  shows "grows s ch p s ch [] []"
  using assms by (auto simp: grows_def)

lemma grows_trans:
  assumes "grows s ch p s1 ch1 A1 B1" "grows s1 ch1 p s2 ch2 A2 B2" "p < length (xd_nodes (xs_Doc s))"
  shows "grows s ch p s2 ch2 (A2 @ A1) (B1 @ B2)"
proof -
  let ?h1 = "xd_nodes (xs_Doc s1)" and ?h2 = "xd_nodes (xs_Doc s2)"
  have ok: "store_ok ?h1 ch1" "store_ok ?h2 ch2" using assms by (simp_all add: grows_def xml_sound_def)
  obtain as1 bs1 where 1: "ch1 p = as1 @ ch p @ bs1" "map (tree ?h1 ch1) as1 = A1" "map (tree ?h1 ch1) bs1 = B1"
    using assms(1) by (auto simp: grows_def)
  obtain as2 bs2 where 2: "ch2 p = as2 @ ch1 p @ bs2" "map (tree ?h2 ch2) as2 = A2" "map (tree ?h2 ch2) bs2 = B2"
    using assms(2) by (auto simp: grows_def)
  have "tree ?h2 ch2 x = tree ?h1 ch1 x" if "x \<in> set (ch1 p)" for x
    by (rule tree_cong [OF ok]) (use store_okD [OF ok(1) that] assms(2) in \<open>auto simp: grows_def\<close>)
  then have "map (tree ?h2 ch2) (as2 @ as1) = A2 @ A1" "map (tree ?h2 ch2) (bs1 @ bs2) = B1 @ B2"
    using 1 2 by (auto simp: map_eq_conv)
  moreover have "ch2 p = (as2 @ as1) @ ch p @ (bs1 @ bs2)" using 1(1) 2(1) by simp
  ultimately have "\<exists>as bs. ch2 p = as @ ch p @ bs \<and> map (tree ?h2 ch2) as = A2 @ A1 \<and> map (tree ?h2 ch2) bs = B1 @ B2"
    by blast
  then show ?thesis using assms(1,2) by (simp add: grows_def)
qed

lemma grown_tree:
  assumes "grown front (fresh_node k nm v) s ch p s' ch'" "xml_sound s ch" "p < length (xd_nodes (xs_Doc s))"
    and "xs_Curr s = Some p"
  shows "grows s ch p s' ch' (if front then [XTree k nm v []] else []) (if front then [] else [XTree k nm v []])"
proof -
  let ?h = "xd_nodes (xs_Doc s)" and ?h' = "xd_nodes (xs_Doc s')"
  have "ch (length ?h) = []" using assms(2) by (simp add: xml_sound_def store_ok_def)
  then have "ch' (length ?h) = []" using assms(1,3) by (simp add: grown_def)
  moreover have ok: "store_ok ?h' ch'" using assms(1) unfolding grown_def xml_sound_def by blast
  moreover have "n_type (?h' ! length ?h) = k \<and> n_name (?h' ! length ?h) = nm \<and> n_value (?h' ! length ?h) = v"
    using assms(1) by (simp add: grown_def same_data_def)
  ultimately have "tree ?h' ch' (length ?h) = XTree k nm v []" by (simp add: tree_eq [OF ok])
  moreover have "length ?h < length ?h'" "\<And>x. x < length ?h \<Longrightarrow> n_type (?h' ! x) = n_type (?h ! x)
      \<and> n_name (?h' ! x) = n_name (?h ! x) \<and> n_value (?h' ! x) = n_value (?h ! x)"
    using assms(1) by (simp_all add: grown_def same_data_def nth_append)
  moreover have "ch' p = (if front then [length ?h] else []) @ ch p @ (if front then [] else [length ?h])"
    "\<And>x. x \<noteq> p \<Longrightarrow> ch' x = ch x" "xs_Curr s' = Some p"
    using assms(1,4) by (simp_all add: grown_def)
  moreover have "xml_sound s' ch'" using assms(1) unfolding grown_def by blast
  ultimately show ?thesis
    unfolding grows_def by (intro conjI allI impI exI [of _ "if front then [length ?h] else []"]
        exI [of _ "if front then [] else [length ?h]"]) simp_all
qed

lemma grows_attribute:
  assumes "xml_sound s ch" "xs_Curr s = Some p" "xd_nodes d = xd_nodes (xs_Doc s)"
  shows "grows s ch p (s\<lparr>xs_Attr := x, xs_Doc := d\<rparr>) ch [] []"
  using grows_refl [OF assms(1,2)] assms(3) by (simp add: grows_def xml_sound_def)

lemma grows_calls:
  assumes "\<And>c s ch p. c \<in> set cs \<Longrightarrow> xml_sound s ch \<Longrightarrow> xs_Curr s = Some p \<Longrightarrow> p < length (xd_nodes (xs_Doc s)) \<Longrightarrow>
      \<exists>s' ch'. run_calls xml_serializer (calls_of c) s = Ret () s' \<and> grows s ch p s' ch' (text_of c) (nodes_of c)"
    and "xml_sound s ch" "xs_Curr s = Some p" "p < length (xd_nodes (xs_Doc s))"
  shows "\<exists>s' ch'. run_calls xml_serializer (concat (map calls_of cs)) s = Ret () s'
    \<and> grows s ch p s' ch' (rev (concat (map text_of cs))) (concat (map nodes_of cs))"
  using assms
proof (induction cs arbitrary: s ch)
  case Nil
  then show ?case using grows_refl by auto
next
  case (Cons c cs)
  obtain s1 ch1 where 1: "run_calls xml_serializer (calls_of c) s = Ret () s1" "grows s ch p s1 ch1 (text_of c) (nodes_of c)"
    using Cons.prems(1) [OF list.set_intros(1) Cons.prems(2-4)] by blast
  then have "xml_sound s1 ch1" "xs_Curr s1 = Some p" "p < length (xd_nodes (xs_Doc s1))"
    using Cons.prems(4) by (auto simp: grows_def)
  from Cons.IH [OF Cons.prems(1) [OF list.set_intros(2)] this] obtain s2 ch2 where 2: "run_calls xml_serializer (concat (map calls_of cs)) s1 = Ret () s2"
    "grows s1 ch1 p s2 ch2 (rev (concat (map text_of cs))) (concat (map nodes_of cs))" by blast
  have "rev (text_of c) = text_of c" by (simp add: text_of_def split: content.split)
  then show ?case using grows_trans [OF 1(2) 2(2) Cons.prems(4)] 1(1) 2(1) by (auto simp: run_calls_append)
qed

lemma grows_content:
  assumes "xml_sound s ch" "xs_Curr s = Some p" "p < length (xd_nodes (xs_Doc s))"
  shows "\<exists>s' ch'. run_calls xml_serializer (calls_of c) s = Ret () s' \<and> grows s ch p s' ch' (text_of c) (nodes_of c)"
  using assms
proof (induction c arbitrary: s ch p)
  case (Element q cs)
  let ?c = "length (xd_nodes (xs_Doc s))"
  obtain s1 where 1: "xml_SE q s = Ret () (s1\<lparr>xs_Curr := Some ?c\<rparr>)"
    "grown False (fresh_node node_element (getFullName q) []) s ch p s1 (ch(p := ch p @ [?c]))"
    using xml_SE_run [OF Element.prems(1,3,2)] by blast
  define t ch1 where "t = s1\<lparr>xs_Curr := Some ?c\<rparr>" and "ch1 = ch(p := ch p @ [?c])"
  have t: "xml_sound t ch1" "xs_Curr t = Some ?c" "?c < length (xd_nodes (xs_Doc t))" "xs_Doc t = xs_Doc s1"
    using 1(2) by (auto simp: t_def ch1_def grown_def xml_sound_def same_data_def)
  obtain s2 ch2 where 2: "run_calls xml_serializer (concat (map calls_of cs)) t = Ret () s2"
    "grows t ch1 ?c s2 ch2 (rev (concat (map text_of cs))) (concat (map nodes_of cs))"
    using grows_calls [of cs t ch1 ?c] Element.IH t by blast
  let ?s = "s2\<lparr>xs_Curr := Some p\<rparr>" and ?h1 = "xd_nodes (xs_Doc t)" and ?h2 = "xd_nodes (xs_Doc s2)"
  have p: "p < ?c" "p \<noteq> ?c" using Element.prems(3) by auto
  have ok2: "xml_sound s2 ch2" "store_ok ?h2 ch2" using 2(2) by (simp_all add: grows_def xml_sound_def)
  have ch2: "ch2 p = ch p @ [?c]" using 2(2) p t(3) by (auto simp: grows_def ch1_def)
  have ee: "xml_EE q s2 = Ret () ?s"
    by (rule xml_EE_run [OF ok2(1), of ?c]) (use 2(2) ch2 in \<open>simp_all add: grows_def\<close>)
  have "ch ?c = []" using Element.prems(1) by (auto simp: xml_sound_def store_ok_def)
  then have kids: "map (tree ?h2 ch2) (ch2 ?c) = rev (concat (map text_of cs)) @ concat (map nodes_of cs)"
    using 2(2) p by (auto simp: grows_def ch1_def)
  have "n_type (?h2 ! ?c) = node_element \<and> n_name (?h2 ! ?c) = getFullName q \<and> n_value (?h2 ! ?c) = []"
    using 2(2) t 1(2) by (simp add: grows_def grown_def same_data_def)
  then have tree: "map (tree ?h2 ch2) [?c] = nodes_of (Element q cs)" using kids by (simp add: tree_eq [OF ok2(2)])
  have old: "(x \<noteq> p \<longrightarrow> ch2 x = ch x) \<and> n_type (?h2 ! x) = n_type (xd_nodes (xs_Doc s) ! x)
      \<and> n_name (?h2 ! x) = n_name (xd_nodes (xs_Doc s) ! x) \<and> n_value (?h2 ! x) = n_value (xd_nodes (xs_Doc s) ! x)" if "x < ?c" for x
    using 2(2) 1(2) t that by (auto simp: grows_def grown_def same_data_def ch1_def nth_append)
  have "?c \<le> length ?h2" using 2(2) t(3) by (simp add: grows_def)
  then have "grows s ch p ?s ch2 (text_of (Element q cs)) (nodes_of (Element q cs))"
    using old tree ch2 ok2(1) by (auto simp: grows_def xml_sound_def text_of_def intro!: exI [of _ "[] :: nat list"])
  moreover have "run_calls xml_serializer (calls_of (Element q cs)) s = Ret () ?s"
    using 1(1) 2(1) ee by (simp add: run_calls_append xml_serializer_def t_def)
  ultimately show ?case by blast
next
  case (Attribute q v)
  then show ?case using xml_AT_run(1) [of s p q v] grows_attribute [of s ch p]
    by (fastforce simp: xml_serializer_def text_of_def)
next
  case (Namespace u f b)
  then show ?case using xml_AT_run(2) [of s p u f b] grows_attribute [of s ch p]
    by (fastforce simp: xml_serializer_def text_of_def)
next
  case (Characters v)
  obtain s' where s': "xml_CH v s = Ret () s'"
    "grown True (fresh_node node_data [] v) s ch p s' (ch(p := length (xd_nodes (xs_Doc s)) # ch p))"
    using xml_leaf(1) [OF Characters.prems(1,3,2)] by auto
  show ?case using s'(1) grown_tree [OF s'(2) Characters.prems(1,3,2)] by (auto simp: xml_serializer_def text_of_def)
next
  case (Comment v)
  obtain s' where s': "xml_CM v s = Ret () s'"
    "grown False (fresh_node node_comment [] v) s ch p s' (ch(p := ch p @ [length (xd_nodes (xs_Doc s))]))"
    using xml_leaf(2) [OF Comment.prems(1,3,2)] by auto
  show ?case using s'(1) grown_tree [OF s'(2) Comment.prems(1,3,2)] by (auto simp: xml_serializer_def text_of_def)
next
  case (Instruction t v)
  obtain s' where s': "xml_PI t v s = Ret () s'"
    "grown False (fresh_node node_pi (if v = [] then [] else t) v) s ch p s' (ch(p := ch p @ [length (xd_nodes (xs_Doc s))]))"
    using xml_leaf(3) [OF Instruction.prems(1,3,2)] by auto
  show ?case using s'(1) grown_tree [OF s'(2) Instruction.prems(1,3,2)] by (auto simp: xml_serializer_def text_of_def)
next
  case (Doctype n u y t)
  obtain s' where s': "xml_DT n u y t s = Ret () s'"
    "grown False (fresh_node node_doctype [] t) s ch p s' (ch(p := ch p @ [length (xd_nodes (xs_Doc s))]))"
    using xml_leaf(4) [OF Doctype.prems(1,3,2)] by blast
  show ?case using s'(1) grown_tree [OF s'(2) Doctype.prems(1,3,2)] by (auto simp: xml_serializer_def text_of_def)
qed

section \<open>Any decoded document\<close>

text \<open>\<open>n\<close> elements are open; before the start of the document there is no current node.\<close>

definition xml_opens :: "nat \<Rightarrow> XMLSerializer \<Rightarrow> bool" where
  "xml_opens n s \<longleftrightarrow> (\<exists>ch. xml_sound s ch \<and> (case xs_Curr s of None \<Rightarrow> n = 0
     | Some p \<Rightarrow> p < length (xd_nodes (xs_Doc s)) \<and> level ch p n))"

definition xml_wf :: "XMLSerializer \<Rightarrow> bool" where
  "xml_wf s \<longleftrightarrow> (\<exists>ch. xml_sound s ch)"

lemma xml_opensE:
  assumes "xml_opens n s" "xs_Curr s \<noteq> None"
  obtains ch p where "xml_sound s ch" "xs_Curr s = Some p" "p < length (xd_nodes (xs_Doc s))" "level ch p n"
  using assms by (auto simp: xml_opens_def)

lemma grown_opens:
  assumes "grown front nd s ch p s' ch'" "xs_Curr s = Some p" "level ch p n" "p < length (xd_nodes (xs_Doc s))"
  shows "xml_opens n s'"
proof -
  have "level ch' p n" by (rule level_mono [OF assms(3)]) (use assms(1) in \<open>auto simp: grown_def\<close>)
  then show ?thesis using assms by (auto simp: xml_opens_def grown_def same_data_def)
qed

lemma no_current:
  assumes "xs_Curr s = None"
  shows "xml_SE q s = Fault Undefined" "xml_EE q s = Fault Undefined" "xml_AT q v s = Fault Undefined"
    "xml_NS u f b s = Fault Undefined" "xml_CH v s = Fault Undefined" "xml_CM v s = Fault Undefined"
    "xml_PI t v s = Fault Undefined" "xml_DT a b' c v s = Fault Undefined"
  using assms by (simp_all add: xml_SE_def xml_EE_def xml_AT_def xml_NS_def xml_CH_def xml_CM_def xml_PI_def xml_DT_def
      allocNode_def allocValue_def allocNodeStr_def allocAttr_def allocate_node_run allocate_attribute_def Let_def)

lemma leaf_opens:
  assumes "xml_opens n s" "xs_Curr s \<noteq> None"
  shows "\<exists>s'. xml_CH v s = Ret () s' \<and> xml_opens n s'" "\<exists>s'. xml_CM v s = Ret () s' \<and> xml_opens n s'"
    "\<exists>s'. xml_PI t v s = Ret () s' \<and> xml_opens n s'" "\<exists>s'. xml_DT a b c v s = Ret () s' \<and> xml_opens n s'"
proof -
  obtain ch p where o: "xml_sound s ch" "xs_Curr s = Some p" "p < length (xd_nodes (xs_Doc s))" "level ch p n"
    using assms by (rule xml_opensE)
  note g = grown_opens [OF _ o(2,4,3)] and r = xml_leaf [OF o(1,3,2)]
  show "\<exists>s'. xml_CH v s = Ret () s' \<and> xml_opens n s'" using r(1) g by blast
  show "\<exists>s'. xml_CM v s = Ret () s' \<and> xml_opens n s'" using r(2) g by blast
  show "\<exists>s'. xml_PI t v s = Ret () s' \<and> xml_opens n s'" using r(3) g by blast
  show "\<exists>s'. xml_DT a b c v s = Ret () s' \<and> xml_opens n s'" using r(4) g by blast
qed

lemma element_opens:
  assumes "xml_opens n s" "xs_Curr s \<noteq> None"
  shows "\<exists>s'. xml_SE q s = Ret () s' \<and> xml_opens (Suc n) s'"
    "n = Suc m \<Longrightarrow> \<exists>s'. xml_EE q s = Ret () s' \<and> xml_opens m s'"
    "\<exists>s'. xml_AT q v s = Ret () s' \<and> xml_opens n s'" "\<exists>s'. xml_NS u f b s = Ret () s' \<and> xml_opens n s'"
proof -
  obtain ch p where o: "xml_sound s ch" "xs_Curr s = Some p" "p < length (xd_nodes (xs_Doc s))" "level ch p n"
    using assms by (rule xml_opensE)
  let ?c = "length (xd_nodes (xs_Doc s))"
  obtain s' where s': "xml_SE q s = Ret () (s'\<lparr>xs_Curr := Some ?c\<rparr>)"
    "grown False (fresh_node node_element (getFullName q) []) s ch p s' (ch(p := ch p @ [?c]))"
    using xml_SE_run [OF o(1,3,2)] by blast
  have "level (ch(p := ch p @ [?c])) p n" using o(4) by (rule level_mono) auto
  then have "level (ch(p := ch p @ [?c])) ?c (Suc n)" by (auto intro: exI [of _ p])
  moreover have "xml_sound (s'\<lparr>xs_Curr := Some ?c\<rparr>) (ch(p := ch p @ [?c]))" "?c < length (xd_nodes (xs_Doc s'))"
    using s'(2) by (auto simp: grown_def xml_sound_def same_data_def)
  ultimately have "xml_opens (Suc n) (s'\<lparr>xs_Curr := Some ?c\<rparr>)"
    unfolding xml_opens_def by (intro exI [of _ "ch(p := ch p @ [?c])"]) (simp del: level.simps)
  then show "\<exists>s'. xml_SE q s = Ret () s' \<and> xml_opens (Suc n) s'" using s'(1) by blast
  show "\<exists>s'. xml_EE q s = Ret () s' \<and> xml_opens m s'" if "n = Suc m"
  proof -
    obtain r where r: "p \<in> set (ch r)" "level ch r m" using o(4) \<open>n = Suc m\<close> by auto
    have "r < ?c" using store_okD(1) [of "xd_nodes (xs_Doc s)" ch p r] o(1) r(1) by (simp add: xml_sound_def)
    then have "xml_opens m (s\<lparr>xs_Curr := Some r\<rparr>)" using o(1) r(2) by (auto simp: xml_opens_def xml_sound_def)
    then show ?thesis using xml_EE_run [OF o(1,2) r(1)] by blast
  qed
  have "xml_opens n (s\<lparr>xs_Attr := x, xs_Doc := d\<rparr>)" if "xd_nodes d = xd_nodes (xs_Doc s)" for x d
    using o that by (auto simp: xml_opens_def xml_sound_def)
  then show "\<exists>s'. xml_AT q v s = Ret () s' \<and> xml_opens n s'" "\<exists>s'. xml_NS u f b s = Ret () s' \<and> xml_opens n s'"
    using xml_AT_run [OF o(2)] by blast+
qed

lemma xml_begin:
  assumes "xml_wf s"
  shows "\<exists>s'. xml_SD s = Ret () s' \<and> xml_opens 0 s' \<and> xs_Curr s' \<noteq> None"
proof -
  obtain ch where "xml_sound s ch" using assms by (auto simp: xml_wf_def)
  from xml_SD_run [OF this] obtain s' where "xml_SD s = Ret () s'" "xml_sound s' (\<lambda>_. [])" "xs_Curr s' = Some 0" by blast
  moreover from this have "0 < length (xd_nodes (xs_Doc s'))" by (auto simp: xml_sound_def store_ok_def)
  ultimately show ?thesis by (auto simp: xml_opens_def)
qed

lemma xml_end: "xml_wf s \<Longrightarrow> \<exists>s'. xml_ED s = Err ExiError_DONE s' \<and> xml_wf s'"
  using xml_ED_run by (auto simp: xml_wf_def xml_sound_def)

lemma xml_opens_wf: "xml_opens n s \<Longrightarrow> xml_wf s"
  by (auto simp: xml_opens_def xml_wf_def)

lemma xml_EE_no_error: "xml_EE q s \<noteq> Err e s'"
  by (auto simp: xml_EE_def currM_def docM_def zoomM_def bindM_def thenM_def nodeM_def node_document_of_def ptrM_def
      split: outcome.splits option.splits if_splits)

lemma returned: "\<exists>s'. r = Ret () s' \<and> P s' \<Longrightarrow> r \<noteq> Err e s"
  by auto

lemmas xml_callbacks = xml_serializer_def no_current

interpretation xml: document_consumer xml_serializer xml_opens xml_wf
proof (unfold_locales, goal_cases)
  case (1 c c')
  then show ?case using xml_begin [OF xml_opens_wf] by (fastforce simp: xml_serializer_def)
next
  case (2 n c q c')
  then show ?case using element_opens(1) [of n c q] by (cases "xs_Curr c") (auto simp: xml_callbacks)
next
  case (3 n c q c')
  then show ?case using element_opens(2) [of "Suc n" c n q] by (cases "xs_Curr c") (auto simp: xml_callbacks)
next
  case (4 n c q v c')
  then show ?case using element_opens(3) [of "Suc n" c q v] by (cases "xs_Curr c") (auto simp: xml_callbacks)
next
  case (5 n c u p b c')
  then show ?case using element_opens(4) [of "Suc n" c u p b] by (cases "xs_Curr c") (auto simp: xml_callbacks)
next
  case (6 n c v c')
  then show ?case using leaf_opens(1) [of "Suc n" c v] by (cases "xs_Curr c") (auto simp: xml_callbacks)
next
  case (7 n c v c')
  then show ?case using leaf_opens(2) [of n c v] by (cases "xs_Curr c") (auto simp: xml_callbacks)
next
  case (8 n c v w c')
  then show ?case using leaf_opens(3) [of n c v w] by (cases "xs_Curr c") (auto simp: xml_callbacks)
next
  case (9 c m p y x c')
  then show ?case using leaf_opens(4) [of 0 c m p y x] by (cases "xs_Curr c") (auto simp: xml_callbacks)
next
  case (10 c c' e)
  then show ?case using xml_end [OF xml_opens_wf] by (fastforce simp: xml_serializer_def)
next
  case (11 n c)
  then show ?case by (rule xml_opens_wf)
next
  case (12 n c c')
  show ?case
  proof (cases "xs_Curr c")
    case None
    then show ?thesis using 12(2) xml_begin [OF xml_opens_wf [OF 12(1)]] by (auto simp: failed_call_def xml_callbacks)
  next
    case (Some p)
    then have "xs_Curr c \<noteq> None" by simp
    note o = element_opens(1,3,4) [OF 12(1) this, THEN returned] leaf_opens [OF 12(1) this, THEN returned]
      xml_begin [OF xml_opens_wf [OF 12(1)], THEN returned]
    show ?thesis using 12(2) by (simp add: failed_call_def xml_serializer_def o xml_EE_no_error)
  qed
qed

lemma run_document:
  assumes "xml_wf s"
  shows "\<exists>s1 s2. run_calls xml_serializer (cSD # concat (map calls_of cs)) s = Ret () s1
    \<and> ser_ED xml_serializer s1 = Err ExiError_DONE s2 \<and> document_forest (xs_Doc s2) = Some (built cs)"
proof -
  obtain ch where "xml_sound s ch" using assms by (auto simp: xml_wf_def)
  then obtain s0 where 0: "xml_SD s = Ret () s0" "xml_sound s0 (\<lambda>_. [])" "xs_Curr s0 = Some 0"
    using xml_SD_run by blast
  have "0 < length (xd_nodes (xs_Doc s0))" using 0(2) by (simp add: xml_sound_def store_ok_def)
  from grows_calls [OF grows_content 0(2,3) this, of cs] obtain s1 ch1 where
    1: "run_calls xml_serializer (concat (map calls_of cs)) s0 = Ret () s1"
      "grows s0 (\<lambda>_. []) 0 s1 ch1 (rev (concat (map text_of cs))) (concat (map nodes_of cs))" by blast
  have s1: "xml_sound s1 ch1" "map (tree (xd_nodes (xs_Doc s1)) ch1) (ch1 0) = built cs"
    using 1(2) by (auto simp: grows_def built_def)
  have "document_forest (xs_Doc s1) = Some (built cs)"
    using document_forest_ok [of "xs_Doc s1" ch1] s1 by (simp add: xml_sound_def)
  moreover have "run_calls xml_serializer (cSD # concat (map calls_of cs)) s = Ret () s1"
    using 0(1) 1(1) by (simp add: xml_serializer_def)
  ultimately show ?thesis using xml_ED_run [OF s1(1)] by (simp add: xml_serializer_def)
qed

text \<open>Property C6. The calls of a document build that document, from a new serializer or one used before:
  the elements nest as their calls do and their names carry the prefixes. Yet the text of an element
  ends up in reverse in front of its other children, attributes and namespace declarations are not
  in the document at all, and an instruction without data loses its target.\<close>

theorem xml_document_built:
  assumes "xml_wf s"
  shows "\<exists>s'. run_calls xml_serializer (cSD # concat (map calls_of cs) @ [cED]) s = Err ExiError_DONE s'
    \<and> document_forest (xs_Doc s') = Some (built cs)"
proof -
  obtain s1 s2 where "run_calls xml_serializer (cSD # concat (map calls_of cs)) s = Ret () s1"
    "ser_ED xml_serializer s1 = Err ExiError_DONE s2" "document_forest (xs_Doc s2) = Some (built cs)"
    using run_document [OF assms] by blast
  then show ?thesis
    using run_calls_append [of xml_serializer "cSD # concat (map calls_of cs)" "[cED]"] by simp
qed

lemma xml_new: "xml_opens 0 XMLSerializer_new" "xml_wf XMLSerializer_new"
proof -
  have "xml_sound XMLSerializer_new (\<lambda>_. [])"
    by (simp add: xml_sound_def XMLSerializer_new_def XMLDocument_new_def XMLNode_new_def store_ok_root no_attributes_def)
  then show "xml_opens 0 XMLSerializer_new" "xml_wf XMLSerializer_new"
    by (auto simp: xml_opens_def xml_wf_def XMLSerializer_new_def)
qed

text \<open>\<open><a x="1">h<a/>i</a>\<close>\<close>

theorem xml_document_built_witness:
  "\<exists>s'. run_calls xml_serializer [cSD, cSE root_a, cAT root_a [49], cCH [104], cSE root_a, cEE root_a, cCH [105], cEE root_a, cED]
      XMLSerializer_new = Err ExiError_DONE s'
    \<and> document_forest (xs_Doc s') = Some [XTree node_element [97] []
        [XTree node_data [] [105] [], XTree node_data [] [104] [], XTree node_element [97] [] []]]"
  using xml_document_built [OF xml_new(2), of "[Element root_a [Attribute root_a [49], Characters [104], Element root_a [], Characters [105]]]"]
  by (simp add: built_def text_of_def getFullName_def root_a_def)


lemma accepts_document:
  assumes "xml_wf s"
  shows "\<exists>s'. accepts xml_serializer (cSD # concat (map calls_of cs) @ [cED]) s s'
    \<and> document_forest (xs_Doc s') = Some (built cs)"
proof -
  have c: "cED \<notin> set (calls_of c)" for c by (induction c) auto
  then have "filter (\<lambda>x. x \<noteq> cED) (concat (map calls_of cs)) = concat (map calls_of cs)"
    by (intro filter_True) auto
  then show ?thesis using run_document [OF assms, of cs] by (fastforce simp: accepts_def)
qed

text \<open>Property C4. Decoding into XML: when the calls that a stream leads to are those of some content, decoding
  the stream with this serializer ends as it does with the recorder, and leaves the document built
  from the content.\<close>

theorem decoded_document_built:
  assumes "decodeBody (Some recorder) (d, []) = Some r"
    and "outcome_state r = Some (d', cSD # concat (map calls_of cs) @ [cED])" "xml_wf s"
  shows "\<exists>s'. decodeBody (Some xml_serializer) (d, s) = Some (map_state (\<lambda>y. (fst y, s')) r)
    \<and> document_forest (xs_Doc s') = Some (built cs)"
proof -
  obtain s' where s': "accepts xml_serializer (cSD # concat (map calls_of cs) @ [cED]) s s'"
    "document_forest (xs_Doc s') = Some (built cs)" using accepts_document [OF assms(3)] by blast
  show ?thesis by (intro exI conjI, rule decodeBody_replay_lemma [OF assms(1,2) s'(1)], rule s'(2))
qed

theorem decoded_document_built_witness:
  "\<exists>d' s'. decodeBody (Some xml_serializer) (body_decoder [1, 2, 97, 0, 0, 0, 0, 0, 0], XMLSerializer_new) = Some d'
    \<and> map_option snd (outcome_state d') = Some s' \<and> document_forest (xs_Doc s') = Some [XTree node_element [97] [] []]"
proof -
  obtain r d' where r: "decodeBody (Some recorder) (body_decoder [1, 2, 97, 0, 0, 0, 0, 0, 0], []) = Some r"
    "outcome_state r = Some (d', cSD # concat (map calls_of [Element root_a []]) @ [cED])"
    using recorded_example by auto
  obtain s' where s': "decodeBody (Some xml_serializer) (body_decoder [1, 2, 97, 0, 0, 0, 0, 0, 0], XMLSerializer_new)
      = Some (map_state (\<lambda>y. (fst y, s')) r)" "document_forest (xs_Doc s') = Some (built [Element root_a []])"
    using decoded_document_built [OF r xml_new(2)] by blast
  have "map_option snd (outcome_state (map_state (\<lambda>y. (fst y, s')) r)) = Some s'" using r(2) by (cases r) simp_all
  moreover have "built [Element root_a []] = [XTree node_element [97] [] []]"
    by (simp add: built_def text_of_def getFullName_def root_a_def)
  ultimately show ?thesis using s' by metis
qed


end
