(* ===== verification/XMLDumper.thy ===== *)
theory XMLDumper
  imports XMLSerializer
begin

text \<open>
  Printing of documents (\<open>XMLDumper.cpp\<close>): the names of nodes, the order of attributes, and the text a
  walk over the node store writes. The output is the bytes written to a stream without colours; sorting
  with an order that is none is undefined.
\<close>

section \<open>Strings\<close>

definition split_char :: "8 word \<Rightarrow> bytes \<Rightarrow> bytes \<times> bytes" where
  "split_char c s = (takeWhile (\<lambda>x. x \<noteq> c) s, tl (dropWhile (\<lambda>x. x \<noteq> c) s))"

lemma split_char_shorter: "s \<noteq> [] \<Longrightarrow> length (snd (split_char c s)) < length s"
  using length_dropWhile_le [of "\<lambda>x. x \<noteq> c" s] by (cases s) (auto simp: split_char_def)

lemma split_char_at: "c \<notin> set a \<Longrightarrow> split_char c (a @ c # b) = (a, b)"
  by (induction a) (auto simp: split_char_def)

text \<open>Without the empty parts.\<close>

function split_all :: "8 word \<Rightarrow> bytes \<Rightarrow> bytes list" where
  "split_all c s = (if c \<notin> set s then (if s = [] then [] else [s])
     else (case split_char c s of (a, b) \<Rightarrow> (if a = [] then [] else [a]) @ split_all c b))"
  by auto
termination
  by (relation "measure (\<lambda>(c, s). length s)") (auto, metis empty_iff length_0_conv list.set(1) snd_conv split_char_shorter)

declare split_all.simps [simp del]

definition is_blank :: "8 word \<Rightarrow> bool" where
  "is_blank c \<longleftrightarrow> c \<in> {32, 9, 10, 11, 12, 13}"

definition ltrim :: "bytes \<Rightarrow> bytes" where
  "ltrim s = dropWhile is_blank s"

definition rtrim :: "bytes \<Rightarrow> bytes" where
  "rtrim s = rev (dropWhile is_blank (rev s))"

fun bytes_less :: "bytes \<Rightarrow> bytes \<Rightarrow> bool" where
  "bytes_less xs [] = False"
| "bytes_less [] (y # ys) = True"
| "bytes_less (x # xs) (y # ys) = (if x = y then bytes_less xs ys else x < y)"

section \<open>Nodes\<close>

definition NodeTypeName :: "NodeKind \<Rightarrow> bytes" where
  "NodeTypeName k = (case k of
      node_document \<Rightarrow> str ''document'' | node_element \<Rightarrow> str ''element'' | node_data \<Rightarrow> str ''data''
    | node_cdata \<Rightarrow> str ''CDATA'' | node_comment \<Rightarrow> str ''comment'' | node_declaration \<Rightarrow> str ''declaration''
    | node_doctype \<Rightarrow> str ''DOCTYPE'' | node_pi \<Rightarrow> str ''PI'' | node_last \<Rightarrow> str ''UNKNOWN-TYPE'')"

definition HasName :: "XMLNode \<Rightarrow> bool" where
  "HasName n \<longleftrightarrow> n_type n \<in> {node_element, node_pi} \<and> n_name n \<noteq> []"

definition HasData :: "XMLNode \<Rightarrow> bool" where
  "HasData n \<longleftrightarrow> n_type n \<notin> {node_document, node_declaration} \<and> n_value n \<noteq> []"

definition HasChildren :: "XMLNode \<Rightarrow> bool" where
  "HasChildren n \<longleftrightarrow> n_first n \<noteq> None"

definition HasAttributes :: "XMLNode \<Rightarrow> bool" where
  "HasAttributes n \<longleftrightarrow> n_first_attr n \<noteq> None"

definition SplitNodeName :: "bytes \<Rightarrow> bytes \<times> bytes" where
  "SplitNodeName s = (case split_char 58 s of (a, b) \<Rightarrow> if b = [] then ([], a) else (a, b))"

definition putEntity :: "bytes \<Rightarrow> bytes" where
  "putEntity e = str ''&'' @ (if 2 \<le> length e \<and> hd e = 38 \<and> last e = 59 then butlast (tl e) else e) @ str '';''"

definition printType :: "XMLNode \<Rightarrow> bytes \<Rightarrow> bytes" where
  "printType n extra = str ''@'' @ NodeTypeName (n_type n) @ extra"

definition printErr :: "XMLNode \<Rightarrow> string \<Rightarrow> bytes" where
  "printErr n v = str ''@'' @ str v @ str ''::'' @ NodeTypeName (n_type n)"

definition printQName :: "bytes \<Rightarrow> bytes" where
  "printQName s = (case SplitNodeName s of (ns, name) \<Rightarrow> (if ns = [] then [] else ns @ str '':'') @ name)"

definition printName :: "XMLNode \<Rightarrow> bytes" where
  "printName n = (if \<not> HasName n then printErr n ''no-name'' else printQName (n_name n))"

definition printAttr :: "XMLAttribute \<Rightarrow> bytes" where
  "printAttr a = (if a_name a = [] then str ''@no-attr-name::attribute'' else printQName (a_name a))
     @ str ''='' @ [34] @ a_value a @ [34]"

section \<open>The order of attributes\<close>

definition SortAttrsQName :: "bytes \<Rightarrow> bytes \<Rightarrow> bool" where
  "SortAttrsQName l r =
    (let lx = (take 5 l = str ''xmlns''); rx = (take 5 r = str ''xmlns'') in
     if lx \<and> length l = 5 then False
     else if rx \<and> length r = 5 then True
     else (case (SplitNodeName l, SplitNodeName r) of ((lns, ln), (rns, rn)) \<Rightarrow>
       if lns = rns then (if lns = str ''xsi'' then ln \<noteq> str ''type'' else bytes_less ln rn)
       else if lx \<or> rx then rx
       else if lns = str ''xsi'' then False
       else if rns = str ''xsi'' then True
       else bytes_less lns rns))"

text \<open>\<open>std::sort\<close> needs a strict weak order. Elements the order does not tell apart may come in any order; the
  model keeps theirs.\<close>

definition strict_weak :: "('a \<Rightarrow> 'a \<Rightarrow> bool) \<Rightarrow> 'a list \<Rightarrow> bool" where
  "strict_weak lt xs \<longleftrightarrow> (\<forall>x \<in> set xs. \<not> lt x x)
    \<and> (\<forall>x \<in> set xs. \<forall>y \<in> set xs. \<forall>z \<in> set xs. lt x y \<and> lt y z \<longrightarrow> lt x z)
    \<and> (\<forall>x \<in> set xs. \<forall>y \<in> set xs. \<forall>z \<in> set xs.
        \<not> lt x y \<and> \<not> lt y x \<and> \<not> lt y z \<and> \<not> lt z y \<longrightarrow> \<not> lt x z \<and> \<not> lt z x)"

primrec sort_insert :: "('a \<Rightarrow> 'a \<Rightarrow> bool) \<Rightarrow> 'a \<Rightarrow> 'a list \<Rightarrow> 'a list" where
  "sort_insert lt x [] = [x]"
| "sort_insert lt x (y # ys) = (if lt y x then y # sort_insert lt x ys else x # y # ys)"

definition std_sort :: "('a \<Rightarrow> 'a \<Rightarrow> bool) \<Rightarrow> 'a list \<Rightarrow> fault + 'a list" where
  "std_sort lt xs = (if length xs < 2 \<or> strict_weak lt xs then Inr (foldr (sort_insert lt) xs []) else Inl Undefined)"

definition SortAttrs :: "XMLAttribute list \<Rightarrow> fault + XMLAttribute list" where
  "SortAttrs = std_sort (\<lambda>l r. \<not> SortAttrsQName (a_name l) (a_name r))"

text \<open>The attributes of a node, along their links.\<close>

partial_function (option) attr_list :: "XMLAttribute list \<Rightarrow> nat option \<Rightarrow> (XMLAttribute list) option" where
  "attr_list h p = (case p of None \<Rightarrow> Some []
     | Some p \<Rightarrow> if p < length h
         then Option.bind (attr_list h (if a_parent (h ! p) = None then None else a_next (h ! p))) (\<lambda>as. Some (h ! p # as))
         else None)"

primrec join_space :: "bytes list \<Rightarrow> bytes" where
  "join_space [] = []"
| "join_space (x # xs) = x @ (if xs = [] then [] else 32 # join_space xs)"

definition printAttrs :: "XMLAttribute list \<Rightarrow> fault + bytes" where
  "printAttrs as = (if as = [] then Inr []
     else map_sum id (\<lambda>as. join_space (map printAttr as)) (SortAttrs as))"

section \<open>The kinds of nodes\<close>

text \<open>Two blanks for every level.\<close>

definition indent_text :: "nat \<Rightarrow> bytes" where
  "indent_text n = replicate (n * 2) 32"

definition printDOCTYPEData :: "nat \<Rightarrow> bytes \<Rightarrow> bytes" where
  "printDOCTYPEData n data = concat (map (\<lambda>s. if rtrim s = [] then [] else 10 # indent_text (n + 1) @ rtrim s) (split_all 10 data))
     @ 10 # indent_text n"

definition printNode_element :: "XMLNode \<Rightarrow> XMLAttribute list \<Rightarrow> fault + bytes" where
  "printNode_element n as = map_sum id (\<lambda>t. str ''<'' @ printName n @ (if HasAttributes n then 32 # t else [])
     @ (if HasChildren n then [] else str ''/'') @ str ''>'' @ [10]) (printAttrs as)"

lemma split_twice_shorter:
  assumes "split_char c s = (a, b)" "split_char d b = (e, r)" "b \<noteq> []"
  shows "length r < length s"
proof -
  have "length r < length b" using split_char_shorter [OF assms(3), of d] assms(2) by simp
  moreover have "s \<noteq> []" using assms(1,3) by (auto simp: split_char_def)
  then have "length b < length s" using split_char_shorter [of s c] assms(1) by simp
  ultimately show ?thesis by simp
qed

function data_loop :: "bytes \<Rightarrow> bytes" where
  "data_loop data = (if data = [] then []
     else (case split_char 38 data of (front, rear) \<Rightarrow>
       if rear = [] then data
       else (case split_char 59 rear of (entity, rest) \<Rightarrow> putEntity entity @ data_loop rest)))"
  by auto
termination by (relation "measure length") (auto dest: split_twice_shorter [OF sym sym])

declare data_loop.simps [simp del]

definition printNode_data :: "XMLNode \<Rightarrow> bytes" where
  "printNode_data n = (if \<not> HasData n then printErr n ''no-data''
     else (let data = rtrim (rtrim (ltrim (n_value n))) in if data = [] then [] else data_loop data @ [10]))"

definition printNode_cdata :: "nat \<Rightarrow> XMLNode \<Rightarrow> bytes" where
  "printNode_cdata i n = (if \<not> HasData n then printErr n ''no-CDATA''
     else str ''<![CDATA['' @ printDOCTYPEData i (n_value n) @ str '']]>'' @ [10])"

definition printNode_comment :: "XMLNode \<Rightarrow> bytes" where
  "printNode_comment n = (if \<not> HasData n then printErr n ''no-comment'' else str ''<!--'' @ n_value n @ str ''-->'' @ [10])"

definition printNode_declaration :: "XMLNode \<Rightarrow> XMLAttribute list \<Rightarrow> fault + bytes" where
  "printNode_declaration n as = (if \<not> HasAttributes n then Inr (printErr n ''no-decl-attrs'')
     else map_sum id (\<lambda>t. str ''<?xml '' @ t @ str ''?>'' @ [10]) (printAttrs as))"

definition printNode_doctype :: "nat \<Rightarrow> XMLNode \<Rightarrow> bytes" where
  "printNode_doctype i n = (if \<not> HasData n then printErr n ''no-data''
     else (case split_char 91 (n_value n) of (pre, data) \<Rightarrow>
       str ''<!DOCTYPE '' @ (if data = [] then printErr n ''no-opening-brace''
         else if last data \<noteq> 93 then printErr n ''no-closing-brace''
         else pre @ str ''['' @ printDOCTYPEData i (butlast data) @ str '']'') @ str ''>'' @ [10]))"

definition printNode_pi :: "XMLNode \<Rightarrow> bytes" where
  "printNode_pi n = (if \<not> HasName n then printErr n ''no-PI-target''
     else if \<not> HasData n then printErr n ''no-PI-directives''
     else str ''<?'' @ n_name n @ concat (map (\<lambda>s. 32 # s) (split_all 32 (n_value n))) @ str ''?>'' @ [10])"

definition printHead :: "bool \<Rightarrow> nat \<Rightarrow> XMLNode \<Rightarrow> XMLAttribute list \<Rightarrow> fault + bytes" where
  "printHead dbg i n as = map_sum id (\<lambda>t. indent_text i @ (if dbg then printType n (str '': '') else []) @ t)
    (case n_type n of
       node_element \<Rightarrow> printNode_element n as
     | node_data \<Rightarrow> Inr (printNode_data n)
     | node_cdata \<Rightarrow> Inr (printNode_cdata i n)
     | node_comment \<Rightarrow> Inr (printNode_comment n)
     | node_declaration \<Rightarrow> printNode_declaration n as
     | node_doctype \<Rightarrow> Inr (printNode_doctype i n)
     | node_pi \<Rightarrow> Inr (printNode_pi n)
     | _ \<Rightarrow> Inr [])"

definition printTail :: "nat \<Rightarrow> XMLNode \<Rightarrow> bytes" where
  "printTail i n = (if HasChildren n then indent_text i @ str ''</'' @ printName n @ str ''>'' @ [10] else [])"

section \<open>The walk\<close>

text \<open>The class; its indentation changes with the depth and is an argument of the walk.\<close>

record Dumper =
  TopLevel :: XMLDocument
  DebugPrint :: bool

definition append_text :: "bytes \<Rightarrow> fault + bytes \<Rightarrow> fault + bytes" where
  "append_text t = map_sum id (\<lambda>u. t @ u)"

text \<open>A node with what is below it, and its siblings behind it; nothing is written behind an undefined step.\<close>

partial_function (option) print_from :: "Dumper \<Rightarrow> nat \<Rightarrow> nat option \<Rightarrow> (fault + bytes) option" where
  "print_from D i q = (case q of None \<Rightarrow> Some (Inr [])
     | Some p \<Rightarrow> if p < length (xd_nodes (TopLevel D)) then
         Option.bind (attr_list (xd_attrs (TopLevel D)) (n_first_attr (xd_nodes (TopLevel D) ! p))) (\<lambda>as.
         (case printHead (DebugPrint D) i (xd_nodes (TopLevel D) ! p) as of Inl f \<Rightarrow> Some (Inl f) | Inr head \<Rightarrow>
           Option.bind (if HasChildren (xd_nodes (TopLevel D) ! p) then print_from D (Suc i) (n_first (xd_nodes (TopLevel D) ! p))
             else Some (Inr [])) (\<lambda>kids.
           (case kids of Inl f \<Rightarrow> Some (Inl f) | Inr body \<Rightarrow>
             Option.bind (if n_parent (xd_nodes (TopLevel D) ! p) = None then Some (Inr [])
               else print_from D i (n_next (xd_nodes (TopLevel D) ! p))) (\<lambda>rest.
               Some (append_text (head @ body @ printTail i (xd_nodes (TopLevel D) ! p)) rest))))))
       else None)"

definition XMLDumper_dump :: "Dumper \<Rightarrow> nat \<Rightarrow> (fault + bytes) option" where
  "XMLDumper_dump D i = print_from D i (n_first (xd_nodes (TopLevel D) ! 0))"

text \<open>Without a stream standard output is written, one level in.\<close>

definition FullXMLDump :: "XMLDocument \<Rightarrow> bool \<Rightarrow> bool \<Rightarrow> (fault + bytes) option" where
  "FullXMLDump doc OSProvided DbgPrintTypes =
    map_option (map_sum id (\<lambda>t. t @ [10]))
      (XMLDumper_dump \<lparr>TopLevel = doc, DebugPrint = DbgPrintTypes\<rparr> (if OSProvided then 0 else 1))"

section \<open>What is printed\<close>

text \<open>A tree as text: the head of a node without attributes, what is below it one level in, and its tail.\<close>

definition bare_node :: "NodeKind \<Rightarrow> bytes \<Rightarrow> bytes \<Rightarrow> xtree list \<Rightarrow> XMLNode" where
  "bare_node k nm v ks = (XMLNode_new k)\<lparr>n_name := nm, n_value := v, n_first := (if ks = [] then None else Some 0)\<rparr>"

definition bare_head :: "bool \<Rightarrow> nat \<Rightarrow> XMLNode \<Rightarrow> bytes" where
  "bare_head dbg i n = (case printHead dbg i n [] of Inl f \<Rightarrow> [] | Inr t \<Rightarrow> t)"

primrec shown :: "bool \<Rightarrow> nat \<Rightarrow> xtree \<Rightarrow> bytes" and show_all :: "bool \<Rightarrow> nat \<Rightarrow> xtree list \<Rightarrow> bytes" where
  "shown dbg i (XTree k nm v ks) = bare_head dbg i (bare_node k nm v ks) @ show_all dbg (Suc i) ks @ printTail i (bare_node k nm v ks)"
| "show_all dbg i [] = []"
| "show_all dbg i (t # ts) = shown dbg i t @ show_all dbg i ts"


lemma attr_list_None [simp]: "attr_list h None = Some []"
  by (simp add: attr_list.simps)

lemma print_from_None [simp]: "print_from D i None = Some (Inr [])"
  by (simp add: print_from.simps)

lemma printHead_bare:
  assumes "n_first_attr n = None"
  shows "printHead dbg i n [] = Inr (bare_head dbg i n)"
  using assms by (cases "n_type n")
    (simp_all add: bare_head_def printHead_def printNode_element_def printNode_declaration_def printAttrs_def HasAttributes_def)

text \<open>Only these fields of a node are printed.\<close>

lemma bare_head_cong:
  assumes "n_type n = n_type m" "n_name n = n_name m" "n_value n = n_value m" "(n_first n = None) = (n_first m = None)"
    and "n_first_attr n = None" "n_first_attr m = None"
  shows "bare_head dbg i n = bare_head dbg i m" "printTail i n = printTail i m"
proof -
  have p: "printType n = printType m" "printErr n = printErr m" "HasName n = HasName m" "HasData n = HasData m"
      "HasChildren n = HasChildren m" "HasAttributes n = HasAttributes m"
    using assms by (simp_all add: fun_eq_iff printType_def printErr_def HasName_def HasData_def HasChildren_def HasAttributes_def)
  then have "printName n = printName m" by (simp add: printName_def assms(2))
  with p show "printTail i n = printTail i m" by (simp add: printTail_def)
  from p \<open>printName n = printName m\<close> show "bare_head dbg i n = bare_head dbg i m"
    by (cases "n_type m") (simp_all add: bare_head_def printHead_def printNode_element_def printNode_data_def printNode_cdata_def printNode_comment_def
        printNode_declaration_def printNode_doctype_def printNode_pi_def case_prod_unfold assms)
qed

lemma print_tree:
  assumes "store_ok (xd_nodes (TopLevel D)) ch" "no_attributes (xd_nodes (TopLevel D))" "p < length (xd_nodes (TopLevel D))"
  shows "print_from D i (n_first (xd_nodes (TopLevel D) ! p))
    = Some (Inr (show_all (DebugPrint D) i (map (tree (xd_nodes (TopLevel D)) ch) (ch p))))"
  using assms(3)
proof (induction "length (xd_nodes (TopLevel D)) - p" arbitrary: p i rule: less_induct)
  case less
  let ?h = "xd_nodes (TopLevel D)"
  have sib: "print_from D i (case xs of [] \<Rightarrow> None | x # _ \<Rightarrow> Some x) = Some (Inr (show_all (DebugPrint D) i (map (tree ?h ch) xs)))"
    if "chain ?h p q xs" "set xs \<subseteq> set (ch p)" for q xs
    using that
  proof (induction xs arbitrary: q)
    case (Cons x xs)
    then have x: "p < x" "x < length ?h" "n_parent (?h ! x) = Some p" using store_okD [OF assms(1), of x p] by auto
    have kids: "print_from D (Suc i) (n_first (?h ! x)) = Some (Inr (show_all (DebugPrint D) (Suc i) (map (tree ?h ch) (ch x))))"
      by (rule less.hyps) (use x in auto)
    then have kids': "(if HasChildren (?h ! x) then print_from D (Suc i) (n_first (?h ! x)) else Some (Inr []))
        = Some (Inr (show_all (DebugPrint D) (Suc i) (map (tree ?h ch) (ch x))))" by (auto simp: HasChildren_def)
    have rest: "print_from D i (n_next (?h ! x)) = Some (Inr (show_all (DebugPrint D) i (map (tree ?h ch) xs)))" using Cons by auto
    have at: "n_first_attr (?h ! x) = None" using assms(2) x by (simp add: no_attributes_def)
    have kx: "kids_ok ?h x (ch x)" using assms(1) x by (simp add: store_ok_def)
    let ?b = "bare_node (n_type (?h ! x)) (n_name (?h ! x)) (n_value (?h ! x)) (map (tree ?h ch) (ch x))"
    have c: "bare_head (DebugPrint D) i (?h ! x) = bare_head (DebugPrint D) i ?b" "printTail i (?h ! x) = printTail i ?b"
      by (rule bare_head_cong; use at kx in \<open>simp add: bare_node_def XMLNode_new_def kids_ok_def split: list.split\<close>)+
    show ?case using x rest at c
      by (simp add: print_from.simps [of D i "Some x"] kids' printHead_bare append_text_def tree_eq [OF assms(1), of x])
  qed simp
  have "kids_ok ?h p (ch p)" using assms(1) less.prems by (simp add: store_ok_def)
  then show ?case using sib [of None "ch p"] by (simp add: kids_ok_def)
qed


lemma dump_tree:
  assumes "store_ok (xd_nodes doc) ch" "no_attributes (xd_nodes doc)" "document_forest doc = Some ts"
  shows "FullXMLDump doc prov dbg = Some (Inr (show_all dbg (if prov then 0 else 1) ts @ [10]))"
proof -
  have "0 < length (xd_nodes doc)" using assms(1) by (simp add: store_ok_def)
  then show ?thesis using print_tree [of "\<lparr>TopLevel = doc, DebugPrint = dbg\<rparr>" ch 0] assms document_forest_ok [OF assms(1)]
    by (simp add: FullXMLDump_def XMLDumper_dump_def)
qed


section \<open>Sorting attributes\<close>

text \<open>The names the comparison gives the same verdict for, whichever of them comes first.\<close>

definition xsi_name :: "bytes \<Rightarrow> bool" where
  "xsi_name s \<longleftrightarrow> fst (SplitNodeName s) = str ''xsi'' \<and> snd (SplitNodeName s) \<noteq> str ''type''"

lemma bytes_less_irrefl [simp]: "\<not> bytes_less s s"
  by (induction s) simp_all

lemma SortAttrsQName_same: "SortAttrsQName s s \<longleftrightarrow> xsi_name s"
proof (cases "s = str ''xmlns''")
  case True
  then show ?thesis by (simp only:) code_simp
next
  case False
  then have "\<not> (take 5 s = str ''xmlns'' \<and> length s = 5)" by (auto simp: str_def)
  then show ?thesis by (auto simp: SortAttrsQName_def xsi_name_def Let_def split: prod.split)
qed


lemma xsi_name_text:
  assumes "xsi_name s"
  shows "\<exists>t. s = str ''xsi'' @ 58 # t"
proof -
  let ?a = "takeWhile (\<lambda>x. x \<noteq> 58) s" and ?b = "dropWhile (\<lambda>x. x \<noteq> 58) s"
  have *: "?a = str ''xsi''" "tl ?b \<noteq> []"
    using assms by (auto simp: xsi_name_def SplitNodeName_def split_char_def str_def split: if_splits)
  then obtain c t where b: "?b = c # t" by (cases ?b) auto
  then have c: "c = 58" by (simp add: dropWhile_eq_Cons_conv)
  have "s = ?a @ ?b" by simp
  also have "\<dots> = str ''xsi'' @ 58 # t" by (simp only: *(1) b c)
  finally show ?thesis by blast
qed

lemma SortAttrsQName_xsi:
  assumes "xsi_name l" "xsi_name r"
  shows "SortAttrsQName l r"
proof -
  obtain t u where "l = str ''xsi'' @ 58 # t" "r = str ''xsi'' @ 58 # u" using assms xsi_name_text by metis
  then have "take 5 l \<noteq> str ''xmlns''" "take 5 r \<noteq> str ''xmlns''" by (simp_all add: str_def)
  then show ?thesis using assms by (auto simp: SortAttrsQName_def xsi_name_def split: prod.split)
qed

lemma sort_insert_equal: "(\<And>y. y \<in> set ys \<Longrightarrow> \<not> lt y x) \<Longrightarrow> sort_insert lt x ys = x # ys"
  by (cases ys) auto

text \<open>Property C24. Sorting two or more attributes: the order handed to the standard sort is the negation of
  a strict order and holds between equal names, which the standard leaves undefined, except when
  every attribute is an \<open>xsi\<close> name other than \<open>xsi:type\<close>; those are told apart by nothing and stay.\<close>

theorem SortAttrs_undefined:
  "SortAttrs as = (if length as < 2 \<or> (\<forall>a \<in> set as. xsi_name (a_name a)) then Inr as else Inl Undefined)"
proof -
  let ?lt = "\<lambda>l r. \<not> SortAttrsQName (a_name l) (a_name r)"
  have "strict_weak ?lt as \<longleftrightarrow> (\<forall>a \<in> set as. xsi_name (a_name a))"
    using SortAttrsQName_same SortAttrsQName_xsi by (auto simp: strict_weak_def)
  moreover have "foldr (sort_insert ?lt) as [] = as" if "length as < 2 \<or> (\<forall>a \<in> set as. xsi_name (a_name a))"
  proof (cases "length as < 2")
    case True
    then show ?thesis by (cases as) auto
  next
    case False
    then have "\<forall>a \<in> set as. xsi_name (a_name a)" using that by simp
    then show ?thesis
      by (induction as) (simp_all add: sort_insert_equal SortAttrsQName_xsi)
  qed
  ultimately show ?thesis by (auto simp: SortAttrs_def std_sort_def)
qed

text \<open>Text in front of an entity reference is not printed: of data that ends in an entity only
  the references themselves are.\<close>

theorem text_before_entity_lost:
  assumes "38 \<notin> set pre" "59 \<notin> set ent"
  shows "data_loop (pre @ 38 # ent @ 59 # rest) = putEntity ent @ data_loop rest"
proof -
  have "split_char 38 (pre @ 38 # ent @ 59 # rest) = (pre, ent @ 59 # rest)"
    "split_char 59 (ent @ 59 # rest) = (ent, rest)"
    using assms by (simp_all add: split_char_at)
  then show ?thesis by (subst data_loop.simps) simp
qed


theorem text_before_entity_lost_witness: "data_loop (str ''AT&amp;T'') = str ''&amp;T''"
proof -
  have "data_loop (str ''AT'' @ 38 # str ''amp'' @ 59 # str ''T'') = putEntity (str ''amp'') @ data_loop (str ''T'')"
    by (rule text_before_entity_lost) (simp_all add: str_def)
  then show ?thesis by (simp add: data_loop.simps putEntity_def split_char_def str_def)
qed

theorem SortAttrs_undefined_witness:
  "SortAttrs [XMLAttribute_new\<lparr>a_name := str ''a''\<rparr>, XMLAttribute_new\<lparr>a_name := str ''b''\<rparr>] = Inl Undefined"
proof -
  have "\<not> xsi_name (str ''a'')" by code_simp
  then show ?thesis by (simp add: SortAttrs_undefined)
qed


end
