(* ===== verification/OrdWriter.thy ===== *)
theory OrdWriter
  imports OrdReader
begin

text \<open>
  The in-order writers (\<open>exi/Stream/OrderedWriter.hpp\<close>). A writer refers to a buffer and a file
  stream that other objects may share, so both live in a memory of their own; a reference is an
  index. Counts of bits and bytes are naturals, as for the readers.
\<close>

section \<open>Writers, buffers and files\<close>

text \<open>A file is a flag, set for a file descriptor, and the bytes written to it.\<close>

record WriterMemory =
  wm_Buffers :: "bytes list"
  wm_Files :: "(bool \<times> bytes) list"

record OrderedWriter =
  w_OwnBuffer :: nat
  w_Buffer :: nat
  w_FS :: "nat option"
  w_FlushThreshold :: nat
  w_BitsInStore :: nat
  w_Store :: "64 word"

record BufferClone =
  bc_Buffer :: nat
  bc_FS :: "nat option"
  bc_FlushThreshold :: nat
  bc_Store :: "64 word"
  bc_ExternBuffer :: bool
  bc_NBits :: nat

type_synonym 'a wr = "OrderedWriter \<times> WriterMemory \<Rightarrow> ('a, OrderedWriter \<times> WriterMemory) exi"

definition modW :: "(OrderedWriter \<Rightarrow> OrderedWriter) \<Rightarrow> unit wr" where
  "modW f = modM (\<lambda>s. (f (fst s), snd s))"

definition bufferM :: "bytes wr" where
  "bufferM s = (if w_Buffer (fst s) < length (wm_Buffers (snd s)) then Ret (wm_Buffers (snd s) ! w_Buffer (fst s)) s
     else Fault Undefined)"

definition setBuffer :: "(bytes \<Rightarrow> bytes) \<Rightarrow> unit wr" where
  "setBuffer f = bindM bufferM (\<lambda>b. modM (\<lambda>s. (fst s, (snd s)\<lparr>wm_Buffers := (wm_Buffers (snd s))[w_Buffer (fst s) := f b]\<rparr>)))"

section \<open>Construction\<close>

text \<open>A writer comes with an empty buffer of its own, used unless the stream is a vector.\<close>

definition OrderedWriter_new :: "nat option \<Rightarrow> nat option \<Rightarrow> nat \<Rightarrow> WriterMemory \<Rightarrow> OrderedWriter \<times> WriterMemory" where
  "OrderedWriter_new vec fs threshold m =
    (let own = length (wm_Buffers m) in
     (\<lparr>w_OwnBuffer = own, w_Buffer = (case vec of None \<Rightarrow> own | Some b \<Rightarrow> b), w_FS = (if vec = None then fs else None),
        w_FlushThreshold = threshold * 2 ^ 20, w_BitsInStore = 0, w_Store = 0\<rparr>, m\<lparr>wm_Buffers := wm_Buffers m @ [[]]\<rparr>))"

definition OrderedWriter_newVec :: "nat \<Rightarrow> WriterMemory \<Rightarrow> OrderedWriter \<times> WriterMemory" where
  "OrderedWriter_newVec buf m =
    (\<lparr>w_OwnBuffer = length (wm_Buffers m), w_Buffer = buf, w_FS = None, w_FlushThreshold = 0, w_BitsInStore = 0, w_Store = 0\<rparr>,
     m\<lparr>wm_Buffers := wm_Buffers m @ [[]]\<rparr>)"

definition isOwnBuffer :: "OrderedWriter \<Rightarrow> bool" where
  "isOwnBuffer w \<longleftrightarrow> w_Buffer w = w_OwnBuffer w"

section \<open>Flushing\<close>

definition flushAndClear :: "unit wr" where
  "flushAndClear =
    thenM (assertM (\<lambda>s. w_FS (fst s) \<noteq> None))
    (bindM bufferM (\<lambda>b.
     thenM (assertM (\<lambda>_. b \<noteq> []))
    (thenM (\<lambda>s. case w_FS (fst s) of
         None \<Rightarrow> Fault Undefined
       | Some f \<Rightarrow> if f < length (wm_Files (snd s))
           then Ret () (fst s, (snd s)\<lparr>wm_Files := (wm_Files (snd s))[f := (fst (wm_Files (snd s) ! f), snd (wm_Files (snd s) ! f) @ b)]\<rparr>)
           else Fault Undefined)
      (setBuffer (\<lambda>_. [])))))"

definition fdStream :: "OrderedWriter \<Rightarrow> WriterMemory \<Rightarrow> bool" where
  "fdStream w m = (case w_FS w of None \<Rightarrow> False | Some f \<Rightarrow> f < length (wm_Files m) \<and> fst (wm_Files m ! f))"

definition flushToFile :: "bool \<Rightarrow> unit wr" where
  "flushToFile OnClosing = bindM bufferM (\<lambda>b s.
     if w_FS (fst s) = None \<or> b = [] then Ret () s
     else if OnClosing then flushAndClear s
     else if fdStream (fst s) (snd s) \<and> w_FlushThreshold (fst s) < length b then flushAndClear s
     else Ret () s)"

text \<open>The bytes of a word in memory, on a little-endian machine.\<close>

definition word_bytes :: "64 word \<Rightarrow> bytes" where
  "word_bytes v = map (\<lambda>i. ucast (drop_bit (8 * i) v)) [0..<8]"

definition writeWord :: "64 word \<Rightarrow> unit wr" where
  "writeWord v = setBuffer (\<lambda>b. b @ word_bytes v)"

definition OrderedWriter_writeBytes :: "bytes \<Rightarrow> unit wr" where
  "OrderedWriter_writeBytes bs = setBuffer (\<lambda>b. b @ bs)"

definition flushToWord :: "unit wr" where
  "flushToWord = bindM (getM (\<lambda>s. fst s)) (\<lambda>w.
     if w_BitsInStore w = 0 then retM ()
     else thenM (writeWord (byteswap64 (w_Store w))) (modW (\<lambda>w. w\<lparr>w_BitsInStore := 0, w_Store := 0\<rparr>)))"

definition OrderedWriter_destroy :: "unit wr" where
  "OrderedWriter_destroy = thenM flushToWord (flushToFile True)"

section \<open>Proxies\<close>

definition OrderedWriter_getProxy :: "OrderedWriter \<Rightarrow> BufferClone" where
  "OrderedWriter_getProxy w = \<lparr>bc_Buffer = w_Buffer w, bc_FS = w_FS w, bc_FlushThreshold = w_FlushThreshold w,
     bc_Store = w_Store w, bc_ExternBuffer = (\<not> isOwnBuffer w), bc_NBits = w_BitsInStore w\<rparr>"

definition OrderedWriter_setProxy :: "BufferClone \<Rightarrow> unit wr" where
  "OrderedWriter_setProxy p =
    thenM (modW (\<lambda>w. w\<lparr>w_Buffer := bc_Buffer p\<rparr>))
    (thenM (if bc_ExternBuffer p then modW (\<lambda>w. w\<lparr>w_FS := bc_FS p\<rparr>)
            else modW (\<lambda>w. if isOwnBuffer w then w else w\<lparr>w_FS := None\<rparr>))
    (thenM (modW (\<lambda>w. w\<lparr>w_FlushThreshold := bc_FlushThreshold p, w_BitsInStore := bc_NBits p, w_Store := bc_Store p\<rparr>))
      (flushToFile False)))"

definition OrderedWriter_from :: "BufferClone \<Rightarrow> WriterMemory \<Rightarrow> (unit, OrderedWriter \<times> WriterMemory) exi" where
  "OrderedWriter_from p m = OrderedWriter_setProxy p (OrderedWriter_newVec (bc_Buffer p) m)"

text \<open>A proxy of the second kind, a reference to a buffer only. It has no counterpart of the file.\<close>

record BufferRef =
  br_Buffer :: nat
  br_Store :: "64 word"
  br_NBits :: nat

definition OrderedWriter_getRefProxy :: "OrderedWriter \<Rightarrow> BufferRef" where
  "OrderedWriter_getRefProxy w = \<lparr>br_Buffer = w_Buffer w, br_Store = w_Store w, br_NBits = w_BitsInStore w\<rparr>"

definition OrderedWriter_setRefProxy :: "BufferRef \<Rightarrow> unit wr" where
  "OrderedWriter_setRefProxy p =
    thenM (flushToFile True)
      (modW (\<lambda>w. w\<lparr>w_Buffer := br_Buffer p, w_FS := None, w_BitsInStore := br_NBits p, w_Store := br_Store p\<rparr>))"

section \<open>Writing bits\<close>

text \<open>
  The value is shifted in its own type, then converted to the word. A 64-bit value is shifted as such;
  a byte or a \<open>bool\<close> is promoted to a signed 32-bit integer first, whose shifts by 32 or more are undefined.
\<close>

definition int_shl :: "32 word \<Rightarrow> nat \<Rightarrow> 64 word option" where
  "int_shl v n = (if n < 32 then Some (scast (push_bit n v)) else None)"

definition int_shr :: "32 word \<Rightarrow> nat \<Rightarrow> 64 word option" where
  "int_shr v n = (if n < 32 then Some (scast (signed_drop_bit n v)) else None)"

definition writeNBits :: "(nat \<Rightarrow> 64 word option) \<Rightarrow> (nat \<Rightarrow> 64 word option) \<Rightarrow> nat \<Rightarrow> unit wr" where
  "writeNBits shl shr bits = bindM (getM (\<lambda>s. w_BitsInStore (fst s))) (\<lambda>n.
     definedM (shl n) (\<lambda>v.
     thenM (modW (\<lambda>w. w\<lparr>w_Store := w_Store w OR v\<rparr>))
       (if bits + n < kBitsPerWord then modW (\<lambda>w. w\<lparr>w_BitsInStore := n + bits\<rparr>)
        else bindM (getM (\<lambda>s. w_Store (fst s))) (\<lambda>s.
          thenM (writeWord s)
            (definedM (if n \<noteq> 0 then shr (kBitsPerWord - n) else Some 0) (\<lambda>rest.
              modW (\<lambda>w. w\<lparr>w_Store := rest, w_BitsInStore := (n + bits) mod 64\<rparr>)))))))"

definition writeNBits_u64 :: "64 word \<Rightarrow> nat \<Rightarrow> unit wr" where
  "writeNBits_u64 v = writeNBits (\<lambda>n. shl64 n v) (\<lambda>n. shr64 n v)"

definition writeNBits_int :: "32 word \<Rightarrow> nat \<Rightarrow> unit wr" where
  "writeNBits_int v = writeNBits (int_shl v) (int_shr v)"

text \<open>The value comes as an integer of \<open>n\<close> bits, whose construction asserts that it fits.\<close>

definition writeBits :: "nat \<Rightarrow> 64 word \<Rightarrow> unit wr" where
  "writeBits n v = thenM (assertM (\<lambda>_. unat v < 2 ^ n)) (writeNBits_u64 v n)"

definition writeByte :: "8 word \<Rightarrow> unit wr" where
  "writeByte v = writeNBits_int (ucast v) 8"

text \<open>A value that needs more octets than allowed is cut off, with a warning in the log.\<close>

primrec writeNByteUInt :: "nat \<Rightarrow> 64 word \<Rightarrow> unit wr" where
  "writeNByteUInt 0 v = retM ()"
| "writeNByteUInt (Suc n) v = (if v < 0b10000000 then writeByte (ucast v)
     else thenM (writeByte (ucast ((v AND 0b01111111) OR 0b10000000))) (writeNByteUInt n (drop_bit 7 v)))"

definition writeUInt :: "64 word \<Rightarrow> unit wr" where
  "writeUInt = writeNByteUInt 8"

lemma next_shorter: "d \<noteq> [] \<Longrightarrow> RuneIterator_next d = Ret u d' \<Longrightarrow> length d' < length d"
  using UnitLen_bounds(1) [of "d ! 0"]
  by (auto simp: RuneIterator_next_def currentLen_def dest!: advance_shorter)

function writeString_loop :: "bytes \<Rightarrow> unit wr" where
  "writeString_loop d s =
    (if d = [] then Ret () s
     else (case (RuneIterator_deref False d :: (ExiError, Rune, bytes) outcome) of
        Ret c _ \<Rightarrow> (case writeNByteUInt UnicodeReads (ucast c) s of
            Ret _ s' \<Rightarrow> (case (RuneIterator_next d :: (ExiError, unit, bytes) outcome) of
                Ret _ d' \<Rightarrow> writeString_loop d' s' | Err e _ \<Rightarrow> Err e s' | Fault f \<Rightarrow> Fault f)
          | Err e s' \<Rightarrow> Err e s' | Fault f \<Rightarrow> Fault f)
      | Err e _ \<Rightarrow> Err e s | Fault f \<Rightarrow> Fault f))"
  by pat_completeness auto
termination by (relation "measure (\<lambda>(d, _). length d)") (auto intro: next_shorter)

declare writeString_loop.simps [simp del]

definition writeString :: "bytes \<Rightarrow> unit wr" where
  "writeString d = (if d = [] then retM () else writeString_loop d)"

definition encodeString :: "bytes \<Rightarrow> unit wr" where
  "encodeString d = thenM (writeUInt (of_nat (length d))) (writeString d)"

section \<open>Bit and byte writers\<close>

definition BitWriter_writeBit :: "bool \<Rightarrow> unit wr" where
  "BitWriter_writeBit b = writeNBits_int (of_bool b) 1"

definition BitWriter_writeBits64 :: "64 word \<Rightarrow> nat \<Rightarrow> unit wr" where
  "BitWriter_writeBits64 v bits = thenM (invariantM (\<lambda>_. bits \<le> kBitsPerWord))
     (if bits = 0 then retM () else writeNBits_u64 v bits)"

definition BitWriter_align :: "unit wr" where
  "BitWriter_align = bindM (getM (\<lambda>s. w_BitsInStore (fst s))) (\<lambda>n. BitWriter_writeBits64 0 (n mod 8))"

definition ByteWriter_writeBit :: "bool \<Rightarrow> unit wr" where
  "ByteWriter_writeBit b = writeByte (of_bool b)"

definition ByteWriter_writeBits64 :: "64 word \<Rightarrow> nat \<Rightarrow> unit wr" where
  "ByteWriter_writeBits64 v bits = thenM (invariantM (\<lambda>_. bits \<le> kBitsPerWord))
     (if bits = 0 then retM () else writeNBits_u64 v (MakeByteCount bits))"

text \<open>Either writer; no writer is the empty state of the union.\<close>

datatype OrdWriter = WBit OrderedWriter | WByte OrderedWriter

section \<open>The bits written\<close>

text \<open>The order in which a writer fills its bytes: least significant bit first.\<close>

definition buffer_bits :: "bytes \<Rightarrow> bool list" where
  "buffer_bits bs = concat (map (\<lambda>b. map (bit b) [0..<8]) bs)"

lemma buffer_bits_append: "buffer_bits (xs @ ys) = buffer_bits xs @ buffer_bits ys"
  by (simp add: buffer_bits_def)

lemma upt_8: "[0..<8 :: nat] = [0, 1, 2, 3, 4, 5, 6, 7]"
  by code_simp

lemma buffer_bits_word: "buffer_bits (word_bytes v) = map (bit v) [0..<64]"
  unfolding buffer_bits_def word_bytes_def upt_8 upt_64 upt_32 by (simp add: bit_simps)

definition written :: "OrderedWriter \<times> WriterMemory \<Rightarrow> bool list" where
  "written s = buffer_bits (wm_Buffers (snd s) ! w_Buffer (fst s)) @ map (bit (w_Store (fst s))) [0..<w_BitsInStore (fst s)]"

definition writer_ok :: "OrderedWriter \<times> WriterMemory \<Rightarrow> bool" where
  "writer_ok s \<longleftrightarrow> w_BitsInStore (fst s) < 64 \<and> w_Buffer (fst s) < length (wm_Buffers (snd s))
     \<and> (\<forall>i. w_BitsInStore (fst s) \<le> i \<longrightarrow> \<not> bit (w_Store (fst s)) i)"

text \<open>Only the store and the own buffer's contents change.\<close>

definition same_writer :: "OrderedWriter \<times> WriterMemory \<Rightarrow> OrderedWriter \<times> WriterMemory \<Rightarrow> bool" where
  "same_writer s s' \<longleftrightarrow> w_Buffer (fst s') = w_Buffer (fst s) \<and> w_OwnBuffer (fst s') = w_OwnBuffer (fst s)
     \<and> w_FS (fst s') = w_FS (fst s) \<and> w_FlushThreshold (fst s') = w_FlushThreshold (fst s)
     \<and> wm_Files (snd s') = wm_Files (snd s) \<and> length (wm_Buffers (snd s')) = length (wm_Buffers (snd s))
     \<and> (\<forall>b. b \<noteq> w_Buffer (fst s) \<longrightarrow> wm_Buffers (snd s') ! b = wm_Buffers (snd s) ! b)"

lemma bits_or_push:
  fixes s v :: "64 word"
  assumes "\<And>i. b \<le> i \<Longrightarrow> \<not> bit s i" "b + n \<le> 64"
  shows "map (bit (s OR push_bit b v)) [0..<b + n] = map (bit s) [0..<b] @ map (bit v) [0..<n]"
proof (rule nth_equalityI)
  fix i assume "i < length (map (bit (s OR push_bit b v)) [0..<b + n])"
  then have i: "i < b + n" by simp
  show "map (bit (s OR push_bit b v)) [0..<b + n] ! i = (map (bit s) [0..<b] @ map (bit v) [0..<n]) ! i"
    using i assms by (cases "i < b") (auto simp: nth_append bit_simps dest: bit_imp_le_length)
qed simp

lemma bits_split:
  fixes v :: "64 word"
  assumes "k \<le> n"
  shows "map (bit v) [0..<k] @ map (bit (drop_bit k v)) [0..<n - k] = map (bit v) [0..<n]"
  by (rule nth_equalityI) (use assms in \<open>auto simp: nth_append bit_simps\<close>)

lemma writeWord_run:
  "w_Buffer w < length (wm_Buffers m) \<Longrightarrow> writeWord v (w, m)
    = Ret () (w, m\<lparr>wm_Buffers := (wm_Buffers m)[w_Buffer w := wm_Buffers m ! w_Buffer w @ word_bytes v]\<rparr>)"
  by (simp add: writeWord_def setBuffer_def bufferM_def)

lemma modW_run [simp]: "modW f (w, m) = Ret () (f w, m)"
  by (simp add: modW_def)

lemma writeNBits_u64_ok:
  assumes "writer_ok (w, m)" "0 < n" "n \<le> 64" "\<And>i. n \<le> i \<Longrightarrow> \<not> bit v i"
  shows "\<exists>s'. writeNBits_u64 v n (w, m) = Ret () s' \<and> writer_ok s' \<and> same_writer (w, m) s'
    \<and> written s' = written (w, m) @ map (bit v) [0..<n]"
proof -
  let ?b = "w_BitsInStore w" and ?S = "w_Store w OR push_bit (w_BitsInStore w) v"
  have b: "?b < 64" "w_Buffer w < length (wm_Buffers m)" "\<And>i. ?b \<le> i \<Longrightarrow> \<not> bit (w_Store w) i"
    using assms(1) by (auto simp: writer_ok_def)
  show ?thesis
  proof (cases "n + ?b < 64")
    case True
    let ?s = "(w\<lparr>w_Store := ?S, w_BitsInStore := ?b + n\<rparr>, m)"
    have "writeNBits_u64 v n (w, m) = Ret () ?s"
      using True b(1) by (simp add: writeNBits_u64_def writeNBits_def kBitsPerWord_def)
    moreover have "writer_ok ?s"
      using True b assms(4) by (auto simp: writer_ok_def bit_simps)
    moreover have "written ?s = written (w, m) @ map (bit v) [0..<n]"
      using bits_or_push [of ?b "w_Store w" n v] b(3) True by (simp add: written_def)
    ultimately show ?thesis by (auto simp: same_writer_def)
  next
    case False
    define k where "k = 64 - ?b"
    have k: "0 < k" "k \<le> 64" "k \<le> n" "?b + k = 64" "(?b + n) mod 64 = n - k" "n - k < 64"
      using False b(1) assms(3) by (auto simp: k_def mod_if)
    let ?R = "if ?b \<noteq> 0 then drop_bit k v else 0"
    let ?m = "m\<lparr>wm_Buffers := (wm_Buffers m)[w_Buffer w := wm_Buffers m ! w_Buffer w @ word_bytes ?S]\<rparr>"
    let ?s = "(w\<lparr>w_Store := ?R, w_BitsInStore := n - k\<rparr>, ?m)"
    have R: "map (bit ?R) [0..<n - k] = map (bit (drop_bit k v)) [0..<n - k]"
      using k assms(3) by (auto simp: k_def)
    have W: "written ?s = buffer_bits (wm_Buffers m ! w_Buffer w) @ map (bit ?S) [0..<?b + k] @ map (bit ?R) [0..<n - k]"
      unfolding k(4) using b(2) by (simp add: written_def buffer_bits_append buffer_bits_word del: map_map)
    have "writeNBits_u64 v n (w, m) = Ret () ?s"
      using False b(1,2) k by (simp add: writeNBits_u64_def writeNBits_def kBitsPerWord_def writeWord_run flip: k_def)
    moreover have "writer_ok ?s"
      using b(2) k(6,3) assms(4) by (auto simp: writer_ok_def bit_simps)
    moreover have "written ?s = written (w, m) @ map (bit v) [0..<n]"
      using bits_or_push [of ?b "w_Store w" k v, OF b(3) eq_imp_le [OF k(4)]]
      unfolding W R by (simp add: written_def bits_split [OF k(3), symmetric])
    ultimately show ?thesis using b(2) by (auto simp: same_writer_def)
  qed
qed

text \<open>Bytes and single bits are safe while the store has room in a promoted integer.\<close>

lemma writeByte_undefined:
  assumes "32 \<le> w_BitsInStore w"
  shows "writeByte v (w, m) = Fault Undefined" "BitWriter_writeBit c (w, m) = Fault Undefined"
  using assms by (simp_all add: writeByte_def BitWriter_writeBit_def writeNBits_int_def writeNBits_def int_shl_def)

text \<open>A non-negative integer whose top bit stays clear is shifted like the word it converts to.\<close>

lemma int_shl_small:
  assumes "\<And>i. k \<le> i \<Longrightarrow> \<not> bit (v :: 32 word) i" "n + k < 32"
  shows "int_shl v n = Some (push_bit n (ucast v))"
proof -
  have "bit (scast (push_bit n v) :: 64 word) i = bit (push_bit n (ucast v) :: 64 word) i" if "i < 64" for i
  proof (cases "i < 31")
    case True
    then show ?thesis using that by (auto simp: bit_simps)
  next
    case False
    have "\<not> bit v (i - n)" "\<not> bit v (31 - n)" by (rule assms(1); use False assms(2) in linarith)+
    then show ?thesis using False that by (auto simp: bit_simps)
  qed
  then show ?thesis using assms(2) by (auto simp: int_shl_def intro: bit_word_eqI)
qed

lemma not_bit_above:
  assumes "unat (v :: 64 word) < 2 ^ n" "n \<le> i"
  shows "\<not> bit v i"
proof -
  have "(2 :: nat) ^ n \<le> 2 ^ i" using assms(2) by (rule power_increasing) simp
  with assms(1) have "unat v < 2 ^ i" by (rule order.strict_trans2)
  then have "\<not> bit (unat v) i" by (simp add: bit_iff_odd)
  then show ?thesis by (simp add: bit_unsigned_iff)
qed

text \<open>A run of variable-width writes.\<close>

primrec write_all :: "(nat \<times> 64 word) list \<Rightarrow> unit wr" where
  "write_all [] = retM ()"
| "write_all (x # xs) = thenM (BitWriter_writeBits64 (snd x) (fst x)) (write_all xs)"

lemma BitWriter_writeBits64_ok:
  assumes "writer_ok s" "n \<le> 64" "unat v < 2 ^ n"
  shows "\<exists>s'. BitWriter_writeBits64 v n s = Ret () s' \<and> writer_ok s' \<and> same_writer s s'
    \<and> written s' = written s @ map (bit v) [0..<n]"
proof (cases "n = 0")
  case True
  then show ?thesis using assms(1) by (simp add: BitWriter_writeBits64_def same_writer_def)
next
  case False
  then show ?thesis
    using writeNBits_u64_ok [of "fst s" "snd s" n v] not_bit_above [OF assms(3)] assms(1,2)
    by (auto simp: BitWriter_writeBits64_def kBitsPerWord_def)
qed

lemma same_writer_trans: "same_writer s t \<Longrightarrow> same_writer t u \<Longrightarrow> same_writer s u"
  by (simp add: same_writer_def)



text \<open>A byte writer passes the number of bytes on as a number of bits.\<close>

lemma ByteWriter_writeBits64_short:
  assumes "writer_ok s" "0 < n" "n \<le> 64" "unat v < 2 ^ MakeByteCount n"
  shows "\<exists>s'. ByteWriter_writeBits64 v n s = Ret () s' \<and> written s' = written s @ map (bit v) [0..<MakeByteCount n]"
proof -
  have "0 < MakeByteCount n" "MakeByteCount n \<le> 64" using assms(2,3) by (auto simp: MakeByteCount_def)
  then show ?thesis
    using writeNBits_u64_ok [of "fst s" "snd s" "MakeByteCount n" v] not_bit_above [OF assms(4)] assms(1-3)
    by (auto simp: ByteWriter_writeBits64_def kBitsPerWord_def)
qed

end
