(* ===== verification/HeaderDecoder.thy ===== *)
theory HeaderDecoder
  imports BodyDecoder
begin

text \<open>
  Decoding of the EXI header (\<open>lib/exi/Decode/HeaderDecoder.cpp\<close>): the cookie, the distinguishing
  bits, the presence bit and the version, and the hand-over of the stream to the reader of the body.
  The header is always read with a bit reader. The loop over version chunks is a partial function,
  and its end is a theorem.
\<close>

section \<open>State\<close>

type_synonym 'a hdr = "ExiHeader \<times> BitReader \<Rightarrow> ('a, ExiHeader \<times> BitReader) exi"

text \<open>\<open>readBits\<close> into a value of \<open>n\<close> bits, which asserts that the bits fit.\<close>

definition hdr_readBits :: "nat \<Rightarrow> (64 word) hdr" where
  "hdr_readBits n = bindM (zoomM snd (\<lambda>r x. (fst x, r)) (BitReader_readBits64 n)) (\<lambda>w.
     thenM (assertM (\<lambda>_. unat w < 2 ^ n)) (retM w))"

definition hdr_readByte :: "(8 word) hdr" where
  "hdr_readByte = zoomM snd (\<lambda>r x. (fst x, r)) BitReader_readByte"

definition hdr_set :: "(ExiHeader \<Rightarrow> ExiHeader) \<Rightarrow> unit hdr" where
  "hdr_set f = modM (\<lambda>x. (f (fst x), snd x))"

section \<open>Cookie and distinguishing bits\<close>

text \<open>The result of a read inside the cookie is used without a check.\<close>

primrec cookie_loop :: "bytes \<Rightarrow> unit hdr" where
  "cookie_loop [] = retM ()"
| "cookie_loop (c # cs) = bindM (expectM AssertFail hdr_readByte) (\<lambda>b.
     if c \<noteq> b then errM (HeaderSig b) else cookie_loop cs)"

definition DecodeCookieAndBits :: "unit hdr" where
  "DecodeCookieAndBits =
    bindM (hdr_readBits 2) (\<lambda>b.
    bindM (if b = 0 then
        bindM (expectM AssertFail (hdr_readBits 6)) (\<lambda>first.
          if (ucast first :: 8 word) \<noteq> 0x24 then errM (HeaderSig (ucast first))
          else thenM (cookie_loop (str ''EXI''))
            (thenM (hdr_set (\<lambda>h. h\<lparr>HasCookie := True\<rparr>)) (hdr_readBits 2)))
      else retM b) (\<lambda>b.
      if b \<noteq> 2 then errM (HeaderBits b) else retM ()))"

section \<open>Version\<close>

text \<open>Sequencing of operations that may not return.\<close>

definition bindO :: "('s \<Rightarrow> ('a, 's) exi option) \<Rightarrow> ('a \<Rightarrow> 's \<Rightarrow> ('b, 's) exi option) \<Rightarrow> 's \<Rightarrow> ('b, 's) exi option" where
  "bindO m k s = (case m s of None \<Rightarrow> None | Some (Ret a t) \<Rightarrow> k a t | Some (Err e t) \<Rightarrow> Some (Err e t)
     | Some (Fault f) \<Rightarrow> Some (Fault f))"

definition liftO :: "('s \<Rightarrow> ('a, 's) exi) \<Rightarrow> 's \<Rightarrow> ('a, 's) exi option" where
  "liftO m s = Some (m s)"

partial_function (option) version_loop :: "32 word \<Rightarrow> ExiHeader \<times> BitReader \<Rightarrow> (32 word, ExiHeader \<times> BitReader) exi option" where
  "version_loop v x = (case hdr_readBits 4 x of
      Ret w y \<Rightarrow> if w = 0b1111 then version_loop (v + ucast w) y else Some (Ret (v + ucast w) y)
    | Err e y \<Rightarrow> Some (Err e y)
    | Fault f \<Rightarrow> Some (Fault f))"

text \<open>The version field has 30 bits.\<close>

definition DecodeVersion :: "ExiHeader \<times> BitReader \<Rightarrow> (unit, ExiHeader \<times> BitReader) exi option" where
  "DecodeVersion =
    bindO (liftO (hdr_readBits 1)) (\<lambda>preview.
    bindO (liftO (hdr_set (\<lambda>h. h\<lparr>IsPreviewVersion := preview \<noteq> 0\<rparr>))) (\<lambda>_.
    bindO (version_loop 1) (\<lambda>v. liftO (hdr_set (\<lambda>h. h\<lparr>ExiVersion := ucast v\<rparr>)))))"

section \<open>The header\<close>

definition hdr_fixup :: "unit hdr" where
  "hdr_fixup x = (case Opts (fst x) of
      None \<Rightarrow> Fault InvariantFail
    | Some opts \<Rightarrow>
        (let o1 = (if Compression opts then opts\<lparr>Alignment := PreCompression\<rparr> else opts) in
         case FixupAndValidateOptions o1 of (e, o2) \<Rightarrow>
           (let y = ((fst x)\<lparr>Opts := Some o2\<rparr>, snd x) in
            if ExiError_bool e then Err e y
            else if Alignment o2 \<noteq> BitPacked then zoomM snd (\<lambda>r x. (fst x, r)) BitReader_align y
            else Ret () y)))"

definition decodeHeaderImpl :: "ExiHeader \<times> BitReader \<Rightarrow> (unit, ExiHeader \<times> BitReader) exi option" where
  "decodeHeaderImpl =
    bindO (liftO (thenM DecodeCookieAndBits (hdr_readBits 1))) (\<lambda>presence.
    bindO (liftO (hdr_set (\<lambda>h. h\<lparr>HasOptions := presence \<noteq> 0\<rparr>))) (\<lambda>_.
    bindO (liftO (\<lambda>x. if Opts (fst x) = None
        then if presence = 0 then Err HeaderOutOfBand x else hdr_set (\<lambda>h. h\<lparr>Opts := Some default_ExiOptions\<rparr>) x
        else Ret () x)) (\<lambda>_.
    bindO DecodeVersion (\<lambda>_.
    liftO (\<lambda>x. if IsPreviewVersion (fst x) then Err HeaderVerPreview x
      else if kCurrentExiVersion < unat (ExiVersion (fst x)) then Err (HeaderVer (ucast (ExiVersion (fst x)))) x
      else if presence \<noteq> 0 then Fault Unreachable
      else hdr_fixup x)))))"

section \<open>Hand-over to the body\<close>

text \<open>A reader that starts from a proxy.\<close>

definition BitReader_from :: "StreamProxy \<Rightarrow> (unit, BitReader) exi" where
  "BitReader_from p = BitReader_setProxy p (BitReader_new [])"

definition ByteReader_from :: "StreamProxy \<Rightarrow> (unit, ByteReader) exi" where
  "ByteReader_from p = ByteReader_setProxy p (ByteReader_new [])"

text \<open>The destructor of the guard writes the position back, and only into a bit reader.\<close>

definition HeaderDecoder_SetReader :: "OrdReader \<Rightarrow> BitReader \<Rightarrow> (unit, OrdReader) exi" where
  "HeaderDecoder_SetReader strm mine = (case strm of
      OrdBit b \<Rightarrow> map_state OrdBit (BitReader_setProxy (BitReader_getProxy mine) b)
    | OrdByte b \<Rightarrow> Fault Unreachable)"

definition decodeHeader :: "ExiHeader \<times> OrdReader option \<Rightarrow> (unit, ExiHeader \<times> OrdReader option) exi option" where
  "decodeHeader x = (case snd x of
      None \<Rightarrow> Some (Err (ExiError_New kNullptrRef) x)
    | Some strm \<Rightarrow> (case BitReader_from (OrdReader_getProxy strm) of
          Fault f \<Rightarrow> Some (Fault f)
        | Err e _ \<Rightarrow> Some (Err e x)
        | Ret _ mine \<Rightarrow> (case decodeHeaderImpl (fst x, mine) of
              None \<Rightarrow> None
            | Some (Fault f) \<Rightarrow> Some (Fault f)
            | Some (Ret _ (h, mine)) \<Rightarrow>
                Some (map_state (\<lambda>s. (h, Some s)) (HeaderDecoder_SetReader strm mine))
            | Some (Err e (h, mine)) \<Rightarrow> Some (case HeaderDecoder_SetReader strm mine of
                  Ret _ s \<Rightarrow> Err e (h, Some s) | Err e' s \<Rightarrow> Err e (h, Some s) | Fault f \<Rightarrow> Fault f))))"

definition ExiDecoder_decodeHeader :: "bytes \<Rightarrow> ExiDecoder \<Rightarrow> (unit, ExiDecoder) exi option" where
  "ExiDecoder_decodeHeader buf d =
    (if DidHeader (Flags d) then Some (thenM (assertM (\<lambda>d. Reader d \<noteq> None)) readerExists d)
     else (let finish = (\<lambda>bad h strm.
         (let d1 = d\<lparr>Header := h, Flags := (Flags d)\<lparr>SetReader := False\<rparr>\<rparr>; p = BitReader_getProxy strm in
          if bad \<or> map_option Alignment (Opts h) = Some BitPacked
          then map_state (\<lambda>b. d1\<lparr>Reader := Some (OrdBit b)\<rparr>) (BitReader_from p)
          else map_state (\<lambda>b. d1\<lparr>Reader := Some (OrdByte b)\<rparr>) (ByteReader_from p)))
       in case decodeHeaderImpl (Header d, BitReader_new buf) of
          None \<Rightarrow> None
        | Some (Fault f) \<Rightarrow> Some (Fault f)
        | Some (Ret _ (h, strm)) \<Rightarrow> Some (case finish False h strm of
              Ret _ d1 \<Rightarrow> init d1 | Err e d1 \<Rightarrow> Err e d1 | Fault f \<Rightarrow> Fault f)
        | Some (Err e (h, strm)) \<Rightarrow> Some (case finish True h strm of
              Ret _ d1 \<Rightarrow> Err e d1 | Err e' d1 \<Rightarrow> Err e' d1 | Fault f \<Rightarrow> Fault f)))"

section \<open>Decoding ends\<close>

text \<open>
  A refill of the last, partial word restarts the offset inside the buffer, so the reader may pass
  over most of the buffer twice. Offsets are multiples of the word or congruent to the length; then
  a second pass ends at the end of the buffer.
\<close>

definition offset_ok :: "BitReader \<Rightarrow> bool" where
  "offset_ok r \<longleftrightarrow> BitsInStore r \<le> 64 \<and> (ByteOffset r < length (Stream r) \<longrightarrow>
     ByteOffset r mod 8 = 0 \<or> ByteOffset r mod 8 = length (Stream r) mod 8)"

definition bytes_ahead :: "BitReader \<Rightarrow> nat" where
  "bytes_ahead r = (let n = length (Stream r); k = ByteOffset r in
     if n \<le> k then 0 else if k mod 8 = n mod 8 then n - k else (n - k) + (n - n mod 8))"

definition bits_ahead :: "BitReader \<Rightarrow> nat" where
  "bits_ahead r = BitsInStore r + 8 * bytes_ahead r"

lemma offset_ok_new: "offset_ok (BitReader_new bs)"
  by (simp add: offset_ok_def BitReader_new_def)

lemma fillStore_ahead:
  assumes "fillStoreImpl r = Ret n r'" "offset_ok r"
  shows "0 < n \<and> n \<le> 8 \<and> offset_ok r' \<and> bytes_ahead r' + n = bytes_ahead r \<and> BitsInStore r' = BitsInStore r"
proof -
  have k: "ByteOffset r < length (Stream r)" using assms(1) by (auto simp: fillStoreImpl_def split: if_splits)
  show ?thesis
  proof (cases "ByteOffset r + 8 \<le> length (Stream r)")
    case True
    then have "n = 8" "Stream r' = Stream r" "BitsInStore r' = BitsInStore r"
      "ByteOffset r' = (if ByteOffset r + 8 = length (Stream r) then ByteOffset r + 9 else ByteOffset r + 8)"
      using assms(1) k by (auto simp: fillStoreImpl_def Let_def)
    moreover have "ByteOffset r + 8 = length (Stream r) \<Longrightarrow> length (Stream r) mod 8 = ByteOffset r mod 8"
      by (metis mod_add_self2)
    ultimately show ?thesis using True k assms(2)
      by (auto simp: offset_ok_def bytes_ahead_def Let_def split: if_splits)
  next
    case False
    define m where "m = length (Stream r) - ByteOffset r"
    have m: "0 < m" "m < 8" using k False by (auto simp: m_def)
    have r': "n = m" "Stream r' = Stream r" "BitsInStore r' = BitsInStore r"
      "ByteOffset r' = (if m = length (Stream r) then m + 1 else m)"
      using assms(1) k False by (auto simp: fillStoreImpl_def Let_def m_def)
    have o0: "ByteOffset r mod 8 = 0"
    proof (rule ccontr)
      assume "ByteOffset r mod 8 \<noteq> 0"
      then have "ByteOffset r mod 8 = length (Stream r) mod 8" using assms(2) k by (auto simp: offset_ok_def)
      then have "8 dvd m"
        using k mod_eq_dvd_iff_nat [of "ByteOffset r" "length (Stream r)" 8] by (simp add: m_def)
      then show False using m by (auto dest: dvd_imp_le)
    qed
    have l: "length (Stream r) mod 8 = m"
    proof -
      have "length (Stream r) = ByteOffset r + m" using k by (simp add: m_def)
      then have "length (Stream r) mod 8 = (ByteOffset r mod 8 + m) mod 8" by presburger
      then show ?thesis using o0 m by simp
    qed
    have "m \<le> length (Stream r)" using l by (metis mod_less_eq_dividend)
    then show ?thesis using r' m l o0 k assms(2)
      by (auto simp: offset_ok_def bytes_ahead_def Let_def m_def)
  qed
qed

lemma offset_ok_more [simp]:
  "BitsInStore r \<le> 64 \<Longrightarrow> n \<le> 64 \<Longrightarrow> offset_ok (r\<lparr>Store := s, BitsInStore := n\<rparr>) = offset_ok r"
  "bytes_ahead (r\<lparr>Store := s, BitsInStore := n\<rparr>) = bytes_ahead r"
  by (simp_all add: offset_ok_def bytes_ahead_def)

lemma readFull_ahead:
  assumes "BitReader_readFullBits64V n r = Ret w r'" "offset_ok r" "n \<le> BitsInStore r"
  shows "offset_ok r' \<and> bits_ahead r' + n = bits_ahead r"
  using assms by (auto simp: BitReader_readFullBits64V_def definedM_Ret_iff usub_def bits_ahead_def offset_ok_def bytes_ahead_def)

lemma readBits64_ahead:
  assumes "BitReader_readBits64 n r = Ret w r'" "offset_ok r"
  shows "offset_ok r' \<and> bits_ahead r' + n = bits_ahead r"
proof -
  consider "n = 0" | "n \<le> BitsInStore r" | "BitsInStore r < n" "n \<noteq> 0" by linarith
  then show ?thesis
  proof cases
    case 1
    then show ?thesis using assms by (auto simp: BitReader_readBits64_def shape_simps)
  next
    case 2
    then have "n = 0 \<and> r' = r \<or> BitReader_readFullBits64V n r = Ret w r'"
      using assms(1) by (auto simp: BitReader_readBits64_def shape_simps split: if_splits)
    then show ?thesis using readFull_ahead assms(2) 2 by auto
  next
    case 3
    then have "BitReader_readPartialBits64 n r = Ret w r'"
      using assms(1) by (auto simp: BitReader_readBits64_def shape_simps)
    then obtain m r1 t where f: "fillStoreImpl r = Ret m r1"
      and t: "BitReader_readFullBits64V (n - BitsInStore r) (r1\<lparr>Store := byteswap64 (Store r1), BitsInStore := m * 8\<rparr>) = Ret t r'"
      and h: "n - BitsInStore r \<le> m * 8"
      by (auto simp: BitReader_readPartialBits64_def BitReader_fillStore_def Let_def shape_simps definedM_Ret_iff
          split: if_splits)
    note a = fillStore_ahead [OF f assms(2)]
    define r2 where "r2 = r1\<lparr>Store := byteswap64 (Store r1), BitsInStore := m * 8\<rparr>"
    have "BitsInStore r1 \<le> 64" using a assms(2) by (simp add: offset_ok_def)
    then have r2: "offset_ok r2" "bytes_ahead r2 = bytes_ahead r1" using a by (simp_all add: r2_def)
    have "offset_ok r'" "bits_ahead r' + (n - BitsInStore r) = bits_ahead r2"
      using readFull_ahead [OF t [folded r2_def] r2(1)] h by (simp_all add: r2_def)
    moreover have "bits_ahead r2 = m * 8 + 8 * bytes_ahead r1" using r2(2) by (simp add: bits_ahead_def) (simp add: r2_def)
    moreover have "bits_ahead r = BitsInStore r + 8 * (bytes_ahead r1 + m)" using a by (simp add: bits_ahead_def)
    ultimately have "bits_ahead r' + n = bits_ahead r" using le_add_diff_inverse [OF less_imp_le [OF 3(1)]] by presburger
    then show ?thesis using \<open>offset_ok r'\<close> by simp
  qed
qed

lemma version_loop_returns:
  assumes "offset_ok (snd x)"
  shows "\<exists>r. version_loop v x = Some r \<and> (\<forall>a h b. r = Ret a (h, b) \<longrightarrow> offset_ok b)"
  using assms
proof (induction "bits_ahead (snd x)" arbitrary: v x rule: less_induct)
  case less
  show ?case
  proof (cases "hdr_readBits 4 x")
    case (Ret w y)
    then have "BitReader_readBits64 4 (snd x) = Ret w (snd y)"
      by (auto simp: hdr_readBits_def shape_simps zoomM_def split: outcome.splits)
    from readBits64_ahead [OF this less.prems]
    have "offset_ok (snd y)" "bits_ahead (snd y) < bits_ahead (snd x)" by auto
    then have "\<exists>r. version_loop (v + ucast w) y = Some r \<and> (\<forall>a h b. r = Ret a (h, b) \<longrightarrow> offset_ok b)"
      by (intro less.hyps) auto
    then show ?thesis
      using Ret \<open>offset_ok (snd y)\<close> by (cases "w = 15"; cases y) (simp_all add: version_loop.simps [of v x])
  qed (simp_all add: version_loop.simps [of v x])
qed

text \<open>An operation that returns, and keeps the reader's offset as above.\<close>

definition returns_ok :: "(ExiHeader \<times> BitReader \<Rightarrow> ('a, ExiHeader \<times> BitReader) exi option) \<Rightarrow> bool" where
  "returns_ok m \<longleftrightarrow> (\<forall>h b. offset_ok b \<longrightarrow> (\<exists>r. m (h, b) = Some r \<and> (\<forall>a h' b'. r = Ret a (h', b') \<longrightarrow> offset_ok b')))"

lemma returns_okD:
  "returns_ok m \<Longrightarrow> offset_ok b \<Longrightarrow> \<exists>r. m (h, b) = Some r \<and> (\<forall>a h' b'. r = Ret a (h', b') \<longrightarrow> offset_ok b')"
  by (simp add: returns_ok_def)

lemma returns_bindO:
  assumes "returns_ok m" "\<And>a. returns_ok (k a)"
  shows "returns_ok (bindO m k)"
  unfolding returns_ok_def
proof (intro allI impI)
  fix h :: ExiHeader and b assume "offset_ok b"
  then obtain r where r: "m (h, b) = Some r" "\<forall>a h' b'. r = Ret a (h', b') \<longrightarrow> offset_ok b'"
    using returns_okD [OF assms(1)] by blast
  show "\<exists>r. bindO m k (h, b) = Some r \<and> (\<forall>a h' b'. r = Ret a (h', b') \<longrightarrow> offset_ok b')"
  proof (cases r)
    case (Ret a y)
    then show ?thesis using r assms(2) [of a] by (cases y) (auto simp: bindO_def returns_ok_def)
  qed (use r in \<open>simp_all add: bindO_def\<close>)
qed

lemma returns_liftO:
  "(\<And>x a y. offset_ok (snd x) \<Longrightarrow> m x = Ret a y \<Longrightarrow> offset_ok (snd y)) \<Longrightarrow> returns_ok (liftO m)"
  by (auto simp: returns_ok_def liftO_def)

lemma hdr_readBits_ahead:
  assumes "hdr_readBits n x = Ret w y" "offset_ok (snd x)"
  shows "offset_ok (snd y) \<and> fst y = fst x"
proof -
  have "BitReader_readBits64 n (snd x) = Ret w (snd y) \<and> fst y = fst x"
    using assms(1) by (auto simp: hdr_readBits_def shape_simps zoomM_def split: outcome.splits)
  then show ?thesis using readBits64_ahead assms(2) by blast
qed

lemma hdr_readByte_ahead:
  assumes "hdr_readByte x = Ret w y" "offset_ok (snd x)"
  shows "offset_ok (snd y)"
proof -
  have "BitReader_readByte (snd x) = Ret w (snd y)"
    using assms(1) by (auto simp: hdr_readByte_def zoomM_def split: outcome.splits)
  then obtain u r where "BitReader_readNBits 8 (snd x) = Ret u r" "promotion_cast u8_t u64_t (uint u) r = Ret (uint w) (snd y) \<or> snd y = r"
    unfolding BitReader_readByte_def
    by (auto simp: shape_simps promotion_cast_def IntCast_def Let_def split: if_splits)
  then have "BitReader_readBits64 8 (snd x) = Ret u (snd y)"
    by (auto simp: readBits64_readNBits promotion_cast_def IntCast_def Let_def shape_simps split: if_splits)
  then show ?thesis using readBits64_ahead assms(2) by blast
qed

lemma expectM_Ret_iff [shape_simps]: "expectM f m s = Ret a t \<longleftrightarrow> m s = Ret a t"
  by (simp add: expectM_def split: outcome.split)

lemma cookie_loop_ahead:
  "cookie_loop cs x = Ret u y \<Longrightarrow> offset_ok (snd x) \<Longrightarrow> offset_ok (snd y)"
  by (induction cs arbitrary: x) (auto simp: shape_simps split: if_splits dest: hdr_readByte_ahead)

lemma DecodeCookieAndBits_ahead:
  assumes "DecodeCookieAndBits x = Ret u y" "offset_ok (snd x)"
  shows "offset_ok (snd y)"
proof -
  obtain b x1 where b: "hdr_readBits 2 x = Ret b x1"
    and k: "(if b = 0 then
        bindM (expectM AssertFail (hdr_readBits 6)) (\<lambda>first.
          if (ucast first :: 8 word) \<noteq> 0x24 then errM (HeaderSig (ucast first))
          else thenM (cookie_loop (str ''EXI''))
            (thenM (hdr_set (\<lambda>h. h\<lparr>HasCookie := True\<rparr>)) (hdr_readBits 2)))
      else retM b) x1 = Ret 2 y"
    using assms(1) unfolding DecodeCookieAndBits_def by (auto simp: shape_simps split: if_splits)
  have o1: "offset_ok (snd x1)" using hdr_readBits_ahead [OF b assms(2)] by blast
  show ?thesis
  proof (cases "b = 0")
    case True
    then obtain w x2 v x3 where "hdr_readBits 6 x1 = Ret w x2" "cookie_loop (str ''EXI'') x2 = Ret v x3"
        "hdr_readBits 2 ((fst x3)\<lparr>HasCookie := True\<rparr>, snd x3) = Ret 2 y"
      using k by (auto simp: shape_simps hdr_set_def split: if_splits)
    then show ?thesis using o1 hdr_readBits_ahead cookie_loop_ahead by (metis snd_conv)
  qed (use k o1 in \<open>auto simp: shape_simps\<close>)
qed

lemma returns_hdr_set: "returns_ok (liftO (hdr_set f))"
  by (rule returns_liftO) (auto simp: hdr_set_def shape_simps)

lemma returns_readBits: "returns_ok (liftO (hdr_readBits n))"
  by (rule returns_liftO) (blast dest: hdr_readBits_ahead)

lemma returns_DecodeVersion: "returns_ok DecodeVersion"
  unfolding DecodeVersion_def
  by (intro returns_bindO returns_hdr_set returns_readBits) (use version_loop_returns in \<open>auto simp: returns_ok_def\<close>)

lemma hdr_fixup_ahead: "hdr_fixup x = Ret u y \<Longrightarrow> offset_ok (snd x) \<Longrightarrow> offset_ok (snd y)"
  by (auto simp: hdr_fixup_def Let_def zoomM_def BitReader_align_def usub_def offset_ok_def
      split: option.splits prod.splits if_splits)

text \<open>Property C33. Decoding a header returns on every buffer and every header the caller provides: the
  loop over the chunks of the version ends even though the reader may pass over its buffer twice.\<close>

theorem decodeHeaderImpl_returns:
  "\<exists>r. decodeHeaderImpl (h, BitReader_new bs) = Some r"
proof -
  have "returns_ok decodeHeaderImpl"
    unfolding decodeHeaderImpl_def
    by (intro returns_bindO returns_hdr_set returns_DecodeVersion returns_liftO)
      (auto simp: shape_simps hdr_set_def split: if_splits
        dest: DecodeCookieAndBits_ahead hdr_readBits_ahead hdr_fixup_ahead)
  from returns_okD [OF this offset_ok_new] show ?thesis by blast
qed

section \<open>The documented header\<close>

lemma stream_word_less: "n < 64 \<Longrightarrow> unat (stream_word bs p n) < 2 ^ n"
proof -
  assume n: "n < 64"
  have "take_bit n (stream_word bs p n) = stream_word bs p n"
    by (rule bit_word_eqI) (auto simp: bit_simps bit_stream_word)
  then have "take_bit n (unat (stream_word bs p n)) = unat (stream_word bs p n)"
    by (metis unsigned_take_bit_eq)
  then show ?thesis by (metis take_bit_nat_less_exp)
qed

lemma hdr_readBits_at:
  assumes "br_at bs r p" "n \<le> 9" "p + n = q" "q \<le> 8 * length bs"
  shows "\<exists>r'. hdr_readBits n (h, r) = Ret (stream_word bs p n) (h, r') \<and> br_at bs r' q"
proof -
  obtain r' where "BitReader_readBits64 n r = Ret (stream_word bs p n) r'" "br_at bs r' q"
    using readNBits_at [OF assms(1), of n] assms(2-4) by (auto simp: readBits64_readNBits)
  then show ?thesis
    using stream_word_less [of n bs p] assms(2) by (simp add: hdr_readBits_def zoomM_def)
qed

lemma cookie_loop_at:
  assumes "br_at bs r (8 * k)" "k + length cs \<le> length bs" "take (length cs) (drop k bs) = cs"
  shows "\<exists>r'. cookie_loop cs (h, r) = Ret () (h, r') \<and> br_at bs r' (8 * (k + length cs))"
  using assms
proof (induction cs arbitrary: k r)
  case (Cons c cs)
  have k: "k < length bs" using Cons.prems(2) by simp
  have "drop k bs = bs ! k # drop (Suc k) bs" using k by (simp add: Cons_nth_drop_Suc)
  then have c: "bs ! k = c" "take (length cs) (drop (Suc k) bs) = cs" using Cons.prems(3) by simp_all
  obtain r1 where r1: "BitReader_readByte r = Ret (bs ! k) r1" "br_at bs r1 (8 * k + 8)"
    using readByte_at [OF Cons.prems(1)] k by (auto simp: stream_octet_aligned)
  have "br_at bs r1 (8 * Suc k)" using r1(2) by (simp add: add.commute)
  from Cons.IH [OF this _ c(2)] Cons.prems(2)
  obtain r2 where "cookie_loop cs (h, r1) = Ret () (h, r2)" "br_at bs r2 (8 * (Suc k + length cs))" by auto
  then show ?case using r1(1) c(1) by (simp add: hdr_readByte_def zoomM_def expectM_def add.commute)
qed simp

text \<open>A cookie, or none; then one octet: the bits 10, no options, the final version 1.\<close>

definition header_bytes :: "bool \<Rightarrow> bytes" where
  "header_bytes cookie = (if cookie then str ''$EXI'' else []) @ [0x80]"

lemma cookie_chars: "str ''$EXI'' = [0x24, 0x45, 0x58, 0x49]" "str ''EXI'' = [0x45, 0x58, 0x49]"
  by (simp_all add: str_def of_char_def)

lemmas word_eval = stream_word_def stream_bits_def msb_word_def sbit_def upt_rec bit_simps nth_append

lemma DecodeCookieAndBits_at:
  assumes "bs = header_bytes c @ body"
  shows "\<exists>r. DecodeCookieAndBits (h, BitReader_new bs) = Ret () (h\<lparr>HasCookie := HasCookie h \<or> c\<rparr>, r)
    \<and> br_at bs r (if c then 34 else 2)"
proof -
  have l: "length (header_bytes c) = (if c then 5 else 1)" by (simp add: header_bytes_def cookie_chars)
  obtain r1 where r1: "hdr_readBits 2 (h, BitReader_new bs) = Ret (stream_word bs 0 2) (h, r1)" "br_at bs r1 2"
    using hdr_readBits_at [OF br_at_new [of bs], of 2 2 h] assms l by (fastforce split: if_splits)
  show ?thesis
  proof (cases c)
    case False
    then have "stream_word bs 0 2 = 2" by (simp add: assms header_bytes_def word_eval)
    then have "DecodeCookieAndBits (h, BitReader_new bs) = Ret () (h, r1)"
      using r1(1) by (simp add: DecodeCookieAndBits_def)
    then show ?thesis using r1(2) False l by (cases h) auto
  next
    case True
    have bs: "bs = [0x24, 0x45, 0x58, 0x49, 0x80] @ body" using assms True by (simp add: header_bytes_def cookie_chars)
    have w: "stream_word bs 0 2 = 0" "stream_word bs 2 6 = 0x24" "stream_word bs 32 2 = 2"
      by (simp_all add: bs word_eval)
    obtain r2 where r2: "hdr_readBits 6 (h, r1) = Ret 0x24 (h, r2)" "br_at bs r2 (8 * 1)"
      using hdr_readBits_at [OF r1(2), of 6 "8 * 1" h] w(2) bs by auto
    obtain r3 where r3: "cookie_loop (str ''EXI'') (h, r2) = Ret () (h, r3)" "br_at bs r3 32"
      using cookie_loop_at [OF r2(2), of "str ''EXI''" h] bs by (auto simp: cookie_chars)
    obtain r4 where r4: "hdr_readBits 2 (h\<lparr>HasCookie := True\<rparr>, r3) = Ret 2 (h\<lparr>HasCookie := True\<rparr>, r4)" "br_at bs r4 34"
      using hdr_readBits_at [OF r3(2), of 2 34 "h\<lparr>HasCookie := True\<rparr>"] w(3) bs by auto
    have "DecodeCookieAndBits (h, BitReader_new bs) = Ret () (h\<lparr>HasCookie := True\<rparr>, r4)"
      using r1(1) w(1) r2(1) r3(1) r4(1) by (simp add: DecodeCookieAndBits_def expectM_def hdr_set_def)
    then show ?thesis using r4(2) True l by auto
  qed
qed

text \<open>The rest of that octet.\<close>

lemma version_loop_at:
  assumes "br_at bs r p" "p + 4 = q" "q \<le> 8 * length bs" "stream_word bs p 4 = 0"
  shows "\<exists>r'. version_loop v (h, r) = Some (Ret v (h, r')) \<and> br_at bs r' q"
proof -
  obtain r' where "hdr_readBits 4 (h, r) = Ret 0 (h, r')" "br_at bs r' q"
    using hdr_readBits_at [OF assms(1), of 4 q h] assms(2-4) by auto
  then show ?thesis by (simp add: version_loop.simps [of v])
qed

lemma align_noop:
  assumes "br_at bs r p" "p mod 8 = 0"
  shows "BitReader_align r = Ret () r"
proof -
  have "(p + BitsInStore r) mod 8 = 0"
    using assms(1) by (cases "p + BitsInStore r < 8 * length bs") (auto simp: br_at_def)
  then have "BitsInStore r mod 8 = 0" using assms(2) by presburger
  then show ?thesis by (simp add: BitReader_align_def usub_def)
qed

definition decoded_header :: "bool \<Rightarrow> ExiOptions \<Rightarrow> ExiHeader \<Rightarrow> ExiHeader" where
  "decoded_header cookie opts h = h\<lparr>HasCookie := HasCookie h \<or> cookie, HasOptions := False,
     IsPreviewVersion := False, ExiVersion := 1, Opts := Some opts\<rparr>"

definition header_options :: "ExiOptions \<Rightarrow> ExiError \<times> ExiOptions" where
  "header_options opts = FixupAndValidateOptions (if Compression opts then opts\<lparr>Alignment := PreCompression\<rparr> else opts)"

lemma decodeHeaderImpl_at:
  assumes "bs = header_bytes c @ body" "Opts h = Some opts" "header_options opts = (e, opts')"
  shows "\<exists>r. br_at bs r (8 * length (header_bytes c)) \<and> decodeHeaderImpl (h, BitReader_new bs)
    = Some (if ExiError_bool e then Err e (decoded_header c opts' h, r) else Ret () (decoded_header c opts' h, r))"
proof -
  define p where "p = (if c then 34 else 2 :: nat)"
  have l: "length (header_bytes c) = (if c then 5 else 1)" by (simp add: header_bytes_def cookie_chars)
  have len: "p + 6 \<le> 8 * length bs" using assms(1) l by (simp add: p_def)
  have w: "stream_word bs p 1 = 0" "stream_word bs (p + 1) 1 = 0" "stream_word bs (p + 2) 4 = 0"
    by (cases c; simp add: assms(1) p_def header_bytes_def cookie_chars word_eval)+
  let ?h1 = "h\<lparr>HasCookie := HasCookie h \<or> c\<rparr>"
  obtain r1 where r1: "DecodeCookieAndBits (h, BitReader_new bs) = Ret () (?h1, r1)" "br_at bs r1 p"
    using DecodeCookieAndBits_at [OF assms(1), of h] by (auto simp: p_def)
  let ?h2 = "?h1\<lparr>HasOptions := False\<rparr>"
  let ?h3 = "?h2\<lparr>IsPreviewVersion := False\<rparr>"
  let ?h4 = "?h3\<lparr>ExiVersion := 1\<rparr>"
  obtain r2 where r2: "hdr_readBits 1 (?h1, r1) = Ret 0 (?h1, r2)" "br_at bs r2 (p + 1)"
    using hdr_readBits_at [OF r1(2), of 1 "p + 1" ?h1] len w(1) by auto
  obtain r3 where r3: "hdr_readBits 1 (?h2, r2) = Ret 0 (?h2, r3)" "br_at bs r3 (p + 2)"
    using hdr_readBits_at [OF r2(2), of 1 "p + 2" ?h2] len w(2) by auto
  obtain r4 where r4: "version_loop 1 (?h3, r3) = Some (Ret 1 (?h3, r4))" "br_at bs r4 (p + 6)"
    using version_loop_at [OF r3(2), of "p + 6" 1 ?h3] len w(3) by auto
  have q: "p + 6 = 8 * length (header_bytes c)" using l by (simp add: p_def)
  have a: "BitReader_align r4 = Ret () r4" using align_noop [OF r4(2)] q by simp
  have f: "hdr_fixup (?h4, r4) = (if ExiError_bool e then Err e (decoded_header c opts' h, r4)
      else Ret () (decoded_header c opts' h, r4))"
    using assms(2,3) a by (simp add: hdr_fixup_def header_options_def decoded_header_def Let_def zoomM_def)
  have "thenM DecodeCookieAndBits (hdr_readBits 1) (h, BitReader_new bs) = Ret 0 (?h1, r2)"
    using r1(1) r2(1) by simp
  then have "decodeHeaderImpl (h, BitReader_new bs) = Some (hdr_fixup (?h4, r4))"
    using r3(1) r4(1) assms(2)
    by (simp add: decodeHeaderImpl_def DecodeVersion_def bindO_def liftO_def hdr_set_def kCurrentExiVersion_def)
  then show ?thesis using f r4(2) q by auto
qed

text \<open>Property C34. Where the caller gave the options, a stream that starts with the cookie or not, the bits
  10, no presence bit and version 1 is decoded as the format says: the header records the version
  and the fixed-up options or their validation error, and the reader stands right behind the octet.
  A cookie is recorded, but its absence is not: the field keeps the value it had.\<close>

theorem header_decodes:
  assumes "bs = header_bytes c @ body" "Opts h = Some opts" "header_options opts = (e, opts')"
  shows "\<exists>r. br_at bs r (8 * length (header_bytes c)) \<and> decodeHeaderImpl (h, BitReader_new bs)
    = Some (if ExiError_bool e then Err e (decoded_header c opts' h, r) else Ret () (decoded_header c opts' h, r))"
  using assms by (rule decodeHeaderImpl_at)

lemma small_header_options: "header_options default_ExiOptions = (ExiError_OK, default_ExiOptions)"
  by (simp add: header_options_def default_ExiOptions_def FixupAndValidateOptions_def ValidateCommon_def Let_def)

theorem header_decodes_witness:
  "\<exists>r. decodeHeaderImpl (default_ExiHeader\<lparr>Opts := Some default_ExiOptions\<rparr>, BitReader_new [0x80, 7])
    = Some (Ret () (decoded_header False default_ExiOptions (default_ExiHeader\<lparr>Opts := Some default_ExiOptions\<rparr>), r))"
  using header_decodes [of "[0x80, 7]" False "[7]" "default_ExiHeader\<lparr>Opts := Some default_ExiOptions\<rparr>", OF _ _ small_header_options]
  by (auto simp: header_bytes_def)

section \<open>The body behind a header\<close>

lemma init_ok:
  assumes "\<not> DidInit (Flags d)" "Opts (Header d) = Some opts" "Reader d = Some r" "SchemaID opts = Some None"
    and "DatatypeRepresentationMap opts = None" "Alignment opts = BitPacked" "Idents d = StringTable_new"
  shows "\<exists>d'. init d = Ret () d' \<and> Reader d' = Some r"
proof -
  obtain t where "StringTable_setup opts StringTable_new = Ret () t"
    using StringTable_setup_ok [of opts] assms(4,5) by auto
  then show ?thesis
    using assms by (simp add: init_def BuiltinSchema_New_def eval_combinators del: eval_del)
qed

lemma proxy_behind_header:
  assumes "br_at bs r (8 * k)" "0 < k" "k \<le> 5" "length bs \<le> 8 \<or> k + 8 < length bs"
  shows "BitReader_getProxy r = \<lparr>Bytes = bs, NBits = of_nat (8 * k + (if length bs \<le> 8 then 8 else 0))\<rparr>"
proof -
  have s: "Stream r = bs" "BitsInStore r \<le> 64" "8 * k + BitsInStore r \<le> 8 * length bs" using assms(1) by (auto simp: br_at_def)
  show ?thesis
  proof (cases "length bs \<le> 8")
    case True
    have e: "8 * k + BitsInStore r = 8 * length bs"
    proof (rule ccontr)
      assume "8 * k + BitsInStore r \<noteq> 8 * length bs"
      then have "8 * k + BitsInStore r = 8 * ByteOffset r" "ByteOffset r mod 8 = 0" "ByteOffset r < 8"
        using assms(1) s True by (auto simp: br_at_def)
      then show False using assms(2) by (simp add: mod_less)
    qed
    then have "end_offset (length bs) (ByteOffset r)" "bs \<noteq> []" using assms(1,2) by (auto simp: br_at_def)
    then have o: "ByteOffset r = length bs + 1"
      using True by (cases "length bs = 8") (auto simp: end_offset_def)
    then have "ByteOffset r * 8 - BitsInStore r = 8 * k + 8" using e by (simp add: add_mult_distrib)
    moreover have "BitsInStore r \<le> ByteOffset r * 8" using e o by linarith
    ultimately show ?thesis using True s by (simp add: BitReader_getProxy_def usub_def)
  next
    case False
    then have "8 * k + BitsInStore r < 8 * length bs" using assms(4) s by linarith
    then have "8 * k + BitsInStore r = 8 * ByteOffset r" using assms(1) by (simp add: br_at_def)
    moreover from this have "BitsInStore r \<le> ByteOffset r * 8" "ByteOffset r * 8 - BitsInStore r = 8 * k" by linarith+
    ultimately show ?thesis using False s by (simp add: BitReader_getProxy_def usub_def)
  qed
qed


definition header_decoder :: ExiDecoder where
  "header_decoder = ExiDecoder_new\<lparr>Header := default_ExiHeader\<lparr>Opts := Some (default_ExiOptions\<lparr>SchemaID := Some None\<rparr>)\<rparr>\<rparr>"

lemma header_decoder_options:
  "header_options (default_ExiOptions\<lparr>SchemaID := Some None\<rparr>) = (ExiError_OK, default_ExiOptions\<lparr>SchemaID := Some None\<rparr>)"
  by (simp add: header_options_def default_ExiOptions_def FixupAndValidateOptions_def ValidateCommon_def Let_def)

lemma header_decoder_simps:
  "\<not> DidHeader (Flags header_decoder)" "\<not> DidInit (Flags header_decoder)" "Idents header_decoder = StringTable_new"
  "Opts (Header header_decoder) = Some (default_ExiOptions\<lparr>SchemaID := Some None\<rparr>)"
  "Alignment default_ExiOptions = BitPacked" "DatatypeRepresentationMap default_ExiOptions = None"
  by (simp_all add: header_decoder_def ExiDecoder_new_def default_ExiOptions_def)


end
