(* ===== verification/HeaderEncoder.thy ===== *)
theory HeaderEncoder
  imports OrdWriter HeaderDecoder
begin

text \<open>
  Encoding of the EXI header (\<open>lib/exi/Encode/HeaderEncoder.cpp\<close>). The header is validated and
  fixed up in place, then written with a bit writer; a byte writer hands its buffer to one and takes
  it back. What the whole produces is stated for a fresh writer, and compared with the header
  decoder.
\<close>

section \<open>The encoder\<close>

type_synonym ('e, 'a) enc = "'e \<times> OrderedWriter \<times> WriterMemory \<Rightarrow> ('a, 'e \<times> OrderedWriter \<times> WriterMemory) exi"

definition enc_strm :: "'a wr \<Rightarrow> (ExiHeader, 'a) enc" where
  "enc_strm = zoomM snd (\<lambda>s x. (fst x, s))"

text \<open>The loop takes a chunk off twice in every round.\<close>

partial_function (option) version_chunks :: "32 word \<Rightarrow> ExiHeader \<times> OrderedWriter \<times> WriterMemory
    \<Rightarrow> (32 word, ExiHeader \<times> OrderedWriter \<times> WriterMemory) exi option" where
  "version_chunks v x = (if 0b1111 \<le> v then (case enc_strm (writeBits 4 0b1111) x of
        Ret _ y \<Rightarrow> version_chunks (v - 0b1111 - 0b1111) y
      | Err e y \<Rightarrow> Some (Err e y)
      | Fault f \<Rightarrow> Some (Fault f))
    else Some (Ret v x))"

definition EncodeVersion :: "ExiHeader \<times> OrderedWriter \<times> WriterMemory
    \<Rightarrow> (unit, ExiHeader \<times> OrderedWriter \<times> WriterMemory) exi option" where
  "EncodeVersion =
    bindO (liftO (thenM (invariantM (\<lambda>x. \<not> IsPreviewVersion (fst x))) (enc_strm (BitWriter_writeBit False)))) (\<lambda>_.
    bindO (liftO (getM (\<lambda>x. ucast (ExiVersion (fst x)) - 1))) (\<lambda>v.
    bindO (liftO (assertM (\<lambda>_. unat v < kCurrentExiVersion))) (\<lambda>_.
    bindO (version_chunks v) (\<lambda>v.
    liftO (enc_strm (writeBits 4 (ucast v)))))))"

definition encodeHeaderImpl :: "ExiHeader \<times> OrderedWriter \<times> WriterMemory
    \<Rightarrow> (unit, ExiHeader \<times> OrderedWriter \<times> WriterMemory) exi option" where
  "encodeHeaderImpl =
    bindO (liftO (\<lambda>x. case FixupAndValidateHeader (fst x) of (e, h) \<Rightarrow>
      if ExiError_bool e then Err e (h, snd x) else Ret () (h, snd x))) (\<lambda>_.
    bindO (liftO (\<lambda>x. if HasCookie (fst x) then enc_strm (writeString (str ''$EXI'')) x else Ret () x)) (\<lambda>_.
    bindO (liftO (enc_strm (writeBits 2 0b10))) (\<lambda>_.
    bindO (liftO (\<lambda>x. enc_strm (BitWriter_writeBit (HasOptions (fst x))) x)) (\<lambda>_.
    bindO EncodeVersion (\<lambda>_.
    liftO (\<lambda>x. if HasOptions (fst x) then Fault Unreachable
      else if map_option Alignment (Opts (fst x)) \<noteq> Some BitPacked then enc_strm BitWriter_align x
      else Ret () x))))))"

text \<open>The bit writer in front of a byte writer is destroyed after its state was handed back.\<close>

definition hand_back :: "OrderedWriter \<Rightarrow> OrderedWriter \<times> WriterMemory \<Rightarrow> (OrderedWriter, WriterMemory) exi" where
  "hand_back w s = (case OrderedWriter_setProxy (OrderedWriter_getProxy (fst s)) (w, snd s) of
      Ret _ (w', m) \<Rightarrow> (case OrderedWriter_destroy (fst s, m) of
          Ret _ (_, m') \<Rightarrow> Ret w' m' | Err e (_, m') \<Rightarrow> Err e m' | Fault f \<Rightarrow> Fault f)
    | Err e (_, m) \<Rightarrow> Err e m | Fault f \<Rightarrow> Fault f)"

type_synonym enc_state = "ExiHeader \<times> OrdWriter option \<times> WriterMemory"

fun encodeHeader :: "enc_state \<Rightarrow> (unit, enc_state) exi option" where
  "encodeHeader (h, None, m) = Some (Err (ExiError_New kUnexpectedError) (h, None, m))"
| "encodeHeader (h, Some (WBit w), m) =
    map_option (map_state (\<lambda>(h, w, m). (h, Some (WBit w), m))) (encodeHeaderImpl (h, w, m))"
| "encodeHeader (h, Some (WByte w), m) =
    (case OrderedWriter_from (OrderedWriter_getProxy w) m of
        Fault f \<Rightarrow> Some (Fault f)
      | Err e (_, m) \<Rightarrow> Some (Err e (h, Some (WByte w), m))
      | Ret _ s \<Rightarrow> map_option (\<lambda>r. case r of
            Fault f \<Rightarrow> Fault f
          | Err e (h, s) \<Rightarrow> (case hand_back w s of
                Ret w m \<Rightarrow> Err e (h, Some (WByte w), m) | Err e' m \<Rightarrow> Err e' (h, Some (WByte w), m) | Fault f \<Rightarrow> Fault f)
          | Ret _ (h, s) \<Rightarrow> (case hand_back w s of
                Ret w m \<Rightarrow> Ret () (h, Some (WByte w), m) | Err e' m \<Rightarrow> Err e' (h, Some (WByte w), m) | Fault f \<Rightarrow> Fault f))
          (encodeHeaderImpl (h, s)))"

section \<open>Runs on a fresh writer\<close>

lemma enc_strm_run: "enc_strm f (h, s) = map_state (Pair h) (f s)"
  by (cases "f s") (simp_all add: enc_strm_def zoomM_def)

lemma write_int_small:
  assumes "w_BitsInStore w = b" "n + b < 64" "int_shl v b = Some x"
  shows "writeNBits_int v n (w, m) = Ret () (w\<lparr>w_Store := w_Store w OR x, w_BitsInStore := b + n\<rparr>, m)"
  using assms by (simp add: writeNBits_int_def writeNBits_def kBitsPerWord_def)

lemma write_u64_small:
  assumes "w_BitsInStore w = b" "n + b < 64"
  shows "writeNBits_u64 v n (w, m) = Ret () (w\<lparr>w_Store := w_Store w OR push_bit b v, w_BitsInStore := b + n\<rparr>, m)"
  using assms by (simp add: writeNBits_u64_def writeNBits_def kBitsPerWord_def shl64_def)

lemma int_shl_0: "b < 32 \<Longrightarrow> int_shl 0 b = Some 0"
  by (simp add: int_shl_def)

text \<open>The cookie fills half a word.\<close>

lemma cookie_rune:
  assumes "c \<in> {0x24, 0x45, 0x58, 0x49}"
  shows "(RuneIterator_deref False (c # d) :: ('e, Rune, bytes) outcome) = Ret (ucast c) (c # d)" "RuneIterator_next (c # d) = Ret () d"
    "writeNByteUInt UnicodeReads (ucast (ucast c :: Rune)) = writeByte c"
proof -
  have u: "UnitLen c = 1" using assms by (auto simp: UnitLen_def)
  have "(decodeImpl False 1 (c # d) :: ('e, Rune, bytes) outcome) = Ret (ucast c) (c # d)"
    using assms by (auto simp: decodeImpl_def decode1_def)
  then show "(RuneIterator_deref False (c # d) :: ('e, Rune, bytes) outcome) = Ret (ucast c) (c # d)"
    using u by (simp add: RuneIterator_deref_def RuneDecoder_peek_def bindM_def del: bindM_run)
  show "RuneIterator_next (c # d) = Ret () d"
    using u by (simp add: RuneIterator_next_def currentLen_def RuneDecoder_advance_def)
  show "writeNByteUInt UnicodeReads (ucast (ucast c :: Rune)) = writeByte c"
    using assms by (auto simp: UnicodeReads_def numeral_3_eq_3)
qed

lemma write_cookie_char:
  assumes "c \<in> {0x24, 0x45, 0x58, 0x49}"
  shows "writeString_loop (c # d) s = (case writeByte c s of
     Ret _ s' \<Rightarrow> writeString_loop d s' | Err e s' \<Rightarrow> Err e s' | Fault f \<Rightarrow> Fault f)"
  by (simp add: writeString_loop.simps [of "c # d"] cookie_rune [OF assms] split: outcome.split)

lemma write_cookie:
  assumes "w_BitsInStore w = 0" "w_Store w = 0"
  shows "writeString (str ''$EXI'') (w, m) = Ret () (w\<lparr>w_Store := 0x49584524, w_BitsInStore := 32\<rparr>, m)"
  using assms by (simp add: writeString_def cookie_chars write_cookie_char writeByte_def write_int_small int_shl_def writeString_loop.simps [of "[]"])

section \<open>What is written\<close>

lemma valid_header:
  assumes "FixupAndValidateHeader h = (e, h')" "\<not> ExiError_bool e"
  shows "\<not> IsPreviewVersion h'" "ExiVersion h' = 1" "HasCookie h' = HasCookie h" "HasOptions h' = HasOptions h" "Opts h' \<noteq> None"
proof -
  have v: "\<not> ExiError_bool (ValidateHeaderOnly h)" using assms by (auto simp: FixupAndValidateHeader_def split: if_splits)
  then have p: "Opts h \<noteq> None" "\<not> IsPreviewVersion h" "unat (ExiVersion h) \<le> 1" "ExiVersion h \<noteq> 0"
    by (auto simp: ValidateHeaderOnly_def kCurrentExiVersion_def split: if_splits)
  have "unat (ExiVersion h) \<noteq> 0" using p(4) by (simp add: unat_eq_zero)
  then have "unat (ExiVersion h) = unat (1 :: 30 word)" using p(3) by simp
  then have "ExiVersion h = 1" by (simp only: unsigned_word_eqI)
  then show "\<not> IsPreviewVersion h'" "ExiVersion h' = 1" "HasCookie h' = HasCookie h" "HasOptions h' = HasOptions h" "Opts h' \<noteq> None"
    using assms p v by (auto simp: FixupAndValidateHeader_def split: prod.splits)
qed

lemma EncodeVersion_run:
  assumes "\<not> IsPreviewVersion h" "ExiVersion h = 1" "w_BitsInStore w = 3"
  shows "EncodeVersion (h, w, m) = Some (Ret () (h, w\<lparr>w_BitsInStore := 8\<rparr>, m))"
  using assms
  by (simp add: EncodeVersion_def bindO_def liftO_def enc_strm_run BitWriter_writeBit_def write_int_small int_shl_0
      version_chunks.simps kCurrentExiVersion_def writeBits_def write_u64_small)

lemma align_8: "w_BitsInStore w = 8 \<Longrightarrow> BitWriter_align (w, m) = Ret () (w, m)"
  by (simp add: BitWriter_align_def BitWriter_writeBits64_def)

lemma encodeHeaderImpl_eq:
  assumes "w_BitsInStore w = 0" "w_Store w = 0" "FixupAndValidateHeader h = (e, h')"
  shows "encodeHeaderImpl (h, w, m) = Some
    (if ExiError_bool e then Err e (h', w, m)
     else if HasCookie h then Fault Undefined
     else if HasOptions h then Fault Unreachable
     else Ret () (h', w\<lparr>w_Store := 2, w_BitsInStore := 8\<rparr>, m))"
proof (cases "ExiError_bool e")
  case True
  then show ?thesis using assms(3) by (simp add: encodeHeaderImpl_def bindO_def liftO_def)
next
  case False
  note v = valid_header [OF assms(3) False]
  show ?thesis
  proof (cases "HasCookie h")
    case True
    have "BitWriter_writeBit b (w\<lparr>w_Store := x, w_BitsInStore := 34\<rparr>, m) = Fault Undefined" for b x
      by (rule writeByte_undefined) simp
    then show ?thesis using False True v assms
      by (simp add: encodeHeaderImpl_def bindO_def liftO_def enc_strm_run write_cookie writeBits_def write_u64_small)
  next
    case no_cookie: False
    have "BitWriter_writeBit b (w\<lparr>w_Store := 2, w_BitsInStore := Suc (Suc 0)\<rparr>, m) = Ret () (w\<lparr>w_Store := 2 OR push_bit 2 (of_bool b), w_BitsInStore := 3\<rparr>, m)" for b
      by (simp add: BitWriter_writeBit_def write_int_small int_shl_def)
    then show ?thesis using False no_cookie v assms(1,2,3)
      by (auto simp: encodeHeaderImpl_def bindO_def liftO_def enc_strm_run writeBits_def write_u64_small EncodeVersion_run align_8)
  qed
qed

text \<open>Property C13. Encoding a header on a fresh bit writer, every case: an empty union of writers is refused; a
  header that fails validation returns that error with nothing written; a cookie ends in a shift by more
  than the width of an integer, since half a word is taken when the presence bit is written; options
  are not implemented; any other header leaves eight bits in the store. The encoder always returns.\<close>

theorem encodeHeader_cases:
  assumes "w_BitsInStore w = 0" "w_Store w = 0" "FixupAndValidateHeader h = (e, h')"
  shows "encodeHeader (h, None, m) = Some (Err (ExiError_New kUnexpectedError) (h, None, m))
    \<and> encodeHeader (h, Some (WBit w), m) = Some
      (if ExiError_bool e then Err e (h', Some (WBit w), m)
       else if HasCookie h then Fault Undefined
       else if HasOptions h then Fault Unreachable
       else Ret () (h', Some (WBit (w\<lparr>w_Store := 2, w_BitsInStore := 8\<rparr>)), m))"
  using encodeHeaderImpl_eq [OF assms] by simp

definition plain_header :: ExiHeader where
  "plain_header = default_ExiHeader\<lparr>HasCookie := False, HasOptions := False, Opts := Some default_ExiOptions\<rparr>"

lemma plain_header_valid: "FixupAndValidateHeader plain_header = (ExiError_OK, plain_header)"
  by (simp add: plain_header_def FixupAndValidateHeader_def ValidateHeaderOnly_def default_ExiHeader_def kCurrentExiVersion_def
      default_ExiOptions_def FixupAndValidateOptions_def ValidateCommon_def Let_def ExiError_OK_def ExiError_bool_def ExiError_New_def)

lemma OK_bool: "\<not> ExiError_bool ExiError_OK"
  by (simp add: ExiError_OK_def ExiError_bool_def ExiError_New_def)

abbreviation one_buffer :: WriterMemory where
  "one_buffer \<equiv> \<lparr>wm_Buffers = [[]], wm_Files = []\<rparr>"

theorem encodeHeader_cases_witness:
  "encodeHeader (plain_header, Some (WBit (fst (OrderedWriter_newVec 0 one_buffer))), one_buffer)
    = Some (Ret () (plain_header, Some (WBit ((fst (OrderedWriter_newVec 0 one_buffer))\<lparr>w_Store := 2, w_BitsInStore := 8\<rparr>)), one_buffer))"
  using encodeHeader_cases [OF _ _ plain_header_valid, of "fst (OrderedWriter_newVec 0 one_buffer)" one_buffer]
  by (simp add: OK_bool OrderedWriter_newVec_def plain_header_def)

section \<open>Reading it back\<close>

definition header_word :: bytes where
  "header_word = [0, 0, 0, 0, 0, 0, 0, 2]"

lemma word_bytes_header: "word_bytes (byteswap64 2) = header_word"
  by (simp add: word_bytes_def header_word_def byteswap64_def byteswap32_def upt_8)

lemma flush_header:
  assumes "w_BitsInStore w = 8" "w_Store w = 2" "w_Buffer w < length (wm_Buffers m)"
  shows "flushToWord (w, m) = Ret () (w\<lparr>w_BitsInStore := 0, w_Store := 0\<rparr>,
    m\<lparr>wm_Buffers := (wm_Buffers m)[w_Buffer w := wm_Buffers m ! w_Buffer w @ header_word]\<rparr>)"
  using assms by (simp add: flushToWord_def writeWord_run word_bytes_header)

lemma destroy_header:
  assumes "w_BitsInStore w = 8" "w_Store w = 2" "w_Buffer w < length (wm_Buffers m)" "w_FS w = None"
  shows "OrderedWriter_destroy (w, m) = Ret () (w\<lparr>w_BitsInStore := 0, w_Store := 0\<rparr>,
    m\<lparr>wm_Buffers := (wm_Buffers m)[w_Buffer w := wm_Buffers m ! w_Buffer w @ header_word]\<rparr>)"
  using assms by (simp add: OrderedWriter_destroy_def flush_header flushToFile_def bufferM_def)

lemma header_word_refused: "\<exists>y. decodeHeaderImpl (x, BitReader_new header_word) = Some (Err (HeaderSig 0) y)"
proof -
  have w: "stream_word header_word 0 2 = 0" "stream_word header_word 2 6 = 0"
    by (simp_all add: header_word_def word_eval)
  obtain r1 where r1: "hdr_readBits 2 (x, BitReader_new header_word) = Ret 0 (x, r1)" "br_at header_word r1 2"
    using hdr_readBits_at [OF br_at_new [of header_word], of 2 2 x] w(1) by (auto simp: header_word_def)
  obtain r2 where "hdr_readBits 6 (x, r1) = Ret 0 (x, r2)"
    using hdr_readBits_at [OF r1(2), of 6 8 x] w(2) by (auto simp: header_word_def)
  then show ?thesis
    using r1(1) by (simp add: decodeHeaderImpl_def bindO_def liftO_def DecodeCookieAndBits_def expectM_def)
qed

text \<open>Property C14. The encoder and the decoder do not agree on the format: any valid header without cookie and
  options that a fresh bit writer over a vector encodes reaches the vector, once the writer is destroyed, as
  the word 0 0 0 0 0 0 0 2, and the header decoder refuses that word as a wrong signature: the writer
  fills its bits from the least significant end and swaps the word when it flushes it.\<close>

theorem encoded_header_refused:
  assumes "FixupAndValidateHeader h = (e, h')" "\<not> ExiError_bool e" "\<not> HasCookie h" "\<not> HasOptions h"
    and "b < length (wm_Buffers m)" "OrderedWriter_newVec b m = (w, m1)"
  shows "\<exists>w' m2 s y. encodeHeader (h, Some (WBit w), m1) = Some (Ret () (h', Some (WBit w'), m2))
    \<and> OrderedWriter_destroy (w', m2) = Ret () s \<and> wm_Buffers (snd s) ! b = wm_Buffers m ! b @ header_word
    \<and> decodeHeaderImpl (x, BitReader_new header_word) = Some (Err (HeaderSig 0) y)"
proof -
  let ?w = "w\<lparr>w_Store := 2, w_BitsInStore := 8\<rparr>"
  have w: "w_BitsInStore w = 0" "w_Store w = 0" "w_FS w = None" "w_Buffer w = b" "wm_Buffers m1 = wm_Buffers m @ [[]]"
    using assms(6) by (auto simp: OrderedWriter_newVec_def)
  have "encodeHeader (h, Some (WBit w), m1) = Some (Ret () (h', Some (WBit ?w), m1))"
    using encodeHeaderImpl_eq [OF w(1,2) assms(1)] assms(2-4) by simp
  moreover have "\<exists>s. OrderedWriter_destroy (?w, m1) = Ret () s \<and> wm_Buffers (snd s) ! b = wm_Buffers m ! b @ header_word"
    using destroy_header [of ?w m1] w assms(5) by (simp add: nth_append)
  ultimately show ?thesis using header_word_refused [of x] by blast
qed

theorem encoded_header_refused_witness:
  "\<exists>w m s y. encodeHeader (plain_header, Some (WBit (fst (OrderedWriter_newVec 0 one_buffer))), snd (OrderedWriter_newVec 0 one_buffer))
      = Some (Ret () (plain_header, Some (WBit w), m))
    \<and> OrderedWriter_destroy (w, m) = Ret () s \<and> wm_Buffers (snd s) ! 0 = header_word
    \<and> decodeHeaderImpl (plain_header, BitReader_new header_word) = Some (Err (HeaderSig 0) y)"
  using encoded_header_refused [OF plain_header_valid OK_bool, of 0 one_buffer, OF _ _ _ prod.collapse [symmetric]]
  by (simp add: plain_header_def)

section \<open>Behind a byte writer\<close>

text \<open>A byte writer over a file, which keeps the bytes in a buffer of its own until it is
  destroyed, loses them when it encodes a header: the bit writer that takes over the buffer has no file, and
  handing its state back as that of a foreign buffer clears the file of the byte writer. The word with the
  header is in the buffer twice then, flushed by both writers, and the file stays as it was.\<close>

theorem byte_writer_loses_file:
  assumes "FixupAndValidateHeader h = (e, h')" "\<not> ExiError_bool e" "\<not> HasCookie h" "\<not> HasOptions h"
    and "OrderedWriter_new None (Some f) threshold m = (w, m1)"
  shows "\<exists>w' m2 s. encodeHeader (h, Some (WByte w), m1) = Some (Ret () (h', Some (WByte w'), m2))
    \<and> w_FS w = Some f \<and> w_FS w' = None
    \<and> OrderedWriter_destroy (w', m2) = Ret () s \<and> wm_Files (snd s) = wm_Files m
    \<and> wm_Buffers (snd s) ! w_OwnBuffer w = header_word @ header_word"
proof -
  let ?o = "length (wm_Buffers m)"
  have w: "w = \<lparr>w_OwnBuffer = ?o, w_Buffer = ?o, w_FS = Some f, w_FlushThreshold = threshold * 2 ^ 20, w_BitsInStore = 0, w_Store = 0\<rparr>"
    and m1: "m1 = m\<lparr>wm_Buffers := wm_Buffers m @ [[]]\<rparr>"
    using assms(5) by (auto simp: OrderedWriter_new_def Let_def)
  define bw where "bw = \<lparr>w_OwnBuffer = Suc ?o, w_Buffer = ?o, w_FS = None, w_FlushThreshold = threshold * 2 ^ 20,
    w_BitsInStore = 0, w_Store = 0\<rparr>"
  define m2 where "m2 = m\<lparr>wm_Buffers := wm_Buffers m @ [[], []]\<rparr>"
  define w' where "w' = w\<lparr>w_FS := None, w_BitsInStore := 8, w_Store := 2\<rparr>"
  define m3 where "m3 = m\<lparr>wm_Buffers := wm_Buffers m @ [header_word, []]\<rparr>"
  have from_proxy: "OrderedWriter_from (OrderedWriter_getProxy w) m1 = Ret () (bw, m2)"
    by (simp add: OrderedWriter_from_def OrderedWriter_getProxy_def OrderedWriter_setProxy_def OrderedWriter_newVec_def
        flushToFile_def bufferM_def isOwnBuffer_def w m1 bw_def m2_def)
  have impl: "encodeHeaderImpl (h, bw, m2) = Some (Ret () (h', bw\<lparr>w_Store := 2, w_BitsInStore := 8\<rparr>, m2))"
    using encodeHeaderImpl_eq [OF _ _ assms(1), of bw] assms(2-4) by (simp add: bw_def)
  have handed: "hand_back w (bw\<lparr>w_Store := 2, w_BitsInStore := 8\<rparr>, m2) = Ret w' m3"
    by (simp add: hand_back_def OrderedWriter_getProxy_def OrderedWriter_setProxy_def isOwnBuffer_def flushToFile_def bufferM_def
        destroy_header w bw_def m2_def m3_def w'_def list_update_append)
  have "encodeHeader (h, Some (WByte w), m1) = Some (Ret () (h', Some (WByte w'), m3))"
    using from_proxy impl handed by simp
  moreover have "OrderedWriter_destroy (w', m3) = Ret () (w'\<lparr>w_BitsInStore := 0, w_Store := 0\<rparr>,
      m\<lparr>wm_Buffers := wm_Buffers m @ [header_word @ header_word, []]\<rparr>)"
    by (simp add: destroy_header w'_def w m3_def nth_append list_update_append)
  ultimately show ?thesis by (simp add: w'_def w nth_append)
qed

theorem byte_writer_loses_file_witness:
  "\<exists>w m s. encodeHeader (plain_header, Some (WByte (fst (OrderedWriter_new None (Some 0) 512 \<lparr>wm_Buffers = [], wm_Files = [(True, [])]\<rparr>))),
        snd (OrderedWriter_new None (Some 0) 512 \<lparr>wm_Buffers = [], wm_Files = [(True, [])]\<rparr>))
      = Some (Ret () (plain_header, Some (WByte w), m))
    \<and> OrderedWriter_destroy (w, m) = Ret () s \<and> wm_Files (snd s) = [(True, [])]"
  using byte_writer_loses_file [OF plain_header_valid OK_bool, of 0 512 "\<lparr>wm_Buffers = [], wm_Files = [(True, [])]\<rparr>",
      OF _ _ prod.collapse [symmetric]]
  by (fastforce simp: plain_header_def)

end
