(* ===== verification/StringMap.thy ===== *)
theory StringMap
  imports CompactID ErrorCodes
begin

text \<open>
  \<open>StringMap\<close> (\<open>core/Common/StringMap.hpp\<close>, \<open>lib/core/Common/StringMap.cpp\<close>): an open-addressing
  hash table with strings for keys, quadratic probing, and tombstones for removed entries. An entry is
  identified by its bucket. The hash of a string is a parameter; the table uses its low 32 bits.
  Counts are naturals with the wrap-around of \<open>unsigned\<close> written out. The sentinel behind the table,
  where iteration stops, is the index past the list.
\<close>

section \<open>The table\<close>

datatype 'v slot =
    Hole
  | Tombstone
  | Entry bytes 'v

record 'v StringMap =
  TheTable :: "'v slot list"
  HashTable :: "32 word list"
  NumBuckets :: nat
  NumItems :: nat
  NumTombstones :: nat

type_synonym hash_fn = "bytes \<Rightarrow> 64 word"

definition StringMap_hash :: "hash_fn \<Rightarrow> bytes \<Rightarrow> 32 word" where
  "StringMap_hash rh key = ucast (rh key)"

text \<open>Off in the default configuration.\<close>

definition shouldReverseIterate :: bool where "shouldReverseIterate = False"

definition bucket_hash :: "32 word \<Rightarrow> 32 word" where
  "bucket_hash h = (if shouldReverseIterate then NOT h else h)"

definition NextPowerOf2 :: "64 word \<Rightarrow> 64 word" where
  "NextPowerOf2 a =
    (let a = a OR drop_bit 1 a; a = a OR drop_bit 2 a; a = a OR drop_bit 4 a;
         a = a OR drop_bit 8 a; a = a OR drop_bit 16 a; a = a OR drop_bit 32 a
     in a + 1)"

definition getMinBucketToReserveForEntries :: "nat \<Rightarrow> nat" where
  "getMinBucketToReserveForEntries n =
    (if n = 0 then 0 else unat (NextPowerOf2 (of_nat (n * 4 mod 2 ^ 32 div 3 + 1))) mod 2 ^ 32)"

text \<open>One allocation holds the buckets and their hashes, all zero.\<close>

definition createTable :: "nat \<Rightarrow> 'v slot list" where
  "createTable n = replicate n Hole"

definition getHashTable :: "nat \<Rightarrow> 32 word list" where
  "getHashTable n = replicate n 0"

definition StringMap_empty :: "'v StringMap" where
  "StringMap_empty = \<lparr>TheTable = [], HashTable = [], NumBuckets = 0, NumItems = 0, NumTombstones = 0\<rparr>"

definition StringMap_init :: "nat \<Rightarrow> 'v StringMap \<Rightarrow> (unit, 'v StringMap) exi" where
  "StringMap_init sz =
    thenM (assertM (\<lambda>_. sz AND (sz - 1) = 0))
      (let n = if sz \<noteq> 0 then sz else 16 in
       modM (\<lambda>m. m\<lparr>TheTable := createTable n, HashTable := getHashTable n, NumBuckets := n,
         NumItems := 0, NumTombstones := 0\<rparr>))"

definition StringMap_new :: "nat \<Rightarrow> (unit, 'v StringMap) exi" where
  "StringMap_new n = (if n \<noteq> 0 then StringMap_init (getMinBucketToReserveForEntries n) StringMap_empty
     else Ret () StringMap_empty)"

section \<open>Probing\<close>

text \<open>The next bucket of a probe, \<open>p\<close> buckets on; the number of buckets is a power of two.\<close>

definition next_bucket :: "nat \<Rightarrow> nat \<Rightarrow> nat \<Rightarrow> nat" where
  "next_bucket n b p = ((b + p) mod 2 ^ 32) AND (n - 1)"

definition first_bucket :: "nat \<Rightarrow> 32 word \<Rightarrow> nat" where
  "first_bucket n h = unat h AND (n - 1)"

partial_function (option) lookup_loop ::
  "bytes \<Rightarrow> 32 word \<Rightarrow> nat \<Rightarrow> nat \<Rightarrow> nat option \<Rightarrow> 'v StringMap \<Rightarrow> (nat, 'v StringMap) exi option" where
  "lookup_loop name h b p tomb m =
    (case TheTable m ! b of
       Hole \<Rightarrow> (let t = (case tomb of Some t \<Rightarrow> t | None \<Rightarrow> b) in
         Some (Ret t (m\<lparr>HashTable := (HashTable m)[t := h]\<rparr>)))
     | Tombstone \<Rightarrow> lookup_loop name h (next_bucket (NumBuckets m) b p) ((p + 1) mod 2 ^ 32)
         (if tomb = None then Some b else tomb) m
     | Entry key v \<Rightarrow> if HashTable m ! b = h \<and> name = key then Some (Ret b m)
         else lookup_loop name h (next_bucket (NumBuckets m) b p) ((p + 1) mod 2 ^ 32) tomb m)"

definition LookupBucketFor :: "bytes \<Rightarrow> 32 word \<Rightarrow> 'v StringMap \<Rightarrow> (nat, 'v StringMap) exi option" where
  "LookupBucketFor name h m = (case (if NumBuckets m = 0 then StringMap_init 16 m else Ret () m) of
      Ret _ m \<Rightarrow> lookup_loop name (bucket_hash h) (first_bucket (NumBuckets m) (bucket_hash h)) 1 None m
    | Err e m \<Rightarrow> Some (Err e m) | Fault f \<Rightarrow> Some (Fault f))"

partial_function (option) find_loop :: "bytes \<Rightarrow> 32 word \<Rightarrow> nat \<Rightarrow> nat \<Rightarrow> 'v StringMap \<Rightarrow> int option" where
  "find_loop name h b p m =
    (case TheTable m ! b of
       Hole \<Rightarrow> Some (-1)
     | Tombstone \<Rightarrow> find_loop name h (next_bucket (NumBuckets m) b p) ((p + 1) mod 2 ^ 32) m
     | Entry key v \<Rightarrow> if HashTable m ! b = h \<and> name = key then Some (int b)
         else find_loop name h (next_bucket (NumBuckets m) b p) ((p + 1) mod 2 ^ 32) m)"

definition FindKey :: "bytes \<Rightarrow> 32 word \<Rightarrow> 'v StringMap \<Rightarrow> int option" where
  "FindKey name h m = (if NumBuckets m = 0 then Some (-1)
     else find_loop name (bucket_hash h) (first_bucket (NumBuckets m) (bucket_hash h)) 1 m)"

section \<open>Rehashing\<close>

partial_function (option) find_spot :: "'v slot list \<Rightarrow> nat \<Rightarrow> nat \<Rightarrow> nat \<Rightarrow> nat option" where
  "find_spot t n b p = (case t ! b of Hole \<Rightarrow> Some b
     | _ \<Rightarrow> find_spot t n (next_bucket n b p) ((p + 1) mod 2 ^ 32))"

text \<open>The new table, its hashes, and where the bucket asked for has moved.\<close>

type_synonym 'v rehash_state = "'v slot list \<times> 32 word list \<times> nat"

definition rehash_item :: "'v StringMap \<Rightarrow> nat \<Rightarrow> nat \<Rightarrow> nat \<Rightarrow> 'v rehash_state \<Rightarrow> 'v rehash_state option" where
  "rehash_item m n BucketNo i s = (case s of (t, hs, pos) \<Rightarrow>
     (case TheTable m ! i of
        Entry k v \<Rightarrow> map_option (\<lambda>b. (t[b := Entry k v], hs[b := HashTable m ! i], if i = BucketNo then b else pos))
          (find_spot t n (first_bucket n (HashTable m ! i)) 1)
      | _ \<Rightarrow> Some s))"

primrec rehash_loop :: "'v StringMap \<Rightarrow> nat \<Rightarrow> nat \<Rightarrow> nat list \<Rightarrow> 'v rehash_state \<Rightarrow> 'v rehash_state option" where
  "rehash_loop m n BucketNo [] s = Some s"
| "rehash_loop m n BucketNo (i # is) s = Option.bind (rehash_item m n BucketNo i s) (rehash_loop m n BucketNo is)"

definition RehashTable :: "nat \<Rightarrow> 'v StringMap \<Rightarrow> (nat \<times> 'v StringMap) option" where
  "RehashTable BucketNo m =
    (let rehash = (\<lambda>n. map_option (\<lambda>(t, hs, pos). (pos, m\<lparr>TheTable := t, HashTable := hs, NumBuckets := n, NumTombstones := 0\<rparr>))
       (rehash_loop m n BucketNo [0..<NumBuckets m] (createTable n, getHashTable n, BucketNo)))
     in if NumBuckets m * 3 mod 2 ^ 32 < NumItems m * 4 mod 2 ^ 32 then rehash (NumBuckets m * 2 mod 2 ^ 32)
     else if (2 ^ 32 + NumBuckets m - (NumItems m + NumTombstones m) mod 2 ^ 32) mod 2 ^ 32 \<le> NumBuckets m div 8
       then rehash (NumBuckets m)
     else Some (BucketNo, m))"

section \<open>Inserting\<close>

text \<open>The bucket of the entry, and whether it is new.\<close>

definition try_emplace_with_hash ::
  "bytes \<Rightarrow> 32 word \<Rightarrow> 'v \<Rightarrow> 'v StringMap \<Rightarrow> (nat \<times> bool, 'v StringMap) exi option" where
  "try_emplace_with_hash key h v m = (case LookupBucketFor key h m of
      None \<Rightarrow> None | Some (Fault f) \<Rightarrow> Some (Fault f) | Some (Err e m) \<Rightarrow> Some (Err e m)
    | Some (Ret b m) \<Rightarrow>
        (let fill = (\<lambda>m. let m = m\<lparr>TheTable := (TheTable m)[b := Entry key v], NumItems := (NumItems m + 1) mod 2 ^ 32\<rparr> in
            if (NumItems m + NumTombstones m) mod 2 ^ 32 \<le> NumBuckets m
            then map_option (\<lambda>(b, m). Ret (b, True) m) (RehashTable b m)
            else Some (Fault AssertFail))
         in case TheTable m ! b of
              Entry k w \<Rightarrow> Some (Ret (b, False) m)
            | Tombstone \<Rightarrow> fill (m\<lparr>NumTombstones := (NumTombstones m + 2 ^ 32 - 1) mod 2 ^ 32\<rparr>)
            | Hole \<Rightarrow> fill m))"

definition StringMap_insert :: "hash_fn \<Rightarrow> bytes \<Rightarrow> 'v \<Rightarrow> 'v StringMap \<Rightarrow> (nat \<times> bool, 'v StringMap) exi option" where
  "StringMap_insert rh key = try_emplace_with_hash key (StringMap_hash rh key)"

text \<open>Writing through the iterator.\<close>

definition StringMap_setValue :: "nat \<Rightarrow> 'v \<Rightarrow> 'v StringMap \<Rightarrow> 'v StringMap" where
  "StringMap_setValue b v m = (case TheTable m ! b of
      Entry k w \<Rightarrow> m\<lparr>TheTable := (TheTable m)[b := Entry k v]\<rparr> | _ \<Rightarrow> m)"

definition insert_or_assign :: "hash_fn \<Rightarrow> bytes \<Rightarrow> 'v \<Rightarrow> 'v StringMap \<Rightarrow> (nat \<times> bool, 'v StringMap) exi option" where
  "insert_or_assign rh key v m = map_option (\<lambda>r. case r of
      Ret (b, fresh) m \<Rightarrow> Ret (b, fresh) (if fresh then m else StringMap_setValue b v m)
    | Err e m \<Rightarrow> Err e m | Fault f \<Rightarrow> Fault f) (StringMap_insert rh key v m)"

section \<open>Looking up and removing\<close>

text \<open>The end iterator is no bucket.\<close>

definition StringMap_find :: "hash_fn \<Rightarrow> bytes \<Rightarrow> 'v StringMap \<Rightarrow> nat option option" where
  "StringMap_find rh key m = map_option (\<lambda>b. if b = -1 then None else Some (nat b)) (FindKey key (StringMap_hash rh key) m)"

primrec slot_value :: "'v slot \<Rightarrow> 'v option" where
  "slot_value Hole = None"
| "slot_value Tombstone = None"
| "slot_value (Entry k v) = Some v"

definition StringMap_lookup :: "hash_fn \<Rightarrow> 'v \<Rightarrow> bytes \<Rightarrow> 'v StringMap \<Rightarrow> 'v option" where
  "StringMap_lookup rh dflt key m = map_option (\<lambda>b. case b of None \<Rightarrow> dflt | Some b \<Rightarrow> the (slot_value (TheTable m ! b)))
     (StringMap_find rh key m)"

definition StringMap_contains :: "hash_fn \<Rightarrow> bytes \<Rightarrow> 'v StringMap \<Rightarrow> bool option" where
  "StringMap_contains rh key m = map_option (\<lambda>b. b \<noteq> None) (StringMap_find rh key m)"

text \<open>\<open>RemoveKey\<close> of a string gives the entry it took out; of an entry, it asserts that this was the entry.\<close>

definition RemoveKey :: "hash_fn \<Rightarrow> bytes \<Rightarrow> 'v StringMap \<Rightarrow> (nat option, 'v StringMap) exi option" where
  "RemoveKey rh key m = map_option (\<lambda>b. if b = -1 then Ret None m
     else (let m = m\<lparr>TheTable := (TheTable m)[nat b := Tombstone], NumItems := (NumItems m + 2 ^ 32 - 1) mod 2 ^ 32,
                NumTombstones := (NumTombstones m + 1) mod 2 ^ 32\<rparr> in
           if (NumItems m + NumTombstones m) mod 2 ^ 32 \<le> NumBuckets m then Ret (Some (nat b)) m else Fault AssertFail))
     (FindKey key (StringMap_hash rh key) m)"

definition RemoveEntry :: "hash_fn \<Rightarrow> nat \<Rightarrow> 'v StringMap \<Rightarrow> (unit, 'v StringMap) exi option" where
  "RemoveEntry rh b m = (case TheTable m ! b of
      Entry key v \<Rightarrow> map_option (\<lambda>r. case r of
          Ret b' m' \<Rightarrow> if b' = Some b then Ret () m' else Fault AssertFail
        | Err e m' \<Rightarrow> Err e m' | Fault f \<Rightarrow> Fault f) (RemoveKey rh key m)
    | _ \<Rightarrow> Some (Fault Undefined))"

definition StringMap_erase :: "hash_fn \<Rightarrow> bytes \<Rightarrow> 'v StringMap \<Rightarrow> (bool, 'v StringMap) exi option" where
  "StringMap_erase rh key m = (case StringMap_find rh key m of
      None \<Rightarrow> None
    | Some None \<Rightarrow> Some (Ret False m)
    | Some (Some b) \<Rightarrow> map_option (\<lambda>r. case r of
          Ret _ m \<Rightarrow> Ret True m | Err e m \<Rightarrow> Err e m | Fault f \<Rightarrow> Fault f) (RemoveEntry rh b m))"

definition StringMap_clear :: "'v StringMap \<Rightarrow> 'v StringMap" where
  "StringMap_clear m = (if NumItems m = 0 then m
     else m\<lparr>TheTable := map (\<lambda>_. Hole) (TheTable m), NumItems := 0, NumTombstones := 0\<rparr>)"

text \<open>The copy has the buckets of the original, tombstones included, unless that is empty.\<close>

definition StringMap_copy :: "'v StringMap \<Rightarrow> (unit, 'v StringMap) exi" where
  "StringMap_copy r = (if NumItems r = 0 then Ret () StringMap_empty
     else thenM (StringMap_init (NumBuckets r))
       (modM (\<lambda>m. m\<lparr>NumItems := NumItems r, NumTombstones := NumTombstones r, TheTable := TheTable r,
          HashTable := map2 (\<lambda>s h. case s of Entry k v \<Rightarrow> h | _ \<Rightarrow> 0) (TheTable r) (HashTable r)\<rparr>)) StringMap_empty)"

text \<open>An entry made by the caller; the place it moves to is not asked for.\<close>

definition StringMap_insertEntry :: "hash_fn \<Rightarrow> bytes \<Rightarrow> 'v \<Rightarrow> 'v StringMap \<Rightarrow> (bool, 'v StringMap) exi option" where
  "StringMap_insertEntry rh key v m = (case LookupBucketFor key (StringMap_hash rh key) m of
      None \<Rightarrow> None | Some (Fault f) \<Rightarrow> Some (Fault f) | Some (Err e m) \<Rightarrow> Some (Err e m)
    | Some (Ret b m) \<Rightarrow>
        (let fill = (\<lambda>m. let m = m\<lparr>TheTable := (TheTable m)[b := Entry key v], NumItems := (NumItems m + 1) mod 2 ^ 32\<rparr> in
            if (NumItems m + NumTombstones m) mod 2 ^ 32 \<le> NumBuckets m
            then map_option (\<lambda>(b, m). Ret True m) (RehashTable 0 m)
            else Some (Fault AssertFail))
         in case TheTable m ! b of
              Entry k w \<Rightarrow> Some (Ret False m)
            | Tombstone \<Rightarrow> fill (m\<lparr>NumTombstones := (NumTombstones m + 2 ^ 32 - 1) mod 2 ^ 32\<rparr>)
            | Hole \<Rightarrow> fill m))"

text \<open>Moving a map empties it; the copy assignment swaps with a copy.\<close>

definition StringMap_move :: "'v StringMap \<Rightarrow> 'v StringMap \<times> 'v StringMap" where
  "StringMap_move r = (r, StringMap_empty)"

definition StringMap_swap :: "'v StringMap \<times> 'v StringMap \<Rightarrow> 'v StringMap \<times> 'v StringMap" where
  "StringMap_swap = prod.swap"

definition StringMap_assign :: "'v StringMap \<Rightarrow> 'v StringMap \<Rightarrow> (unit, 'v StringMap) exi" where
  "StringMap_assign r m = map_state (\<lambda>c. fst (StringMap_swap (m, c))) (StringMap_copy r)"

section \<open>The probe sequence\<close>

text \<open>The \<open>j\<close>-th bucket of a probe that starts at \<open>h\<close>: the distances grow by one.\<close>

definition probe :: "nat \<Rightarrow> nat \<Rightarrow> nat \<Rightarrow> nat" where
  "probe n h j = (h + j * (j + 1) div 2) mod n"

lemma triangle_Suc: "Suc j * (Suc j + 1) div 2 = j * (j + 1) div 2 + Suc j"
proof -
  have "Suc j * (Suc j + 1) = j * (j + 1) + Suc j * 2" by (simp add: algebra_simps)
  then show ?thesis by (simp only: div_mult_self1 [OF zero_neq_numeral [symmetric]])
qed

lemma nat_and_mask: "(x :: nat) AND (2 ^ k - 1) = x mod 2 ^ k"
  by (simp add: take_bit_eq_mod [symmetric] take_bit_eq_mask mask_eq_exp_minus_1)

lemma first_bucket_probe: "first_bucket (2 ^ k) h = probe (2 ^ k) (unat h) 0"
  unfolding first_bucket_def probe_def nat_and_mask by simp

lemma next_bucket_probe:
  assumes "k \<le> 32"
  shows "next_bucket (2 ^ k) (probe (2 ^ k) h j) (Suc j) = probe (2 ^ k) h (Suc j)"
proof -
  have "(2 :: nat) ^ k dvd 2 ^ 32" using assms by (rule le_imp_power_dvd)
  then have "next_bucket (2 ^ k) (probe (2 ^ k) h j) (Suc j) = (probe (2 ^ k) h j + Suc j) mod 2 ^ k"
    unfolding next_bucket_def nat_and_mask by (rule mod_mod_cancel)
  also have "\<dots> = (h + (j * (j + 1) div 2 + Suc j)) mod 2 ^ k"
    unfolding probe_def mod_add_left_eq add.assoc ..
  finally show ?thesis unfolding probe_def triangle_Suc .
qed

lemma pow2_dvd_odd:
  assumes "2 ^ m dvd a * b" "odd (a :: nat)"
  shows "2 ^ m dvd b"
proof -
  have "coprime (2 ^ m) a" using assms(2) by simp
  then show ?thesis using assms(1) coprime_dvd_mult_right_iff by blast
qed

lemma probe_inj:
  assumes "probe (2 ^ k) h i = probe (2 ^ k) h j" "i < j" "j < 2 ^ k"
  shows False
proof -
  define d where "d = j * (j + 1) div 2 - i * (i + 1) div 2"
  have T: "2 * (x * (x + 1) div 2) = x * (x + 1)" for x :: nat by (rule dvd_mult_div_cancel) simp
  have le: "i * (i + 1) \<le> j * (j + 1)" using assms(2) by (intro mult_le_mono) simp_all
  obtain e where e: "j = i + e" "0 < e" using assms(2) less_imp_add_positive by blast
  have "2 * d = j * (j + 1) - i * (i + 1)" unfolding d_def diff_mult_distrib2 T by simp
  also have "\<dots> = e * (i + j + 1)" by (simp add: e algebra_simps)
  finally have d: "2 * d = e * (i + j + 1)" .
  have "2 ^ k dvd (h + j * (j + 1) div 2) - (h + i * (i + 1) div 2)"
    using assms(1) le mod_eq_dvd_iff_nat [of "h + i * (i + 1) div 2" "h + j * (j + 1) div 2" "2 ^ k"]
    unfolding probe_def by (metis add_left_mono div_le_mono)
  then have "2 ^ k dvd d" by (simp add: d_def)
  then have dv: "2 ^ Suc k dvd e * (i + j + 1)" unfolding d [symmetric] by simp
  have small: "0 < e" "e < 2 ^ Suc k" "0 < i + j + 1" "i + j + 1 < 2 ^ Suc k" using assms(2,3) e by simp_all
  have "e + (i + j + 1) = 2 * j + 1" using e by simp
  then have "odd (e + (i + j + 1))" by presburger
  then have "odd e \<or> odd (i + j + 1)" using odd_add by blast
  then show False
  proof
    assume "odd e"
    with dv have "2 ^ Suc k dvd i + j + 1" by (rule pow2_dvd_odd)
    then show False using nat_dvd_not_less [OF small(3,4)] by simp
  next
    assume "odd (i + j + 1)"
    with dv have "2 ^ Suc k dvd e" unfolding mult.commute [of e] by (rule pow2_dvd_odd)
    then show False using nat_dvd_not_less [OF small(1,2)] by simp
  qed
qed

text \<open>Within as many steps as there are buckets, a probe visits them all.\<close>

lemma probe_surj:
  assumes "b < 2 ^ k"
  shows "\<exists>j < 2 ^ k. probe (2 ^ k) h j = b"
proof -
  have inj: "inj_on (probe (2 ^ k) h) {..<2 ^ k}"
  proof (rule inj_onI)
    fix i j assume "i \<in> {..<2 ^ k}" "j \<in> {..<2 ^ k}" "probe (2 ^ k) h i = probe (2 ^ k) h j"
    then show "i = j" using probe_inj [of k h i j] probe_inj [of k h j i] by (cases i j rule: linorder_cases) auto
  qed
  have "probe (2 ^ k) h ` {..<2 ^ k} \<subseteq> {..<2 ^ k}" by (auto simp: probe_def)
  then have "probe (2 ^ k) h ` {..<2 ^ k} = {..<2 ^ k}"
    using inj by (intro card_subset_eq) (simp_all add: card_image)
  then show ?thesis using assms by (metis imageE lessThan_iff)
qed

lemma probe_less [simp]: "probe (2 ^ k) h j < 2 ^ k"
  by (simp add: probe_def)

section \<open>The invariant\<close>

text \<open>Every entry has its hash, stands where a probe for it arrives without crossing a hole, and is the only
  one with its key.\<close>

definition key_hash :: "hash_fn \<Rightarrow> bytes \<Rightarrow> 32 word" where
  "key_hash rh key = bucket_hash (StringMap_hash rh key)"

definition reached :: "nat \<Rightarrow> 'v slot list \<Rightarrow> nat \<Rightarrow> nat \<Rightarrow> bool" where
  "reached n t h b \<longleftrightarrow> (\<exists>j. b = probe n h j \<and> (\<forall>i<j. t ! probe n h i \<noteq> Hole))"

definition slots_ok :: "hash_fn \<Rightarrow> nat \<Rightarrow> 'v slot list \<Rightarrow> 32 word list \<Rightarrow> bool" where
  "slots_ok rh n t hs \<longleftrightarrow> length t = n \<and> length hs = n
    \<and> (\<forall>b k v. b < n \<longrightarrow> t ! b = Entry k v \<longrightarrow> hs ! b = key_hash rh k \<and> reached n t (unat (key_hash rh k)) b)
    \<and> (\<forall>b c k v w. b < n \<longrightarrow> c < n \<longrightarrow> t ! b = Entry k v \<longrightarrow> t ! c = Entry k w \<longrightarrow> b = c)"

primrec is_entry :: "'v slot \<Rightarrow> bool" where
  "is_entry Hole = False" | "is_entry Tombstone = False" | "is_entry (Entry k v) = True"

primrec is_tomb :: "'v slot \<Rightarrow> bool" where
  "is_tomb Hole = False" | "is_tomb Tombstone = True" | "is_tomb (Entry k v) = False"

definition sm_ok :: "hash_fn \<Rightarrow> 'v StringMap \<Rightarrow> bool" where
  "sm_ok rh m \<longleftrightarrow> m = StringMap_empty \<or> (\<exists>k \<le> 31. NumBuckets m = 2 ^ k
    \<and> slots_ok rh (2 ^ k) (TheTable m) (HashTable m)
    \<and> NumItems m = length (filter is_entry (TheTable m)) \<and> NumTombstones m = length (filter is_tomb (TheTable m))
    \<and> NumItems m + NumTombstones m < 2 ^ k \<and> 4 * NumItems m \<le> 3 * 2 ^ k)"

text \<open>The map a table stands for.\<close>

definition slot_entries :: "'v slot list \<Rightarrow> (bytes \<times> 'v) list" where
  "slot_entries t = concat (map (\<lambda>s. case s of Entry k v \<Rightarrow> [(k, v)] | _ \<Rightarrow> []) t)"

definition sm_map :: "'v StringMap \<Rightarrow> bytes \<Rightarrow> 'v option" where
  "sm_map m = map_of (slot_entries (TheTable m))"

lemma slots_okD:
  assumes "slots_ok rh n t hs"
  shows "length t = n" "length hs = n"
    "b < n \<Longrightarrow> t ! b = Entry k v \<Longrightarrow> hs ! b = key_hash rh k"
    "b < n \<Longrightarrow> t ! b = Entry k v \<Longrightarrow> reached n t (unat (key_hash rh k)) b"
    "b < n \<Longrightarrow> c < n \<Longrightarrow> t ! b = Entry k v \<Longrightarrow> t ! c = Entry k w \<Longrightarrow> b = c"
  using assms unfolding slots_ok_def by blast+

lemma slot_entries_iff: "(k, v) \<in> set (slot_entries t) \<longleftrightarrow> (\<exists>b < length t. t ! b = Entry k v)"
proof -
  have "(k, v) \<in> set (slot_entries t) \<longleftrightarrow> Entry k v \<in> set t"
    by (force simp: slot_entries_def split: slot.splits)
  then show ?thesis by (auto simp: in_set_conv_nth)
qed

lemma slots_map_iff:
  assumes "slots_ok rh n t hs"
  shows "map_of (slot_entries t) k = Some v \<longleftrightarrow> (\<exists>b < n. t ! b = Entry k v)"
proof
  assume "map_of (slot_entries t) k = Some v"
  then show "\<exists>b < n. t ! b = Entry k v" using slots_okD(1) [OF assms] map_of_SomeD slot_entries_iff by metis
next
  assume "\<exists>b < n. t ! b = Entry k v"
  then obtain b where b: "b < n" "t ! b = Entry k v" by blast
  then have "(k, v) \<in> set (slot_entries t)" using slots_okD(1) [OF assms] slot_entries_iff by metis
  then obtain w where w: "map_of (slot_entries t) k = Some w" using weak_map_of_SomeI by fastforce
  then obtain c where c: "c < n" "t ! c = Entry k w" using slots_okD(1) [OF assms] map_of_SomeD slot_entries_iff by metis
  then show "map_of (slot_entries t) k = Some v" using slots_okD(5) [OF assms b(1) c(1) b(2) c(2)] b c w by simp
qed

lemma slots_map_None:
  assumes "slots_ok rh n t hs"
  shows "map_of (slot_entries t) k = None \<longleftrightarrow> (\<forall>b < n. \<forall>v. t ! b \<noteq> Entry k v)"
proof -
  have "map_of (slot_entries t) k = None \<longleftrightarrow> (\<forall>v. map_of (slot_entries t) k \<noteq> Some v)"
    by (metis not_Some_eq)
  then show ?thesis unfolding slots_map_iff [OF assms] by auto
qed

section \<open>Counting slots\<close>

lemma filter_update_length:
  "i < length xs \<Longrightarrow> length (filter P (xs[i := x])) + of_bool (P (xs ! i)) = length (filter P xs) + of_bool (P x)"
proof (induction xs arbitrary: i)
  case (Cons y ys)
  then show ?case by (cases i) auto
qed simp

lemma slot_counts:
  "length t = length (filter is_entry t) + length (filter is_tomb t) + length (filter (\<lambda>s. case s of Hole \<Rightarrow> True | _ \<Rightarrow> False) t)"
  by (induction t) (auto split: slot.splits)

lemma hole_exists:
  assumes "length (filter is_entry t) + length (filter is_tomb t) < length t"
  shows "\<exists>b < length t. t ! b = Hole"
proof -
  have "filter (\<lambda>s. case s of Hole \<Rightarrow> True | _ \<Rightarrow> False) t \<noteq> []" using assms slot_counts [of t] by auto
  then obtain s where s: "s \<in> set t" "case s of Hole \<Rightarrow> True | _ \<Rightarrow> False" by (auto simp: filter_empty_conv)
  have "s = Hole" using s(2) by (simp split: slot.splits)
  then show ?thesis using s(1) by (simp add: in_set_conv_nth)
qed

section \<open>Where a probe stops\<close>

definition stops :: "bytes \<Rightarrow> 32 word \<Rightarrow> 'v slot list \<Rightarrow> 32 word list \<Rightarrow> nat \<Rightarrow> bool" where
  "stops name h t hs b \<longleftrightarrow> (case t ! b of Hole \<Rightarrow> True | Tombstone \<Rightarrow> False | Entry k v \<Rightarrow> hs ! b = h \<and> name = k)"

definition first_at :: "(nat \<Rightarrow> bool) \<Rightarrow> nat \<Rightarrow> nat \<Rightarrow> nat \<Rightarrow> bool" where
  "first_at P n h J \<longleftrightarrow> J < n \<and> P (probe n h J) \<and> (\<forall>i<J. \<not> P (probe n h i))"

lemma first_at_exists:
  assumes "b < 2 ^ k" "P b"
  shows "\<exists>J. first_at P (2 ^ k) h J"
proof -
  obtain j where j: "j < 2 ^ k" "P (probe (2 ^ k) h j)" using probe_surj [OF assms(1), of h] assms(2) by blast
  define J where "J = (LEAST i. P (probe (2 ^ k) h i))"
  have "P (probe (2 ^ k) h J)" "J \<le> j" using j(2) unfolding J_def by (rule LeastI, intro Least_le)
  moreover have "\<forall>i<J. \<not> P (probe (2 ^ k) h i)" using not_less_Least unfolding J_def by blast
  ultimately have "first_at P (2 ^ k) h J" using j(1) by (simp add: first_at_def)
  then show ?thesis ..
qed

lemma find_spot_run:
  assumes "k \<le> 31" "first_at (\<lambda>b. t ! b = Hole) (2 ^ k) h J" "j \<le> J"
  shows "find_spot t (2 ^ k) (probe (2 ^ k) h j) (Suc j) = Some (probe (2 ^ k) h J)"
  using assms(3)
proof (induction "J - j" arbitrary: j)
  case 0
  then show ?case using assms(2) by (simp add: first_at_def find_spot.simps)
next
  case (Suc d)
  have J: "J < 2 ^ k" "j < J" "t ! probe (2 ^ k) h j \<noteq> Hole" using assms(2) Suc by (auto simp: first_at_def)
  have "(2 :: nat) ^ k \<le> 2 ^ 31" using assms(1) by (rule power_increasing) simp
  then have w: "(Suc j + 1) mod 2 ^ 32 = Suc (Suc j)" using J by simp
  have "find_spot t (2 ^ k) (probe (2 ^ k) h (Suc j)) (Suc (Suc j)) = Some (probe (2 ^ k) h J)"
    using Suc J by (intro Suc.hyps) auto
  then show ?case using J(3) w next_bucket_probe [of k h j] assms(1)
    by (cases "t ! probe (2 ^ k) h j") (simp_all add: find_spot.simps [of t "2 ^ k" "probe (2 ^ k) h j"])
qed

lemma find_loop_run:
  assumes "NumBuckets m = 2 ^ k" "k \<le> 31"
    and "first_at (stops name h (TheTable m) (HashTable m)) (2 ^ k) s J" "j \<le> J"
  shows "find_loop name h (probe (2 ^ k) s j) (Suc j) m
    = Some (if TheTable m ! probe (2 ^ k) s J = Hole then -1 else int (probe (2 ^ k) s J))"
  using assms(4)
proof (induction "J - j" arbitrary: j)
  case 0
  then show ?case using assms(3)
    by (cases "TheTable m ! probe (2 ^ k) s J") (auto simp: first_at_def stops_def find_loop.simps)
next
  case (Suc d)
  have J: "J < 2 ^ k" "j < J" "\<not> stops name h (TheTable m) (HashTable m) (probe (2 ^ k) s j)"
    using assms(3) Suc by (auto simp: first_at_def)
  have "(2 :: nat) ^ k \<le> 2 ^ 31" using assms(2) by (rule power_increasing) simp
  then have w: "(Suc j + 1) mod 2 ^ 32 = Suc (Suc j)" using J by simp
  have "find_loop name h (probe (2 ^ k) s (Suc j)) (Suc (Suc j)) m
    = Some (if TheTable m ! probe (2 ^ k) s J = Hole then -1 else int (probe (2 ^ k) s J))"
    using Suc J by (intro Suc.hyps) auto
  then show ?case using J(3) w next_bucket_probe [of k s j] assms(1,2)
    by (cases "TheTable m ! probe (2 ^ k) s j") (auto simp: stops_def find_loop.simps [of name h "probe (2 ^ k) s j"])
qed

text \<open>Where a new entry may go: on the probe, at or before its end, in a slot without an entry.\<close>

definition vacant :: "'v slot list \<Rightarrow> nat \<Rightarrow> nat \<Rightarrow> nat \<Rightarrow> nat \<Rightarrow> bool" where
  "vacant t n s J b \<longleftrightarrow> (\<exists>i \<le> J. b = probe n s i) \<and> \<not> is_entry (t ! b)"

lemma lookup_loop_run:
  assumes "NumBuckets m = 2 ^ k" "k \<le> 31"
    and "first_at (stops name h (TheTable m) (HashTable m)) (2 ^ k) s J" "j \<le> J"
    and "\<And>b. tomb = Some b \<Longrightarrow> vacant (TheTable m) (2 ^ k) s J b"
  shows "\<exists>b m'. lookup_loop name h (probe (2 ^ k) s j) (Suc j) tomb m = Some (Ret b m')
    \<and> (if TheTable m ! probe (2 ^ k) s J = Hole
       then vacant (TheTable m) (2 ^ k) s J b \<and> m' = m\<lparr>HashTable := (HashTable m)[b := h]\<rparr>
       else b = probe (2 ^ k) s J \<and> m' = m)"
  using assms(4,5)
proof (induction "J - j" arbitrary: j tomb)
  case 0
  then show ?case using assms(3)
    by (cases "TheTable m ! probe (2 ^ k) s J")
      (auto simp: first_at_def stops_def lookup_loop.simps vacant_def Let_def split: option.splits)
next
  case (Suc d)
  have J: "J < 2 ^ k" "j < J" "\<not> stops name h (TheTable m) (HashTable m) (probe (2 ^ k) s j)"
    using assms(3) Suc by (auto simp: first_at_def)
  have "(2 :: nat) ^ k \<le> 2 ^ 31" using assms(2) by (rule power_increasing) simp
  then have w: "(Suc j + 1) mod 2 ^ 32 = Suc (Suc j)" using J by simp
  let ?b = "probe (2 ^ k) s j"
  define tomb' where "tomb' = (if TheTable m ! ?b = Tombstone \<and> tomb = None then Some ?b else tomb)"
  have "\<And>b. tomb' = Some b \<Longrightarrow> vacant (TheTable m) (2 ^ k) s J b"
    using Suc.prems(2) J(2) by (auto simp: tomb'_def vacant_def split: if_splits intro: less_imp_le)
  then have "\<exists>b m'. lookup_loop name h (probe (2 ^ k) s (Suc j)) (Suc (Suc j)) tomb' m = Some (Ret b m')
    \<and> (if TheTable m ! probe (2 ^ k) s J = Hole
       then vacant (TheTable m) (2 ^ k) s J b \<and> m' = m\<lparr>HashTable := (HashTable m)[b := h]\<rparr>
       else b = probe (2 ^ k) s J \<and> m' = m)"
    using Suc J by (intro Suc.hyps) auto
  moreover have "lookup_loop name h ?b (Suc j) tomb m = lookup_loop name h (probe (2 ^ k) s (Suc j)) (Suc (Suc j)) tomb' m"
    using J(3) w next_bucket_probe [of k s j] assms(1,2)
    by (cases "TheTable m ! ?b") (auto simp: stops_def tomb'_def lookup_loop.simps [of name h ?b])
  ultimately show ?case by simp
qed

text \<open>A probe for a key ends at its entry, or at a hole when there is none.\<close>

lemma stop_decides:
  assumes "slots_ok rh (2 ^ k) t hs" "first_at (stops name (key_hash rh name) t hs) (2 ^ k) (unat (key_hash rh name)) J"
  defines "b \<equiv> probe (2 ^ k) (unat (key_hash rh name)) J"
  shows "(if map_of (slot_entries t) name = None then t ! b = Hole else t ! b = Entry name (the (map_of (slot_entries t) name)))"
proof (cases "t ! b")
  case Hole
  have "t ! c \<noteq> Entry name v" if c: "c < 2 ^ k" for c v
  proof
    assume e: "t ! c = Entry name v"
    then obtain j where j: "c = probe (2 ^ k) (unat (key_hash rh name)) j"
      "\<forall>i<j. t ! probe (2 ^ k) (unat (key_hash rh name)) i \<noteq> Hole"
      using slots_okD(4) [OF assms(1) c e] by (auto simp: reached_def)
    have "stops name (key_hash rh name) t hs c" using slots_okD(3) [OF assms(1) c e] e by (simp add: stops_def)
    then have "J \<le> j" using assms(2) j(1) by (meson first_at_def not_le)
    then show False using j Hole e unfolding b_def by (cases "J = j") auto
  qed
  then have "map_of (slot_entries t) name = None" using slots_map_None [OF assms(1)] by blast
  then show ?thesis using Hole by simp
next
  case Tombstone
  then show ?thesis using assms(2) by (simp add: first_at_def stops_def b_def)
next
  case (Entry key v)
  then have "key = name" using assms(2) by (simp add: first_at_def stops_def b_def)
  moreover have "b < 2 ^ k" by (simp add: b_def)
  ultimately have "map_of (slot_entries t) name = Some v" using slots_map_iff [OF assms(1)] Entry by blast
  then show ?thesis using Entry \<open>key = name\<close> by simp
qed

section \<open>Filling and emptying a slot\<close>

lemma reached_update:
  assumes "reached n t h b" "x \<noteq> Hole"
  shows "reached n (t[c := x]) h b"
  using assms unfolding reached_def by (metis nth_list_update_eq nth_list_update_neq list_update_beyond not_le)

lemma slots_ok_fill:
  assumes "slots_ok rh n t hs" "b < n" "reached n t (unat (key_hash rh key)) b" "map_of (slot_entries t) key = None"
  shows "slots_ok rh n (t[b := Entry key v]) (hs[b := key_hash rh key])"
  unfolding slots_ok_def
proof (intro conjI allI impI)
  have none: "\<And>c w. c < n \<Longrightarrow> t ! c \<noteq> Entry key w" using slots_map_None [OF assms(1)] assms(4) by blast
  note D = slots_okD [OF assms(1)]
  show "length (t[b := Entry key v]) = n" "length (hs[b := key_hash rh key]) = n" using D by simp_all
  fix c k w assume c: "c < n" "t[b := Entry key v] ! c = Entry k w"
  show "hs[b := key_hash rh key] ! c = key_hash rh k"
    using c D assms(2) by (cases "c = b") auto
  show "reached n (t[b := Entry key v]) (unat (key_hash rh k)) c"
    using c D assms(2,3) by (cases "c = b") (auto intro!: reached_update)
  fix d x assume d: "d < n" "t[b := Entry key v] ! d = Entry k x"
  show "c = d"
    using c d none D(1) D(5) [OF c(1) d(1), of k w x] assms(2) by (cases "c = b"; cases "d = b") auto
qed

lemma entry_update_iff:
  assumes "b < n" "length t = n" "\<not> is_entry (t ! b)"
  shows "(\<exists>c<n. t[b := Entry key v] ! c = Entry k w) \<longleftrightarrow> (k = key \<and> w = v) \<or> (\<exists>c<n. t ! c = Entry k w)"
proof
  assume "\<exists>c<n. t[b := Entry key v] ! c = Entry k w"
  then obtain c where "c < n" "t[b := Entry key v] ! c = Entry k w" by blast
  then show "(k = key \<and> w = v) \<or> (\<exists>c<n. t ! c = Entry k w)" using assms(1,2) by (cases "c = b") auto
next
  assume "(k = key \<and> w = v) \<or> (\<exists>c<n. t ! c = Entry k w)"
  then show "\<exists>c<n. t[b := Entry key v] ! c = Entry k w"
  proof
    assume "k = key \<and> w = v"
    then have "b < n \<and> t[b := Entry key v] ! b = Entry k w" using assms(1,2) by simp
    then show ?thesis by blast
  next
    assume "\<exists>c<n. t ! c = Entry k w"
    then obtain c where c: "c < n" "t ! c = Entry k w" by blast
    then have "c \<noteq> b" using assms(3) by auto
    then have "t[b := Entry key v] ! c = Entry k w" using c by simp
    then show ?thesis using c(1) by blast
  qed
qed

lemma slots_map_fill:
  assumes "slots_ok rh n t hs" "b < n" "\<not> is_entry (t ! b)" "slots_ok rh n (t[b := Entry key v]) hs'"
  shows "map_of (slot_entries (t[b := Entry key v])) = (map_of (slot_entries t))(key \<mapsto> v)"
proof
  fix k
  note D = slots_okD [OF assms(1)]
  have "map_of (slot_entries (t[b := Entry key v])) k = Some w \<longleftrightarrow> ((map_of (slot_entries t))(key \<mapsto> v)) k = Some w" for w
  proof (cases "k = key")
    case True
    have "map_of (slot_entries (t[b := Entry key v])) key = Some v"
      using slots_map_iff [OF assms(4)] assms(2) D(1) by auto
    then show ?thesis using True by simp
  next
    case False
    have "(\<exists>c<n. t[b := Entry key v] ! c = Entry k w) \<longleftrightarrow> (\<exists>c<n. t ! c = Entry k w)"
      unfolding entry_update_iff [OF assms(2) D(1) assms(3)] using False by simp
    then show ?thesis using slots_map_iff [OF assms(4)] slots_map_iff [OF assms(1)] False by simp
  qed
  then show "map_of (slot_entries (t[b := Entry key v])) k = ((map_of (slot_entries t))(key \<mapsto> v)) k"
    by (metis not_Some_eq)
qed

lemma slots_ok_remove:
  assumes "slots_ok rh n t hs"
  shows "slots_ok rh n (t[b := Tombstone]) hs"
  unfolding slots_ok_def
proof (intro conjI allI impI)
  note D = slots_okD [OF assms]
  show "length (t[b := Tombstone]) = n" "length hs = n" using D by simp_all
  fix c k w assume c: "c < n" "t[b := Tombstone] ! c = Entry k w"
  then have e: "t ! c = Entry k w" using D(1) by (cases "c = b") auto
  show "hs ! c = key_hash rh k" using D(3) [OF c(1) e] .
  show "reached n (t[b := Tombstone]) (unat (key_hash rh k)) c" using D(4) [OF c(1) e] by (rule reached_update) simp
  fix d x assume d: "d < n" "t[b := Tombstone] ! d = Entry k x"
  then have "t ! d = Entry k x" using D(1) by (cases "d = b") auto
  then show "c = d" using D(5) [OF c(1) d(1) e] by simp
qed

lemma slots_map_remove:
  assumes "slots_ok rh n t hs" "b < n" "t ! b = Entry key v"
  shows "map_of (slot_entries (t[b := Tombstone])) = (map_of (slot_entries t))(key := None)"
proof
  fix k
  note D = slots_okD [OF assms(1)]
  have "map_of (slot_entries (t[b := Tombstone])) k = Some w \<longleftrightarrow> ((map_of (slot_entries t))(key := None)) k = Some w" for w
  proof -
    have "(\<exists>c<n. t[b := Tombstone] ! c = Entry k w) \<longleftrightarrow> k \<noteq> key \<and> (\<exists>c<n. t ! c = Entry k w)"
    proof (cases "k = key")
      case True
      have "t[b := Tombstone] ! c \<noteq> Entry key w" if "c < n" for c
        using D(1) D(5) [OF assms(2) that assms(3), of w] assms(2) by (cases "c = b") auto
      then show ?thesis using True by blast
    next
      case False
      then show ?thesis using assms(2,3) D(1) by (metis nth_list_update_eq nth_list_update_neq slot.distinct(5) slot.inject)
    qed
    then show ?thesis using slots_map_iff [OF slots_ok_remove [OF assms(1)]] slots_map_iff [OF assms(1)] by auto
  qed
  then show "map_of (slot_entries (t[b := Tombstone])) k = ((map_of (slot_entries t))(key := None)) k"
    by (metis not_Some_eq)
qed

section \<open>Rehashing keeps the map\<close>

lemma slots_ok_empty: "slots_ok rh n (createTable n) (getHashTable n)"
  by (simp add: slots_ok_def createTable_def getHashTable_def)

text \<open>Part of the old table is in the new one.\<close>

definition rehashed :: "hash_fn \<Rightarrow> 'v slot list \<Rightarrow> nat \<Rightarrow> nat \<Rightarrow> nat \<Rightarrow> 'v rehash_state \<Rightarrow> bool" where
  "rehashed rh old n BucketNo i = (\<lambda>(t, hs, pos). slots_ok rh n t hs
    \<and> (\<forall>k v. (\<exists>b<n. t ! b = Entry k v) \<longleftrightarrow> (\<exists>c<i. old ! c = Entry k v))
    \<and> length (filter is_entry t) = length (filter is_entry (take i old)) \<and> filter is_tomb t = []
    \<and> (BucketNo < i \<longrightarrow> is_entry (old ! BucketNo) \<longrightarrow> pos < n \<and> t ! pos = old ! BucketNo))"

lemma rehash_step:
  assumes old: "slots_ok rh N old ohs" "TheTable m = old" "HashTable m = ohs" and n: "n = 2 ^ k" "k \<le> 31"
    and "length (filter is_entry old) < n" and i: "i < N" and s: "rehashed rh old n BucketNo i s"
  shows "\<exists>s'. rehash_item m n BucketNo i s = Some s' \<and> rehashed rh old n BucketNo (Suc i) s'"
proof (cases "is_entry (old ! i)")
  case False
  have l: "length old = N" using slots_okD(1) [OF old(1)] .
  have "rehash_item m n BucketNo i s = Some s" using False old(2) by (cases s; cases "old ! i") (simp_all add: rehash_item_def)
  moreover have "(\<exists>c<Suc i. old ! c = Entry k v) \<longleftrightarrow> (\<exists>c<i. old ! c = Entry k v)" for k v
    using False by (auto simp: less_Suc_eq)
  moreover have "filter is_entry (take (Suc i) old) = filter is_entry (take i old)"
    using False i l by (simp add: take_Suc_conv_app_nth)
  ultimately show ?thesis using s False unfolding rehashed_def by (auto simp: less_Suc_eq)
next
  case True
  then obtain key v where e: "old ! i = Entry key v" by (cases "old ! i") auto
  obtain t hs pos where st: "s = (t, hs, pos)" by (cases s)
  have l: "length old = N" using slots_okD(1) [OF old(1)] .
  have t: "slots_ok rh n t hs" "length (filter is_entry t) = length (filter is_entry (take i old))" "filter is_tomb t = []"
    and ts: "\<And>k v. (\<exists>b<n. t ! b = Entry k v) \<longleftrightarrow> (\<exists>c<i. old ! c = Entry k v)"
    and tp: "BucketNo < i \<Longrightarrow> is_entry (old ! BucketNo) \<Longrightarrow> pos < n \<and> t ! pos = old ! BucketNo"
    using s unfolding st rehashed_def by auto
  define h where "h = key_hash rh key"
  have h: "ohs ! i = h" using slots_okD(3) [OF old(1) i e] by (simp add: h_def)
  have "length (filter is_entry (take i old)) \<le> length (filter is_entry old)"
    by (metis append_take_drop_id filter_append length_append le_add1)
  then have "length (filter is_entry t) + length (filter is_tomb t) < length t"
    using t(2,3) assms(6) slots_okD(1) [OF t(1)] by simp
  then obtain c where "c < 2 ^ k" "t ! c = Hole" using hole_exists slots_okD(1) [OF t(1)] n(1) by metis
  then obtain J where J: "first_at (\<lambda>b. t ! b = Hole) n (unat h) J" using first_at_exists [of c k "\<lambda>b. t ! b = Hole"] n(1) by blast
  define b where "b = probe n (unat h) J"
  have b: "b < n" "t ! b = Hole" using J n(1) by (simp_all add: b_def first_at_def)
  have "find_spot t n (probe n (unat h) 0) (Suc 0) = Some b"
    using find_spot_run [of k t "unat h" J 0] J n by (simp add: b_def)
  then have run: "rehash_item m n BucketNo i s = Some (t[b := Entry key v], hs[b := h], if i = BucketNo then b else pos)"
    using old(2,3) e h n(1) by (simp add: rehash_item_def st first_bucket_probe)
  have none: "map_of (slot_entries t) key = None"
  proof (rule ccontr)
    assume "map_of (slot_entries t) key \<noteq> None"
    then obtain w where "\<exists>b<n. t ! b = Entry key w" using slots_map_iff [OF t(1)] by blast
    then obtain c where c: "c < i" "old ! c = Entry key w" using ts by blast
    then show False using slots_okD(5) [OF old(1) _ i c(2) e] i by simp
  qed
  have r: "reached n t (unat h) b" using J by (auto simp: reached_def first_at_def b_def)
  have ok: "slots_ok rh n (t[b := Entry key v]) (hs[b := h])"
    using slots_ok_fill [OF t(1) b(1) _ none] r by (simp add: h_def)
  have "(\<exists>c<n. t[b := Entry key v] ! c = Entry k w) \<longleftrightarrow> (\<exists>c<Suc i. old ! c = Entry k w)" for k w
  proof -
    have "(\<exists>c<n. t[b := Entry key v] ! c = Entry k w) \<longleftrightarrow> (k = key \<and> w = v) \<or> (\<exists>c<n. t ! c = Entry k w)"
      using b slots_okD(1) [OF t(1)] by (intro entry_update_iff) simp_all
    then show ?thesis using ts e by (auto simp: less_Suc_eq)
  qed
  moreover have "length (filter is_entry (t[b := Entry key v])) = length (filter is_entry (take (Suc i) old))"
    using filter_update_length [of b t is_entry "Entry key v"] b t(2) e i l slots_okD(1) [OF t(1)]
    by (simp add: take_Suc_conv_app_nth)
  moreover have "filter is_tomb (t[b := Entry key v]) = []"
    using filter_update_length [of b t is_tomb "Entry key v"] b t(3) slots_okD(1) [OF t(1)] by simp
  moreover have "BucketNo < Suc i \<longrightarrow> is_entry (old ! BucketNo) \<longrightarrow>
    (if i = BucketNo then b else pos) < n \<and> t[b := Entry key v] ! (if i = BucketNo then b else pos) = old ! BucketNo"
    using tp b e slots_okD(1) [OF t(1)] by (cases "pos = b") (auto simp: less_Suc_eq)
  ultimately show ?thesis using run ok unfolding rehashed_def by auto
qed

lemma rehash_loop_run:
  assumes "slots_ok rh N old ohs" "TheTable m = old" "HashTable m = ohs" "n = 2 ^ k" "k \<le> 31"
    and "length (filter is_entry old) < n" "i \<le> N" "rehashed rh old n BucketNo i s"
  shows "\<exists>s'. rehash_loop m n BucketNo [i..<N] s = Some s' \<and> rehashed rh old n BucketNo N s'"
  using assms(7,8)
proof (induction "N - i" arbitrary: i s)
  case 0
  then show ?case by simp
next
  case (Suc d)
  then have i: "i < N" by simp
  obtain s1 where s1: "rehash_item m n BucketNo i s = Some s1" "rehashed rh old n BucketNo (Suc i) s1"
    using rehash_step [OF assms(1-6) i Suc.prems(2)] by blast
  obtain s2 where "rehash_loop m n BucketNo [Suc i..<N] s1 = Some s2" "rehashed rh old n BucketNo N s2"
    using Suc.hyps(1) [OF _ _ s1(2)] Suc.hyps(2) i by fastforce
  then show ?case using s1(1) i by (simp add: upt_conv_Cons)
qed

lemma rehash_whole:
  assumes "slots_ok rh N (TheTable m) (HashTable m)" "k \<le> 31" "length (filter is_entry (TheTable m)) < 2 ^ k"
    and "BucketNo < N" "TheTable m ! BucketNo = Entry key v"
  shows "\<exists>t hs pos. rehash_loop m (2 ^ k) BucketNo [0..<N] (createTable (2 ^ k), getHashTable (2 ^ k), BucketNo) = Some (t, hs, pos)
    \<and> slots_ok rh (2 ^ k) t hs \<and> map_of (slot_entries t) = map_of (slot_entries (TheTable m))
    \<and> length (filter is_entry t) = length (filter is_entry (TheTable m)) \<and> filter is_tomb t = []
    \<and> pos < 2 ^ k \<and> t ! pos = Entry key v"
proof -
  have "rehashed rh (TheTable m) (2 ^ k) BucketNo 0 (createTable (2 ^ k), getHashTable (2 ^ k), BucketNo)"
    using slots_ok_empty [of rh "2 ^ k"] by (simp add: rehashed_def createTable_def)
  then obtain s' where s': "rehash_loop m (2 ^ k) BucketNo [0..<N] (createTable (2 ^ k), getHashTable (2 ^ k), BucketNo) = Some s'"
    "rehashed rh (TheTable m) (2 ^ k) BucketNo N s'"
    using rehash_loop_run [OF assms(1) refl refl refl assms(2,3), of 0] by blast
  obtain t hs pos where st: "s' = (t, hs, pos)" by (cases s')
  have l: "length (TheTable m) = N" using slots_okD(1) [OF assms(1)] .
  have t: "slots_ok rh (2 ^ k) t hs" "length (filter is_entry t) = length (filter is_entry (TheTable m))" "filter is_tomb t = []"
    "pos < 2 ^ k" "t ! pos = Entry key v"
    and e: "\<And>k' w. (\<exists>b<2 ^ k. t ! b = Entry k' w) \<longleftrightarrow> (\<exists>c<N. TheTable m ! c = Entry k' w)"
    using s'(2) assms(4,5) l unfolding st rehashed_def by auto
  have "map_of (slot_entries t) x = Some w \<longleftrightarrow> map_of (slot_entries (TheTable m)) x = Some w" for x w
    unfolding slots_map_iff [OF t(1)] slots_map_iff [OF assms(1)] e ..
  then have "map_of (slot_entries t) = map_of (slot_entries (TheTable m))" by (intro ext) (metis not_Some_eq)
  then show ?thesis using s'(1) t st by blast
qed

lemma RehashTable_run:
  assumes "slots_ok rh (2 ^ k) (TheTable m) (HashTable m)" "NumBuckets m = 2 ^ k" "k \<le> 30"
    and "NumItems m = length (filter is_entry (TheTable m))" "NumTombstones m = length (filter is_tomb (TheTable m))"
    and "NumItems m + NumTombstones m \<le> 2 ^ k" "4 * NumItems m \<le> 3 * 2 ^ k + 4"
    and "b < 2 ^ k" "TheTable m ! b = Entry key v"
  shows "\<exists>b' m'. RehashTable b m = Some (b', m') \<and> sm_ok rh m' \<and> sm_map m' = sm_map m
    \<and> b' < NumBuckets m' \<and> TheTable m' ! b' = Entry key v"
proof -
  define N :: nat where "N = 2 ^ k"
  have N: "0 < N" "N \<le> 2 ^ 30" using power_increasing [OF assms(3), of "2 :: nat"] by (simp_all add: N_def)
  let ?i = "NumItems m" and ?t = "NumTombstones m"
  note A = assms(1,2,6-8) [folded N_def]
  have pos: "0 < ?i" using assms(4,8,9) slots_okD(1) [OF assms(1)] by (auto simp: filter_empty_conv set_conv_nth)
  have w: "N * 3 mod 2 ^ 32 = N * 3" "?i * 4 mod 2 ^ 32 = ?i * 4" "N * 2 mod 2 ^ 32 = N * 2"
    "(2 ^ 32 + N - (?i + ?t) mod 2 ^ 32) mod 2 ^ 32 = N - (?i + ?t)"
  proof -
    show "N * 3 mod 2 ^ 32 = N * 3" "?i * 4 mod 2 ^ 32 = ?i * 4" "N * 2 mod 2 ^ 32 = N * 2" using N A by simp_all
    have "2 ^ 32 + N - (?i + ?t) mod 2 ^ 32 = (N - (?i + ?t)) + 2 ^ 32" using N A by simp
    then show "(2 ^ 32 + N - (?i + ?t) mod 2 ^ 32) mod 2 ^ 32 = N - (?i + ?t)" using N by (simp only: mod_add_self2) simp
  qed
  have result: "\<exists>b' m'. map_option (\<lambda>(t, hs, pos). (pos, m\<lparr>TheTable := t, HashTable := hs, NumBuckets := 2 ^ j, NumTombstones := 0\<rparr>))
      (rehash_loop m (2 ^ j) b [0..<N] (createTable (2 ^ j), getHashTable (2 ^ j), b)) = Some (b', m')
    \<and> sm_ok rh m' \<and> sm_map m' = sm_map m \<and> b' < NumBuckets m' \<and> TheTable m' ! b' = Entry key v"
    if j: "j \<le> 31" "?i < 2 ^ j" "4 * ?i \<le> 3 * 2 ^ j" for j
  proof -
    obtain t hs pos where r: "rehash_loop m (2 ^ j) b [0..<N] (createTable (2 ^ j), getHashTable (2 ^ j), b) = Some (t, hs, pos)"
      "slots_ok rh (2 ^ j) t hs" "map_of (slot_entries t) = map_of (slot_entries (TheTable m))"
      "length (filter is_entry t) = ?i" "filter is_tomb t = []" "pos < 2 ^ j" "t ! pos = Entry key v"
      using rehash_whole [OF A(1) j(1) _ A(5) assms(9)] j(2) assms(4) by auto
    let ?m = "m\<lparr>TheTable := t, HashTable := hs, NumBuckets := 2 ^ j, NumTombstones := 0\<rparr>"
    have "sm_ok rh ?m" unfolding sm_ok_def using r j by (intro disjI2 exI [of _ j]) simp
    then show ?thesis using r by (intro exI [of _ pos] exI [of _ ?m]) (simp add: sm_map_def)
  qed
  show ?thesis
  proof (cases "N * 3 < ?i * 4")
    case True
    have "RehashTable b m = map_option (\<lambda>(t, hs, pos). (pos, m\<lparr>TheTable := t, HashTable := hs, NumBuckets := 2 ^ Suc k, NumTombstones := 0\<rparr>))
      (rehash_loop m (2 ^ Suc k) b [0..<N] (createTable (2 ^ Suc k), getHashTable (2 ^ Suc k), b))"
      using True w A(2) by (simp add: RehashTable_def Let_def N_def mult.commute)
    moreover have "2 ^ Suc k = 2 * N" by (simp add: N_def)
    then have "?i < 2 ^ Suc k" "4 * ?i \<le> 3 * 2 ^ Suc k" using A(3) N(1) by simp_all
    ultimately show ?thesis using result [of "Suc k"] assms(3) by simp
  next
    case small: False
    show ?thesis
    proof (cases "N - (?i + ?t) \<le> N div 8")
      case True
      have "RehashTable b m = map_option (\<lambda>(t, hs, pos). (pos, m\<lparr>TheTable := t, HashTable := hs, NumBuckets := 2 ^ k, NumTombstones := 0\<rparr>))
        (rehash_loop m (2 ^ k) b [0..<N] (createTable (2 ^ k), getHashTable (2 ^ k), b))"
        using True small w A(2) by (simp add: RehashTable_def Let_def N_def)
      moreover have "?i < 2 ^ k" "4 * ?i \<le> 3 * 2 ^ k" using small N(1) unfolding N_def by linarith+
      ultimately show ?thesis using result [of k] assms(3) by simp
    next
      case False
      have "RehashTable b m = Some (b, m)" using False small w A(2) by (simp add: RehashTable_def Let_def)
      moreover have "sm_ok rh m"
        unfolding sm_ok_def using assms(1-5) small False unfolding N_def by (intro disjI2 exI [of _ k]) simp
      ultimately show ?thesis using assms(2,8,9) by simp
    qed
  qed
qed

section \<open>The operations refine a map\<close>

lemma StringMap_init_ok: "\<exists>m. StringMap_init 16 (m0 :: 'v StringMap) = Ret () m \<and> NumBuckets m = 2 ^ 4
    \<and> slots_ok rh (2 ^ 4) (TheTable m) (HashTable m) \<and> NumItems m = 0 \<and> NumTombstones m = 0
    \<and> filter is_entry (TheTable m) = [] \<and> filter is_tomb (TheTable m) = [] \<and> sm_map m = Map.empty"
  using slots_ok_empty [of rh 16]
  by (simp add: StringMap_init_def Let_def sm_map_def createTable_def getHashTable_def slot_entries_def)

text \<open>An allocated table is one in the second case of the invariant.\<close>

lemma sm_okE:
  assumes "sm_ok rh m" "NumBuckets m \<noteq> 0"
  obtains k where "k \<le> 31" "NumBuckets m = 2 ^ k" "slots_ok rh (2 ^ k) (TheTable m) (HashTable m)"
    "NumItems m = length (filter is_entry (TheTable m))" "NumTombstones m = length (filter is_tomb (TheTable m))"
    "NumItems m + NumTombstones m < 2 ^ k" "4 * NumItems m \<le> 3 * 2 ^ k"
  using assms unfolding sm_ok_def by (auto simp: StringMap_empty_def)

lemma sm_ok_empty: "sm_ok rh StringMap_empty" "sm_map StringMap_empty = Map.empty" "NumItems StringMap_empty = 0"
    "NumBuckets StringMap_empty = 0"
  by (simp_all add: sm_ok_def sm_map_def StringMap_empty_def slot_entries_def)

lemma no_buckets: "sm_ok rh m \<Longrightarrow> NumBuckets m = 0 \<Longrightarrow> m = StringMap_empty"
  by (auto simp: sm_ok_def)

lemma hole_at:
  assumes "slots_ok rh (2 ^ k) t hs" "length (filter is_entry t) + length (filter is_tomb t) < 2 ^ k"
  shows "\<exists>J. first_at (stops name h t hs) (2 ^ k) s J"
proof -
  obtain b where "b < 2 ^ k" "t ! b = Hole" using hole_exists [of t] assms slots_okD(1) [OF assms(1)] by auto
  then show ?thesis using first_at_exists [of b k "stops name h t hs" s] by (simp add: stops_def)
qed

lemma FindKey_run:
  assumes "sm_ok rh m"
  shows "case sm_map m key of
      None \<Rightarrow> FindKey key (StringMap_hash rh key) m = Some (-1)
    | Some v \<Rightarrow> \<exists>b < NumBuckets m. FindKey key (StringMap_hash rh key) m = Some (int b) \<and> TheTable m ! b = Entry key v"
proof (cases "NumBuckets m = 0")
  case True
  then show ?thesis using no_buckets [OF assms] by (simp add: FindKey_def sm_ok_empty)
next
  case False
  then obtain k where k: "k \<le> 31" "NumBuckets m = 2 ^ k" "slots_ok rh (2 ^ k) (TheTable m) (HashTable m)"
    "length (filter is_entry (TheTable m)) + length (filter is_tomb (TheTable m)) < 2 ^ k"
    using sm_okE [OF assms] by metis
  define h where "h = key_hash rh key"
  obtain J where J: "first_at (stops key h (TheTable m) (HashTable m)) (2 ^ k) (unat h) J"
    using hole_at [OF k(3,4)] by blast
  let ?b = "probe (2 ^ k) (unat h) J"
  have "FindKey key (StringMap_hash rh key) m = Some (if TheTable m ! ?b = Hole then -1 else int ?b)"
    using find_loop_run [OF k(2,1) J, of 0] k(2) by (simp add: FindKey_def first_bucket_probe h_def key_hash_def)
  then show ?thesis
    using stop_decides [OF k(3) J [unfolded h_def]] k(2) by (auto simp: sm_map_def h_def split: option.splits)
qed

lemma LookupBucketFor_run:
  assumes "slots_ok rh (2 ^ k) (TheTable m) (HashTable m)" "NumBuckets m = 2 ^ k" "k \<le> 31"
    and "length (filter is_entry (TheTable m)) + length (filter is_tomb (TheTable m)) < 2 ^ k"
  shows "\<exists>b. b < 2 ^ k \<and> (case sm_map m key of
      None \<Rightarrow> LookupBucketFor key (StringMap_hash rh key) m = Some (Ret b (m\<lparr>HashTable := (HashTable m)[b := key_hash rh key]\<rparr>))
        \<and> \<not> is_entry (TheTable m ! b) \<and> reached (2 ^ k) (TheTable m) (unat (key_hash rh key)) b
    | Some v \<Rightarrow> LookupBucketFor key (StringMap_hash rh key) m = Some (Ret b m) \<and> TheTable m ! b = Entry key v)"
proof -
  define h where "h = key_hash rh key"
  obtain J where J: "first_at (stops key h (TheTable m) (HashTable m)) (2 ^ k) (unat h) J"
    using hole_at [OF assms(1,4)] by blast
  have "LookupBucketFor key (StringMap_hash rh key) m = lookup_loop key h (probe (2 ^ k) (unat h) 0) (Suc 0) None m"
    using assms(2) by (simp add: LookupBucketFor_def first_bucket_probe h_def key_hash_def)
  then obtain b m' where r: "LookupBucketFor key (StringMap_hash rh key) m = Some (Ret b m')"
    "if TheTable m ! probe (2 ^ k) (unat h) J = Hole
     then vacant (TheTable m) (2 ^ k) (unat h) J b \<and> m' = m\<lparr>HashTable := (HashTable m)[b := h]\<rparr>
     else b = probe (2 ^ k) (unat h) J \<and> m' = m"
    using lookup_loop_run [OF assms(2,3) J, of 0 None] by auto
  have v: "reached (2 ^ k) (TheTable m) (unat h) b" "b < 2 ^ k" if "vacant (TheTable m) (2 ^ k) (unat h) J b"
  proof -
    obtain i where i: "i \<le> J" "b = probe (2 ^ k) (unat h) i" using \<open>vacant _ _ _ _ _\<close> by (auto simp: vacant_def)
    have "TheTable m ! probe (2 ^ k) (unat h) j \<noteq> Hole" if "j < i" for j
    proof -
      have "\<not> stops key h (TheTable m) (HashTable m) (probe (2 ^ k) (unat h) j)"
        using J i(1) \<open>j < i\<close> by (simp add: first_at_def)
      then show ?thesis by (auto simp: stops_def)
    qed
    then show "reached (2 ^ k) (TheTable m) (unat h) b" "b < 2 ^ k" using i(2) by (auto simp: reached_def)
  qed
  show ?thesis
  proof (cases "sm_map m key")
    case None
    then have "TheTable m ! probe (2 ^ k) (unat h) J = Hole"
      using stop_decides [OF assms(1) J [unfolded h_def]] by (simp add: sm_map_def h_def)
    then show ?thesis using r v None by (intro exI [of _ b]) (auto simp: vacant_def h_def)
  next
    case (Some w)
    then have "TheTable m ! probe (2 ^ k) (unat h) J = Entry key w"
      using stop_decides [OF assms(1) J [unfolded h_def]] by (simp add: sm_map_def h_def)
    then show ?thesis using r Some by (intro exI [of _ b]) simp
  qed
qed

text \<open>What an insertion comes to, once the bucket is known.\<close>

lemma fill_run:
  fixes m :: "'a StringMap"
  assumes "slots_ok rh (2 ^ k) (TheTable m) (HashTable m)" "NumBuckets m = 2 ^ k" "k \<le> 30"
    and "NumItems m = length (filter is_entry (TheTable m))" "NumTombstones m = length (filter is_tomb (TheTable m))"
    and "NumItems m + NumTombstones m < 2 ^ k" "4 * NumItems m \<le> 3 * 2 ^ k"
    and "b < 2 ^ k" "\<not> is_entry (TheTable m ! b)" "reached (2 ^ k) (TheTable m) (unat (key_hash rh key)) b" "sm_map m key = None"
    and "LookupBucketFor key h m = Some (Ret b (m\<lparr>HashTable := (HashTable m)[b := key_hash rh key]\<rparr>))"
  shows "\<exists>b' m'. try_emplace_with_hash key h v m = Some (Ret (b', True) m') \<and> sm_ok rh m'
    \<and> sm_map m' = (sm_map m)(key \<mapsto> v) \<and> b' < NumBuckets m' \<and> TheTable m' ! b' = Entry key v"
proof -
  define m1 where "m1 = m\<lparr>HashTable := (HashTable m)[b := key_hash rh key], TheTable := (TheTable m)[b := Entry key v],
    NumItems := NumItems m + 1, NumTombstones := NumTombstones m - of_bool (is_tomb (TheTable m ! b))\<rparr>"
  have N: "(2 :: nat) ^ k \<le> 2 ^ 30" using power_increasing [OF assms(3), of "2 :: nat"] by simp
  have l: "b < length (TheTable m)" using slots_okD(1) [OF assms(1)] assms(8) by simp
  have s1: "slots_ok rh (2 ^ k) (TheTable m1) (HashTable m1)"
    using slots_ok_fill [OF assms(1,8,10)] assms(11) by (simp add: m1_def sm_map_def)
  have map1: "sm_map m1 = (sm_map m)(key \<mapsto> v)"
    using slots_map_fill [OF assms(1,8,9)] s1 by (simp add: m1_def sm_map_def)
  have items: "NumItems m1 = length (filter is_entry (TheTable m1))"
    using filter_update_length [OF l, of is_entry "Entry key v"] assms(4,9) by (simp add: m1_def)
  have tombs: "NumTombstones m1 = length (filter is_tomb (TheTable m1))"
    using filter_update_length [OF l, of is_tomb "Entry key v"] assms(5) by (simp add: m1_def)
  have few: "NumItems m1 + NumTombstones m1 \<le> 2 ^ k" "4 * NumItems m1 \<le> 3 * 2 ^ k + 4"
    using assms(6,7) by (simp_all add: m1_def)
  obtain b' m' where r: "RehashTable b m1 = Some (b', m')" "sm_ok rh m'" "sm_map m' = sm_map m1"
    "b' < NumBuckets m'" "TheTable m' ! b' = Entry key v"
    using RehashTable_run [OF s1 _ assms(3) items tombs few assms(8)] assms(2) l by (auto simp: m1_def)
  have pos: "is_tomb (TheTable m ! b) \<Longrightarrow> 0 < NumTombstones m"
    using l assms(5) by (auto simp: filter_empty_conv intro: nth_mem)
  have "try_emplace_with_hash key h v m = map_option (\<lambda>(b, m). Ret (b, True) m) (RehashTable b m1)"
  proof (cases "TheTable m ! b")
    case Hole
    then show ?thesis using assms(2,6,12) N by (simp add: try_emplace_with_hash_def Let_def m1_def)
  next
    case Tombstone
    then have t: "(NumTombstones m + 2 ^ 32 - 1) mod 2 ^ 32 = NumTombstones m - 1"
    proof -
      have "NumTombstones m + 2 ^ 32 - 1 = (NumTombstones m - 1) + 2 ^ 32" using pos Tombstone by simp
      then show ?thesis using assms(6) N by (simp only: mod_add_self2) simp
    qed
    have c: "x\<lparr>NumTombstones := a, TheTable := y, NumItems := z\<rparr> = x\<lparr>TheTable := y, NumItems := z, NumTombstones := a\<rparr>"
      for x :: "'a StringMap" and a y z by (cases x) simp
    show ?thesis using t Tombstone pos assms(2,6,12) N by (simp add: try_emplace_with_hash_def Let_def m1_def c)
  next
    case (Entry k w)
    then show ?thesis using assms(9) by simp
  qed
  then show ?thesis using r map1 by auto
qed

lemma StringMap_insert_run:
  assumes "sm_ok rh m" "sm_map m key = None \<Longrightarrow> NumBuckets m \<le> 2 ^ 30"
  shows "\<exists>b m'. StringMap_insert rh key v m = Some (Ret (b, sm_map m key = None) m') \<and> sm_ok rh m'
    \<and> sm_map m' = (if sm_map m key = None then (sm_map m)(key \<mapsto> v) else sm_map m)
    \<and> b < NumBuckets m' \<and> TheTable m' ! b = Entry key (the (sm_map m' key))"
proof (cases "NumBuckets m = 0")
  case True
  then have m: "m = StringMap_empty" using no_buckets [OF assms(1)] by simp
  obtain m0 where m0: "StringMap_init 16 m = Ret () m0" "NumBuckets m0 = 2 ^ 4"
    "slots_ok rh (2 ^ 4) (TheTable m0) (HashTable m0)" "NumItems m0 = 0" "NumTombstones m0 = 0"
    "filter is_entry (TheTable m0) = []" "filter is_tomb (TheTable m0) = []" "sm_map m0 = Map.empty"
    using StringMap_init_ok [of m rh] by blast
  obtain b where b: "b < 2 ^ 4" "\<not> is_entry (TheTable m0 ! b)" "reached (2 ^ 4) (TheTable m0) (unat (key_hash rh key)) b"
    and look: "LookupBucketFor key (StringMap_hash rh key) m0 = Some (Ret b (m0\<lparr>HashTable := (HashTable m0)[b := key_hash rh key]\<rparr>))"
    using LookupBucketFor_run [OF m0(3,2), of key] m0(6-8) by auto
  have "LookupBucketFor key (StringMap_hash rh key) m = LookupBucketFor key (StringMap_hash rh key) m0"
    using True m0(1,2) by (simp add: LookupBucketFor_def)
  then have "StringMap_insert rh key v m = StringMap_insert rh key v m0"
    by (simp add: StringMap_insert_def try_emplace_with_hash_def)
  moreover have "\<exists>b' m'. try_emplace_with_hash key (StringMap_hash rh key) v m0 = Some (Ret (b', True) m') \<and> sm_ok rh m'
    \<and> sm_map m' = (sm_map m0)(key \<mapsto> v) \<and> b' < NumBuckets m' \<and> TheTable m' ! b' = Entry key v"
    using m0 by (intro fill_run [OF m0(3,2) _ _ _ _ _ b _ look]) simp_all
  ultimately show ?thesis using m0(8) by (auto simp: m sm_ok_empty StringMap_insert_def)
next
  case False
  then obtain k where k: "NumBuckets m = 2 ^ k" "slots_ok rh (2 ^ k) (TheTable m) (HashTable m)"
    "NumItems m = length (filter is_entry (TheTable m))" "NumTombstones m = length (filter is_tomb (TheTable m))"
    "NumItems m + NumTombstones m < 2 ^ k" "4 * NumItems m \<le> 3 * 2 ^ k" and "k \<le> 31"
    using sm_okE [OF assms(1)] by metis
  note k31 = \<open>k \<le> 31\<close>
  obtain b where b: "b < 2 ^ k" "case sm_map m key of
      None \<Rightarrow> LookupBucketFor key (StringMap_hash rh key) m = Some (Ret b (m\<lparr>HashTable := (HashTable m)[b := key_hash rh key]\<rparr>))
        \<and> \<not> is_entry (TheTable m ! b) \<and> reached (2 ^ k) (TheTable m) (unat (key_hash rh key)) b
    | Some v \<Rightarrow> LookupBucketFor key (StringMap_hash rh key) m = Some (Ret b m) \<and> TheTable m ! b = Entry key v"
    using LookupBucketFor_run [OF k(2,1)] k31 k(3-5) by auto
  show ?thesis
  proof (cases "sm_map m key")
    case None
    then have "(2 :: nat) ^ k \<le> 2 ^ 30" using assms(2) k(1) by simp
    then have k30: "k \<le> 30" by (simp only: power_increasing_iff)
    from None have "LookupBucketFor key (StringMap_hash rh key) m = Some (Ret b (m\<lparr>HashTable := (HashTable m)[b := key_hash rh key]\<rparr>))"
      "\<not> is_entry (TheTable m ! b)" "reached (2 ^ k) (TheTable m) (unat (key_hash rh key)) b" using b(2) by simp_all
    then show ?thesis using fill_run [OF k(2,1) k30 k(3-6) b(1) _ _ None, of "StringMap_hash rh key" v] None
      by (auto simp: StringMap_insert_def)
  next
    case (Some w)
    then have "StringMap_insert rh key v m = Some (Ret (b, False) m)"
      using b(2) by (simp add: StringMap_insert_def try_emplace_with_hash_def)
    then show ?thesis using Some b assms(1) k(1) by simp
  qed
qed

lemma StringMap_find_run:
  assumes "sm_ok rh m"
  shows "case sm_map m key of
      None \<Rightarrow> StringMap_find rh key m = Some None
    | Some v \<Rightarrow> \<exists>b < NumBuckets m. StringMap_find rh key m = Some (Some b) \<and> TheTable m ! b = Entry key v"
proof (cases "sm_map m key")
  case None
  then show ?thesis using FindKey_run [OF assms, of key] by (simp add: StringMap_find_def)
next
  case (Some v)
  then obtain b where "b < NumBuckets m" "FindKey key (StringMap_hash rh key) m = Some (int b)" "TheTable m ! b = Entry key v"
    using FindKey_run [OF assms, of key] by auto
  then show ?thesis using Some by (auto simp: StringMap_find_def)
qed

lemma RemoveKey_run:
  assumes "sm_ok rh m" "sm_map m key = Some v"
  shows "\<exists>b m'. StringMap_find rh key m = Some (Some b) \<and> TheTable m ! b = Entry key v
    \<and> RemoveKey rh key m = Some (Ret (Some b) m') \<and> sm_ok rh m' \<and> sm_map m' = (sm_map m)(key := None)"
proof -
  have "NumBuckets m \<noteq> 0"
  proof
    assume "NumBuckets m = 0"
    then have "m = StringMap_empty" using no_buckets assms(1) by blast
    then show False using assms(2) by (simp add: sm_ok_empty)
  qed
  then obtain k where k: "k \<le> 31" "NumBuckets m = 2 ^ k" "slots_ok rh (2 ^ k) (TheTable m) (HashTable m)"
    "NumItems m = length (filter is_entry (TheTable m))" "NumTombstones m = length (filter is_tomb (TheTable m))"
    "NumItems m + NumTombstones m < 2 ^ k" "4 * NumItems m \<le> 3 * 2 ^ k"
    using sm_okE [OF assms(1)] by metis
  have N: "(2 :: nat) ^ k \<le> 2 ^ 31" using power_increasing [OF k(1), of "2 :: nat"] by simp
  obtain b where b: "b < 2 ^ k" "FindKey key (StringMap_hash rh key) m = Some (int b)" "TheTable m ! b = Entry key v"
    using FindKey_run [OF assms(1), of key] assms(2) k(2) by auto
  have l: "b < length (TheTable m)" using slots_okD(1) [OF k(3)] b(1) by simp
  have pos: "0 < NumItems m" using l b(3) k(4) by (auto simp: filter_empty_conv intro!: bexI [OF _ nth_mem])
  let ?m = "m\<lparr>TheTable := (TheTable m)[b := Tombstone], NumItems := NumItems m - 1, NumTombstones := NumTombstones m + 1\<rparr>"
  have w: "(NumItems m + 2 ^ 32 - 1) mod 2 ^ 32 = NumItems m - 1"
  proof -
    have "NumItems m + 2 ^ 32 - 1 = (NumItems m - 1) + 2 ^ 32" using pos by simp
    then show ?thesis using k(6) N by (simp only: mod_add_self2) simp
  qed
  have "RemoveKey rh key m = Some (Ret (Some b) ?m)"
    using b(2) w k(2,6) N pos by (simp add: RemoveKey_def Let_def)
  moreover have "sm_ok rh ?m"
  proof -
    have "NumItems ?m = length (filter is_entry (TheTable ?m))"
      using filter_update_length [OF l, of is_entry Tombstone] b(3) k(4) by simp
    moreover have "NumTombstones ?m = length (filter is_tomb (TheTable ?m))"
      using filter_update_length [OF l, of is_tomb Tombstone] b(3) k(5) by simp
    moreover have "NumItems ?m + NumTombstones ?m < 2 ^ k" "4 * NumItems ?m \<le> 3 * 2 ^ k" using k(6,7) pos by simp_all
    ultimately show ?thesis
      unfolding sm_ok_def using slots_ok_remove [OF k(3), of b] k(1,2) by (intro disjI2 exI [of _ k] conjI) simp_all
  qed
  moreover have "sm_map ?m = (sm_map m)(key := None)"
    using slots_map_remove [OF k(3) b(1,3)] by (simp add: sm_map_def)
  moreover have "StringMap_find rh key m = Some (Some b)" using b(2) by (simp add: StringMap_find_def)
  ultimately show ?thesis using b(3) by blast
qed

lemma StringMap_erase_run:
  assumes "sm_ok rh m"
  shows "\<exists>m'. StringMap_erase rh key m = Some (Ret (sm_map m key \<noteq> None) m') \<and> sm_ok rh m'
    \<and> sm_map m' = (sm_map m)(key := None)"
proof (cases "sm_map m key")
  case None
  then have "StringMap_erase rh key m = Some (Ret False m)"
    using StringMap_find_run [OF assms, of key] by (simp add: StringMap_erase_def)
  then show ?thesis using None assms by (simp add: fun_upd_idem)
next
  case (Some v)
  then obtain b m' where b: "StringMap_find rh key m = Some (Some b)" "TheTable m ! b = Entry key v"
    "RemoveKey rh key m = Some (Ret (Some b) m')" "sm_ok rh m'" "sm_map m' = (sm_map m)(key := None)"
    using RemoveKey_run [OF assms] by blast
  then have "StringMap_erase rh key m = Some (Ret True m')" by (simp add: StringMap_erase_def RemoveEntry_def)
  then show ?thesis using b Some by simp
qed

lemma StringMap_clear_run:
  assumes "sm_ok rh m"
  shows "sm_ok rh (StringMap_clear m) \<and> sm_map (StringMap_clear m) = Map.empty"
proof (cases "NumBuckets m = 0")
  case True
  then have "m = StringMap_empty" using no_buckets assms by blast
  then show ?thesis by (simp add: StringMap_clear_def sm_ok_empty)
next
  case False
  then obtain k where k: "k \<le> 31" "NumBuckets m = 2 ^ k" "slots_ok rh (2 ^ k) (TheTable m) (HashTable m)"
    "NumItems m = length (filter is_entry (TheTable m))"
    using sm_okE [OF assms] by metis
  have none: "slot_entries (map (\<lambda>_. Hole) t) = []" "filter is_entry (map (\<lambda>_. Hole) t) = []" "filter is_tomb (map (\<lambda>_. Hole) t) = []"
    for t :: "'a slot list" by (simp_all add: slot_entries_def filter_empty_conv)
  show ?thesis
  proof (cases "NumItems m = 0")
    case True
    have "t ! b \<noteq> Entry key v" if "filter is_entry t = []" "b < length t" for t :: "'a slot list" and b key v
      using that by (metis filter_empty_conv is_entry.simps(3) nth_mem)
    then have "sm_map m key = None" for key
      using k(4) True slots_map_None [OF k(3), of key] slots_okD(1) [OF k(3)] by (simp add: sm_map_def)
    then show ?thesis using True assms by (auto simp: StringMap_clear_def)
  next
    case False
    have "slots_ok rh (2 ^ k) (map (\<lambda>_. Hole) (TheTable m)) (HashTable m)"
      using slots_okD(1,2) [OF k(3)] by (auto simp: slots_ok_def)
    then show ?thesis using False k(1,2) none by (simp add: StringMap_clear_def sm_ok_def sm_map_def) blast
  qed
qed

lemma slots_ok_same_keys:
  assumes "slots_ok rh n t hs" "length t' = n" "length hs' = n"
    and "\<And>b k v. b < n \<Longrightarrow> t' ! b = Entry k v \<Longrightarrow> hs' ! b = hs ! b \<and> (\<exists>w. t ! b = Entry k w)"
    and "\<And>b. b < n \<Longrightarrow> t' ! b = Hole \<Longrightarrow> t ! b = Hole" and "n = 2 ^ j"
  shows "slots_ok rh n t' hs'"
  unfolding slots_ok_def
proof (intro conjI allI impI)
  note D = slots_okD [OF assms(1)]
  show "length t' = n" "length hs' = n" using assms(2,3) by simp_all
  fix b k v assume b: "b < n" "t' ! b = Entry k v"
  then obtain w where w: "hs' ! b = hs ! b" "t ! b = Entry k w" using assms(4) by blast
  show "hs' ! b = key_hash rh k" using w(1) D(3) [OF b(1) w(2)] by simp
  obtain i where i: "b = probe n (unat (key_hash rh k)) i" "\<forall>x<i. t ! probe n (unat (key_hash rh k)) x \<noteq> Hole"
    using D(4) [OF b(1) w(2)] by (auto simp: reached_def)
  have "t' ! probe n (unat (key_hash rh k)) x \<noteq> Hole" if "x < i" for x
    using i(2) that assms(5) [of "probe n (unat (key_hash rh k)) x"] assms(6) by auto
  then show "reached n t' (unat (key_hash rh k)) b" using i(1) by (auto simp: reached_def)
  fix c x assume c: "c < n" "t' ! c = Entry k x"
  then obtain y where "t ! c = Entry k y" using assms(4) by blast
  then show "b = c" using D(5) [OF b(1) c(1) w(2)] by simp
qed

lemma StringMap_setValue_run:
  assumes "sm_ok rh m" "b < NumBuckets m" "TheTable m ! b = Entry key w"
  shows "sm_ok rh (StringMap_setValue b v m) \<and> sm_map (StringMap_setValue b v m) = (sm_map m)(key \<mapsto> v)
    \<and> NumBuckets (StringMap_setValue b v m) = NumBuckets m"
proof -
  obtain k where k: "k \<le> 31" "NumBuckets m = 2 ^ k" "slots_ok rh (2 ^ k) (TheTable m) (HashTable m)"
    "NumItems m = length (filter is_entry (TheTable m))" "NumTombstones m = length (filter is_tomb (TheTable m))"
    "NumItems m + NumTombstones m < 2 ^ k" "4 * NumItems m \<le> 3 * 2 ^ k"
    using sm_okE [OF assms(1)] assms(2) by (metis not_less0)
  note D = slots_okD [OF k(3)]
  have l: "b < length (TheTable m)" "b < 2 ^ k" using assms(2) k(2) D(1) by simp_all
  let ?t = "(TheTable m)[b := Entry key v]"
  have ok: "slots_ok rh (2 ^ k) ?t (HashTable m)"
  proof (rule slots_ok_same_keys [OF k(3) _ D(2) _ _ refl])
    show "length ?t = 2 ^ k" using D(1) by simp
    show "HashTable m ! c = HashTable m ! c \<and> (\<exists>w. TheTable m ! c = Entry k' w)"
      if "c < 2 ^ k" "?t ! c = Entry k' x" for c k' x
      using that assms(3) l(1) by (cases "c = b") auto
    show "TheTable m ! c = Hole" if "c < 2 ^ k" "?t ! c = Hole" for c using that l(1) by (cases "c = b") auto
  qed
  have "map_of (slot_entries ?t) x = Some y \<longleftrightarrow> ((sm_map m)(key \<mapsto> v)) x = Some y" for x y
  proof -
    have "(\<exists>c<2 ^ k. ?t ! c = Entry x y) \<longleftrightarrow> (if x = key then y = v else (\<exists>c<2 ^ k. TheTable m ! c = Entry x y))"
    proof (cases "x = key")
      case True
      have "?t ! c = Entry key y \<longrightarrow> c = b" if "c < 2 ^ k" for c
        using D(5) [OF that l(2) _ assms(3), of y] by (cases "c = b") auto
      then show ?thesis using True l by (metis nth_list_update_eq slot.inject)
    next
      case False
      have "?t ! c = Entry x y \<longleftrightarrow> TheTable m ! c = Entry x y" for c using False l(1) assms(3) by (cases "c = b") auto
      then show ?thesis using False by simp
    qed
    then show ?thesis using slots_map_iff [OF ok] slots_map_iff [OF k(3)] by (auto simp: sm_map_def)
  qed
  then have "map_of (slot_entries ?t) = (sm_map m)(key \<mapsto> v)" by (intro ext) (metis not_Some_eq)
  moreover have "length (filter is_entry ?t) = length (filter is_entry (TheTable m))" "length (filter is_tomb ?t) = length (filter is_tomb (TheTable m))"
    using filter_update_length [OF l(1), of is_entry "Entry key v"] filter_update_length [OF l(1), of is_tomb "Entry key v"] assms(3) by simp_all
  ultimately show ?thesis
    using ok k assms(3) unfolding sm_ok_def by (auto simp: StringMap_setValue_def sm_map_def intro!: exI [of _ k])
qed

lemma StringMap_copy_run:
  assumes "sm_ok rh m"
  shows "\<exists>m'. StringMap_copy m = Ret () m' \<and> sm_ok rh m' \<and> sm_map m' = sm_map m"
proof (cases "NumItems m = 0")
  case True
  have "sm_map (StringMap_clear m) = Map.empty" using StringMap_clear_run [OF assms] by blast
  then have "sm_map m = Map.empty" using True by (simp add: StringMap_clear_def)
  then show ?thesis using True by (simp add: StringMap_copy_def sm_ok_empty)
next
  case False
  then have "m \<noteq> StringMap_empty" by (auto simp: sm_ok_empty)
  then have "NumBuckets m \<noteq> 0" using no_buckets assms by blast
  then obtain k where k: "k \<le> 31" "NumBuckets m = 2 ^ k" "slots_ok rh (2 ^ k) (TheTable m) (HashTable m)"
    "NumItems m = length (filter is_entry (TheTable m))" "NumTombstones m = length (filter is_tomb (TheTable m))"
    "NumItems m + NumTombstones m < 2 ^ k" "4 * NumItems m \<le> 3 * 2 ^ k"
    using sm_okE [OF assms] by metis
  note D = slots_okD [OF k(3)]
  let ?hs = "map2 (\<lambda>s h. case s of Entry k v \<Rightarrow> h | _ \<Rightarrow> 0) (TheTable m) (HashTable m)"
  have ok: "slots_ok rh (2 ^ k) (TheTable m) ?hs"
    by (rule slots_ok_same_keys [OF k(3) D(1) _ _ _ refl]) (use D(1,2) in auto)
  have "(2 :: nat) ^ k AND (2 ^ k - 1) = 0" unfolding nat_and_mask by simp
  then have "\<exists>m'. StringMap_copy m = Ret () m' \<and> TheTable m' = TheTable m \<and> HashTable m' = ?hs \<and> NumBuckets m' = 2 ^ k
    \<and> NumItems m' = NumItems m \<and> NumTombstones m' = NumTombstones m"
    using False k(2) by (simp add: StringMap_copy_def StringMap_init_def Let_def)
  then obtain m' where m': "StringMap_copy m = Ret () m'" "TheTable m' = TheTable m" "HashTable m' = ?hs" "NumBuckets m' = 2 ^ k"
    "NumItems m' = NumItems m" "NumTombstones m' = NumTombstones m" by blast
  have "sm_ok rh m'" unfolding sm_ok_def using ok k(1,4-7) m' by (intro disjI2 exI [of _ k]) simp
  then show ?thesis using m'(1,2) by (simp add: sm_map_def)
qed

section \<open>What a client may rely on\<close>

text \<open>
  A store of values under strings: \<open>view s\<close> is the map it stands for, \<open>entry_at s i\<close> what an
  iterator points to, \<open>roomy s\<close> that one more entry fits.
\<close>

locale string_store =
  fixes ok :: "'s \<Rightarrow> bool" and roomy :: "'s \<Rightarrow> bool" and view :: "'s \<Rightarrow> bytes \<Rightarrow> 'v option"
    and entry_at :: "'s \<Rightarrow> nat \<Rightarrow> (bytes \<times> 'v) option"
    and emplace :: "bytes \<Rightarrow> 'v \<Rightarrow> 's \<Rightarrow> (nat \<times> bool, 's) exi option"
    and assign :: "nat \<Rightarrow> 'v \<Rightarrow> 's \<Rightarrow> 's"
  assumes emplace_law: "ok s \<Longrightarrow> view s key \<noteq> None \<or> roomy s \<Longrightarrow> \<exists>b s'. emplace key v s = Some (Ret (b, view s key = None) s') \<and> ok s'
      \<and> view s' = (if view s key = None then (view s)(key \<mapsto> v) else view s)
      \<and> entry_at s' b = Some (key, the (view s' key))"
    and assign_law: "ok s \<Longrightarrow> entry_at s b = Some (key, w) \<Longrightarrow> ok (assign b v s) \<and> view (assign b v s) = (view s)(key \<mapsto> v)"
begin

lemma emplace_assign:
  assumes "ok s" "roomy s"
  shows "\<exists>b s'. emplace key v s = Some (Ret (b, view s key = None) s') \<and> ok (assign b w s')
    \<and> view (assign b w s') = (view s)(key \<mapsto> w)"
proof -
  obtain b s' where e: "emplace key v s = Some (Ret (b, view s key = None) s')" "ok s'"
    "view s' = (if view s key = None then (view s)(key \<mapsto> v) else view s)" "entry_at s' b = Some (key, the (view s' key))"
    using emplace_law [OF assms(1) disjI2 [OF assms(2)]] by blast
  show ?thesis using e assign_law [OF e(2,4), of w] by (cases "view s key = None") auto
qed

text \<open>A key that is there keeps its value, whatever is offered.\<close>

lemma emplace_known:
  assumes "ok s" "view s key = Some w"
  shows "\<exists>b s'. emplace key v s = Some (Ret (b, False) s') \<and> ok s' \<and> view s' = view s \<and> entry_at s' b = Some (key, w)"
  using emplace_law [OF assms(1), of key v] assms(2) by auto

end

definition sm_roomy :: "'v StringMap \<Rightarrow> bool" where
  "sm_roomy m \<longleftrightarrow> NumBuckets m \<le> 2 ^ 30"

definition sm_entry :: "'v StringMap \<Rightarrow> nat \<Rightarrow> (bytes \<times> 'v) option" where
  "sm_entry m b = (if b < NumBuckets m then (case TheTable m ! b of Entry k v \<Rightarrow> Some (k, v) | _ \<Rightarrow> None) else None)"

interpretation sm: string_store "sm_ok rh" sm_roomy sm_map sm_entry "StringMap_insert rh" StringMap_setValue
  for rh
proof (unfold_locales, goal_cases)
  case (1 m key v)
  then show ?case using StringMap_insert_run [of rh m key v] by (fastforce simp: sm_roomy_def sm_entry_def)
next
  case (2 m b key w v)
  then show ?case using StringMap_setValue_run [of rh m b key w v] by (auto simp: sm_entry_def split: if_splits slot.splits)
qed

text \<open>Property C21. The string table is a map. From any state the operations leave, with at most \<open>2^30\<close> buckets:
  inserting a key returns, says whether the key was new, keeps an existing entry and otherwise adds the
  new one, also when the table is rehashed, and points to the entry; looking a key up returns its
  entry or the end; erasing returns whether the key was there and removes it; clearing and copying
  do what they say. No assertion fails, and the invariant is kept.\<close>

theorem StringMap_refines_map:
  assumes "sm_ok rh m" "NumBuckets m \<le> 2 ^ 30"
  shows "(\<exists>b m'. StringMap_insert rh key v m = Some (Ret (b, sm_map m key = None) m') \<and> sm_ok rh m'
      \<and> sm_map m' = (if sm_map m key = None then (sm_map m)(key \<mapsto> v) else sm_map m)
      \<and> sm_entry m' b = Some (key, the (sm_map m' key)))
    \<and> (\<exists>i. StringMap_find rh key m = Some i \<and> map_option (sm_entry m) i = map_option (\<lambda>w. Some (key, w)) (sm_map m key))
    \<and> (\<exists>m'. StringMap_erase rh key m = Some (Ret (sm_map m key \<noteq> None) m') \<and> sm_ok rh m' \<and> sm_map m' = (sm_map m)(key := None))
    \<and> (sm_ok rh (StringMap_clear m) \<and> sm_map (StringMap_clear m) = Map.empty)
    \<and> (\<exists>m'. StringMap_copy m = Ret () m' \<and> sm_ok rh m' \<and> sm_map m' = sm_map m)"
proof (intro conjI)
  show "\<exists>b m'. StringMap_insert rh key v m = Some (Ret (b, sm_map m key = None) m') \<and> sm_ok rh m'
      \<and> sm_map m' = (if sm_map m key = None then (sm_map m)(key \<mapsto> v) else sm_map m)
      \<and> sm_entry m' b = Some (key, the (sm_map m' key))"
    using sm.emplace_law [OF assms(1)] assms(2) by (simp add: sm_roomy_def)
  show "\<exists>i. StringMap_find rh key m = Some i \<and> map_option (sm_entry m) i = map_option (\<lambda>w. Some (key, w)) (sm_map m key)"
  proof (cases "sm_map m key")
    case None
    then show ?thesis using StringMap_find_run [OF assms(1), of key] by (intro exI [of _ None]) simp
  next
    case (Some w)
    then obtain b where "b < NumBuckets m" "StringMap_find rh key m = Some (Some b)" "TheTable m ! b = Entry key w"
      using StringMap_find_run [OF assms(1), of key] by auto
    then show ?thesis using Some by (intro exI [of _ "Some b"]) (simp add: sm_entry_def)
  qed
qed (use StringMap_erase_run [OF assms(1)] StringMap_clear_run [OF assms(1)] StringMap_copy_run [OF assms(1)] in blast)+

theorem StringMap_refines_map_witness:
  "\<exists>b m. StringMap_insert (\<lambda>_. 7) [97] (1 :: nat) StringMap_empty = Some (Ret (b, True) m) \<and> sm_map m [97] = Some 1"
  using StringMap_refines_map [OF sm_ok_empty(1), of "\<lambda>_. 7" "[97]" "1 :: nat"] by (auto simp: sm_ok_empty)

section \<open>Probing visits every bucket\<close>

definition probe_step :: "nat \<Rightarrow> nat \<times> nat \<Rightarrow> nat \<times> nat" where
  "probe_step n = (\<lambda>(b, p). (next_bucket n b p, (p + 1) mod 2 ^ 32))"

lemma probe_steps:
  assumes "k \<le> 31" "j \<le> 2 ^ k"
  shows "(probe_step (2 ^ k) ^^ j) (first_bucket (2 ^ k) h, 1) = (probe (2 ^ k) (unat h) j, Suc j)"
  using assms(2)
proof (induction j)
  case (Suc j)
  have "(2 :: nat) ^ k \<le> 2 ^ 31" using power_increasing [OF assms(1), of "2 :: nat"] by simp
  then have "(Suc j + 1) mod 2 ^ 32 = Suc (Suc j)" using Suc.prems by simp
  then show ?case using Suc next_bucket_probe [of k "unat h" j] assms(1) by (simp add: probe_step_def)
qed (simp add: first_bucket_probe)

text \<open>The probe of the string table reaches every bucket: from the first bucket of any hash, the
  steps of the loop visit, in as many rounds as the table has buckets, each bucket exactly once. So a
  search ends whenever one bucket is empty.\<close>

theorem probing_complete:
  assumes "k \<le> 31"
  shows "(\<lambda>j. fst ((probe_step (2 ^ k) ^^ j) (first_bucket (2 ^ k) h, 1))) ` {..<2 ^ k} = {..<2 ^ k}
    \<and> inj_on (\<lambda>j. fst ((probe_step (2 ^ k) ^^ j) (first_bucket (2 ^ k) h, 1))) {..<2 ^ k}"
proof -
  have "fst ((probe_step (2 ^ k) ^^ j) (first_bucket (2 ^ k) h, 1)) = probe (2 ^ k) (unat h) j" if "j < 2 ^ k" for j
    using probe_steps [OF assms, of j h] that by simp
  then have e: "(\<lambda>j. fst ((probe_step (2 ^ k) ^^ j) (first_bucket (2 ^ k) h, 1))) ` {..<2 ^ k} = probe (2 ^ k) (unat h) ` {..<2 ^ k}"
    by (intro image_cong) simp_all
  have "b \<in> probe (2 ^ k) (unat h) ` {..<2 ^ k}" if "b < 2 ^ k" for b
    using probe_surj [OF that, of "unat h"] by blast
  then have i: "probe (2 ^ k) (unat h) ` {..<2 ^ k} = {..<2 ^ k}" by (auto simp: probe_def)
  then show ?thesis unfolding e by (metis (no_types, lifting) card_lessThan e eq_card_imp_inj_on finite_lessThan)
qed

theorem probing_complete_witness:
  "(\<lambda>j. fst ((probe_step 4 ^^ j) (first_bucket 4 7, 1))) ` {..<4} = {..<4}"
  using probing_complete [of 2 7] by simp

section \<open>Reserving\<close>

text \<open>\<open>m\<close> shifts done: a bit is set when one of the \<open>m\<close> bits from there on was.\<close>

definition smeared :: "nat \<Rightarrow> 64 word \<Rightarrow> 64 word \<Rightarrow> bool" where
  "smeared m a b \<longleftrightarrow> (\<forall>i. bit b i \<longleftrightarrow> (\<exists>j<m. bit a (i + j)))"

lemma smeared_double: "smeared m a b \<Longrightarrow> smeared (m + m) a (b OR drop_bit m b)"
  unfolding smeared_def
proof (intro allI)
  fix i assume b: "\<forall>i. bit b i \<longleftrightarrow> (\<exists>j<m. bit a (i + j))"
  have "bit (b OR drop_bit m b) i \<longleftrightarrow> (\<exists>j<m. bit a (i + j)) \<or> (\<exists>j<m. bit a (m + i + j))"
    using b by (simp add: bit_simps)
  also have "\<dots> \<longleftrightarrow> (\<exists>j<m + m. bit a (i + j))"
  proof
    assume "(\<exists>j<m. bit a (i + j)) \<or> (\<exists>j<m. bit a (m + i + j))"
    then show "\<exists>j<m + m. bit a (i + j)"
    proof
      assume "\<exists>j<m. bit a (i + j)"
      then show ?thesis using trans_less_add1 by blast
    next
      assume "\<exists>j<m. bit a (m + i + j)"
      then obtain j where "j < m" "bit a (m + i + j)" by blast
      then have "m + j < m + m \<and> bit a (i + (m + j))" by (simp add: ac_simps)
      then show ?thesis by blast
    qed
  next
    assume "\<exists>j<m + m. bit a (i + j)"
    then obtain j where j: "j < m + m" "bit a (i + j)" by blast
    show "(\<exists>j<m. bit a (i + j)) \<or> (\<exists>j<m. bit a (m + i + j))"
    proof (cases "j < m")
      case False
      then have "j - m < m \<and> bit a (m + i + (j - m))" using j by (simp add: add.commute)
      then show ?thesis by blast
    qed (use j in blast)
  qed
  finally show "bit (b OR drop_bit m b) i \<longleftrightarrow> (\<exists>j<m + m. bit a (i + j))" .
qed

lemma smeared_bit_length:
  assumes "smeared 64 a b"
  shows "b = mask (bit_length (unat a))"
proof (rule bit_word_eqI)
  fix i assume "i < LENGTH(64)"
  have "bit b i \<longleftrightarrow> (\<exists>j<64. bit a (i + j))" using assms by (simp add: smeared_def)
  also have "\<dots> \<longleftrightarrow> drop_bit i (unat a) \<noteq> 0"
  proof -
    have "drop_bit i (unat a) \<noteq> 0 \<longleftrightarrow> (\<exists>j. bit a (i + j))" by (auto simp: bit_eq_iff bit_simps)
    also have "\<dots> \<longleftrightarrow> (\<exists>j<64. bit a (i + j))"
    proof -
      have "j < 64" if "bit a (i + j)" for j using bit_imp_le_length [OF that] by simp
      then show ?thesis by blast
    qed
    finally show ?thesis by simp
  qed
  also have "\<dots> \<longleftrightarrow> \<not> unat a < 2 ^ i" by (simp add: drop_bit_eq_div div_eq_0_iff)
  also have "\<dots> \<longleftrightarrow> i < bit_length (unat a)" using bit_length_le_iff [of "unat a" i] by auto
  finally show "bit b i = bit (mask (bit_length (unat a)) :: 64 word) i" using \<open>i < LENGTH(64)\<close> by (simp add: bit_simps)
qed

lemma NextPowerOf2_eq:
  assumes "unat a < 2 ^ 63"
  shows "unat (NextPowerOf2 a) = 2 ^ bit_length (unat a)"
proof -
  let ?L = "bit_length (unat a)"
  have L: "?L \<le> 63" using assms by (simp add: bit_length_le_iff)
  have "smeared 1 a a" by (simp add: smeared_def)
  then obtain b where b: "smeared 64 a b" "NextPowerOf2 a = b + 1"
    unfolding NextPowerOf2_def Let_def using smeared_double [of _ a] by (metis numeral_Bit0 one_add_one)
  have "NextPowerOf2 a = 2 ^ ?L" unfolding b(2) smeared_bit_length [OF b(1)] mask_eq_exp_minus_1 by simp
  also have "\<dots> = of_nat (2 ^ ?L)" by simp
  also have "unat \<dots> = 2 ^ ?L"
    unfolding unat_of_nat by (rule mod_less) (use power_increasing [OF L, of "2 :: nat"] in simp)
  finally show ?thesis .
qed

text \<open>A string map made for \<open>n\<close> entries holds them without growing: the table has a power of two of
  buckets, more than a third above \<open>n\<close>, and while no entry was removed and at most \<open>n\<close> are there,
  an insertion does not rehash it. Forty-eight entries get 128 buckets, not 401 as a comment has it.\<close>

theorem StringMap_reserves:
  assumes "0 < n" "n < 2 ^ 29"
  shows "\<exists>m k. StringMap_new n = Ret () (m :: 'v StringMap) \<and> sm_ok rh m \<and> sm_map m = Map.empty
    \<and> NumBuckets m = 2 ^ k \<and> 4 * n < 3 * NumBuckets m
    \<and> (\<forall>x b. NumBuckets x = NumBuckets m \<longrightarrow> NumTombstones x = 0 \<longrightarrow> NumItems x \<le> n \<longrightarrow> RehashTable b (x :: 'v StringMap) = Some (b, x))"
proof -
  define e where "e = n * 4 div 3 + 1"
  define k where "k = bit_length e"
  have e: "0 < e" "e < 2 ^ 30" "4 * n < 3 * e" using assms by (auto simp: e_def)
  have k: "k \<le> 30" "e < 2 ^ k" using e(2) bit_length_le_iff [of e 30] bit_length_le_iff [of e k] by (simp_all add: k_def)
  have N: "(2 :: nat) ^ k \<le> 2 ^ 30" using power_increasing [OF k(1), of "2 :: nat"] by simp
  have "unat (of_nat e :: 64 word) = e" using e(2) by (simp add: unat_of_nat)
  then have "getMinBucketToReserveForEntries n = 2 ^ k"
    using assms NextPowerOf2_eq [of "of_nat e"] e(2) N by (simp add: getMinBucketToReserveForEntries_def e_def k_def)
  moreover have "(2 :: nat) ^ k AND (2 ^ k - 1) = 0" unfolding nat_and_mask by simp
  ultimately have "\<exists>m. StringMap_new n = Ret () (m :: 'v StringMap) \<and> TheTable m = createTable (2 ^ k) \<and> HashTable m = getHashTable (2 ^ k)
      \<and> NumBuckets m = 2 ^ k \<and> NumItems m = 0 \<and> NumTombstones m = 0"
    using assms(1) by (simp add: StringMap_new_def StringMap_init_def Let_def)
  then obtain m :: "'v StringMap" where m: "StringMap_new n = Ret () m" "TheTable m = createTable (2 ^ k)" "HashTable m = getHashTable (2 ^ k)"
    "NumBuckets m = 2 ^ k" "NumItems m = 0" "NumTombstones m = 0" by blast
  have "sm_ok rh m"
    unfolding sm_ok_def using m slots_ok_empty [of rh "2 ^ k"] k(1)
    by (intro disjI2 exI [of _ k]) (simp add: createTable_def)
  moreover have "sm_map m = Map.empty" by (simp add: sm_map_def m(2) slot_entries_def createTable_def)
  moreover have "RehashTable b x = Some (b, x)"
    if "NumBuckets x = 2 ^ k" "NumTombstones x = 0" "NumItems x \<le> n" for b and x :: "'v StringMap"
  proof -
    have "(2 ^ 32 + 2 ^ k - NumItems x) mod 2 ^ 32 = 2 ^ k - NumItems x"
    proof -
      have "2 ^ 32 + 2 ^ k - NumItems x = (2 ^ k - NumItems x) + 2 ^ 32" using that e k(2) by simp
      then show ?thesis using N by (simp only: mod_add_self2) simp
    qed
    moreover have "\<not> 2 ^ k - NumItems x \<le> 2 ^ k div 8" using that(3) e(1,3) k(2) by linarith
    ultimately show ?thesis using that N e(3) k(2) by (simp add: RehashTable_def Let_def)
  qed
  ultimately show ?thesis using m(1,4) e(3) k(2) by (intro exI [of _ m] exI [of _ k]) auto
qed

theorem StringMap_reserves_witness:
  "\<exists>m. StringMap_new 48 = Ret () (m :: nat StringMap) \<and> NumBuckets m = 128"
proof -
  have "bit_length 65 = 7" by (simp add: bit_length.simps)
  then have "getMinBucketToReserveForEntries 48 = 128"
    using NextPowerOf2_eq [of 65] by (simp add: getMinBucketToReserveForEntries_def)
  then show ?thesis
    using StringMap_reserves [of 48 "\<lambda>_. 0", where 'v = nat] by (auto simp: StringMap_new_def StringMap_init_def Let_def)
qed

end
