(* ===== verification/StrRef.thy ===== *)
theory StrRef
  imports Prelude
begin

text \<open>
  Searching in strings (\<open>lib/core/Common/StrRef.cpp\<close>): the first occurrence of a string, by a scan or, for
  longer texts, by the Horspool table of skips kept in bytes; its variants. A string is the list of its
  bytes, a position of \<open>npos\<close> is \<open>None\<close>. The loop that skips is a partial function; that it returns is part
  of what is proved.
\<close>

section \<open>Characters\<close>

definition isDigit :: "8 word \<Rightarrow> bool" where
  "isDigit c \<longleftrightarrow> 48 \<le> c \<and> c \<le> 57"

definition toLower :: "8 word \<Rightarrow> 8 word" where
  "toLower c = (if 65 \<le> c \<and> c \<le> 90 then c - 65 + 97 else c)"

section \<open>Searching\<close>

definition memchr :: "bytes \<Rightarrow> 8 word \<Rightarrow> nat \<Rightarrow> nat option" where
  "memchr s c from = (let k = length (takeWhile (\<lambda>x. x \<noteq> c) (drop from s)) in
     if from + k < length s then Some (from + k) else None)"

text \<open>\<open>memcmp\<close> of \<open>n\<close> bytes at a position, compared with zero.\<close>

definition same_at :: "nat \<Rightarrow> bytes \<Rightarrow> nat \<Rightarrow> bytes \<Rightarrow> bool" where
  "same_at n s i needle \<longleftrightarrow> take n (drop i s) = take n needle"

function scan_loop :: "bytes \<Rightarrow> bytes \<Rightarrow> nat \<Rightarrow> nat \<Rightarrow> nat option" where
  "scan_loop s needle start stop =
    (if same_at (length needle) s start needle then Some start
     else if Suc start < stop then scan_loop s needle (Suc start) stop else None)"
  by auto
termination by (relation "measure (\<lambda>(s, needle, start, stop). stop - start)") auto

declare scan_loop.simps [simp del]

definition BadCharSkip :: "bytes \<Rightarrow> u8 list" where
  "BadCharSkip needle = (let n = length needle in
     foldl (\<lambda>t i. t[unat (needle ! i) := word_of_nat (n - 1 - i)]) (replicate 256 (word_of_nat n)) [0..<n - 1])"

partial_function (option) skip_loop :: "bytes \<Rightarrow> bytes \<Rightarrow> nat \<Rightarrow> nat \<Rightarrow> (nat option) option" where
  "skip_loop s needle start stop =
    (if s ! (start + length needle - 1) = needle ! (length needle - 1) \<and> same_at (length needle - 1) s start needle
     then Some (Some start)
     else if start + unat (BadCharSkip needle ! unat (s ! (start + length needle - 1))) < stop
       then skip_loop s needle (start + unat (BadCharSkip needle ! unat (s ! (start + length needle - 1)))) stop
       else Some None)"

definition StrRef_find :: "bytes \<Rightarrow> bytes \<Rightarrow> nat \<Rightarrow> (nat option) option" where
  "StrRef_find s needle from =
    (if length s < from then Some None
     else let size = length s - from; n = length needle in
       if n = 0 then Some (Some from)
       else if size < n then Some None
       else if n = 1 then Some (memchr s (needle ! 0) from)
       else let stop = from + (size - n + 1) in
         if n = 2 then Some (scan_loop s needle from stop)
         else if size < 16 \<or> 255 < n then Some (scan_loop s needle from stop)
         else skip_loop s needle from stop)"

text \<open>The number of occurrences that do not overlap.\<close>

partial_function (option) count_loop :: "bytes \<Rightarrow> bytes \<Rightarrow> nat \<Rightarrow> nat \<Rightarrow> nat option" where
  "count_loop s needle pos n = Option.bind (StrRef_find s needle pos) (\<lambda>r.
     case r of None \<Rightarrow> Some n | Some p \<Rightarrow> count_loop s needle (p + length needle) (n + 1))"

definition StrRef_count :: "bytes \<Rightarrow> bytes \<Rightarrow> nat option" where
  "StrRef_count s needle = (if needle = [] then Some 0 else count_loop s needle 0 0)"

text \<open>Without regard to case.\<close>

primrec AsciiStrncasecmp :: "nat \<Rightarrow> bytes \<Rightarrow> bytes \<Rightarrow> int" where
  "AsciiStrncasecmp 0 l r = 0"
| "AsciiStrncasecmp (Suc n) l r = (if toLower (hd l) \<noteq> toLower (hd r)
     then (if toLower (hd l) < toLower (hd r) then - 1 else 1)
     else AsciiStrncasecmp n (tl l) (tl r))"

definition compare_insensitive :: "bytes \<Rightarrow> bytes \<Rightarrow> int" where
  "compare_insensitive l r = (let res = AsciiStrncasecmp (min (length l) (length r)) l r in
     if res \<noteq> 0 then res else if length l = length r then 0 else if length l < length r then - 1 else 1)"

definition starts_with_insensitive :: "bytes \<Rightarrow> bytes \<Rightarrow> bool" where
  "starts_with_insensitive s p \<longleftrightarrow> length p \<le> length s \<and> AsciiStrncasecmp (length p) s p = 0"

definition ends_with_insensitive :: "bytes \<Rightarrow> bytes \<Rightarrow> bool" where
  "ends_with_insensitive s p \<longleftrightarrow> length p \<le> length s \<and> AsciiStrncasecmp (length p) (drop (length s - length p) s) p = 0"

text \<open>The loop drops a first character only of a string that is not empty, since every string starts
  with the empty one.\<close>

function find_insensitive_loop :: "bytes \<Rightarrow> bytes \<Rightarrow> nat \<Rightarrow> nat option" where
  "find_insensitive_loop this needle from =
    (if length needle \<le> length this then
       (if starts_with_insensitive this needle then Some from
        else if this = [] then None else find_insensitive_loop (tl this) needle (from + 1))
     else None)"
  by auto
termination by (relation "measure (\<lambda>(this, needle, from). length this)") auto

declare find_insensitive_loop.simps [simp del]

definition StrRef_find_insensitive :: "bytes \<Rightarrow> bytes \<Rightarrow> nat \<Rightarrow> nat option" where
  "StrRef_find_insensitive s needle from = find_insensitive_loop (drop from s) needle from"

section \<open>The first occurrence\<close>

definition occurs :: "bytes \<Rightarrow> bytes \<Rightarrow> nat \<Rightarrow> bool" where
  "occurs s needle i \<longleftrightarrow> i + length needle \<le> length s \<and> take (length needle) (drop i s) = needle"

definition first_occurrence :: "bytes \<Rightarrow> bytes \<Rightarrow> nat \<Rightarrow> nat option" where
  "first_occurrence s needle from = List.find (occurs s needle) [from..<Suc (length s)]"


lemma find_upt:
  assumes "a \<le> b" "\<And>i. a \<le> i \<Longrightarrow> i < b \<Longrightarrow> \<not> P i"
  shows "List.find P [a..<n] = List.find P [b..<n]"
  using assms
proof (induction "b - a" arbitrary: a)
  case (Suc k)
  then have "a < b" "\<not> P a" by simp_all
  moreover have "List.find P [Suc a..<n] = List.find P [b..<n]" using Suc by (intro Suc.hyps) auto
  ultimately show ?case by (cases "a < n") (simp_all add: upt_conv_Cons)
qed simp

lemma find_none: "(\<And>i. i < n \<Longrightarrow> a \<le> i \<Longrightarrow> \<not> P i) \<Longrightarrow> List.find P [a..<n] = None"
  by (auto simp: find_None_iff)

lemma find_here: "P a \<Longrightarrow> a < n \<Longrightarrow> List.find P [a..<n] = Some a"
  by (simp add: upt_conv_Cons)

lemma occurs_same: "i + length needle \<le> length s \<Longrightarrow> occurs s needle i = same_at (length needle) s i needle"
  by (simp add: occurs_def same_at_def)

lemma occurs_nth: "occurs s needle i \<Longrightarrow> j < length needle \<Longrightarrow> s ! (i + j) = needle ! j"
  by (metis add_leD1 nth_drop nth_take occurs_def)

lemma same_at_nth:
  assumes "i + n \<le> length s" "n \<le> length needle"
  shows "same_at n s i needle \<longleftrightarrow> (\<forall>j < n. s ! (i + j) = needle ! j)"
  using assms by (auto simp: same_at_def list_eq_iff_nth_eq)

lemma scan_loop_first:
  assumes "start < stop" "stop + length needle = length s + 1"
  shows "scan_loop s needle start stop = first_occurrence s needle start"
  using assms
proof (induction s needle start stop rule: scan_loop.induct)
  case (1 s needle start stop)
  have o: "occurs s needle start = same_at (length needle) s start needle" by (rule occurs_same) (use 1 in simp)
  show ?case
  proof (cases "same_at (length needle) s start needle")
    case True
    then show ?thesis using o 1(3) find_here [of "occurs s needle" start "Suc (length s)"] 1(2)
      by (simp add: scan_loop.simps [of s needle start] first_occurrence_def)
  next
    case False
    have "first_occurrence s needle start = first_occurrence s needle (Suc start)"
      unfolding first_occurrence_def by (rule find_upt) (use o False in \<open>auto simp: less_Suc_eq_le dest: le_antisym\<close>)
    moreover have "first_occurrence s needle (Suc start) = None" if "\<not> Suc start < stop"
      unfolding first_occurrence_def by (rule find_none) (use that 1(3) in \<open>auto simp: occurs_def\<close>)
    ultimately show ?thesis using 1(1) [OF False] 1(3) False by (simp add: scan_loop.simps [of s needle start])
  qed
qed


section \<open>The skips\<close>

text \<open>The entry of a character: at most the length, never zero, and no skip jumps over a place of the
  character before the last one of the needle.\<close>

definition safe_skip :: "bytes \<Rightarrow> nat \<Rightarrow> 8 word \<Rightarrow> nat \<Rightarrow> bool" where
  "safe_skip needle m c k \<longleftrightarrow> 0 < k \<and> k \<le> length needle
     \<and> (\<forall>i < m. needle ! i = c \<longrightarrow> k \<le> length needle - 1 - i)"

lemma BadCharSkip_safe:
  assumes "2 \<le> length needle" "length needle \<le> 255"
  shows "safe_skip needle (length needle - 1) c (unat (BadCharSkip needle ! unat c))"
proof -
  let ?n = "length needle"
  let ?t = "\<lambda>m. foldl (\<lambda>t i. t[unat (needle ! i) := word_of_nat (?n - 1 - i)]) (replicate 256 (word_of_nat ?n)) [0..<m] :: u8 list"
  have u: "unat (word_of_nat k :: 8 word) = k" if "k \<le> 255" for k using that by (simp add: unsigned_of_nat take_bit_nat_eq_self)
  have c: "unat c < 256" for c :: "8 word" using unsigned_less [of c] by simp
  have "length (?t m) = 256 \<and> safe_skip needle m c (unat (?t m ! unat c))" if "m \<le> ?n - 1" for m
    using that
  proof (induction m)
    case 0
    show ?case using assms c [of c] by (auto simp: safe_skip_def u)
  next
    case (Suc m)
    then have IH: "length (?t m) = 256" "safe_skip needle m c (unat (?t m ! unat c))" by simp_all
    show ?case
    proof (cases "needle ! m = c")
      case True
      have "unat (?t (Suc m) ! unat c) = ?n - 1 - m" using True IH(1) c [of c] assms by (simp add: u)
      then show ?thesis using IH(1) Suc.prems by (auto simp: safe_skip_def)
    next
      case False
      then have "?t (Suc m) ! unat c = ?t m ! unat c" by (simp add: word_unat_eq_iff)
      then show ?thesis using IH False by (auto simp: safe_skip_def less_Suc_eq)
    qed
  qed
  then show ?thesis by (simp add: BadCharSkip_def Let_def)
qed

lemma skip_loop_first:
  assumes "2 \<le> length needle" "length needle \<le> 255" "start < stop" "stop + length needle = length s + 1"
  shows "skip_loop s needle start stop = Some (first_occurrence s needle start)"
  using assms(3)
proof (induction "stop - start" arbitrary: start rule: less_induct)
  case less
  let ?n = "length needle" and ?last = "s ! (start + length needle - 1)"
  let ?k = "unat (BadCharSkip needle ! unat ?last)"
  have safe: "safe_skip needle (?n - 1) ?last ?k" by (rule BadCharSkip_safe [OF assms(1,2)])
  have l: "start + ?n \<le> length s" using less.prems assms(4) by simp
  have o: "occurs s needle start \<longleftrightarrow> ?last = needle ! (?n - 1) \<and> same_at (?n - 1) s start needle"
  proof -
    obtain m where m: "?n = Suc m" using assms(1) by (cases ?n) auto
    have "(\<forall>j < Suc m. s ! (start + j) = needle ! j) \<longleftrightarrow> s ! (start + m) = needle ! m \<and> (\<forall>j < m. s ! (start + j) = needle ! j)"
      by (simp add: All_less_Suc)
    then show ?thesis using l m by (simp add: occurs_same same_at_nth)
  qed
  show ?case
  proof (cases "occurs s needle start")
    case True
    then have "first_occurrence s needle start = Some start" using l find_here [of "occurs s needle" start "Suc (length s)"] by (simp add: first_occurrence_def)
    then show ?thesis using True o by (simp add: skip_loop.simps [of s needle start])
  next
    case False
    have no: "\<not> occurs s needle i" if "start \<le> i" "i < start + ?k" for i
    proof
      assume i: "occurs s needle i"
      then have "start < i" using that False by (cases "i = start") auto
      define d where "d = i - start"
      then have d: "i = start + d" "0 < d" "d < ?k" using that \<open>start < i\<close> by simp_all
      then have "d \<le> ?n - 1" using safe by (auto simp: safe_skip_def)
      then have "needle ! (?n - 1 - d) = s ! (i + (?n - 1 - d))" using occurs_nth [OF i, of "?n - 1 - d"] assms(1) by simp
      also have "i + (?n - 1 - d) = start + ?n - 1" using d(1) \<open>d \<le> ?n - 1\<close> assms(1) by simp
      finally have "needle ! (?n - 1 - d) = ?last" .
      moreover have "?n - 1 - d < ?n - 1" using d(2) assms(1) by simp
      ultimately have "?k \<le> ?n - 1 - (?n - 1 - d)" using safe unfolding safe_skip_def by blast
      then show False using d(3) \<open>d \<le> ?n - 1\<close> by simp
    qed
    have pos: "0 < ?k" using safe by (simp add: safe_skip_def)
    have "first_occurrence s needle start = first_occurrence s needle (start + ?k)"
      unfolding first_occurrence_def by (rule find_upt) (use no in auto)
    moreover have "first_occurrence s needle (start + ?k) = None" if "\<not> start + ?k < stop"
      unfolding first_occurrence_def by (rule find_none) (use that assms(4) in \<open>auto simp: occurs_def\<close>)
    moreover have "skip_loop s needle (start + ?k) stop = Some (first_occurrence s needle (start + ?k))" if "start + ?k < stop"
      by (rule less.hyps) (use that pos less.prems in auto)
    moreover have "\<not> (?last = needle ! (?n - 1) \<and> same_at (?n - 1) s start needle)" using False o by simp
    then have "skip_loop s needle start stop = (if start + ?k < stop then skip_loop s needle (start + ?k) stop else Some None)"
      by (subst skip_loop.simps) (rule if_not_P)
    ultimately show ?thesis by simp
  qed
qed


lemma memchr_first:
  assumes "from \<le> length s"
  shows "memchr s c from = first_occurrence s [c] from"
proof -
  let ?k = "length (takeWhile (\<lambda>x. x \<noteq> c) (drop from s))"
  have no: "\<not> occurs s [c] i" if "from \<le> i" "i < from + ?k" for i
  proof
    assume "occurs s [c] i"
    then have "s ! i = c" "i < length s" using occurs_nth [of s "[c]" i 0] by (auto simp: occurs_def)
    have "takeWhile (\<lambda>x. x \<noteq> c) (drop from s) ! (i - from) \<in> set (takeWhile (\<lambda>x. x \<noteq> c) (drop from s))"
      using that by (intro nth_mem) simp
    then have "takeWhile (\<lambda>x. x \<noteq> c) (drop from s) ! (i - from) \<noteq> c" by (auto dest: set_takeWhileD)
    then have "drop from s ! (i - from) \<noteq> c" using that by (simp add: takeWhile_nth)
    then show False using that \<open>s ! i = c\<close> assms by simp
  qed
  have "first_occurrence s [c] from = first_occurrence s [c] (from + ?k)"
    unfolding first_occurrence_def by (rule find_upt) (use no in auto)
  also have "\<dots> = memchr s c from"
  proof (cases "from + ?k < length s")
    case True
    then have "drop from s ! ?k = c" using nth_length_takeWhile [of "\<lambda>x. x \<noteq> c" "drop from s"] by simp
    then have "s ! (from + ?k) = c" using assms by simp
    then have "occurs s [c] (from + ?k)" using True by (simp add: occurs_same same_at_nth)
    then show ?thesis using True find_here [of "occurs s [c]" "from + ?k" "Suc (length s)"] by (simp add: memchr_def first_occurrence_def)
  next
    case False
    then show ?thesis using find_none [of "Suc (length s)" "from + ?k" "occurs s [c]"] by (simp add: memchr_def first_occurrence_def occurs_def)
  qed
  finally show ?thesis by simp
qed

lemma StrRef_find_first: "StrRef_find s needle from = Some (first_occurrence s needle from)"
proof (cases "length s < from \<or> needle = []")
  case True
  then show ?thesis
    using find_here [of "occurs s needle" "from" "Suc (length s)"]
    by (auto simp: StrRef_find_def first_occurrence_def occurs_def find_none)
next
  case False
  have long: "first_occurrence s needle from = None" if "length s - from < length needle"
    unfolding first_occurrence_def by (rule find_none) (use that in \<open>auto simp: occurs_def\<close>)
  have one: "first_occurrence s needle from = memchr s (needle ! 0) from" if "length needle = 1"
    using that False memchr_first [of "from" s "needle ! 0"] by (cases needle) auto
  let ?stop = "from + (length s - from - length needle + 1)"
  have "scan_loop s needle from ?stop = first_occurrence s needle from" if "length needle \<le> length s - from"
    by (rule scan_loop_first) (use that False in auto)
  moreover have "skip_loop s needle from ?stop = Some (first_occurrence s needle from)"
    if "length needle \<le> length s - from" "2 \<le> length needle" "length needle \<le> 255"
    by (rule skip_loop_first) (use that False in auto)
  moreover have "2 \<le> length needle" if "length needle \<noteq> 1" using False that by (cases needle) (auto simp: Suc_le_eq)
  ultimately show ?thesis using False long one by (auto simp: StrRef_find_def Let_def not_less)
qed


text \<open>Property C36. Searching a string returns, for every text, needle and start, and finds the first occurrence
  at or behind the start, or reports that there is none; whether it compares bytes, pairs or whole
  strings, or jumps by the table of skips.\<close>

theorem StrRef_find_correct:
  "\<exists>r. StrRef_find s needle from = Some r
    \<and> (case r of
        Some i \<Rightarrow> from \<le> i \<and> occurs s needle i \<and> (\<forall>j. from \<le> j \<and> j < i \<longrightarrow> \<not> occurs s needle j)
      | None \<Rightarrow> \<forall>j. from \<le> j \<longrightarrow> \<not> occurs s needle j)"
proof (cases "first_occurrence s needle from")
  case None
  then have "\<forall>j. from \<le> j \<and> j \<le> length s \<longrightarrow> \<not> occurs s needle j"
    by (auto simp: first_occurrence_def find_None_iff simp del: upt_Suc)
  then show ?thesis using None StrRef_find_first by (auto simp: occurs_def)
next
  case (Some i)
  then obtain k where k: "k < Suc (length s) - from" "occurs s needle (from + k)" "i = from + k"
    "\<forall>j < k. \<not> occurs s needle (from + j)"
    by (auto simp: first_occurrence_def find_Some_iff simp del: upt_Suc)
  then have "\<not> occurs s needle j" if "from \<le> j" "j < i" for j
    using that by (metis add_less_cancel_left le_Suc_ex)
  then show ?thesis using k Some StrRef_find_first by auto
qed

theorem StrRef_find_correct_witness:
  "\<exists>i. StrRef_find (map of_char ''the needle in the haystack'') (map of_char ''hay'') 2 = Some (Some i)
    \<and> i \<le> 18 \<and> occurs (map of_char ''the needle in the haystack'') (map of_char ''hay'') i"
proof -
  let ?s = "map of_char ''the needle in the haystack'' :: bytes" and ?n = "map of_char ''hay'' :: bytes"
  have "occurs ?s ?n 18" by code_simp
  then have "\<not> (\<forall>j. 2 \<le> j \<longrightarrow> \<not> occurs ?s ?n j)" and "\<not> 18 < i \<or> \<not> (\<forall>j. 2 \<le> j \<and> j < i \<longrightarrow> \<not> occurs ?s ?n j)" for i
    by (auto intro: exI [of _ 18])
  then show ?thesis using StrRef_find_correct [of ?s ?n 2] by (fastforce split: option.splits)
qed

lemma count_loop_returns:
  assumes "needle \<noteq> []"
  shows "\<exists>m. count_loop s needle pos n = Some m \<and> (m - n) * length needle \<le> length s - pos \<and> n \<le> m"
proof (induction "Suc (length s) - pos" arbitrary: pos n rule: less_induct)
  case less
  show ?case
  proof (cases "first_occurrence s needle pos")
    case None
    then show ?thesis by (simp add: count_loop.simps [of s needle pos n] StrRef_find_first)
  next
    case (Some p)
    then have p: "pos \<le> p" "p + length needle \<le> length s"
      by (auto simp: first_occurrence_def find_Some_iff occurs_def simp del: upt_Suc)
    moreover have "0 < length needle" using assms by simp
    ultimately have "\<exists>m. count_loop s needle (p + length needle) (n + 1) = Some m
        \<and> (m - (n + 1)) * length needle \<le> length s - (p + length needle) \<and> n + 1 \<le> m"
      by (intro less) linarith
    then obtain m where m: "count_loop s needle (p + length needle) (n + 1) = Some m"
      "(m - (n + 1)) * length needle \<le> length s - (p + length needle)" "n + 1 \<le> m" by blast
    then have "m - n = Suc (m - (n + 1))" by simp
    then have "(m - n) * length needle \<le> length s - pos" using m(2) p by simp
    then show ?thesis using Some m by (auto simp: count_loop.simps [of s needle pos n] StrRef_find_first)
  qed
qed

text \<open>Counting ends, and no two of the occurrences it counts overlap: they fit into the string.\<close>

lemma StrRef_count_returns: "\<exists>m. StrRef_count s needle = Some m \<and> m * length needle \<le> length s"
  using count_loop_returns [of needle s 0 0] by (auto simp: StrRef_count_def)

section \<open>Without regard to case\<close>

lemma AsciiStrncasecmp_zero:
  assumes "n \<le> length l" "n \<le> length r"
  shows "AsciiStrncasecmp n l r = 0 \<longleftrightarrow> map toLower (take n l) = map toLower (take n r)"
  using assms
proof (induction n arbitrary: l r)
  case (Suc n)
  then obtain a l' b r' where "l = a # l'" "r = b # r'" by (cases l; cases r) auto
  then show ?case using Suc by auto
qed simp

lemma compare_insensitive_zero: "compare_insensitive l r = 0 \<longleftrightarrow> map toLower l = map toLower r"
proof (cases "length l = length r")
  case True
  then show ?thesis using AsciiStrncasecmp_zero [of "length l" l r] by (simp add: compare_insensitive_def Let_def)
next
  case False
  then have "map toLower l \<noteq> map toLower r" by (metis length_map)
  then show ?thesis using False by (simp add: compare_insensitive_def Let_def)
qed

lemma find_insensitive_first:
  "find_insensitive_loop (drop i s) needle i
    = (if i \<le> length s then first_occurrence (map toLower s) (map toLower needle) i else if needle = [] then Some i else None)"
proof (induction "length s - i" arbitrary: i)
  case 0
  then have "drop i s = []" by simp
  then show ?case using 0
    by (auto simp: find_insensitive_loop.simps [of "[]"] starts_with_insensitive_def first_occurrence_def occurs_def)
next
  case (Suc k)
  then have i: "i < length s" by simp
  have st: "starts_with_insensitive (drop i s) needle \<longleftrightarrow> occurs (map toLower s) (map toLower needle) i"
    using i AsciiStrncasecmp_zero [of "length needle" "drop i s" needle]
    by (auto simp: starts_with_insensitive_def occurs_def take_map drop_map)
  have "find_insensitive_loop (drop (Suc i) s) needle (Suc i) = first_occurrence (map toLower s) (map toLower needle) (Suc i)"
    using Suc.hyps(1) [of "Suc i"] Suc.hyps(2) i by simp
  moreover have "first_occurrence (map toLower s) (map toLower needle) i
      = (if occurs (map toLower s) (map toLower needle) i then Some i else first_occurrence (map toLower s) (map toLower needle) (Suc i))"
    using i by (simp add: first_occurrence_def upt_conv_Cons del: upt_Suc)
  moreover have "first_occurrence (map toLower s) (map toLower needle) (Suc i) = None" if "\<not> length needle \<le> length s - i"
    unfolding first_occurrence_def by (rule find_none) (use that i in \<open>auto simp: occurs_def\<close>)
  ultimately show ?case using i st
    by (auto simp: find_insensitive_loop.simps [of "drop i s"] drop_Suc tl_drop occurs_def)
qed

lemma StrRef_find_insensitive_correct:
  "from \<le> length s \<Longrightarrow> StrRef_find_insensitive s needle from = first_occurrence (map toLower s) (map toLower needle) from"
  using find_insensitive_first [of "from" s needle] by (simp add: StrRef_find_insensitive_def)

end
