(* ===== verification/XMLManager.thy ===== *)
theory XMLManager
  imports StringMap StringTables StrRef
begin

text \<open>
  XML files and their cache (\<open>lib/exi/Basic/XMLManager.cpp\<close>, \<open>lib/exi/Basic/XMLContainer.cpp\<close>,
  \<open>classifyXMLKind\<close> of \<open>lib/exi/Basic/XML.cpp\<close>): a manager keeps a container for every path it was
  asked for in a \<open>StringMap\<close>; a container holds the file's buffer and its parsed document. Reading a
  file, the XML parser and the path functions are parameters. A container is an index into the
  manager's allocations. Logging is left out.
\<close>

section \<open>Kinds of files\<close>

datatype XMLKind = XmlDocument | ExiDocument | XsdExiSchema | XsdXmlSchema | DTDSchema | UnknownSchema | UnknownKind

definition Classify :: "bytes \<Rightarrow> bool \<Rightarrow> XMLKind" where
  "Classify ext hint =
    (if ends_with_insensitive ext (str ''xml'') then XmlDocument
     else if ends_with_insensitive ext (str ''exi'') then (if hint then XsdExiSchema else ExiDocument)
     else if ends_with_insensitive ext (str ''xsd'') then XsdXmlSchema
     else if ends_with_insensitive ext (str ''dtd'') then DTDSchema
     else if hint then UnknownSchema else UnknownKind)"

section \<open>Containers\<close>

text \<open>What the code relies on: a file is an error code, or a buffer that may be null; parsing may change the
  buffer, leaves a document, and may fail with a message at a position of the buffer.\<close>

record 'd xml_env =
  env_file :: "bytes \<Rightarrow> bool \<Rightarrow> nat + bytes option"
  env_parse :: "bool \<Rightarrow> bool \<Rightarrow> bytes \<Rightarrow> (bytes \<times> nat option) option \<times> 'd \<times> bytes"
  env_doc :: 'd
  env_absolute :: "bytes \<Rightarrow> bool"
  env_relative :: "bytes \<Rightarrow> bytes"

text \<open>An error names the container, when it has an entry, with a message or the code of the system.\<close>

datatype XMLError =
    XMLMessage "bytes option" bytes
  | XMLSystem "bytes option" nat
  | XMLInvalidFile bytes

record 'd XMLContainer =
  TheDocument :: 'd
  TheBuffer :: "bytes option"
  ME :: "bytes option"
  DocKind :: XMLKind
  xc_Parsed :: bool
  xc_Immutable :: bool
  xc_Strict :: bool

record XMLOptions =
  opt_Immutable :: bool
  opt_Strict :: bool

type_synonym ('d, 'a) xc = "'d XMLContainer \<Rightarrow> (XMLError, 'a, 'd XMLContainer) outcome"

definition XMLContainer_setOptions :: "XMLOptions option \<Rightarrow> ('d, unit) xc" where
  "XMLContainer_setOptions opts = thenM (assertM (\<lambda>c. \<not> xc_Parsed c))
    (modM (\<lambda>c. case opts of None \<Rightarrow> c
       | Some q \<Rightarrow> if xc_Parsed c then c else c\<lparr>xc_Immutable := opt_Immutable q, xc_Strict := opt_Strict q\<rparr>))"

definition XMLContainer_new :: "'d xml_env \<Rightarrow> XMLOptions option \<Rightarrow> (XMLError, unit, 'd XMLContainer) outcome" where
  "XMLContainer_new env opts = XMLContainer_setOptions opts
    \<lparr>TheDocument = env_doc env, TheBuffer = None, ME = None, DocKind = UnknownKind,
     xc_Parsed = False, xc_Immutable = False, xc_Strict = False\<rparr>"

definition isXMLKind :: "'d XMLContainer \<Rightarrow> bool" where
  "isXMLKind c \<longleftrightarrow> DocKind c \<noteq> XsdExiSchema \<and> DocKind c \<noteq> UnknownKind"

definition isSchema :: "'d XMLContainer \<Rightarrow> bool" where
  "isSchema c \<longleftrightarrow> DocKind c \<noteq> XmlDocument \<and> DocKind c \<noteq> UnknownKind"

definition XMLContainer_setKind :: "XMLKind option \<Rightarrow> 'd XMLContainer \<Rightarrow> 'd XMLContainer" where
  "XMLContainer_setKind kind c = (case kind of
      Some k \<Rightarrow> c\<lparr>DocKind := k\<rparr>
    | None \<Rightarrow> c\<lparr>DocKind := (case ME c of Some key \<Rightarrow> Classify key False | None \<Rightarrow> UnknownKind)\<rparr>)"

text \<open>A map entry is a key with the container it leads to; \<open>self\<close> is the container itself.\<close>

definition XMLContainer_setEntry :: "nat \<Rightarrow> bytes \<times> nat option \<Rightarrow> XMLKind option \<Rightarrow> 'd XMLContainer \<Rightarrow> 'd XMLContainer" where
  "XMLContainer_setEntry self entry kind c =
    (if xc_Parsed c then c
     else if snd entry = Some self then XMLContainer_setKind kind (c\<lparr>ME := Some (fst entry)\<rparr>)
     else c)"

definition makeError :: "'d xml_env \<Rightarrow> bytes \<Rightarrow> 'd XMLContainer \<Rightarrow> XMLError" where
  "makeError env msg c = XMLMessage (map_option (env_relative env) (ME c)) msg"

definition makeErrorCode :: "'d xml_env \<Rightarrow> nat \<Rightarrow> 'd XMLContainer \<Rightarrow> XMLError" where
  "makeErrorCode env ec c = XMLSystem (map_option (env_relative env) (ME c)) ec"

section \<open>Loading\<close>

definition loadBuffer :: "'d xml_env \<Rightarrow> bool \<Rightarrow> ('d, unit) xc" where
  "loadBuffer env volatile c =
    (if xc_Parsed c then Err (makeError env (str ''loadBuffer() called on parsed entry!'') c) c
     else case ME c of
       None \<Rightarrow> Err (makeError env (str ''MapEntry was not provided!'') c) c
     | Some key \<Rightarrow>
         if TheBuffer c = None \<or> volatile then (case env_file env key volatile of
             Inl ec \<Rightarrow> Err (makeErrorCode env ec c) c
           | Inr None \<Rightarrow> (let c = c\<lparr>TheBuffer := None\<rparr> in
               Err (makeError env (str ''loadBuffer() returned a null buffer!'') c) c)
           | Inr (Some b) \<Rightarrow> Ret () (c\<lparr>TheBuffer := Some b\<rparr>))
         else Ret () c)"

definition loadBufferEntry :: "'d xml_env \<Rightarrow> nat \<Rightarrow> bytes \<times> nat option \<Rightarrow> bool \<Rightarrow> ('d, unit) xc" where
  "loadBufferEntry env self entry volatile = thenM (modM (XMLContainer_setEntry self entry None)) (loadBuffer env volatile)"

section \<open>Parsing\<close>

definition ParseWithQuals :: "'d xml_env \<Rightarrow> bool \<Rightarrow> bool \<Rightarrow> bytes
    \<Rightarrow> ((bytes \<times> nat option) option \<times> 'd \<times> bytes) option" where
  "ParseWithQuals env immutable strict b = (if b \<noteq> [] then Some (env_parse env immutable strict b) else None)"

definition rsplit :: "8 word \<Rightarrow> bytes \<Rightarrow> bytes \<times> bytes" where
  "rsplit sep s = (if sep \<in> set s
     then (rev (tl (dropWhile (\<lambda>c. c \<noteq> sep) (rev s))), rev (takeWhile (\<lambda>c. c \<noteq> sep) (rev s)))
     else (s, []))"

text \<open>The message of a parse error: the line it is in, and a mark below.\<close>

definition FormatParseError :: "bytes \<Rightarrow> bytes \<Rightarrow> nat option \<Rightarrow> ('d, bytes) xc" where
  "FormatParseError b what pos c = (case pos of
      None \<Rightarrow> Ret what c
    | Some off0 \<Rightarrow>
        (let bom = take 3 (take off0 b) = [0xEF, 0xBB, 0xBF];
             s = (if bom then drop 3 (take off0 b) else take off0 b);
             off = (if bom then off0 - 3 else off0);
             (front0, data0) = rsplit 10 s;
             (front, data) = (if data0 = [] then ([], front0) else (front0, data0))
         in if length front < off
            then (let line_off = off - length front;
                      full = drop ((if bom then 3 else 0) + (if data0 = [] then 0 else length front0 + 1)) b;
                      line = take (min 80 (length data + length (takeWhile (\<lambda>c. c \<noteq> 13 \<and> c \<noteq> 10) (drop (length data) full)))) full
                  in Ret ([10] @ str ''  At character '' @ str (dec_string off) @ str '', '' @ [34] @ what @ [34, 10] @ str ''  '' @ [39] @ line
                       @ [39, 10] @ str ''  '' @ replicate (line_off - 1) 32 @ str ''^'') c)
            else Fault AssertFail))"

definition XMLContainer_parse :: "'d xml_env \<Rightarrow> ('d, unit) xc" where
  "XMLContainer_parse env c =
    (if xc_Parsed c then Ret () c
     else case TheBuffer c of
       None \<Rightarrow> Err (makeError env (str ''Buffer was not loaded!'') c) c
     | Some b \<Rightarrow>
         if \<not> isXMLKind c then Err (makeError env (str ''Not an xml file!'') c) c
         else (case ParseWithQuals env (xc_Immutable c) (xc_Strict c) b of
             None \<Rightarrow> Fault AssertFail
           | Some (e, d, b') \<Rightarrow>
               (let c = c\<lparr>TheDocument := d, TheBuffer := Some b'\<rparr> in
                case e of
                  None \<Rightarrow> Ret () (c\<lparr>xc_Parsed := True\<rparr>)
                | Some (what, pos) \<Rightarrow> (case FormatParseError b' what pos c of
                    Ret msg c \<Rightarrow> Err (makeError env msg c) c
                  | Err e c \<Rightarrow> Err e c | Fault f \<Rightarrow> Fault f))))"

definition loadAndParse :: "'d xml_env \<Rightarrow> nat \<Rightarrow> bytes \<times> nat option \<Rightarrow> bool \<Rightarrow> ('d, unit) xc" where
  "loadAndParse env self entry volatile =
    thenM (modM (XMLContainer_setEntry self entry None))
      (\<lambda>c. (if TheBuffer c = None \<or> volatile then thenM (loadBuffer env volatile) (XMLContainer_parse env)
            else XMLContainer_parse env) c)"

section \<open>The manager\<close>

record 'd XMLManager =
  DefaultOpts :: "XMLOptions option"
  FilesAlloc :: "'d XMLContainer list"
  SeenFiles :: "nat option StringMap"

type_synonym ('d, 'a) xm = "'d XMLManager \<Rightarrow> (XMLError, 'a, 'd XMLManager) outcome option"

definition XMLManager_new :: "XMLOptions option \<Rightarrow> 'd XMLManager option" where
  "XMLManager_new opts = (case StringMap_new 4 of
      Ret _ m \<Rightarrow> Some \<lparr>DefaultOpts = opts, FilesAlloc = [], SeenFiles = m\<rparr> | _ \<Rightarrow> None)"

text \<open>Calling a container.\<close>

definition containerM :: "nat \<Rightarrow> ('d, 'a) xc \<Rightarrow> 'd XMLManager \<Rightarrow> (XMLError, 'a, 'd XMLManager) outcome" where
  "containerM i m g = (if i < length (FilesAlloc g)
     then map_state (\<lambda>c. g\<lparr>FilesAlloc := (FilesAlloc g)[i := c]\<rparr>) (m (FilesAlloc g ! i))
     else Fault Undefined)"

definition getXMLRefImpl :: "hash_fn \<Rightarrow> 'd xml_env \<Rightarrow> bytes \<Rightarrow> bool \<Rightarrow> ('d, nat) xm" where
  "getXMLRefImpl rh env path volatile g =
    (if \<not> env_absolute env path then Some (Fault InvariantFail)
     else case StringMap_insert rh path None (SeenFiles g) of
       None \<Rightarrow> None
     | Some (Fault f) \<Rightarrow> Some (Fault f)
     | Some (Err e m) \<Rightarrow> Some (Fault Undefined)
     | Some (Ret (b, fresh) m) \<Rightarrow>
         (let g = g\<lparr>SeenFiles := m\<rparr>;
              entry = the (slot_value (TheTable m ! b)) in
          if \<not> fresh then Some (case entry of None \<Rightarrow> Err (XMLInvalidFile path) g | Some i \<Rightarrow> Ret i g)
          else if entry \<noteq> None then Some (Fault AssertFail)
          else Some (case XMLContainer_new env (DefaultOpts g) of
              Fault f \<Rightarrow> Fault f | Err e c \<Rightarrow> Err e g
            | Ret _ c \<Rightarrow>
                (let i = length (FilesAlloc g);
                     g = g\<lparr>FilesAlloc := FilesAlloc g @ [c], SeenFiles := StringMap_setValue b (Some i) (SeenFiles g)\<rparr> in
                 thenM (containerM i (loadBufferEntry env i (path, Some i) volatile)) (retM i) g))))"

text \<open>The path is made absolute by the caller's file system first.\<close>

definition getXMLRef :: "hash_fn \<Rightarrow> 'd xml_env \<Rightarrow> (bytes \<Rightarrow> bytes) \<Rightarrow> bytes \<Rightarrow> bool \<Rightarrow> ('d, nat) xm" where
  "getXMLRef rh env make_absolute path = getXMLRefImpl rh env (make_absolute path)"

definition getOptXMLRef :: "hash_fn \<Rightarrow> 'd xml_env \<Rightarrow> (bytes \<Rightarrow> bytes) \<Rightarrow> bytes \<Rightarrow> bool \<Rightarrow> ('d, nat option) xm" where
  "getOptXMLRef rh env make_absolute path volatile g = map_option (\<lambda>r. case r of
      Ret i g \<Rightarrow> Ret (Some i) g | Err e g \<Rightarrow> Ret None g | Fault f \<Rightarrow> Fault f)
    (getXMLRef rh env make_absolute path volatile g)"

definition getXMLDocument :: "hash_fn \<Rightarrow> 'd xml_env \<Rightarrow> (bytes \<Rightarrow> bytes) \<Rightarrow> bytes \<Rightarrow> bool \<Rightarrow> ('d, nat) xm" where
  "getXMLDocument rh env make_absolute path volatile g = map_option (\<lambda>r. case r of
      Ret i g \<Rightarrow> thenM (containerM i (XMLContainer_parse env)) (retM i) g
    | Err e g \<Rightarrow> Err e g | Fault f \<Rightarrow> Fault f) (getXMLRef rh env make_absolute path volatile g)"

text \<open>\<open>expectedToOptional\<close> drops the error.\<close>

definition getOptXMLDocument :: "hash_fn \<Rightarrow> 'd xml_env \<Rightarrow> (bytes \<Rightarrow> bytes) \<Rightarrow> bytes \<Rightarrow> bool \<Rightarrow> ('d, nat option) xm" where
  "getOptXMLDocument rh env make_absolute path volatile g = map_option (\<lambda>r. case r of
      Ret i g \<Rightarrow> Ret (Some i) g | Err e g \<Rightarrow> Ret None g | Fault f \<Rightarrow> Fault f)
    (getXMLDocument rh env make_absolute path volatile g)"

section \<open>Requests\<close>

text \<open>The map of the manager leads to containers it allocated.\<close>

definition mgr_ok :: "hash_fn \<Rightarrow> 'd XMLManager \<Rightarrow> bool" where
  "mgr_ok rh g \<longleftrightarrow> sm_ok rh (SeenFiles g) \<and> (\<forall>path i. sm_map (SeenFiles g) path = Some (Some i) \<longrightarrow> i < length (FilesAlloc g))"

lemma entry_slot: "sm_entry m b = Some (key, v) \<Longrightarrow> TheTable m ! b = Entry key v"
  by (auto simp: sm_entry_def split: if_splits slot.splits)

lemma containerM_run:
  "i < length (FilesAlloc g) \<Longrightarrow> containerM i m g = map_state (\<lambda>c. g\<lparr>FilesAlloc := (FilesAlloc g)[i := c]\<rparr>) (m (FilesAlloc g ! i))"
  by (simp add: containerM_def)

text \<open>A path that was asked for before.\<close>

lemma request_known:
  assumes "mgr_ok rh g" "env_absolute env path" "sm_map (SeenFiles g) path = Some (Some i)"
  shows "\<exists>g'. getXMLRefImpl rh env path volatile g = Some (Ret i g') \<and> mgr_ok rh g' \<and> FilesAlloc g' = FilesAlloc g
    \<and> sm_map (SeenFiles g') = sm_map (SeenFiles g)"
proof -
  have ok: "sm_ok rh (SeenFiles g)" using assms(1) by (simp add: mgr_ok_def)
  obtain b m where b: "StringMap_insert rh path None (SeenFiles g) = Some (Ret (b, False) m)" "sm_ok rh m"
    "sm_map m = sm_map (SeenFiles g)" "sm_entry m b = Some (path, Some i)"
    using sm.emplace_known [OF ok assms(3)] by blast
  have "getXMLRefImpl rh env path volatile g = Some (Ret i (g\<lparr>SeenFiles := m\<rparr>))"
    using assms(2) b(1) entry_slot [OF b(4)] by (simp add: getXMLRefImpl_def Let_def)
  then show ?thesis using assms(1) b(2,3) by (simp add: mgr_ok_def)
qed

text \<open>A new container, with the entry it gets.\<close>

definition fresh_container :: "'d xml_env \<Rightarrow> XMLOptions option \<Rightarrow> bytes \<Rightarrow> 'd XMLContainer" where
  "fresh_container env opts path =
    \<lparr>TheDocument = env_doc env, TheBuffer = None, ME = Some path, DocKind = Classify path False, xc_Parsed = False,
     xc_Immutable = (case opts of None \<Rightarrow> False | Some q \<Rightarrow> opt_Immutable q),
     xc_Strict = (case opts of None \<Rightarrow> False | Some q \<Rightarrow> opt_Strict q)\<rparr>"

lemma fresh_load:
  assumes "XMLContainer_new env opts = Ret () c"
  shows "loadBufferEntry env i (path, Some i) volatile c = loadBuffer env volatile (fresh_container env opts path)"
  using assms
  by (cases opts) (auto simp: XMLContainer_new_def XMLContainer_setOptions_def loadBufferEntry_def XMLContainer_setEntry_def
      XMLContainer_setKind_def fresh_container_def)

lemma request_new:
  assumes "mgr_ok rh g" "NumBuckets (SeenFiles g) \<le> 2 ^ 30" "env_absolute env path" "sm_map (SeenFiles g) path = None"
  defines "i \<equiv> length (FilesAlloc g)" and "c0 \<equiv> fresh_container env (DefaultOpts g) path"
  shows "\<exists>m. sm_ok rh m \<and> sm_map m = (sm_map (SeenFiles g))(path \<mapsto> Some i)
    \<and> getXMLRefImpl rh env path volatile g = Some (case loadBuffer env volatile c0 of
        Ret _ c \<Rightarrow> Ret i (g\<lparr>FilesAlloc := FilesAlloc g @ [c], SeenFiles := m\<rparr>)
      | Err e c \<Rightarrow> Err e (g\<lparr>FilesAlloc := FilesAlloc g @ [c], SeenFiles := m\<rparr>)
      | Fault f \<Rightarrow> Fault f)"
proof -
  have ok: "sm_ok rh (SeenFiles g)" using assms(1) by (simp add: mgr_ok_def)
  obtain b m where b: "StringMap_insert rh path None (SeenFiles g) = Some (Ret (b, True) m)" "sm_ok rh m"
    "sm_map m = (sm_map (SeenFiles g))(path \<mapsto> None)" "sm_entry m b = Some (path, None)"
    using sm.emplace_law [OF ok, of path None] assms(2,4) by (auto simp: sm_roomy_def)
  let ?m = "StringMap_setValue b (Some i) m"
  have m: "sm_ok rh ?m" "sm_map ?m = (sm_map (SeenFiles g))(path \<mapsto> Some i)"
    using sm.assign_law [OF b(2,4), of "Some i"] b(3) by simp_all
  obtain c where c: "XMLContainer_new env (DefaultOpts g) = Ret () c"
    by (cases "DefaultOpts g") (auto simp: XMLContainer_new_def XMLContainer_setOptions_def)
  have "getXMLRefImpl rh env path volatile g = Some (thenM (containerM i (loadBufferEntry env i (path, Some i) volatile)) (retM i)
      (g\<lparr>FilesAlloc := FilesAlloc g @ [c], SeenFiles := ?m\<rparr>))"
    using assms(3) b(1) entry_slot [OF b(4)] c by (simp add: getXMLRefImpl_def Let_def i_def)
  also have "\<dots> = Some (case loadBuffer env volatile c0 of
        Ret _ c \<Rightarrow> Ret i (g\<lparr>FilesAlloc := FilesAlloc g @ [c], SeenFiles := ?m\<rparr>)
      | Err e c \<Rightarrow> Err e (g\<lparr>FilesAlloc := FilesAlloc g @ [c], SeenFiles := ?m\<rparr>)
      | Fault f \<Rightarrow> Fault f)"
    using fresh_load [OF c, of i path volatile]
    by (cases "loadBuffer env volatile c0") (simp_all add: containerM_run i_def c0_def)
  finally show ?thesis using m by blast
qed

text \<open>Property C22. A file that cannot be read is reported once. The container of the failed request stays in the
  map, so every later request for the path succeeds, with a container that has no buffer, even if the
  file can be read by then; the document asked for instead is an error about the missing buffer.\<close>

theorem failed_file_is_cached:
  assumes "mgr_ok rh g" "NumBuckets (SeenFiles g) \<le> 2 ^ 30" "env_absolute env path" "sm_map (SeenFiles g) path = None"
    and "env_file env path volatile = Inl ec" "env_absolute env' path"
  shows "\<exists>g1 g2. getXMLRefImpl rh env path volatile g = Some (Err (XMLSystem (Some (env_relative env path)) ec) g1)
    \<and> getXMLRefImpl rh env' path volatile' g1 = Some (Ret (length (FilesAlloc g)) g2)
    \<and> TheBuffer (FilesAlloc g2 ! length (FilesAlloc g)) = None
    \<and> getXMLDocument rh env' id path volatile' g1
      = Some (Err (XMLMessage (Some (env_relative env' path)) (str ''Buffer was not loaded!'')) g2)"
proof -
  let ?i = "length (FilesAlloc g)" and ?c = "fresh_container env (DefaultOpts g) path"
  have "loadBuffer env volatile ?c = Err (XMLSystem (Some (env_relative env path)) ec) ?c"
    using assms(5) by (simp add: loadBuffer_def fresh_container_def makeErrorCode_def)
  then obtain m where m: "sm_ok rh m" "sm_map m = (sm_map (SeenFiles g))(path \<mapsto> Some ?i)"
    "getXMLRefImpl rh env path volatile g = Some (Err (XMLSystem (Some (env_relative env path)) ec)
      (g\<lparr>FilesAlloc := FilesAlloc g @ [?c], SeenFiles := m\<rparr>))"
    using request_new [OF assms(1-4), of volatile] by auto
  let ?g = "g\<lparr>FilesAlloc := FilesAlloc g @ [?c], SeenFiles := m\<rparr>"
  have "mgr_ok rh ?g" using assms(1) m(1,2) by (auto simp: mgr_ok_def less_Suc_eq)
  then obtain g2 where g2: "getXMLRefImpl rh env' path volatile' ?g = Some (Ret ?i g2)" "FilesAlloc g2 = FilesAlloc g @ [?c]"
    using request_known [of rh ?g env' path ?i volatile'] assms(6) m(2) by auto
  have "XMLContainer_parse env' ?c = Err (XMLMessage (Some (env_relative env' path)) (str ''Buffer was not loaded!'')) ?c"
    by (simp add: XMLContainer_parse_def fresh_container_def makeError_def)
  then have "getXMLDocument rh env' id path volatile' ?g
      = Some (Err (XMLMessage (Some (env_relative env' path)) (str ''Buffer was not loaded!'')) (g2\<lparr>FilesAlloc := FilesAlloc g2\<rparr>))"
    using g2 by (simp add: getXMLDocument_def getXMLRef_def containerM_run list_update_append)
  then show ?thesis using m(3) g2 by (auto simp: fresh_container_def)
qed

definition example_env :: "nat + bytes option \<Rightarrow> nat xml_env" where
  "example_env file = \<lparr>env_file = (\<lambda>_ _. file), env_parse = (\<lambda>_ _ b. if hd b = 60 then (None, length b, b) else (Some ([33], Some 0), 0, b)),
     env_doc = 0, env_absolute = (\<lambda>_. True), env_relative = id\<rparr>"

definition example_manager :: "nat XMLManager" where
  "example_manager = \<lparr>DefaultOpts = None, FilesAlloc = [], SeenFiles = StringMap_empty\<rparr>"

lemma example_manager_ok: "mgr_ok rh example_manager" "NumBuckets (SeenFiles example_manager) = 0"
    "sm_map (SeenFiles example_manager) path = None" "FilesAlloc example_manager = []"
  by (simp_all add: mgr_ok_def example_manager_def sm_ok_empty)

theorem failed_file_is_cached_witness:
  "\<exists>g1 g2. getXMLRefImpl (\<lambda>_. 0) (example_env (Inl 2)) (str ''a.xml'') False example_manager = Some (Err (XMLSystem (Some (str ''a.xml'')) 2) g1)
    \<and> getXMLRefImpl (\<lambda>_. 0) (example_env (Inr (Some [60]))) (str ''a.xml'') False g1 = Some (Ret 0 g2)"
  using failed_file_is_cached [of "\<lambda>_. 0" example_manager "example_env (Inl 2)" "str ''a.xml''" False 2 "example_env (Inr (Some [60]))" False]
  by (auto simp: example_manager_ok) (auto simp: example_env_def)

section \<open>Documents\<close>

lemma document_known:
  assumes "mgr_ok rh g" "env_absolute env path" "sm_map (SeenFiles g) path = Some (Some i)" "i < length (FilesAlloc g)"
    and "xc_Parsed (FilesAlloc g ! i)"
  shows "\<exists>g'. getXMLDocument rh env id path volatile g = Some (Ret i g') \<and> mgr_ok rh g' \<and> FilesAlloc g' = FilesAlloc g"
proof -
  obtain g' where g': "getXMLRefImpl rh env path volatile g = Some (Ret i g')" "mgr_ok rh g'" "FilesAlloc g' = FilesAlloc g"
    using request_known [OF assms(1-3)] by blast
  have "getXMLDocument rh env id path volatile g = Some (Ret i g')"
    using g'(1,3) assms(4,5) by (simp add: getXMLDocument_def getXMLRef_def containerM_run XMLContainer_parse_def flip: g'(3))
  then show ?thesis using g' by blast
qed


lemma example_kind: "Classify (str ''a.exi'') False = ExiDocument"
  by (simp add: Classify_def ends_with_insensitive_def str_def of_char_def toLower_def)


section \<open>Messages of the parser\<close>

lemma rsplit_length:
  assumes "sep \<in> set s"
  shows "length s = length (fst (rsplit sep s)) + 1 + length (snd (rsplit sep s))"
proof -
  let ?t = "takeWhile (\<lambda>c. c \<noteq> sep) (rev s)" and ?d = "dropWhile (\<lambda>c. c \<noteq> sep) (rev s)"
  have "?d \<noteq> []" using assms by (auto simp: dropWhile_eq_Nil_conv)
  then have "length ?d = Suc (length (tl ?d))" by (cases ?d) simp_all
  moreover have "length s = length ?t + length ?d" by (metis length_append length_rev takeWhile_dropWhile_id)
  ultimately show ?thesis using assms by (simp add: rsplit_def)
qed

lemma FormatParseError_fault:
  assumes "off < length b"
  shows "FormatParseError b what (Some off) c = Fault AssertFail \<longleftrightarrow> off = 0 \<or> off = 3 \<and> take 3 b = [0xEF, 0xBB, 0xBF]"
proof -
  define bom where "bom \<longleftrightarrow> take 3 (take off b) = [0xEF, 0xBB, 0xBF]"
  define s where "s = (if bom then drop 3 (take off b) else take off b)"
  define x where "x = (if bom then off - 3 else off)"
  have three: "3 \<le> off" if bom
  proof -
    have "length (take 3 (take off b)) = length [0xEF, 0xBB, 0xBF :: 8 word]" using that unfolding bom_def by (rule arg_cong)
    then show ?thesis using assms by (simp add: min_def split: if_splits)
  qed
  then have bom_iff: "bom \<longleftrightarrow> 3 \<le> off \<and> take 3 b = [0xEF, 0xBB, 0xBF]" by (auto simp: bom_def min_def)
  have len: "length s = x" using assms by (auto simp: s_def x_def)
  obtain front data where r: "rsplit 10 s = (front, data)" by (cases "rsplit 10 s")
  have "FormatParseError b what (Some off) c = Fault AssertFail \<longleftrightarrow> \<not> length (if data = [] then [] else front) < x"
    unfolding FormatParseError_def option.case Let_def bom_def [symmetric] s_def [symmetric] x_def [symmetric] r prod.case
    by simp
  also have "\<dots> \<longleftrightarrow> x = 0"
  proof (cases "10 \<in> set s")
    case True
    then show ?thesis using rsplit_length [of 10 s] r len by auto
  next
    case False
    then have "data = []" using r by (simp add: rsplit_def)
    then show ?thesis by simp
  qed
  also have "\<dots> \<longleftrightarrow> off = 0 \<or> off = 3 \<and> take 3 b = [0xEF, 0xBB, 0xBF]" using bom_iff by (auto simp: x_def)
  finally show ?thesis .
qed

text \<open>An error at the very first character of a file, right behind the byte order mark if there is
  one, is not reported: formatting its message fails an assertion. Every other position inside the
  buffer gives an error with a message.\<close>

theorem first_character_error:
  assumes "\<not> xc_Parsed c" "TheBuffer c = Some b" "b \<noteq> []" "isXMLKind c"
    and "env_parse env (xc_Immutable c) (xc_Strict c) b = (Some (what, Some off), d, b')" "off < length b'"
  shows "if off = 0 \<or> off = 3 \<and> take 3 b' = [0xEF, 0xBB, 0xBF]
    then XMLContainer_parse env c = Fault AssertFail
    else \<exists>msg. XMLContainer_parse env c = Err (XMLMessage (map_option (env_relative env) (ME c)) msg)
      (c\<lparr>TheDocument := d, TheBuffer := Some b'\<rparr>)"
proof -
  let ?c = "c\<lparr>TheDocument := d, TheBuffer := Some b'\<rparr>"
  have p: "XMLContainer_parse env c = (case FormatParseError b' what (Some off) ?c of
      Ret msg c \<Rightarrow> Err (makeError env msg c) c | Err e c \<Rightarrow> Err e c | Fault f \<Rightarrow> Fault f)"
    using assms(1-5) by (simp add: XMLContainer_parse_def ParseWithQuals_def)
  have f: "FormatParseError b' what (Some off) ?c = Fault AssertFail \<or> (\<exists>msg. FormatParseError b' what (Some off) ?c = Ret msg ?c)"
    by (simp add: FormatParseError_def Let_def split: prod.splits)
  show ?thesis using p f FormatParseError_fault [OF assms(6), of what ?c] by (auto simp: makeError_def)
qed

theorem first_character_error_witness:
  "XMLContainer_parse (example_env (Inl 0)) ((fresh_container (example_env (Inl 0)) None (str ''a.exi''))\<lparr>TheBuffer := Some [97, 98]\<rparr>)
    = Fault AssertFail"
  using first_character_error [of "(fresh_container (example_env (Inl 0)) None (str ''a.exi''))\<lparr>TheBuffer := Some [97, 98]\<rparr>" "[97, 98]"
      "example_env (Inl 0)" "[33]" 0 0 "[97, 98]"]
  by (simp add: fresh_container_def isXMLKind_def example_kind) (simp add: example_env_def)

end
