(* ===== verification/XMLParser.thy ===== *)
theory XMLParser
  imports XMLStore StringTables
begin

text \<open>
  The XML parser (\<open>XMLDocument::parse\<close> of \<open>vendored/rapidxml/rapidxml.hpp\<close>), in the instances the
  program compiles (\<open>ParseWithQuals\<close> of \<open>lib/exi/Basic/XMLContainer.cpp\<close>): entities are not
  translated, whitespace is neither trimmed nor normalised, data nodes and element values are made,
  declarations are skipped. What differs between the instances is a record of flags. The parser walks
  over a buffer that ends with a zero, allocates nodes in the store of theory \<open>XMLStore\<close>, and, unless
  told not to, overwrites the character behind every string with a zero.
\<close>

section \<open>Flags\<close>

record parse_flags =
  no_string_terminators :: bool
  comment_nodes :: bool
  doctype_node :: bool
  pi_nodes :: bool
  validate_closing_tags :: bool

text \<open>Assertions are on in the build this library models, and then closing tags are validated.\<close>

definition kDefault :: parse_flags where
  "kDefault = \<lparr>no_string_terminators = False, comment_nodes = False, doctype_node = False, pi_nodes = False,
     validate_closing_tags = True\<rparr>"

definition parse_all :: "parse_flags \<Rightarrow> parse_flags" where
  "parse_all F = F\<lparr>comment_nodes := True, doctype_node := True, pi_nodes := True\<rparr>"

definition parse_non_destructive :: "parse_flags \<Rightarrow> parse_flags" where
  "parse_non_destructive F = F\<lparr>no_string_terminators := True\<rparr>"

section \<open>Classes of characters\<close>

text \<open>Characters are bytes; 60, 62, 63, 33 and 47 are those of tags and their variants (\<open><\<close>, \<open>>\<close>, \<open>?\<close>, \<open>!\<close>,
  \<open>/\<close>), 61, 34 and 39 the equals sign and the quotes, 45, 91 and 93 the dash and the brackets.\<close>

definition whitespace :: "8 word \<Rightarrow> bool" where
  "whitespace c \<longleftrightarrow> c = 9 \<or> c = 10 \<or> c = 13 \<or> c = 32"

definition node_name_char :: "8 word \<Rightarrow> bool" where
  "node_name_char c \<longleftrightarrow> \<not> whitespace c \<and> c \<noteq> 47 \<and> c \<noteq> 62 \<and> c \<noteq> 63 \<and> c \<noteq> 0"

definition text_char :: "8 word \<Rightarrow> bool" where
  "text_char c \<longleftrightarrow> c \<noteq> 60 \<and> c \<noteq> 0"

definition attribute_name_char :: "8 word \<Rightarrow> bool" where
  "attribute_name_char c \<longleftrightarrow> \<not> whitespace c \<and> c \<noteq> 47 \<and> c \<noteq> 60 \<and> c \<noteq> 62 \<and> c \<noteq> 61 \<and> c \<noteq> 63 \<and> c \<noteq> 33 \<and> c \<noteq> 0"

definition attribute_value_char :: "8 word \<Rightarrow> 8 word \<Rightarrow> bool" where
  "attribute_value_char quote c \<longleftrightarrow> c \<noteq> quote \<and> c \<noteq> 0"

section \<open>The parser's state\<close>

text \<open>The strings of nodes and attributes are views of the buffer. The state keeps the document, the
  buffer, the position, and the views handed out so far, as offset and size; a name or value in the
  document holds the characters it had when it was set.\<close>

datatype string_of = NodeName nat | NodeValue nat | AttrName nat | AttrValue nat

record xml_parser =
  xp_Doc :: XMLDocument
  xp_Buf :: bytes
  xp_Text :: nat
  xp_Strings :: "(string_of \<times> nat \<times> nat) list"

type_synonym parse_error = "bytes \<times> nat"
type_synonym 'a parse_result = "(parse_error, 'a, xml_parser) outcome"
type_synonym 'a xp = "xml_parser \<Rightarrow> 'a parse_result"

definition RAPIDXML_PARSE_ERROR :: "string \<Rightarrow> 'a xp" where
  "RAPIDXML_PARSE_ERROR what s = Err (str what, xp_Text s) s"

definition docP :: "'a xd \<Rightarrow> 'a xp" where
  "docP m s = (case m (xp_Doc s) of
      Ret a d \<Rightarrow> Ret a (s\<lparr>xp_Doc := d\<rparr>) | Err e d \<Rightarrow> Fault Unreachable | Fault f \<Rightarrow> Fault f)"

text \<open>Reading \<open>Text[k]\<close>; the end of the buffer must not be passed.\<close>

definition peekM :: "nat \<Rightarrow> 8 word xp" where
  "peekM k s = (if xp_Text s + k < length (xp_Buf s) then Ret (xp_Buf s ! (xp_Text s + k)) s else Fault Undefined)"

definition advM :: "nat \<Rightarrow> unit xp" where
  "advM k = modM (\<lambda>s. s\<lparr>xp_Text := xp_Text s + k\<rparr>)"

text \<open>Tests of one character after the other, up to the first that fails.\<close>

primrec match_at :: "(8 word \<Rightarrow> bool) list \<Rightarrow> bytes \<Rightarrow> bool option" where
  "match_at [] cs = Some True"
| "match_at (p # ps) cs = (case cs of [] \<Rightarrow> None | c # cs \<Rightarrow> if p c then match_at ps cs else Some False)"

definition lit :: "string \<Rightarrow> (8 word \<Rightarrow> bool) list" where
  "lit s = map (\<lambda>c x. x = c) (str s)"

definition matchM :: "nat \<Rightarrow> (8 word \<Rightarrow> bool) list \<Rightarrow> bool xp" where
  "matchM k ps s = (case match_at ps (drop (xp_Text s + k) (xp_Buf s)) of None \<Rightarrow> Fault Undefined | Some b \<Rightarrow> Ret b s)"

text \<open>Loops over characters: the number of steps, or \<open>None\<close> when they leave the buffer.\<close>

primrec scan :: "(8 word \<Rightarrow> bool) \<Rightarrow> bytes \<Rightarrow> nat option" where
  "scan P [] = None"
| "scan P (c # cs) = (if P c then map_option Suc (scan P cs) else Some 0)"

definition skip :: "(8 word \<Rightarrow> bool) \<Rightarrow> unit xp" where
  "skip P s = (case scan P (drop (xp_Text s) (xp_Buf s)) of None \<Rightarrow> Fault Undefined | Some n \<Rightarrow> advM n s)"

primrec find_end :: "(8 word \<Rightarrow> bool) list \<Rightarrow> bytes \<Rightarrow> (bool \<times> nat) option" where
  "find_end ps [] = None"
| "find_end ps (c # cs) = (case match_at ps (c # cs) of None \<Rightarrow> None
     | Some True \<Rightarrow> Some (True, 0)
     | Some False \<Rightarrow> if c = 0 then Some (False, 0) else map_option (apsnd Suc) (find_end ps cs))"

definition skip_until :: "string \<Rightarrow> unit xp" where
  "skip_until e s = (case find_end (lit e) (drop (xp_Text s) (xp_Buf s)) of
      None \<Rightarrow> Fault Undefined
    | Some (found, n) \<Rightarrow> thenM (advM n) (if found then retM () else RAPIDXML_PARSE_ERROR ''unexpected end of data'') s)"

text \<open>Strings of nodes and attributes, and the zero behind a string.\<close>

definition text_at :: "bytes \<Rightarrow> nat \<Rightarrow> nat \<Rightarrow> bytes" where
  "text_at b p n = take n (drop p b)"

primrec set_string :: "string_of \<Rightarrow> bytes \<Rightarrow> unit xd" where
  "set_string (NodeName c) b = setNode c (node_name b)"
| "set_string (NodeValue c) b = setNode c (node_value b)"
| "set_string (AttrName a) b = setAttr a (\<lambda>x. x\<lparr>a_name := b\<rparr>)"
| "set_string (AttrValue a) b = setAttr a (\<lambda>x. x\<lparr>a_value := b\<rparr>)"

definition give_string :: "string_of \<Rightarrow> nat \<Rightarrow> nat \<Rightarrow> unit xp" where
  "give_string t p n = thenM (\<lambda>s. docP (set_string t (text_at (xp_Buf s) p n)) s)
     (modM (\<lambda>s. s\<lparr>xp_Strings := (t, p, n) # xp_Strings s\<rparr>))"

definition terminate :: "parse_flags \<Rightarrow> nat \<Rightarrow> unit xp" where
  "terminate F p s = (if no_string_terminators F then Ret () s
     else if p < length (xp_Buf s) then Ret () (s\<lparr>xp_Buf := (xp_Buf s)[p := 0]\<rparr>) else Fault Undefined)"

section \<open>Nodes without children\<close>

definition parse_bom :: "unit xp" where
  "parse_bom = bindM (matchM 0 [\<lambda>c. c = 0xEF, \<lambda>c. c = 0xBB, \<lambda>c. c = 0xBF]) (\<lambda>b. if b then advM 3 else retM ())"

definition parse_xml_declaration :: "nat option xp" where
  "parse_xml_declaration = thenM (skip_until ''?>'') (thenM (advM 2) (retM None))"

text \<open>A node whose value is the text up to a mark of the given length.\<close>

definition parse_comment :: "parse_flags \<Rightarrow> nat option xp" where
  "parse_comment F =
    (if \<not> comment_nodes F then thenM (skip_until ''-->'') (thenM (advM 3) (retM None))
     else bindM (getM xp_Text) (\<lambda>value. thenM (skip_until ''-->'')
       (bindM (docP (allocate_node node_comment None None)) (\<lambda>comment. bindM (getM xp_Text) (\<lambda>e.
        thenM (give_string (NodeValue comment) value (e - value)) (thenM (terminate F e) (thenM (advM 3) (retM (Some comment)))))))))"

definition parse_cdata :: "parse_flags \<Rightarrow> nat option xp" where
  "parse_cdata F = bindM (getM xp_Text) (\<lambda>value. thenM (skip_until '']]>'')
     (bindM (docP (allocate_node node_cdata None None)) (\<lambda>cdata. bindM (getM xp_Text) (\<lambda>e.
      thenM (give_string (NodeValue cdata) value (e - value)) (thenM (terminate F e) (thenM (advM 3) (retM (Some cdata))))))))"

text \<open>The scan over a document type: brackets are counted, and \<open>>\<close> ends it outside of them.\<close>

fun doctype_scan :: "nat \<Rightarrow> bytes \<Rightarrow> (bool \<times> nat) option" where
  "doctype_scan d [] = None"
| "doctype_scan 0 (c # cs) = (if c = 62 then Some (True, 0) else if c = 0 then Some (False, 0)
     else map_option (apsnd Suc) (doctype_scan (if c = 91 then 1 else 0) cs))"
| "doctype_scan (Suc d) (c # cs) = (if c = 0 then Some (False, 0)
     else map_option (apsnd Suc) (doctype_scan (if c = 91 then Suc (Suc d) else if c = 93 then d else Suc d) cs))"

definition skip_doctype :: "unit xp" where
  "skip_doctype s = (case doctype_scan 0 (drop (xp_Text s) (xp_Buf s)) of
      None \<Rightarrow> Fault Undefined
    | Some (found, n) \<Rightarrow> thenM (advM n) (if found then retM () else RAPIDXML_PARSE_ERROR ''unexpected end of data'') s)"

definition parse_doctype :: "parse_flags \<Rightarrow> nat option xp" where
  "parse_doctype F = bindM (getM xp_Text) (\<lambda>value. thenM skip_doctype
     (if doctype_node F
      then bindM (docP (allocate_node node_doctype None None)) (\<lambda>doctype. bindM (getM xp_Text) (\<lambda>e.
        thenM (give_string (NodeValue doctype) value (e - value)) (thenM (terminate F e) (thenM (advM 1) (retM (Some doctype))))))
      else thenM (advM 1) (retM None)))"

definition parse_pi :: "parse_flags \<Rightarrow> nat option xp" where
  "parse_pi F =
    (if pi_nodes F
     then bindM (docP (allocate_node node_pi None None)) (\<lambda>pi. bindM (getM xp_Text) (\<lambda>name.
       thenM (skip node_name_char) (bindM (getM xp_Text) (\<lambda>name_end.
       if name_end = name then RAPIDXML_PARSE_ERROR ''expected PI target''
       else thenM (give_string (NodeName pi) name (name_end - name)) (thenM (skip whitespace) (bindM (getM xp_Text) (\<lambda>value.
         thenM (skip_until ''?>'') (bindM (getM xp_Text) (\<lambda>e. thenM (give_string (NodeValue pi) value (e - value))
         (thenM (terminate F name_end) (thenM (terminate F e) (thenM (advM 2) (retM (Some pi))))))))))))))
     else thenM (skip_until ''?>'') (thenM (advM 2) (retM None)))"

text \<open>Text: it starts where the whitespace in front of it does. The character that ends it is returned,
  since the zero may replace it. An element without text gets it as its value as well; its value is
  empty exactly when its first character is the zero of the null string.\<close>

definition parse_and_append_data :: "parse_flags \<Rightarrow> nat \<Rightarrow> nat \<Rightarrow> 8 word xp" where
  "parse_and_append_data F node contents_start =
    thenM (modM (\<lambda>s. s\<lparr>xp_Text := contents_start\<rparr>)) (thenM (skip text_char) (bindM (getM xp_Text) (\<lambda>e.
    bindM (docP (allocate_node node_data None None)) (\<lambda>data.
    thenM (give_string (NodeValue data) contents_start (e - contents_start)) (thenM (docP (append_node node data))
    (thenM (bindM (docP (nodeM node)) (\<lambda>n.
        if n_value n = [] \<or> hd (n_value n) = 0 then give_string (NodeValue node) contents_start (e - contents_start) else retM ()))
    (bindM (peekM 0) (\<lambda>c. thenM (terminate F e) (retM c)))))))))"

section \<open>Attributes\<close>

text \<open>An attribute is allocated and appended when its name is read.\<close>

definition parse_attribute :: "parse_flags \<Rightarrow> nat \<Rightarrow> unit xp" where
  "parse_attribute F node =
    bindM (getM xp_Text) (\<lambda>name. thenM (advM 1) (thenM (skip attribute_name_char) (bindM (getM xp_Text) (\<lambda>name_end.
    bindM (docP (allocate_attribute None None)) (\<lambda>a. thenM (give_string (AttrName a) name (name_end - name))
    (thenM (docP (append_attribute node a)) (thenM (skip whitespace) (bindM (peekM 0) (\<lambda>c.
    if c \<noteq> 61 then RAPIDXML_PARSE_ERROR ''expected =''
    else thenM (advM 1) (thenM (terminate F name_end) (thenM (skip whitespace) (bindM (peekM 0) (\<lambda>quote.
      if quote \<noteq> 39 \<and> quote \<noteq> 34 then RAPIDXML_PARSE_ERROR (''expected '' @ [CHR 39] @ '' or '' @ [CHR 34])
      else thenM (advM 1) (bindM (getM xp_Text) (\<lambda>value. thenM (skip (attribute_value_char quote)) (bindM (getM xp_Text) (\<lambda>e.
        thenM (give_string (AttrValue a) value (e - value)) (bindM (peekM 0) (\<lambda>c.
        if c \<noteq> quote then RAPIDXML_PARSE_ERROR (''expected '' @ [CHR 39] @ '' or '' @ [CHR 34])
        else thenM (advM 1) (thenM (terminate F e) (skip whitespace)))))))))))))))))))))"

partial_function (option) parse_node_attributes :: "parse_flags \<Rightarrow> nat \<Rightarrow> xml_parser \<Rightarrow> unit parse_result option" where
  "parse_node_attributes F node s = (case peekM 0 s of
      Ret c s \<Rightarrow> if attribute_name_char c
        then (case parse_attribute F node s of
            Ret _ s \<Rightarrow> parse_node_attributes F node s | Err e s \<Rightarrow> Some (Err e s) | Fault f \<Rightarrow> Some (Fault f))
        else Some (Ret () s)
    | Err e s \<Rightarrow> Some (Err e s) | Fault f \<Rightarrow> Some (Fault f))"

declare parse_node_attributes.simps [code]

section \<open>Elements\<close>

text \<open>Sequencing of operations that may not return.\<close>

definition liftP :: "'a xp \<Rightarrow> xml_parser \<Rightarrow> 'a parse_result option" where
  "liftP m s = Some (m s)"

definition bindP :: "(xml_parser \<Rightarrow> 'a parse_result option) \<Rightarrow> ('a \<Rightarrow> xml_parser \<Rightarrow> 'b parse_result option)
    \<Rightarrow> xml_parser \<Rightarrow> 'b parse_result option" where
  "bindP m k s = Option.bind (m s) (\<lambda>r. case r of Ret a s \<Rightarrow> k a s | Err e s \<Rightarrow> Some (Err e s) | Fault f \<Rightarrow> Some (Fault f))"

abbreviation thenP :: "(xml_parser \<Rightarrow> 'a parse_result option) \<Rightarrow> (xml_parser \<Rightarrow> 'b parse_result option)
    \<Rightarrow> xml_parser \<Rightarrow> 'b parse_result option" where
  "thenP m k \<equiv> bindP m (\<lambda>_. k)"

lemma bindP_mono [partial_function_mono]:
  assumes "\<And>s. mono_option (\<lambda>f. m f s)" "\<And>a s. mono_option (\<lambda>f. k f a s)"
  shows "mono_option (\<lambda>f. bindP (m f) (k f) s)"
  unfolding bindP_def
  by (rule bind_mono [OF assms(1)])
    (use assms(2) in \<open>auto split: outcome.split simp: monotone_def flat_ord_def fun_ord_def\<close>)

lemma branch_mono [partial_function_mono]:
  assumes "mono_option (\<lambda>f. m f s)" "mono_option (\<lambda>f. k f s)"
  shows "mono_option (\<lambda>f. (if b then m f else k f) s)"
  using assms by (cases b) simp_all

lemma case_prod_mono [partial_function_mono]:
  assumes "\<And>x y. mono_option (\<lambda>f. m f x y s)"
  shows "mono_option (\<lambda>f. (case p of (x, y) \<Rightarrow> m f x y) s)"
  using assms by (cases p) simp

text \<open>The contents of an element are parsed by the given operation.\<close>

definition parse_element :: "parse_flags \<Rightarrow> (nat \<Rightarrow> xml_parser \<Rightarrow> unit parse_result option) \<Rightarrow> xml_parser
    \<Rightarrow> nat option parse_result option" where
  "parse_element F contents =
    bindP (liftP (docP (allocate_node node_element None None))) (\<lambda>element.
    bindP (liftP (getM xp_Text)) (\<lambda>name. thenP (liftP (skip node_name_char)) (bindP (liftP (getM xp_Text)) (\<lambda>name_end.
    if name_end = name then liftP (RAPIDXML_PARSE_ERROR ''expected element name'')
    else thenP (liftP (give_string (NodeName element) name (name_end - name))) (thenP (liftP (skip whitespace))
      (thenP (parse_node_attributes F element) (bindP (liftP (peekM 0)) (\<lambda>c.
       thenP (if c = 62 then thenP (liftP (advM 1)) (contents element)
         else if c = 47 then liftP (thenM (advM 1) (bindM (peekM 0) (\<lambda>c.
           if c \<noteq> 62 then RAPIDXML_PARSE_ERROR ''expected >'' else advM 1)))
         else liftP (RAPIDXML_PARSE_ERROR ''expected >''))
       (liftP (thenM (terminate F name_end) (retM (Some element))))))))))))"

text \<open>Markup behind \<open><!\<close>: what is not recognised is skipped.\<close>

definition skip_markup :: "nat option xp" where
  "skip_markup = thenM (advM 1) (thenM (skip_until ''>'') (thenM (advM 1) (retM None)))"

definition parse_markup :: "parse_flags \<Rightarrow> nat option xp" where
  "parse_markup F = bindM (peekM 1) (\<lambda>c.
     if c = 45 then bindM (matchM 2 (lit ''-'')) (\<lambda>b. if b then thenM (advM 3) (parse_comment F) else skip_markup)
     else if c = 91 then bindM (matchM 2 (lit ''CDATA['')) (\<lambda>b. if b then thenM (advM 8) (parse_cdata F) else skip_markup)
     else if c = 68 then bindM (matchM 2 (lit ''OCTYPE'' @ [whitespace])) (\<lambda>b.
       if b then thenM (advM 9) (parse_doctype F) else skip_markup)
     else skip_markup)"

text \<open>\<open>x\<close>, \<open>m\<close> and \<open>l\<close> in either case and whitespace start a declaration.\<close>

definition xml_target :: "(8 word \<Rightarrow> bool) list" where
  "xml_target = [\<lambda>c. c = 120 \<or> c = 88, \<lambda>c. c = 109 \<or> c = 77, \<lambda>c. c = 108 \<or> c = 76, whitespace]"

definition parse_question :: "parse_flags \<Rightarrow> nat option xp" where
  "parse_question F = thenM (advM 1) (bindM (matchM 0 xml_target) (\<lambda>b.
     if b then thenM (advM 4) parse_xml_declaration else parse_pi F))"

definition parse_node :: "parse_flags \<Rightarrow> (nat \<Rightarrow> xml_parser \<Rightarrow> unit parse_result option) \<Rightarrow> xml_parser
    \<Rightarrow> nat option parse_result option" where
  "parse_node F contents = bindP (liftP (peekM 0)) (\<lambda>c.
     if c = 63 then liftP (parse_question F)
     else if c = 33 then liftP (parse_markup F)
     else parse_element F contents)"

lemma parse_element_mono [partial_function_mono]:
  assumes "\<And>n s. mono_option (\<lambda>f. m f n s)"
  shows "mono_option (\<lambda>f. parse_element F (m f) s)"
  unfolding parse_element_def by (intro partial_function_mono assms)

lemma parse_node_mono [partial_function_mono]:
  assumes "\<And>n s. mono_option (\<lambda>f. m f n s)"
  shows "mono_option (\<lambda>f. parse_node F (m f) s)"
  unfolding parse_node_def by (intro partial_function_mono assms)

text \<open>A closing tag; its name is compared exactly.\<close>

definition parse_closing :: "parse_flags \<Rightarrow> nat \<Rightarrow> unit xp" where
  "parse_closing F node = thenM (advM 2) (bindM (getM xp_Text) (\<lambda>closing_name. thenM (skip node_name_char)
     (bindM (getM xp_Text) (\<lambda>e.
      thenM (if validate_closing_tags F
        then bindM (docP (nodeM node)) (\<lambda>n. \<lambda>s.
          if n_name n = text_at (xp_Buf s) closing_name (e - closing_name) then Ret () s
          else RAPIDXML_PARSE_ERROR ''invalid closing tag name'' s)
        else retM ())
      (thenM (skip whitespace) (bindM (peekM 0) (\<lambda>c.
       if c \<noteq> 62 then RAPIDXML_PARSE_ERROR ''expected >'' else advM 1)))))))"

definition append_child :: "nat \<Rightarrow> nat option \<Rightarrow> unit xp" where
  "append_child node child = (case child of None \<Rightarrow> retM () | Some c \<Rightarrow> docP (append_node node c))"

text \<open>Behind data the loop is entered with the start of the contents and the character that ended the data.\<close>

definition next_contents :: "(nat \<times> 8 word) option \<Rightarrow> (nat \<times> 8 word) xp" where
  "next_contents next = (case next of
      Some x \<Rightarrow> retM x
    | None \<Rightarrow> bindM (getM xp_Text) (\<lambda>start. thenM (skip whitespace) (bindM (peekM 0) (\<lambda>c. retM (start, c)))))"

partial_function (option) parse_node_contents ::
  "parse_flags \<Rightarrow> nat \<times> (nat \<times> 8 word) option \<Rightarrow> xml_parser \<Rightarrow> unit parse_result option" where
  "parse_node_contents F x s = bindP (liftP (next_contents (snd x))) (\<lambda>(start, c).
     if c = 60 then bindP (liftP (peekM 1)) (\<lambda>d.
       if d = 47 then liftP (parse_closing F (fst x))
       else thenP (liftP (advM 1)) (bindP (parse_node F (\<lambda>e. parse_node_contents F (e, None))) (\<lambda>child.
         thenP (liftP (append_child (fst x) child)) (parse_node_contents F (fst x, None)))))
     else if c = 0 then liftP (RAPIDXML_PARSE_ERROR ''unexpected end of data'')
     else bindP (liftP (parse_and_append_data F (fst x) start)) (\<lambda>c. parse_node_contents F (fst x, Some (start, c)))) s"

declare parse_node_contents.simps [code]

section \<open>Documents\<close>

text \<open>The document as it is read in a state of the buffer: every view is read again.\<close>

definition reread :: "bytes \<Rightarrow> string_of \<times> nat \<times> nat \<Rightarrow> XMLDocument \<Rightarrow> XMLDocument" where
  "reread b x d = (case set_string (fst x) (text_at b (fst (snd x)) (snd (snd x))) d of Ret _ d \<Rightarrow> d | _ \<Rightarrow> d)"

definition seen :: "xml_parser \<Rightarrow> XMLDocument" where
  "seen s = foldr (reread (xp_Buf s)) (xp_Strings s) (xp_Doc s)"


partial_function (option) parse_loop :: "parse_flags \<Rightarrow> xml_parser \<Rightarrow> unit parse_result option" where
  "parse_loop F s = thenP (liftP (skip whitespace)) (bindP (liftP (peekM 0)) (\<lambda>c.
     if c = 0 then liftP (retM ())
     else if c = 60 then thenP (liftP (advM 1)) (bindP (parse_node F (\<lambda>e. parse_node_contents F (e, None))) (\<lambda>child.
       thenP (liftP (append_child 0 child)) (parse_loop F)))
     else liftP (RAPIDXML_PARSE_ERROR ''expected <''))) s"

declare parse_loop.simps [code]

definition XMLDocument_parse :: "parse_flags \<Rightarrow> xml_parser \<Rightarrow> unit parse_result option" where
  "XMLDocument_parse F = thenP (liftP (docP (remove_all_nodes 0))) (thenP (liftP (docP (remove_all_attributes 0)))
     (thenP (liftP parse_bom) (parse_loop F)))"

end
