(* ===== verification/ParserModes.thy ===== *)
theory ParserModes
  imports XMLParser
begin

text \<open>
  The parser on any text: it returns, never leaves its buffer and never breaks an assertion, and
  whether it terminates strings or not, it does the same to the document. A run that writes zeros is
  followed together with the run on the untouched text \<open>T\<close>: both are in the same state but for the
  buffer, which agrees with \<open>T\<close> from the position on and in every string handed out.
\<close>

section \<open>Scanning a text that ends with a zero\<close>

definition zero_ended :: "bytes \<Rightarrow> bool" where
  "zero_ended cs \<longleftrightarrow> cs \<noteq> [] \<and> last cs = 0"

lemma zero_ended_Cons: "zero_ended (c # cs) \<longleftrightarrow> (if cs = [] then c = 0 else zero_ended cs)"
  by (simp add: zero_ended_def)

lemma zero_ended_drop: "zero_ended T \<Longrightarrow> n < length T \<Longrightarrow> zero_ended (drop n T)"
  by (simp add: zero_ended_def)

lemma zero_ended_nth: "zero_ended T \<Longrightarrow> i < length T \<Longrightarrow> T ! i \<noteq> 0 \<Longrightarrow> Suc i < length T"
  by (metis Suc_lessI diff_Suc_1 last_conv_nth zero_ended_def)

lemma scan_total:
  assumes "zero_ended cs" "\<not> P 0"
  shows "\<exists>n. scan P cs = Some n \<and> n < length cs \<and> \<not> P (cs ! n) \<and> (\<forall>i < n. P (cs ! i))"
  using assms(1)
proof (induction cs)
  case (Cons c cs)
  show ?case
  proof (cases "P c")
    case True
    then have "zero_ended cs" using Cons.prems assms(2) by (auto simp: zero_ended_Cons split: if_splits)
    then obtain n where "scan P cs = Some n" "n < length cs" "\<not> P (cs ! n)" "\<forall>i < n. P (cs ! i)"
      using Cons.IH by auto
    then show ?thesis using True by (intro exI [of _ "Suc n"]) (auto simp: less_Suc_eq_0_disj)
  qed simp
qed (simp add: zero_ended_def)

lemma match_total:
  assumes "zero_ended cs" "\<forall>p \<in> set ps. \<not> p 0"
  shows "\<exists>b. match_at ps cs = Some b \<and> (b \<longrightarrow> length ps < length cs \<and> (\<forall>i < length ps. (ps ! i) (cs ! i)))"
  using assms
proof (induction ps arbitrary: cs)
  case Nil
  then show ?case by (intro exI [of _ True]) (simp add: zero_ended_def)
next
  case (Cons p ps)
  obtain c cs' where cs: "cs = c # cs'" using Cons.prems(1) by (cases cs) (auto simp: zero_ended_def)
  show ?case
  proof (cases "p c")
    case True
    then have "zero_ended cs'" using Cons.prems cs by (auto simp: zero_ended_Cons split: if_splits)
    then obtain b where b: "match_at ps cs' = Some b" "b \<longrightarrow> length ps < length cs' \<and> (\<forall>i < length ps. (ps ! i) (cs' ! i))"
      using Cons.IH [of cs'] Cons.prems(2) by auto
    have "\<forall>i < length (p # ps). ((p # ps) ! i) (cs ! i)" if b
      using b(2) that True cs by (simp add: All_less_Suc2)
    then show ?thesis using b True cs by (intro exI [of _ b]) simp
  qed (use cs in \<open>auto intro!: exI [of _ False]\<close>)
qed

lemma find_end_total:
  assumes "zero_ended cs" "\<forall>p \<in> set ps. \<not> p 0"
  shows "\<exists>b n. find_end ps cs = Some (b, n) \<and> n < length cs
    \<and> (b \<longrightarrow> n + length ps < length cs \<and> (\<forall>i < length ps. (ps ! i) (cs ! (n + i))))"
  using assms(1)
proof (induction cs)
  case (Cons c cs)
  obtain b where b: "match_at ps (c # cs) = Some b"
    "b \<longrightarrow> length ps < length (c # cs) \<and> (\<forall>i < length ps. (ps ! i) ((c # cs) ! i))"
    using match_total [OF Cons.prems assms(2)] by blast
  show ?case
  proof (cases "b \<or> c = 0")
    case True
    then show ?thesis using b by (intro exI [of _ b] exI [of _ 0]) (cases b; simp del: match_at.simps)
  next
    case False
    then have "zero_ended cs" using Cons.prems by (auto simp: zero_ended_Cons split: if_splits)
    then obtain b' n where "find_end ps cs = Some (b', n)" "n < length cs"
      "b' \<longrightarrow> n + length ps < length cs \<and> (\<forall>i < length ps. (ps ! i) (cs ! (n + i)))" using Cons.IH by auto
    then show ?thesis using False b(1)
      by (intro exI [of _ b'] exI [of _ "Suc n"]) (simp del: match_at.simps)
  qed
qed (simp add: zero_ended_def)

lemma doctype_scan_total:
  "zero_ended cs \<Longrightarrow> \<exists>b n. doctype_scan d cs = Some (b, n) \<and> n < length cs \<and> (b \<longrightarrow> cs ! n = 62)"
proof (induction d cs rule: doctype_scan.induct)
  case (1 d)
  then show ?case by (simp add: zero_ended_def)
next
  case (2 c cs)
  show ?case
  proof (cases "c = 62 \<or> c = 0")
    case False
    then have "zero_ended cs" using 2(2) by (auto simp: zero_ended_Cons split: if_splits)
    then obtain b n where "doctype_scan (if c = 91 then 1 else 0) cs = Some (b, n)" "n < length cs" "b \<longrightarrow> cs ! n = 62"
      using 2(1) False by auto
    then show ?thesis using False by (intro exI [of _ b] exI [of _ "Suc n"]) simp
  qed auto
next
  case (3 d c cs)
  show ?case
  proof (cases "c = 0")
    case False
    then have "zero_ended cs" using 3(2) by (auto simp: zero_ended_Cons split: if_splits)
    then obtain b n where "doctype_scan (if c = 91 then Suc (Suc d) else if c = 93 then d else Suc d) cs = Some (b, n)"
      "n < length cs" "b \<longrightarrow> cs ! n = 62" using 3(1) False by auto
    then show ?thesis using False by (intro exI [of _ b] exI [of _ "Suc n"]) simp
  qed auto
qed

section \<open>Two runs\<close>

definition view :: "bytes \<Rightarrow> xml_parser \<Rightarrow> xml_parser" where
  "view T s = s\<lparr>xp_Buf := T\<rparr>"

lemma view_simps [simp]:
  "xp_Doc (view T s) = xp_Doc s" "xp_Buf (view T s) = T" "xp_Text (view T s) = xp_Text s"
  "xp_Strings (view T s) = xp_Strings s"
  "(view T s)\<lparr>xp_Doc := d\<rparr> = view T (s\<lparr>xp_Doc := d\<rparr>)"
  "(view T s)\<lparr>xp_Text := n\<rparr> = view T (s\<lparr>xp_Text := n\<rparr>)"
  "(view T s)\<lparr>xp_Strings := x\<rparr> = view T (s\<lparr>xp_Strings := x\<rparr>)"
  "view T (s\<lparr>xp_Buf := b\<rparr>) = view T s"
  by (simp_all add: view_def)

definition doc_ok :: "XMLDocument \<Rightarrow> bool" where
  "doc_ok d \<longleftrightarrow> (\<exists>ch. store_ok (xd_nodes d) ch) \<and> n_first_attr (xd_nodes d ! 0) = None"

definition doc_grows :: "XMLDocument \<Rightarrow> XMLDocument \<Rightarrow> bool" where
  "doc_grows d d' \<longleftrightarrow> length (xd_nodes d) \<le> length (xd_nodes d')
     \<and> (\<forall>x < length (xd_nodes d). n_parent (xd_nodes d' ! x) = n_parent (xd_nodes d ! x)
        \<and> n_type (xd_nodes d' ! x) = n_type (xd_nodes d ! x))"

text \<open>A node that is in the second document only, and not yet a child.\<close>

definition born :: "XMLDocument \<Rightarrow> XMLDocument \<Rightarrow> nat \<Rightarrow> bool" where
  "born d d' c \<longleftrightarrow> length (xd_nodes d) \<le> c \<and> c < length (xd_nodes d')
     \<and> n_parent (xd_nodes d' ! c) = None \<and> n_type (xd_nodes d' ! c) \<noteq> node_document"

lemma doc_grows_refl [simp]: "doc_grows d d"
  by (simp add: doc_grows_def)

lemma doc_grows_trans: "doc_grows d e \<Longrightarrow> doc_grows e f \<Longrightarrow> doc_grows d f"
  by (simp add: doc_grows_def)

lemma born_grows: "born d e c \<Longrightarrow> doc_grows e f \<Longrightarrow> born d f c"
  by (auto simp: born_def doc_grows_def)

lemma grows_born: "doc_grows d e \<Longrightarrow> born e f c \<Longrightarrow> born d f c"
  by (auto simp: born_def doc_grows_def)

text \<open>What a name or value in the document is.\<close>

primrec string_at :: "string_of \<Rightarrow> XMLDocument \<Rightarrow> bytes option" where
  "string_at (NodeName c) d = (if c < length (xd_nodes d) then Some (n_name (xd_nodes d ! c)) else None)"
| "string_at (NodeValue c) d = (if c < length (xd_nodes d) then Some (n_value (xd_nodes d ! c)) else None)"
| "string_at (AttrName a) d = (if a < length (xd_attrs d) then Some (a_name (xd_attrs d ! a)) else None)"
| "string_at (AttrValue a) d = (if a < length (xd_attrs d) then Some (a_value (xd_attrs d ! a)) else None)"

definition value_in :: "NodeKind \<Rightarrow> XMLDocument \<Rightarrow> string_of \<Rightarrow> bool" where
  "value_in k d t \<longleftrightarrow> (\<exists>c. t = NodeValue c \<and> c < length (xd_nodes d) \<and> n_type (xd_nodes d ! c) = k)"

text \<open>A string is the same in the document, in the text and in the buffer; only the value of a processing
  instruction may differ in the buffer, where these are made. The value of an element is not empty.\<close>

definition string_ok :: "bool \<Rightarrow> bytes \<Rightarrow> bytes \<Rightarrow> XMLDocument \<Rightarrow> string_of \<Rightarrow> nat \<Rightarrow> nat \<Rightarrow> bool" where
  "string_ok v T b d t p n \<longleftrightarrow> string_at t d = Some (text_at T p n)
     \<and> (text_at b p n = text_at T p n \<or> v \<and> value_in node_pi d t)
     \<and> (value_in node_element d t \<longrightarrow> text_at T p n \<noteq> [] \<and> hd (text_at T p n) \<noteq> 0)"

text \<open>The buffer agrees with the text from \<open>g\<close> characters behind the position on.\<close>

definition synced :: "bool \<Rightarrow> bytes \<Rightarrow> nat \<Rightarrow> xml_parser \<Rightarrow> bool" where
  "synced v T g s \<longleftrightarrow> zero_ended T \<and> xp_Text s < length T \<and> length (xp_Buf s) = length T
     \<and> (\<forall>i < length T. xp_Text s + g \<le> i \<longrightarrow> xp_Buf s ! i = T ! i) \<and> doc_ok (xp_Doc s)
     \<and> (\<forall>(t, p, n) \<in> set (xp_Strings s). p + n \<le> xp_Text s \<and> string_ok v T (xp_Buf s) (xp_Doc s) t p n)"

text \<open>A step without new strings keeps those there are.\<close>

definition keeps :: "XMLDocument \<Rightarrow> XMLDocument \<Rightarrow> bool" where
  "keeps d d' \<longleftrightarrow> doc_ok d' \<and> doc_grows d d' \<and> (\<forall>t b. string_at t d = Some b \<longrightarrow> string_at t d' = Some b)"

lemma string_ok_grows:
  assumes "string_ok v T b d t p n" "length (xd_nodes d) \<le> length (xd_nodes d')"
    and "\<forall>x < length (xd_nodes d). n_type (xd_nodes d' ! x) = n_type (xd_nodes d ! x)" "string_at t d' = string_at t d"
  shows "string_ok v T b d' t p n"
proof -
  have "value_in k d' t \<longleftrightarrow> value_in k d t" for k
  proof (cases t)
    case (NodeValue c)
    then have "c < length (xd_nodes d)" using assms(1) by (auto simp: string_ok_def split: if_splits)
    then show ?thesis using assms(2,3) NodeValue by (auto simp: value_in_def)
  qed (simp_all add: value_in_def)
  then show ?thesis using assms(1,4) by (simp add: string_ok_def)
qed

definition moves :: "nat \<Rightarrow> xml_parser \<Rightarrow> xml_parser \<Rightarrow> bool" where
  "moves b s s' \<longleftrightarrow> doc_grows (xp_Doc s) (xp_Doc s') \<and> xp_Text s \<le> xp_Text s'
     \<and> (\<forall>i < b. xp_Buf s' ! i = xp_Buf s ! i) \<and> (\<forall>x \<in> set (xp_Strings s'). x \<in> set (xp_Strings s) \<or> b \<le> fst (snd x))"

lemma moves_refl [simp]: "moves b s s"
  by (simp add: moves_def)

lemma moves_trans: "moves b s t \<Longrightarrow> moves b t u \<Longrightarrow> moves b s u"
  by (auto simp: moves_def intro: doc_grows_trans)

lemma moves_mono: "moves b s t \<Longrightarrow> a \<le> b \<Longrightarrow> moves a s t"
  by (auto simp: moves_def)

definition fine :: "bool \<Rightarrow> bytes \<Rightarrow> nat \<Rightarrow> xml_parser \<Rightarrow> ('a \<Rightarrow> xml_parser \<Rightarrow> bool) \<Rightarrow> 'a parse_result \<Rightarrow> bool" where
  "fine v T b s Q r = (case r of
      Ret a s' \<Rightarrow> synced v T 0 s' \<and> moves b s s' \<and> Q a s'
    | Err e s' \<Rightarrow> doc_ok (xp_Doc s') \<and> length (xp_Buf s') = length T \<and> snd e < length T
    | Fault f \<Rightarrow> False)"

definition runs :: "bool \<Rightarrow> bytes \<Rightarrow> nat \<Rightarrow> xml_parser \<Rightarrow> 'a xp \<Rightarrow> 'a xp \<Rightarrow> ('a \<Rightarrow> xml_parser \<Rightarrow> bool) \<Rightarrow> bool" where
  "runs v T b s m m' Q \<longleftrightarrow> m' (view T s) = map_state (view T) (m s) \<and> fine v T b s Q (m s)"

definition runsO :: "bool \<Rightarrow> bytes \<Rightarrow> nat \<Rightarrow> xml_parser \<Rightarrow> (xml_parser \<Rightarrow> 'a parse_result option) \<Rightarrow> (xml_parser \<Rightarrow> 'a parse_result option)
    \<Rightarrow> ('a \<Rightarrow> xml_parser \<Rightarrow> bool) \<Rightarrow> bool" where
  "runsO v T b s m m' Q \<longleftrightarrow> (\<exists>r. m s = Some r \<and> m' (view T s) = Some (map_state (view T) r) \<and> fine v T b s Q r)"

lemma runs_liftP: "runs v T b s m m' Q \<Longrightarrow> runsO v T b s (liftP m) (liftP m') Q"
  by (simp add: runs_def runsO_def liftP_def)

lemma fine_mono:
  assumes "fine v T b s Q r" "moves a t s" "a \<le> b" "\<And>x s'. Q x s' \<Longrightarrow> moves b s s' \<Longrightarrow> R x s'"
  shows "fine v T a t R r"
  using assms(1) moves_trans [OF assms(2) moves_mono [OF _ assms(3)]] assms(4)
  by (auto simp: fine_def split: outcome.splits)

lemma fine_after: "fine v T b s (\<lambda>_ _. True) r \<Longrightarrow> moves b t s \<Longrightarrow> fine v T b t (\<lambda>_ _. True) r"
  using fine_mono [of v T b s "\<lambda>_ _. True" r b t "\<lambda>_ _. True"] by simp

lemma runs_bind:
  assumes "runs v T b s m m' Q"
    and "\<And>a s'. synced v T 0 s' \<Longrightarrow> moves b s s' \<Longrightarrow> Q a s' \<Longrightarrow> runs v T b s' (k a) (k' a) R"
  shows "runs v T b s (bindM m k) (bindM m' k') R"
proof (cases "m s")
  case (Ret a s')
  then have "synced v T 0 s'" "moves b s s'" "Q a s'" using assms(1) by (simp_all add: runs_def fine_def)
  then show ?thesis using assms(1) Ret assms(2) [of s' a] fine_mono [of v T b s' R _ b s R]
    by (auto simp: runs_def bindM_def)
qed (use assms(1) in \<open>auto simp: runs_def bindM_def fine_def\<close>)

lemma runsO_bind:
  assumes "runsO v T b s m m' Q"
    and "\<And>a s'. synced v T 0 s' \<Longrightarrow> moves b s s' \<Longrightarrow> Q a s' \<Longrightarrow> runsO v T b s' (k a) (k' a) R"
  shows "runsO v T b s (bindP m k) (bindP m' k') R"
proof -
  obtain r where r: "m s = Some r" "m' (view T s) = Some (map_state (view T) r)" "fine v T b s Q r"
    using assms(1) by (auto simp: runsO_def)
  show ?thesis
  proof (cases r)
    case (Ret a s')
    then have "synced v T 0 s'" "moves b s s'" "Q a s'" using r(3) by (simp_all add: fine_def)
    then show ?thesis using r Ret assms(2) [of s' a] fine_mono [of v T b s' R _ b s R]
      by (auto simp: runsO_def bindP_def)
  qed (use r in \<open>auto simp: runsO_def bindP_def fine_def\<close>)
qed

section \<open>Steps\<close>

lemma syncedD:
  assumes "synced v T g s"
  shows "zero_ended T" "xp_Text s < length T" "length (xp_Buf s) = length T" "doc_ok (xp_Doc s)"
    "\<And>t p n. (t, p, n) \<in> set (xp_Strings s) \<Longrightarrow> p + n \<le> xp_Text s \<and> string_ok v T (xp_Buf s) (xp_Doc s) t p n"
  using assms by (auto simp: synced_def)

lemma synced_drop:
  assumes "synced v T g s" "xp_Text s + g \<le> i"
  shows "drop i (xp_Buf s) = drop i T"
  by (rule nth_equalityI) (use assms in \<open>auto simp: synced_def\<close>)

lemma synced_nth: "synced v T g s \<Longrightarrow> xp_Text s + g \<le> i \<Longrightarrow> i < length T \<Longrightarrow> xp_Buf s ! i = T ! i"
  by (auto simp: synced_def)

lemma synced_text_at:
  assumes "synced v T g s" "xp_Text s + g \<le> p"
  shows "text_at (xp_Buf s) p n = text_at T p n"
  by (simp add: text_at_def synced_drop [OF assms])

lemma synced_advance:
  assumes "synced v T g s" "xp_Text s + k < length T" "g \<le> k + h"
  shows "synced v T h (s\<lparr>xp_Text := xp_Text s + k\<rparr>)"
  using assms by (fastforce simp: synced_def)

lemma moves_advance [simp]: "moves b s (s\<lparr>xp_Text := xp_Text s + k\<rparr>)"
  by (simp add: moves_def)

lemma synced_doc:
  assumes "synced v T g s" "keeps (xp_Doc s) d"
  shows "synced v T g (s\<lparr>xp_Doc := d\<rparr>)"
proof -
  have "string_ok v T (xp_Buf s) d t p n" if "(t, p, n) \<in> set (xp_Strings s)" for t p n
  proof (rule string_ok_grows)
    show "string_ok v T (xp_Buf s) (xp_Doc s) t p n" using syncedD(5) [OF assms(1) that] by simp
    then show "string_at t d = string_at t (xp_Doc s)" using assms(2) by (simp add: keeps_def string_ok_def)
  qed (use assms(2) in \<open>auto simp: keeps_def doc_grows_def\<close>)
  then show ?thesis using assms by (auto simp: synced_def keeps_def)
qed

lemma moves_doc: "doc_grows (xp_Doc s) d \<Longrightarrow> moves b s (s\<lparr>xp_Doc := d\<rparr>)"
  by (simp add: moves_def)

lemma getM_runs: "synced v T 0 s \<Longrightarrow> runs v T b s (getM xp_Text) (getM xp_Text) (\<lambda>a s'. s' = s \<and> a = xp_Text s)"
  by (simp add: runs_def fine_def)

lemma retM_runs: "synced v T 0 s \<Longrightarrow> runs v T b s (retM x) (retM x) (\<lambda>a s'. s' = s \<and> a = x)"
  by (simp add: runs_def fine_def)

lemma error_runs: "synced v T 0 s \<Longrightarrow> runs v T b s (RAPIDXML_PARSE_ERROR e) (RAPIDXML_PARSE_ERROR e) Q"
  using syncedD [of v T 0 s] by (simp add: runs_def fine_def RAPIDXML_PARSE_ERROR_def)

lemma advM_runs:
  assumes "synced v T 0 s" "xp_Text s + k < length T"
  shows "runs v T b s (advM k) (advM k) (\<lambda>_ s'. s' = s\<lparr>xp_Text := xp_Text s + k\<rparr>)"
  using synced_advance [OF assms, of 0] by (simp add: runs_def fine_def advM_def)

lemma peekM_runs:
  assumes "synced v T 0 s" "xp_Text s + k < length T"
  shows "runs v T b s (peekM k) (peekM k) (\<lambda>a s'. s' = s \<and> a = T ! (xp_Text s + k))"
  using assms syncedD [OF assms(1)] synced_nth [OF assms(1)] by (simp add: runs_def fine_def peekM_def)

lemma matchM_runs:
  assumes "synced v T 0 s" "xp_Text s + k < length T" "\<forall>p \<in> set ps. \<not> p 0"
  shows "runs v T b s (matchM k ps) (matchM k ps) (\<lambda>a s'. s' = s \<and> (a \<longrightarrow> xp_Text s + k + length ps < length T
    \<and> (\<forall>i < length ps. (ps ! i) (T ! (xp_Text s + k + i)))))"
proof -
  obtain r where "match_at ps (drop (xp_Text s + k) T) = Some r"
    "r \<longrightarrow> length ps < length (drop (xp_Text s + k) T) \<and> (\<forall>i < length ps. (ps ! i) (drop (xp_Text s + k) T ! i))"
    using match_total [OF zero_ended_drop [OF syncedD(1) [OF assms(1)] assms(2)] assms(3)] by blast
  then show ?thesis using assms(1,2) synced_drop [OF assms(1), of "xp_Text s + k"]
    by (auto simp: runs_def fine_def matchM_def)
qed

lemma skip_run:
  assumes "synced v T 0 s" "\<not> P 0"
  obtains n where "skip P s = Ret () (s\<lparr>xp_Text := xp_Text s + n\<rparr>)"
    "skip P (view T s) = Ret () (view T (s\<lparr>xp_Text := xp_Text s + n\<rparr>))"
    "xp_Text s + n < length T" "\<not> P (T ! (xp_Text s + n))" "\<forall>i < n. P (T ! (xp_Text s + i))"
proof -
  obtain n where "scan P (drop (xp_Text s) T) = Some n" "n < length (drop (xp_Text s) T)"
    "\<not> P (drop (xp_Text s) T ! n)" "\<forall>i < n. P (drop (xp_Text s) T ! i)"
    using scan_total [OF zero_ended_drop [OF syncedD(1,2) [OF assms(1)]]] assms(2) by blast
  then show ?thesis using that [of n] synced_drop [OF assms(1)] syncedD(2) [OF assms(1)]
    by (simp add: skip_def advM_def)
qed

lemma skip_runs:
  assumes "synced v T 0 s" "\<not> P 0"
  shows "runs v T b s (skip P) (skip P) (\<lambda>_ s'. \<exists>n. s' = s\<lparr>xp_Text := xp_Text s + n\<rparr> \<and> xp_Text s + n < length T
    \<and> \<not> P (T ! (xp_Text s + n)) \<and> (\<forall>i < n. P (T ! (xp_Text s + i))))"
proof -
  obtain n where n: "skip P s = Ret () (s\<lparr>xp_Text := xp_Text s + n\<rparr>)"
    "skip P (view T s) = Ret () (view T (s\<lparr>xp_Text := xp_Text s + n\<rparr>))"
    "xp_Text s + n < length T" "\<not> P (T ! (xp_Text s + n))" "\<forall>i < n. P (T ! (xp_Text s + i))"
    by (rule skip_run [of v T s P, OF assms])
  then show ?thesis using synced_advance [OF assms(1) n(3), of 0] by (auto simp: runs_def fine_def)
qed

lemma skip_any_runs: "synced v T 0 s \<Longrightarrow> \<not> P 0 \<Longrightarrow> runs v T b s (skip P) (skip P) (\<lambda>_ _. True)"
  using skip_runs [of v T s P b] by (auto simp: runs_def fine_def split: outcome.splits)

lemma ends_runs:
  assumes "synced v T 0 s" "xp_Text s + n < length T" "r \<Longrightarrow> Q (s\<lparr>xp_Text := xp_Text s + n\<rparr>)"
  shows "runs v T b s (thenM (advM n) (if r then retM () else RAPIDXML_PARSE_ERROR e))
    (thenM (advM n) (if r then retM () else RAPIDXML_PARSE_ERROR e)) (\<lambda>_. Q)"
  using synced_advance [OF assms(1,2), of 0] assms(3) syncedD [OF assms(1)] assms(2)
  by (simp add: runs_def fine_def advM_def RAPIDXML_PARSE_ERROR_def thenM_def bindM_def)

lemma skip_until_runs:
  assumes "synced v T 0 s" "\<forall>p \<in> set (lit e). \<not> p 0"
  shows "runs v T b s (skip_until e) (skip_until e)
    (\<lambda>_ s'. \<exists>n. s' = s\<lparr>xp_Text := xp_Text s + n\<rparr> \<and> xp_Text s + n + length e < length T)"
proof -
  obtain r n where f: "find_end (lit e) (drop (xp_Text s) T) = Some (r, n)" "n < length (drop (xp_Text s) T)"
    "r \<longrightarrow> n + length (lit e) < length (drop (xp_Text s) T)"
    using find_end_total [OF zero_ended_drop [OF syncedD(1,2) [OF assms(1)]] assms(2)] by blast
  have l: "length (lit e) = length e" by (simp add: lit_def str_def)
  have "runs v T b s (thenM (advM n) (if r then retM () else RAPIDXML_PARSE_ERROR ''unexpected end of data''))
    (thenM (advM n) (if r then retM () else RAPIDXML_PARSE_ERROR ''unexpected end of data''))
    (\<lambda>_ s'. \<exists>n. s' = s\<lparr>xp_Text := xp_Text s + n\<rparr> \<and> xp_Text s + n + length e < length T)"
    by (rule ends_runs [OF assms(1)]) (use f l in auto)
  then show ?thesis using f(1) synced_drop [OF assms(1)] by (simp add: runs_def skip_until_def)
qed

lemma skip_doctype_runs:
  assumes "synced v T 0 s"
  shows "runs v T b s skip_doctype skip_doctype
    (\<lambda>_ s'. \<exists>n. s' = s\<lparr>xp_Text := xp_Text s + n\<rparr> \<and> xp_Text s + n + 1 < length T)"
proof -
  obtain r n where f: "doctype_scan 0 (drop (xp_Text s) T) = Some (r, n)" "n < length (drop (xp_Text s) T)"
    "r \<longrightarrow> drop (xp_Text s) T ! n = 62"
    using doctype_scan_total [OF zero_ended_drop [OF syncedD(1,2) [OF assms]]] by blast
  have n: "r \<Longrightarrow> Suc (xp_Text s + n) < length T"
    using zero_ended_nth [OF syncedD(1) [OF assms], of "xp_Text s + n"] f(2,3) syncedD(2) [OF assms] by simp
  have "runs v T b s (thenM (advM n) (if r then retM () else RAPIDXML_PARSE_ERROR ''unexpected end of data''))
    (thenM (advM n) (if r then retM () else RAPIDXML_PARSE_ERROR ''unexpected end of data''))
    (\<lambda>_ s'. \<exists>n. s' = s\<lparr>xp_Text := xp_Text s + n\<rparr> \<and> xp_Text s + n + 1 < length T)"
    by (rule ends_runs [OF assms]) (use f n in auto)
  then show ?thesis using f(1) synced_drop [OF assms] by (simp add: runs_def skip_doctype_def)
qed

section \<open>Writing to the document and to the buffer\<close>

lemma store_ok_cong:
  assumes "store_ok h ch" "length h' = length h"
    and "\<And>x. x < length h \<Longrightarrow> n_type (h' ! x) = n_type (h ! x) \<and> n_parent (h' ! x) = n_parent (h ! x)
      \<and> n_prev (h' ! x) = n_prev (h ! x) \<and> n_next (h' ! x) = n_next (h ! x) \<and> n_first (h' ! x) = n_first (h ! x)
      \<and> n_last (h' ! x) = n_last (h ! x)"
  shows "store_ok h' ch"
proof -
  have "kids_ok h' p (ch p)" if "p < length h" for p
    by (rule kids_ok_cong [of h]) (use assms that store_okD(2) [OF assms(1)] in \<open>auto simp: store_ok_def\<close>)
  then show ?thesis using assms by (auto simp: store_ok_def)
qed

lemma alloc_born:
  assumes "doc_ok d" "k \<noteq> node_document"
  shows "\<exists>d'. allocate_node k None None d = Ret (length (xd_nodes d)) d' \<and> keeps d d' \<and> born d d' (length (xd_nodes d))
    \<and> n_type (xd_nodes d' ! length (xd_nodes d)) = k \<and> n_value (xd_nodes d' ! length (xd_nodes d)) = []"
proof -
  obtain ch where ch: "store_ok (xd_nodes d) ch" using assms(1) by (auto simp: doc_ok_def)
  let ?n = "XMLNode_new k" and ?d = "d\<lparr>xd_nodes := xd_nodes d @ [XMLNode_new k]\<rparr>"
  have "store_ok (xd_nodes d @ [?n]) ch" by (rule store_ok_alloc [OF ch]) (simp add: XMLNode_new_def)
  moreover have "0 < length (xd_nodes d)" using ch by (simp add: store_ok_def)
  moreover have "string_at t ?d = Some b" if "string_at t d = Some b" for t b
    using that by (cases t) (auto simp: nth_append split: if_splits)
  ultimately show ?thesis using assms
    by (auto simp: allocate_node_def keeps_def doc_ok_def doc_grows_def born_def nth_append XMLNode_new_def)
qed

lemma alloc_attribute:
  assumes "doc_ok d"
  shows "\<exists>d'. allocate_attribute None None d = Ret (length (xd_attrs d)) d' \<and> keeps d d'
    \<and> length (xd_attrs d) < length (xd_attrs d') \<and> a_parent (xd_attrs d' ! length (xd_attrs d)) = None"
proof -
  let ?d = "d\<lparr>xd_attrs := xd_attrs d @ [XMLAttribute_new]\<rparr>"
  have "string_at t ?d = Some b" if "string_at t d = Some b" for t b
    using that by (cases t) (auto simp: nth_append split: if_splits)
  then show ?thesis using assms
    by (auto simp: allocate_attribute_def keeps_def doc_ok_def doc_grows_def XMLAttribute_new_def)
qed

text \<open>Setting a string changes that string only.\<close>

definition resets :: "string_of \<Rightarrow> XMLDocument \<Rightarrow> XMLDocument \<Rightarrow> bool" where
  "resets t d d' \<longleftrightarrow> doc_ok d' \<and> doc_grows d d' \<and> length (xd_nodes d') = length (xd_nodes d)
     \<and> length (xd_attrs d') = length (xd_attrs d) \<and> (\<forall>a < length (xd_attrs d). a_parent (xd_attrs d' ! a) = a_parent (xd_attrs d ! a))
     \<and> (\<forall>t'. t' \<noteq> t \<longrightarrow> string_at t' d' = string_at t' d)"

lemma set_node_ok:
  assumes "doc_ok d" "c < length (xd_nodes d)" "f = node_name b \<and> t = NodeName c \<or> f = node_value b \<and> t = NodeValue c"
  shows "\<exists>d'. setNode c f d = Ret () d' \<and> resets t d d' \<and> string_at t d' = Some b"
proof -
  obtain ch where ch: "store_ok (xd_nodes d) ch" using assms(1) by (auto simp: doc_ok_def)
  have same: "n_type (f n) = n_type n \<and> n_parent (f n) = n_parent n \<and> n_prev (f n) = n_prev n \<and> n_next (f n) = n_next n
    \<and> n_first (f n) = n_first n \<and> n_last (f n) = n_last n \<and> n_first_attr (f n) = n_first_attr n" for n
    using assms(3) by (auto simp: node_name_def node_value_def)
  have "store_ok (xd_nodes (upd_node c f d)) ch"
    by (rule store_ok_cong [OF ch]) (use assms(2) same in auto)
  then have ok: "doc_ok (upd_node c f d)" "doc_grows d (upd_node c f d)"
    using assms(1,2) same by (auto simp: doc_ok_def doc_grows_def)
  have "string_at t' (upd_node c f d) = string_at t' d" if "t' \<noteq> t" for t'
    using assms(2,3) that by (cases t') (auto simp: node_name_def node_value_def)
  moreover have "string_at t (upd_node c f d) = Some b"
    using assms(2,3) by (auto simp: node_name_def node_value_def)
  ultimately show ?thesis using ok assms(2) by (simp add: resets_def)
qed

lemma set_string_ok:
  assumes "doc_ok d" "string_at t d \<noteq> None"
  shows "\<exists>d'. set_string t b d = Ret () d' \<and> resets t d d' \<and> string_at t d' = Some b"
proof (cases t)
  case (NodeName c)
  then show ?thesis using set_node_ok [OF assms(1), of c "node_name b" b t] assms(2) by (auto split: if_splits)
next
  case (NodeValue c)
  then show ?thesis using set_node_ok [OF assms(1), of c "node_value b" b t] assms(2) by (auto split: if_splits)
next
  case (AttrName a)
  let ?d = "d\<lparr>xd_attrs := (xd_attrs d)[a := (xd_attrs d ! a)\<lparr>a_name := b\<rparr>]\<rparr>"
  have "string_at t' ?d = string_at t' d" if "t' \<noteq> t" for t'
    using that AttrName assms(2) by (cases t') (auto simp: nth_list_update split: if_splits)
  then show ?thesis using assms AttrName
    by (auto simp: setAttr_def resets_def doc_ok_def doc_grows_def nth_list_update split: if_splits)
next
  case (AttrValue a)
  let ?d = "d\<lparr>xd_attrs := (xd_attrs d)[a := (xd_attrs d ! a)\<lparr>a_value := b\<rparr>]\<rparr>"
  have "string_at t' ?d = string_at t' d" if "t' \<noteq> t" for t'
    using that AttrValue assms(2) by (cases t') (auto simp: nth_list_update split: if_splits)
  then show ?thesis using assms AttrValue
    by (auto simp: setAttr_def resets_def doc_ok_def doc_grows_def nth_list_update split: if_splits)
qed

lemma append_born:
  assumes "doc_ok d" "p < c" "born e d c"
  shows "\<exists>d'. append_node p c d = Ret () d' \<and> doc_ok d' \<and> length (xd_nodes d') = length (xd_nodes d)
    \<and> (\<forall>x < length (xd_nodes d). n_type (xd_nodes d' ! x) = n_type (xd_nodes d ! x))
    \<and> (\<forall>x < length (xd_nodes e). n_parent (xd_nodes d' ! x) = n_parent (xd_nodes d ! x))
    \<and> (\<forall>t. string_at t d' = string_at t d)"
proof -
  obtain ch where ch: "store_ok (xd_nodes d) ch" using assms(1) by (auto simp: doc_ok_def)
  have c: "c < length (xd_nodes d)" "n_parent (xd_nodes d ! c) = None" "n_type (xd_nodes d ! c) \<noteq> node_document"
    "length (xd_nodes e) \<le> c" using assms(3) by (simp_all add: born_def)
  obtain d' where d': "append_node p c d = Ret () d'" "store_ok (xd_nodes d') (ch(p := ch p @ [c]))" "same_data d d'"
    using append_node_ok [OF ch assms(2) c(1-3)] by blast
  have kids: "p < length (xd_nodes d)" "kids_ok (xd_nodes d) p (ch p)" using ch assms(2) c(1) by (simp_all add: store_ok_def)
  have "n_parent (xd_nodes d' ! x) = n_parent (xd_nodes d ! x)" if "x < length (xd_nodes d)" "x \<noteq> c" for x
  proof (cases "n_first (xd_nodes d ! p)")
    case None
    then show ?thesis using append_node_run(1) [OF kids(1) c(1-3) None] d'(1) that assms(2) kids(1) c(1) by auto
  next
    case (Some f)
    then have ne: "ch p \<noteq> []" using kids(2) by (cases "ch p") (simp_all add: kids_ok_def)
    let ?l = "last (ch p)"
    have l: "n_last (xd_nodes d ! p) = Some ?l" using kids(2) ne by (simp add: kids_ok_def)
    have ll: "?l < length (xd_nodes d)" "n_parent (xd_nodes d ! ?l) = Some p"
      using store_okD(2,3) [OF ch, of ?l p] ne by auto
    have lc: "?l \<noteq> c" using ll(2) c(2) by auto
    note eq = append_node_run(2) [OF kids(1) c(1-3) Some l ll(1)]
    have "d' = upd_node c (\<lambda>n. n\<lparr>n_next := None\<rparr>) (upd_node c (\<lambda>n. n\<lparr>n_parent := Some p\<rparr>)
      (upd_node p (\<lambda>n. n\<lparr>n_last := Some c\<rparr>) (upd_node ?l (\<lambda>n. n\<lparr>n_next := Some c\<rparr>) (upd_node c (\<lambda>n. n\<lparr>n_prev := Some ?l\<rparr>) d))))"
      using eq d'(1) by simp
    then show ?thesis using that assms(2) kids(1) c(1) ll(1) lc by (cases "x = p"; cases "x = ?l") simp_all
  qed
  moreover have "0 < length (xd_nodes d)" using ch by (simp add: store_ok_def)
  then have "doc_ok d'" using d'(2,3) assms(1) by (auto simp: doc_ok_def same_data_def)
  moreover have "string_at t d' = string_at t d" for t
    using d'(3) by (cases t) (auto simp: same_data_def)
  ultimately show ?thesis using d'(1,3) c(1,4) by (auto simp: same_data_def)
qed

lemma docP_runs:
  assumes "synced v T 0 s" "m (xp_Doc s) = Ret a d" "keeps (xp_Doc s) d"
  shows "runs v T b s (docP m) (docP m) (\<lambda>a' s'. a' = a \<and> s' = s\<lparr>xp_Doc := d\<rparr>)"
  using assms by (simp add: runs_def fine_def docP_def synced_doc moves_doc keeps_def)

lemma unassigned: "synced v T g s \<Longrightarrow> string_at t (xp_Doc s) = None \<Longrightarrow> t \<notin> fst ` set (xp_Strings s)"
  using syncedD(5) by (fastforce simp: string_ok_def)

lemma alloc_runs:
  assumes "synced v T 0 s" "k \<noteq> node_document"
  shows "runs v T b s (docP (allocate_node k None None)) (docP (allocate_node k None None))
    (\<lambda>c s'. \<exists>d. s' = s\<lparr>xp_Doc := d\<rparr> \<and> born (xp_Doc s) d c \<and> n_type (xd_nodes d ! c) = k \<and> n_value (xd_nodes d ! c) = []
      \<and> NodeName c \<notin> fst ` set (xp_Strings s) \<and> NodeValue c \<notin> fst ` set (xp_Strings s))"
proof -
  let ?c = "length (xd_nodes (xp_Doc s))"
  obtain d where d: "allocate_node k None None (xp_Doc s) = Ret ?c d" "keeps (xp_Doc s) d" "born (xp_Doc s) d ?c"
    "n_type (xd_nodes d ! ?c) = k" "n_value (xd_nodes d ! ?c) = []"
    using alloc_born [OF syncedD(4) [OF assms(1)] assms(2)] by blast
  have "runs v T b s (docP (allocate_node k None None)) (docP (allocate_node k None None)) (\<lambda>a' s'. a' = ?c \<and> s' = s\<lparr>xp_Doc := d\<rparr>)"
    by (rule docP_runs) (rule assms(1) d(1,2))+
  moreover have "NodeName ?c \<notin> fst ` set (xp_Strings s)" "NodeValue ?c \<notin> fst ` set (xp_Strings s)"
    by (rule unassigned [OF assms(1)], simp)+
  ultimately show ?thesis using d(3-5) by (auto simp: runs_def fine_def split: outcome.splits)
qed

text \<open>A string of the text behind the base, for a name or value that has none yet.\<close>

lemma give_string_returns:
  assumes "synced v T 0 s" "string_at t (xp_Doc s) \<noteq> None" "t \<notin> fst ` set (xp_Strings s)"
    and "text_at (xp_Buf s) p n = text_at T p n" "p + n \<le> xp_Text s" "b \<le> p"
    and "value_in node_element (xp_Doc s) t \<Longrightarrow> text_at T p n \<noteq> [] \<and> hd (text_at T p n) \<noteq> 0"
  shows "\<exists>d. give_string t p n s = Ret () (s\<lparr>xp_Doc := d, xp_Strings := (t, p, n) # xp_Strings s\<rparr>)
    \<and> give_string t p n (view T s) = Ret () (view T (s\<lparr>xp_Doc := d, xp_Strings := (t, p, n) # xp_Strings s\<rparr>))
    \<and> resets t (xp_Doc s) d \<and> synced v T 0 (s\<lparr>xp_Doc := d, xp_Strings := (t, p, n) # xp_Strings s\<rparr>)
    \<and> moves b s (s\<lparr>xp_Doc := d, xp_Strings := (t, p, n) # xp_Strings s\<rparr>)"
proof -
  obtain d where d: "set_string t (text_at T p n) (xp_Doc s) = Ret () d" "resets t (xp_Doc s) d" "string_at t d = Some (text_at T p n)"
    using set_string_ok [OF syncedD(4) [OF assms(1)] assms(2)] by blast
  let ?s = "s\<lparr>xp_Doc := d, xp_Strings := (t, p, n) # xp_Strings s\<rparr>"
  have old: "string_ok v T (xp_Buf s) d t' q m" if "(t', q, m) \<in> set (xp_Strings s)" for t' q m
  proof (rule string_ok_grows)
    show "string_ok v T (xp_Buf s) (xp_Doc s) t' q m" using syncedD(5) [OF assms(1) that] by simp
    have "t' \<noteq> t" using that assms(3) by force
    then show "string_at t' d = string_at t' (xp_Doc s)" using d(2) by (simp add: resets_def)
  qed (use d(2) in \<open>auto simp: resets_def doc_grows_def\<close>)
  have "value_in node_element d t \<longrightarrow> value_in node_element (xp_Doc s) t"
    using d(2) by (auto simp: value_in_def resets_def doc_grows_def)
  then have "string_ok v T (xp_Buf s) d t p n" using assms(4,7) d(3) by (auto simp: string_ok_def)
  then have "synced v T 0 ?s" using old d(2) assms(1,5) by (auto simp: synced_def resets_def)
  moreover have "moves b s ?s" using d(2) assms(6) by (simp add: moves_def resets_def)
  ultimately show ?thesis using d assms(4)
    by (auto simp: give_string_def docP_def intro!: exI [of _ d])
qed

lemma give_string_runs:
  assumes "synced v T 0 s" "string_at t (xp_Doc s) \<noteq> None" "t \<notin> fst ` set (xp_Strings s)"
    and "text_at (xp_Buf s) p n = text_at T p n" "p + n \<le> xp_Text s" "b \<le> p"
    and "value_in node_element (xp_Doc s) t \<Longrightarrow> text_at T p n \<noteq> [] \<and> hd (text_at T p n) \<noteq> 0"
  shows "runs v T b s (give_string t p n) (give_string t p n)
    (\<lambda>_ s'. \<exists>d. s' = s\<lparr>xp_Doc := d, xp_Strings := (t, p, n) # xp_Strings s\<rparr> \<and> resets t (xp_Doc s) d)"
  using give_string_returns [OF assms] by (auto simp: runs_def fine_def)

lemma text_at_update:
  assumes "w < p \<or> p + n \<le> w"
  shows "text_at (b[w := x]) p n = text_at b p n"
proof (cases "w < p")
  case False
  then have "text_at (b[w := x]) p n = take n ((drop p b)[w - p := x])" by (simp add: text_at_def drop_update_swap)
  then show ?thesis using assms False by (simp add: text_at_def)
qed (simp add: text_at_def)

text \<open>A zero behind a string: not inside any string but the value of a processing instruction.\<close>

definition clear_of :: "bool \<Rightarrow> nat \<Rightarrow> xml_parser \<Rightarrow> bool" where
  "clear_of v w s \<longleftrightarrow> (\<forall>(t, p, n) \<in> set (xp_Strings s). w < p \<or> p + n \<le> w \<or> v \<and> value_in node_pi (xp_Doc s) t)"

lemma terminate_run:
  assumes "synced v T g s" "w < xp_Text s + g" "w < length T" "clear_of v w s"
  shows "\<exists>x. terminate F w s = Ret () (s\<lparr>xp_Buf := x\<rparr>) \<and> terminate (parse_non_destructive F) w (view T s) = Ret () (view T s)
    \<and> synced v T g (s\<lparr>xp_Buf := x\<rparr>) \<and> (\<forall>b \<le> w. moves b s (s\<lparr>xp_Buf := x\<rparr>))"
proof (intro exI [of _ "if no_string_terminators F then xp_Buf s else (xp_Buf s)[w := 0]"] conjI)
  have "string_ok v T ((xp_Buf s)[w := 0]) (xp_Doc s) t p n" if "(t, p, n) \<in> set (xp_Strings s)" for t p n
    using syncedD(5) [OF assms(1) that] assms(4) that text_at_update [of w p n "xp_Buf s" 0]
    by (fastforce simp: string_ok_def clear_of_def)
  then show "synced v T g (s\<lparr>xp_Buf := if no_string_terminators F then xp_Buf s else (xp_Buf s)[w := 0]\<rparr>)"
    using assms(1,2) by (auto simp: synced_def)
qed (use assms syncedD(3) [OF assms(1)] in \<open>auto simp: terminate_def parse_non_destructive_def moves_def\<close>)

lemma terminate_runs:
  assumes "synced v T 0 s" "w < xp_Text s" "b \<le> w" "clear_of v w s"
  shows "runs v T b s (terminate F w) (terminate (parse_non_destructive F) w) (\<lambda>_ s'. \<exists>x. s' = s\<lparr>xp_Buf := x\<rparr>)"
proof -
  have "w < length T" using syncedD(2) [OF assms(1)] assms(2) by simp
  then obtain x where "terminate F w s = Ret () (s\<lparr>xp_Buf := x\<rparr>)"
    "terminate (parse_non_destructive F) w (view T s) = Ret () (view T s)"
    "synced v T 0 (s\<lparr>xp_Buf := x\<rparr>)" "\<forall>b \<le> w. moves b s (s\<lparr>xp_Buf := x\<rparr>)"
    using terminate_run [of v T 0 s w F] assms(1,2,4) by auto
  then show ?thesis using assms(3) by (auto simp: runs_def fine_def)
qed

lemma clear_of_position: "synced v T g s \<Longrightarrow> xp_Text s \<le> w \<Longrightarrow> clear_of v w s"
  using syncedD(5) by (fastforce simp: clear_of_def)

lemma synced_mono: "synced v T 0 s \<Longrightarrow> synced v T g s"
  by (auto simp: synced_def)

lemma runs_mono: "runs v T b s m m' Q \<Longrightarrow> b' \<le> b \<Longrightarrow> (\<And>a t. Q a t \<Longrightarrow> moves b s t \<Longrightarrow> R a t) \<Longrightarrow> runs v T b' s m m' R"
  by (auto simp: runs_def intro: fine_mono)

lemma runsO_mono: "runsO v T b s m m' Q \<Longrightarrow> b' \<le> b \<Longrightarrow> (\<And>a t. Q a t \<Longrightarrow> moves b s t \<Longrightarrow> R a t) \<Longrightarrow> runsO v T b' s m m' R"
  unfolding runsO_def by (metis fine_mono moves_refl)

lemma runs_then:
  assumes "runs v T b s m m' Q"
    and "\<And>a s'. synced v T 0 s' \<Longrightarrow> moves b s s' \<Longrightarrow> Q a s' \<Longrightarrow> runs v T b s' k k' R"
  shows "runs v T b s (thenM m k) (thenM m' k') R"
  unfolding thenM_def by (rule runs_bind [OF assms])

lemma runs_get: "runs v T b s (k (xp_Text s)) (k' (xp_Text s)) R \<Longrightarrow> runs v T b s (bindM (getM xp_Text) k) (bindM (getM xp_Text) k') R"
  by (simp add: runs_def)

lemma flags_simps [simp]:
  "comment_nodes (parse_non_destructive F) = comment_nodes F" "doctype_node (parse_non_destructive F) = doctype_node F"
  "pi_nodes (parse_non_destructive F) = pi_nodes F"
  "validate_closing_tags (parse_non_destructive F) = validate_closing_tags F"
  by (simp_all add: parse_non_destructive_def)

text \<open>Two zeros, and the step over the characters they may have replaced.\<close>

lemma finish_runs:
  assumes "synced v T 0 s" "xp_Text s + k < length T" "0 < k" "b \<le> u" "u \<le> xp_Text s" "b \<le> w" "w \<le> xp_Text s"
    and "clear_of v u s" "clear_of v w s"
  shows "runs v T b s (thenM (terminate F u) (thenM (terminate F w) (thenM (advM k) (retM c))))
    (thenM (terminate (parse_non_destructive F) u) (thenM (terminate (parse_non_destructive F) w) (thenM (advM k) (retM c))))
    (\<lambda>a s'. a = c \<and> xp_Doc s' = xp_Doc s)"
proof -
  have l: "xp_Text s < length T" by (rule syncedD(2) [OF assms(1)])
  obtain x where x: "terminate F u s = Ret () (s\<lparr>xp_Buf := x\<rparr>)" "synced v T 1 (s\<lparr>xp_Buf := x\<rparr>)" "moves b s (s\<lparr>xp_Buf := x\<rparr>)"
    "terminate (parse_non_destructive F) u (view T s) = Ret () (view T s)"
    using terminate_run [OF synced_mono [OF assms(1)], where g = 1 and w = u and F = F] assms(4,5,8) l by auto
  let ?s = "s\<lparr>xp_Buf := x\<rparr>"
  have "clear_of v w ?s" using assms(9) by (simp add: clear_of_def)
  then obtain y where y: "terminate F w ?s = Ret () (s\<lparr>xp_Buf := y\<rparr>)" "synced v T 1 (s\<lparr>xp_Buf := y\<rparr>)" "moves b ?s (s\<lparr>xp_Buf := y\<rparr>)"
    "terminate (parse_non_destructive F) w (view T s) = Ret () (view T s)"
    using terminate_run [OF x(2), where w = w and F = F] assms(6,7) l by auto
  have "synced v T 0 (s\<lparr>xp_Buf := y, xp_Text := xp_Text s + k\<rparr>)"
    using synced_advance [OF y(2), of k 0] assms(2,3) by simp
  moreover have "moves b s (s\<lparr>xp_Buf := y, xp_Text := xp_Text s + k\<rparr>)"
    using moves_trans [OF moves_trans [OF x(3) y(3)] moves_advance [of b "s\<lparr>xp_Buf := y\<rparr>" k]] by simp
  ultimately show ?thesis using x y by (simp add: runs_def fine_def advM_def)
qed

lemma finish_one_runs:
  assumes "synced v T 0 s" "xp_Text s + k < length T" "0 < k" "b \<le> xp_Text s"
  shows "runs v T b s (thenM (terminate F (xp_Text s)) (thenM (advM k) (retM c)))
    (thenM (terminate (parse_non_destructive F) (xp_Text s)) (thenM (advM k) (retM c)))
    (\<lambda>a s'. a = c \<and> xp_Doc s' = xp_Doc s)"
proof -
  obtain x where x: "terminate F (xp_Text s) s = Ret () (s\<lparr>xp_Buf := x\<rparr>)" "synced v T 1 (s\<lparr>xp_Buf := x\<rparr>)" "moves b s (s\<lparr>xp_Buf := x\<rparr>)"
    "terminate (parse_non_destructive F) (xp_Text s) (view T s) = Ret () (view T s)"
    using terminate_run [OF synced_mono [OF assms(1)], where g = 1 and w = "xp_Text s" and F = F] assms(4)
      syncedD(2) [OF assms(1)] clear_of_position [OF assms(1)] by auto
  have "synced v T 0 (s\<lparr>xp_Buf := x, xp_Text := xp_Text s + k\<rparr>)"
    using synced_advance [OF x(2), of k 0] assms(2,3) by simp
  moreover have "moves b s (s\<lparr>xp_Buf := x, xp_Text := xp_Text s + k\<rparr>)"
    using moves_trans [OF x(3) moves_advance [of b "s\<lparr>xp_Buf := x\<rparr>" k]] by simp
  ultimately show ?thesis using x by (simp add: runs_def fine_def advM_def)
qed

section \<open>Nodes without children\<close>

definition parsed :: "xml_parser \<Rightarrow> nat option \<Rightarrow> xml_parser \<Rightarrow> bool" where
  "parsed s c s' \<longleftrightarrow> (\<forall>n. c = Some n \<longrightarrow> born (xp_Doc s) (xp_Doc s') n)"

lemma parsed_None [simp]: "parsed s None s'"
  by (simp add: parsed_def)

lemma parsed_from: "moves b s t \<Longrightarrow> parsed t c u \<Longrightarrow> parsed s c u"
  by (auto simp: parsed_def moves_def intro: grows_born)

lemma retM_None_runs: "synced v T 0 s \<Longrightarrow> runs v T b s (retM None) (retM None) (parsed s0)"
  by (simp add: runs_def fine_def)

text \<open>A node for the text from the start of a run to the position.\<close>

definition leaf :: "parse_flags \<Rightarrow> NodeKind \<Rightarrow> nat \<Rightarrow> nat \<Rightarrow> nat option xp" where
  "leaf F k value m = bindM (docP (allocate_node k None None)) (\<lambda>c. bindM (getM xp_Text) (\<lambda>e.
     thenM (give_string (NodeValue c) value (e - value)) (thenM (terminate F e) (thenM (advM m) (retM (Some c))))))"

lemma leaf_runs:
  assumes "synced v T 0 s" "synced v T 0 s0" "xp_Buf s = xp_Buf s0" "xp_Text s0 \<le> xp_Text s"
    and "k \<noteq> node_document" "k \<noteq> node_element" "xp_Text s + m < length T" "0 < m"
  shows "runs v T (xp_Text s0) s (leaf F k (xp_Text s0) m) (leaf (parse_non_destructive F) k (xp_Text s0) m) (parsed s)"
  unfolding leaf_def
proof (rule runs_bind [OF alloc_runs [OF assms(1,5)]], goal_cases)
  case (1 c s1)
  then obtain d where s1: "synced v T 0 s1" "s1 = s\<lparr>xp_Doc := d\<rparr>" "born (xp_Doc s) d c" "n_type (xd_nodes d ! c) = k"
    "NodeValue c \<notin> fst ` set (xp_Strings s)" by blast
  have tx: "text_at (xp_Buf s) (xp_Text s0) n = text_at T (xp_Text s0) n" for n
    using synced_text_at [OF assms(2)] assms(3) by simp
  show ?case
  proof (rule runs_get, rule runs_then [OF give_string_runs], goal_cases)
    case (8 u s2)
    then have t: "xp_Text s2 = xp_Text s1" by auto
    have "born (xp_Doc s) (xp_Doc s2) c" using 8(2) s1(2,3) born_grows by (auto simp: moves_def)
    then show ?case using finish_one_runs [OF 8(1), of m "xp_Text s0" F "Some c"] assms(4,7,8) t s1(2)
      by (auto simp: parsed_def elim: runs_mono)
  qed (use s1 tx assms(4,6) in \<open>auto simp: born_def value_in_def\<close>)
qed

lemma skip_node_runs:
  assumes "synced v T 0 s" "\<forall>p \<in> set (lit e). \<not> p 0" "length e = m"
  shows "runs v T b s (thenM (skip_until e) (thenM (advM m) (retM None))) (thenM (skip_until e) (thenM (advM m) (retM None)))
    (parsed s)"
proof (rule runs_then [OF skip_until_runs [OF assms(1,2)]], goal_cases)
  case (1 u s1)
  then have t: "xp_Text s1 + m < length T" using assms(3) by auto
  show ?case
  proof (rule runs_then [OF advM_runs [OF 1(1) t]], goal_cases)
    case (1 u s2)
    show ?case by (rule retM_None_runs [OF 1(1)])
  qed
qed

text \<open>The marks that end nodes have no zero in them.\<close>

lemma lit_safe: "0 \<notin> set (str e) \<Longrightarrow> \<forall>p \<in> set (lit e). \<not> p 0"
  by (auto simp: lit_def)

lemma marks_safe:
  "\<forall>p \<in> set (lit ''-->''). \<not> p 0" "\<forall>p \<in> set (lit '']]>''). \<not> p 0" "\<forall>p \<in> set (lit ''?>''). \<not> p 0"
  "\<forall>p \<in> set (lit ''>''). \<not> p 0" "\<forall>p \<in> set (lit ''-''). \<not> p 0" "\<forall>p \<in> set (lit ''CDATA[''). \<not> p 0"
  "\<forall>p \<in> set (lit ''OCTYPE''). \<not> p 0"
  by (simp_all add: lit_def str_def of_char_def)

lemma marked_leaf_runs:
  assumes "synced v T 0 s" "\<forall>p \<in> set (lit e). \<not> p 0" "length e = m" "0 < m" "k \<noteq> node_document" "k \<noteq> node_element"
  shows "runs v T (xp_Text s) s (bindM (getM xp_Text) (\<lambda>v. thenM (skip_until e) (leaf F k v m)))
    (bindM (getM xp_Text) (\<lambda>v. thenM (skip_until e) (leaf (parse_non_destructive F) k v m))) (parsed s)"
proof (rule runs_get, rule runs_then [OF skip_until_runs [OF assms(1,2)]], goal_cases)
  case (1 u s1)
  then have "runs v T (xp_Text s) s1 (leaf F k (xp_Text s) m) (leaf (parse_non_destructive F) k (xp_Text s) m) (parsed s1)"
    by (intro leaf_runs) (use assms in auto)
  then show ?case using parsed_from [OF 1(2)] by (auto elim: runs_mono)
qed

lemma parse_comment_runs:
  assumes "synced v T 0 s"
  shows "runs v T (xp_Text s) s (parse_comment F) (parse_comment (parse_non_destructive F)) (parsed s)"
  using skip_node_runs [OF assms marks_safe(1)] marked_leaf_runs [OF assms marks_safe(1), of 3 node_comment F]
  by (simp add: parse_comment_def leaf_def parse_non_destructive_def)

lemma parse_cdata_runs:
  assumes "synced v T 0 s"
  shows "runs v T (xp_Text s) s (parse_cdata F) (parse_cdata (parse_non_destructive F)) (parsed s)"
  using marked_leaf_runs [OF assms marks_safe(2), of 3 node_cdata F] by (simp add: parse_cdata_def leaf_def)

lemma parse_xml_declaration_runs:
  "synced v T 0 s \<Longrightarrow> runs v T b s parse_xml_declaration parse_xml_declaration (parsed s)"
  using skip_node_runs [OF _ marks_safe(3), of v T s 2] by (simp add: parse_xml_declaration_def)

lemma parse_doctype_runs:
  assumes "synced v T 0 s"
  shows "runs v T (xp_Text s) s (parse_doctype F) (parse_doctype (parse_non_destructive F)) (parsed s)"
  unfolding parse_doctype_def
proof (rule runs_get, rule runs_then [OF skip_doctype_runs [OF assms]], goal_cases)
  case (1 u s1)
  then have t: "xp_Text s1 + 1 < length T" by auto
  have skip: "runs v T (xp_Text s) s1 (thenM (advM 1) (retM None)) (thenM (advM 1) (retM None)) (parsed s)"
    by (rule runs_then [OF advM_runs [OF 1(1) t]]) (rule retM_None_runs)
  have "runs v T (xp_Text s) s1 (leaf F node_doctype (xp_Text s) 1) (leaf (parse_non_destructive F) node_doctype (xp_Text s) 1) (parsed s1)"
    by (intro leaf_runs) (use 1 assms t in auto)
  then have "runs v T (xp_Text s) s1 (leaf F node_doctype (xp_Text s) 1) (leaf (parse_non_destructive F) node_doctype (xp_Text s) 1) (parsed s)"
    using parsed_from [OF 1(2)] by (auto elim: runs_mono)
  then show ?case using skip by (simp add: leaf_def)
qed

lemma whitespace_zero [simp]: "\<not> whitespace 0" "\<not> node_name_char 0" "\<not> text_char 0" "\<not> attribute_name_char 0"
  "\<not> attribute_value_char q 0"
  by (simp_all add: whitespace_def node_name_char_def text_char_def attribute_name_char_def attribute_value_char_def)

definition pi_value :: "parse_flags \<Rightarrow> nat \<Rightarrow> nat \<Rightarrow> nat option xp" where
  "pi_value F c name_end = bindM (getM xp_Text) (\<lambda>value. thenM (skip_until ''?>'') (bindM (getM xp_Text) (\<lambda>e.
     thenM (give_string (NodeValue c) value (e - value)) (thenM (terminate F name_end) (thenM (terminate F e)
     (thenM (advM 2) (retM (Some c))))))))"

lemma pi_value_runs:
  assumes "synced True T 0 s" "c < length (xd_nodes (xp_Doc s))" "n_type (xd_nodes (xp_Doc s) ! c) = node_pi" "b \<le> w" "w \<le> xp_Text s"
    and "NodeValue c \<notin> fst ` set (xp_Strings s)" "clear_of True w s"
  shows "runs True T b s (pi_value F c w) (pi_value (parse_non_destructive F) c w) (\<lambda>a s'. a = Some c)"
  unfolding pi_value_def
proof (rule runs_get, rule runs_then [OF skip_until_runs [OF assms(1) marks_safe(3)]], goal_cases)
  case (1 u s1)
  then obtain k where s1: "s1 = s\<lparr>xp_Text := xp_Text s + k\<rparr>" "synced True T 0 s1" "xp_Text s + k + 2 < length T" by auto
  have tx: "text_at (xp_Buf s) (xp_Text s) n = text_at T (xp_Text s) n" for n
    using synced_text_at [OF assms(1)] by simp
  show ?case
  proof (rule runs_get, rule runs_then [OF give_string_runs], goal_cases)
    case (8 u s2)
    then obtain d where s2: "s2 = s1\<lparr>xp_Doc := d, xp_Strings := (NodeValue c, xp_Text s, k) # xp_Strings s1\<rparr>" "synced True T 0 s2"
      "resets (NodeValue c) (xp_Doc s1) d" using s1(1) by auto
    have pi: "value_in node_pi d t" if "value_in node_pi (xp_Doc s) t \<or> t = NodeValue c" for t
      using that s2(3) s1(1) assms(2,3) by (auto simp: value_in_def resets_def doc_grows_def)
    have "clear_of True w s2" using assms(7) s2(1) s1(1) pi by (fastforce simp: clear_of_def)
    moreover have "clear_of True (xp_Text s1) s2" by (rule clear_of_position [OF s2(2)]) (simp add: s2(1))
    ultimately have "runs True T b s2 (thenM (terminate F w) (thenM (terminate F (xp_Text s1)) (thenM (advM 2) (retM (Some c)))))
        (thenM (terminate (parse_non_destructive F) w) (thenM (terminate (parse_non_destructive F) (xp_Text s1))
          (thenM (advM 2) (retM (Some c))))) (\<lambda>a s'. a = Some c \<and> xp_Doc s' = xp_Doc s2)"
      by (intro finish_runs [OF s2(2)]) (use s2(1) s1(1,3) assms(4,5) in auto)
    then show ?case by (auto elim: runs_mono)
  qed (use s1 tx assms(2-6) in \<open>auto simp: value_in_def\<close>)
qed

lemma parse_pi_runs:
  assumes "synced v T 0 s" "pi_nodes F \<longrightarrow> v"
  shows "runs v T (xp_Text s) s (parse_pi F) (parse_pi (parse_non_destructive F)) (parsed s)"
proof (cases "pi_nodes F")
  case False
  then show ?thesis using skip_node_runs [OF assms(1) marks_safe(3), of 2] by (simp add: parse_pi_def)
next
  case True
  then have v: "v = True" using assms(2) by simp
  note s = assms(1) [unfolded v]
  have body: "parse_pi G = bindM (docP (allocate_node node_pi None None)) (\<lambda>pi. bindM (getM xp_Text) (\<lambda>name.
      thenM (skip node_name_char) (bindM (getM xp_Text) (\<lambda>name_end.
      if name_end = name then RAPIDXML_PARSE_ERROR ''expected PI target''
      else thenM (give_string (NodeName pi) name (name_end - name)) (thenM (skip whitespace) (pi_value G pi name_end))))))"
    if "pi_nodes G" for G
    unfolding parse_pi_def pi_value_def using that by simp
  show ?thesis unfolding v body [OF True] body [of "parse_non_destructive F", unfolded flags_simps, OF True]
  proof (rule runs_bind [OF alloc_runs [OF s]], goal_cases)
    case (2 c s1)
    then obtain d where s1: "synced True T 0 s1" "s1 = s\<lparr>xp_Doc := d\<rparr>" "born (xp_Doc s) d c" "n_type (xd_nodes d ! c) = node_pi"
      "NodeName c \<notin> fst ` set (xp_Strings s)" "NodeValue c \<notin> fst ` set (xp_Strings s)" by blast
    show ?case
    proof (rule runs_get, rule runs_then [OF skip_runs [OF s1(1)]], goal_cases)
      case (2 u s2)
      then obtain n where s2: "s2 = s1\<lparr>xp_Text := xp_Text s + n\<rparr>" "synced True T 0 s2" using s1(2) by auto
      have tx: "text_at (xp_Buf s2) (xp_Text s) n = text_at T (xp_Text s) n"
        using synced_text_at [OF s, of "xp_Text s"] s1(2) s2(1) by simp
      have "runs True T (xp_Text s) s2 (thenM (give_string (NodeName c) (xp_Text s) n) (thenM (skip whitespace) (pi_value F c (xp_Text s + n))))
          (thenM (give_string (NodeName c) (xp_Text s) n) (thenM (skip whitespace) (pi_value (parse_non_destructive F) c (xp_Text s + n)))) (parsed s)"
      proof (rule runs_then [OF give_string_runs], goal_cases)
        case (8 u s3)
        then obtain d3 where s3: "s3 = s2\<lparr>xp_Doc := d3, xp_Strings := (NodeName c, xp_Text s, n) # xp_Strings s2\<rparr>" "synced True T 0 s3"
          "resets (NodeName c) (xp_Doc s2) d3" by auto
        have clear: "clear_of True (xp_Text s + n) s3" by (rule clear_of_position [OF s3(2)]) (simp add: s3(1) s2(1))
        have c: "born (xp_Doc s) d3 c" "n_type (xd_nodes d3 ! c) = node_pi"
          using s1(2-4) s2(1) s3(3) by (auto simp: resets_def doc_grows_def born_def)
        show ?case
        proof (rule runs_then [OF skip_runs [OF s3(2)]], goal_cases)
          case (2 u s4)
          then obtain m where s4: "s4 = s3\<lparr>xp_Text := xp_Text s + n + m\<rparr>" "synced True T 0 s4" using s3(1) s2(1) by auto
          have "runs True T (xp_Text s) s4 (pi_value F c (xp_Text s + n)) (pi_value (parse_non_destructive F) c (xp_Text s + n)) (\<lambda>a s'. a = Some c)"
            using clear c s3(1) s2(1) s1(2,6) s4(1)
            by (intro pi_value_runs [OF s4(2)]) (auto simp: clear_of_def born_def)
          moreover have "born (xp_Doc s) (xp_Doc t) c" if "moves (xp_Text s) s4 t" for t
            using that c(1) s4(1) s3(1) born_grows by (auto simp: moves_def)
          ultimately show ?case by (auto simp: parsed_def elim: runs_mono)
        qed simp
      qed (use s1 s2 tx in \<open>auto simp: born_def value_in_def\<close>)
      then have "runs True T (xp_Text s) s2 (if n = 0 then RAPIDXML_PARSE_ERROR ''expected PI target''
          else thenM (give_string (NodeName c) (xp_Text s) n) (thenM (skip whitespace) (pi_value F c (xp_Text s + n))))
        (if n = 0 then RAPIDXML_PARSE_ERROR ''expected PI target''
          else thenM (give_string (NodeName c) (xp_Text s) n) (thenM (skip whitespace) (pi_value (parse_non_destructive F) c (xp_Text s + n)))) (parsed s)"
        by (simp add: error_runs [OF s2(2)])
      then show ?case by (intro runs_get) (cases "n = 0"; simp add: s1(2) s2(1))
    qed simp
  qed simp
qed

section \<open>Attributes\<close>

definition attribute_value :: "parse_flags \<Rightarrow> nat \<Rightarrow> 8 word \<Rightarrow> unit xp" where
  "attribute_value F a q = thenM (advM 1) (bindM (getM xp_Text) (\<lambda>value. thenM (skip (attribute_value_char q)) (bindM (getM xp_Text) (\<lambda>e.
     thenM (give_string (AttrValue a) value (e - value)) (bindM (peekM 0) (\<lambda>c.
     if c \<noteq> q then RAPIDXML_PARSE_ERROR (''expected '' @ [CHR 39] @ '' or '' @ [CHR 34])
     else thenM (advM 1) (thenM (terminate F e) (skip whitespace))))))))"

lemma attribute_value_runs:
  assumes "synced v T 0 s" "T ! xp_Text s = q" "q \<noteq> 0" "a < length (xd_attrs (xp_Doc s))" "b \<le> xp_Text s"
    and "AttrValue a \<notin> fst ` set (xp_Strings s)"
  shows "runs v T b s (attribute_value F a q) (attribute_value (parse_non_destructive F) a q) (\<lambda>_ _. True)"
  unfolding attribute_value_def
proof (rule runs_then [OF advM_runs [OF assms(1)]], goal_cases)
  case 1
  then show ?case using zero_ended_nth [OF syncedD(1,2) [OF assms(1)]] assms(2,3) by simp
next
  case (2 u s1)
  then have s1: "s1 = s\<lparr>xp_Text := xp_Text s + 1\<rparr>" "synced v T 0 s1" by auto
  show ?case
  proof (rule runs_get, rule runs_then [OF skip_runs [OF s1(2)]], goal_cases)
    case (2 u s2)
    then obtain n where s2: "s2 = s1\<lparr>xp_Text := xp_Text s + 1 + n\<rparr>" "synced v T 0 s2" using s1(1) by auto
    have tx: "text_at (xp_Buf s2) (xp_Text s1) n = text_at T (xp_Text s1) n"
      using synced_text_at [OF s1(2), of "xp_Text s1"] s2(1) by simp
    show ?case
    proof (rule runs_get, rule runs_then [OF give_string_runs], goal_cases)
      case (8 u s3)
      then obtain d where s3: "synced v T 0 s3" "xp_Text s3 = xp_Text s2" by auto
      show ?case
      proof (rule runs_bind [OF peekM_runs [OF s3(1)]], goal_cases)
        case (2 c s')
        then have c: "c = T ! xp_Text s3" "s' = s3" by simp_all
        show ?case
        proof (cases "c = q")
          case True
          then have l: "xp_Text s3 + 1 < length T" using zero_ended_nth [OF syncedD(1,2) [OF s3(1)]] c assms(3) by simp
          have "runs v T b s3 (thenM (advM 1) (thenM (terminate F (xp_Text s3)) (skip whitespace)))
            (thenM (advM 1) (thenM (terminate (parse_non_destructive F) (xp_Text s3)) (skip whitespace))) (\<lambda>_ _. True)"
          proof (rule runs_then [OF advM_runs [OF s3(1) l]], goal_cases)
            case (1 u s4)
            then have "clear_of v (xp_Text s3) s4" using clear_of_position [OF s3(1), of "xp_Text s3"] by (simp add: clear_of_def)
            then have "runs v T b s4 (terminate F (xp_Text s3)) (terminate (parse_non_destructive F) (xp_Text s3)) (\<lambda>_ s'. \<exists>x. s' = s4\<lparr>xp_Buf := x\<rparr>)"
              using 1 assms(5) s3(2) s2(1) by (intro terminate_runs) auto
            then show ?case by (rule runs_then) (simp add: skip_any_runs)
          qed
          then show ?thesis using True c s3(2) by simp
        next
          case False
          then show ?thesis using c by (simp add: error_runs [OF s3(1)])
        qed
      qed (use syncedD(2) [OF s3(1)] in simp)
    qed (use s1(1) s2 tx assms(4-6) in \<open>auto simp: value_in_def\<close>)
  qed simp
qed

definition attribute_tail :: "parse_flags \<Rightarrow> nat \<Rightarrow> nat \<Rightarrow> unit xp" where
  "attribute_tail F a name_end = thenM (advM 1) (thenM (terminate F name_end) (thenM (skip whitespace) (bindM (peekM 0) (\<lambda>quote.
     if quote \<noteq> 39 \<and> quote \<noteq> 34 then RAPIDXML_PARSE_ERROR (''expected '' @ [CHR 39] @ '' or '' @ [CHR 34])
     else attribute_value F a quote))))"

lemma attribute_tail_runs:
  assumes "synced v T 0 s" "T ! xp_Text s = 61" "a < length (xd_attrs (xp_Doc s))" "b \<le> w" "w \<le> xp_Text s"
    and "clear_of v w s" "AttrValue a \<notin> fst ` set (xp_Strings s)"
  shows "runs v T b s (attribute_tail F a w) (attribute_tail (parse_non_destructive F) a w) (\<lambda>_ s'. xp_Text s < xp_Text s')"
proof -
  have l: "xp_Text s + 1 < length T" using zero_ended_nth [OF syncedD(1,2) [OF assms(1)]] assms(2) by simp
  show ?thesis unfolding attribute_tail_def
  proof (rule runs_then [OF advM_runs [OF assms(1) l]], goal_cases)
    case (1 u s1)
    then have s1: "s1 = s\<lparr>xp_Text := xp_Text s + 1\<rparr>" "synced v T 0 s1" by auto
    have clear: "clear_of v w s1" using assms(6) s1(1) by (simp add: clear_of_def)
    show ?case
    proof (rule runs_then [OF terminate_runs [OF s1(2) _ assms(4) clear]], goal_cases)
      case (2 u s2)
      then have s2: "synced v T 0 s2" "xp_Text s2 = xp_Text s + 1" "xp_Doc s2 = xp_Doc s" "xp_Strings s2 = xp_Strings s"
        using s1(1) by auto
      show ?case
      proof (rule runs_then [OF skip_runs [OF s2(1)]], goal_cases)
        case (2 u s3)
        then have s3: "synced v T 0 s3" "xp_Text s < xp_Text s3" "xp_Doc s3 = xp_Doc s" "xp_Strings s3 = xp_Strings s"
          using s2 by auto
        have l3: "xp_Text s3 + 0 < length T" using syncedD(2) [OF s3(1)] by simp
        show ?case
        proof (rule runs_bind [OF peekM_runs [OF s3(1) l3]], goal_cases)
          case (1 q s')
          then have q: "q = T ! xp_Text s3" "s' = s3" by simp_all
          show ?case
          proof (cases "q = 39 \<or> q = 34")
            case True
            then have "runs v T b s3 (attribute_value F a q) (attribute_value (parse_non_destructive F) a q) (\<lambda>_ _. True)"
              using q s3 assms(3-5,7) by (intro attribute_value_runs) auto
            then have "runs v T b s3 (attribute_value F a q) (attribute_value (parse_non_destructive F) a q) (\<lambda>_ s'. xp_Text s < xp_Text s')"
              by (rule runs_mono) (use s3(2) in \<open>auto simp: moves_def\<close>)
            then show ?thesis using True q(2) by auto
          next
            case False
            then show ?thesis using q by (simp add: error_runs [OF s3(1)])
          qed
        qed
      qed simp
    qed (use s1(1) assms(5) in simp)
  qed
qed

lemma append_fresh_attribute:
  assumes "a < length (xd_attrs d)" "a_parent (xd_attrs d ! a) = None"
  shows "append_attribute node a d = Ret () d"
  using assms by (simp add: append_attribute_def attrM_def)

lemma keeps_refl: "doc_ok d \<Longrightarrow> keeps d d"
  by (simp add: keeps_def)

lemma parse_attribute_runs:
  assumes "synced v T 0 s" "attribute_name_char (T ! xp_Text s)"
  shows "runs v T (xp_Text s) s (parse_attribute F node) (parse_attribute (parse_non_destructive F) node)
    (\<lambda>_ s'. xp_Text s < xp_Text s')"
proof -
  have body: "parse_attribute G node = bindM (getM xp_Text) (\<lambda>name. thenM (advM 1) (thenM (skip attribute_name_char) (bindM (getM xp_Text) (\<lambda>name_end.
      bindM (docP (allocate_attribute None None)) (\<lambda>a. thenM (give_string (AttrName a) name (name_end - name))
      (thenM (docP (append_attribute node a)) (thenM (skip whitespace) (bindM (peekM 0) (\<lambda>c.
      if c \<noteq> 61 then RAPIDXML_PARSE_ERROR ''expected =''
      else attribute_tail G a name_end)))))))))" for G
    unfolding parse_attribute_def attribute_value_def attribute_tail_def by (rule refl)
  have n0: "T ! xp_Text s \<noteq> 0" using assms(2) by (auto simp: attribute_name_char_def)
  have l0: "xp_Text s + 1 < length T" using zero_ended_nth [OF syncedD(1,2) [OF assms(1)] n0] by simp
  show ?thesis unfolding body
  proof (rule runs_get, rule runs_then [OF advM_runs [OF assms(1) l0]], goal_cases)
    case (1 u s1)
    then have s1: "s1 = s\<lparr>xp_Text := xp_Text s + 1\<rparr>" "synced v T 0 s1" by auto
    show ?case
    proof (rule runs_then [OF skip_runs [OF s1(2)]], goal_cases)
      case (2 u s2)
      then obtain n where s2: "s2 = s1\<lparr>xp_Text := xp_Text s + 1 + n\<rparr>" "synced v T 0 s2" using s1(1) by auto
      let ?a = "length (xd_attrs (xp_Doc s2))"
      obtain d where d: "allocate_attribute None None (xp_Doc s2) = Ret ?a d" "keeps (xp_Doc s2) d"
        "?a < length (xd_attrs d)" "a_parent (xd_attrs d ! ?a) = None"
        using alloc_attribute [OF syncedD(4) [OF s2(2)]] by blast
      have new: "AttrName ?a \<notin> fst ` set (xp_Strings s2)" "AttrValue ?a \<notin> fst ` set (xp_Strings s2)"
        by (rule unassigned [OF s2(2)], simp)+
      have tx: "text_at (xp_Buf s2) (xp_Text s) m = text_at T (xp_Text s) m" for m
        using synced_text_at [OF assms(1), of "xp_Text s"] s2(1) s1(1) by simp
      show ?case
      proof (rule runs_get, rule runs_bind [OF docP_runs [where m = "allocate_attribute None None", OF s2(2) d(1,2)]], goal_cases)
        case (1 a s3)
        then have s3: "s3 = s2\<lparr>xp_Doc := d\<rparr>" "synced v T 0 s3" "a = ?a" by auto
        show ?case
        proof (rule runs_then [OF give_string_runs], goal_cases)
          case (8 u s4)
          then obtain d4 where s4: "s4 = s3\<lparr>xp_Doc := d4, xp_Strings := (AttrName a, xp_Text s, xp_Text s2 - xp_Text s) # xp_Strings s3\<rparr>"
            "synced v T 0 s4" "resets (AttrName a) (xp_Doc s3) d4" by auto
          have a: "a < length (xd_attrs d4)" "a_parent (xd_attrs d4 ! a) = None"
            using s4(3) s3(1,3) d(3,4) by (auto simp: resets_def)
          have app: "append_attribute node a (xp_Doc s4) = Ret () (xp_Doc s4)"
            using append_fresh_attribute [OF a] s4(1) by simp
          show ?case
          proof (rule runs_then [OF docP_runs [where m = "append_attribute node a", OF s4(2) app keeps_refl [OF syncedD(4) [OF s4(2)]]]], goal_cases)
            case (1 u s5)
            then have s5: "s5 = s4" by simp
            have clear: "clear_of v (xp_Text s2) s4"
              by (rule clear_of_position [OF s4(2)]) (simp add: s4(1) s3(1))
            show ?case unfolding s5
            proof (rule runs_then [OF skip_runs [OF s4(2)]], goal_cases)
              case (2 u s6)
              then obtain k where s6: "s6 = s4\<lparr>xp_Text := xp_Text s2 + k\<rparr>" "synced v T 0 s6" using s4(1) s3(1) by auto
              have l6: "xp_Text s6 + 0 < length T" using syncedD(2) [OF s6(2)] by simp
              show ?case
              proof (rule runs_bind [OF peekM_runs [OF s6(2) l6]], goal_cases)
                case (1 c s')
                then have c: "c = T ! xp_Text s6" "s' = s6" by simp_all
                show ?case
                proof (cases "c = 61")
                  case True
                  have "runs v T (xp_Text s) s6 (attribute_tail F a (xp_Text s2)) (attribute_tail (parse_non_destructive F) a (xp_Text s2))
                    (\<lambda>_ s'. xp_Text s6 < xp_Text s')"
                    using True c s6 s4(1) s3 s2(1) s1(1) a(1) clear new(2)
                    by (intro attribute_tail_runs) (auto simp: clear_of_def)
                  then have "runs v T (xp_Text s) s6 (attribute_tail F a (xp_Text s2)) (attribute_tail (parse_non_destructive F) a (xp_Text s2))
                    (\<lambda>_ s'. xp_Text s < xp_Text s')"
                    by (rule runs_mono) (use s6(1) s2(1) in auto)
                  then show ?thesis using True c(2) by simp
                next
                  case False
                  then show ?thesis using c by (simp add: error_runs [OF s6(2)])
                qed
              qed
            qed simp
          qed
        qed (use s3 s2 s1(1) d(3) new tx in \<open>auto simp: value_in_def\<close>)
      qed
    qed simp
  qed
qed

lemma parse_node_attributes_stop:
  assumes "synced v T 0 s" "\<not> attribute_name_char (T ! xp_Text s)"
  shows "parse_node_attributes F node s = Some (Ret () s)" "parse_node_attributes F node (view T s) = Some (Ret () (view T s))"
  using assms syncedD(2,3) [OF assms(1)] synced_nth [OF assms(1)]
  by (simp_all add: parse_node_attributes.simps [of F node] peekM_def)

lemma parse_node_attributes_runs:
  assumes "synced v T 0 s" "b \<le> xp_Text s"
  shows "runsO v T b s (parse_node_attributes F node) (parse_node_attributes (parse_non_destructive F) node) (\<lambda>_ _. True)"
  using assms
proof (induction "length T - xp_Text s" arbitrary: s rule: less_induct)
  case less
  show ?case
  proof (cases "attribute_name_char (T ! xp_Text s)")
    case False
    then show ?thesis using less.prems(1) parse_node_attributes_stop [OF less.prems(1) False]
      by (simp add: runsO_def fine_def)
  next
    case True
    have peek: "peekM 0 s = Ret (T ! xp_Text s) s" "peekM 0 (view T s) = Ret (T ! xp_Text s) (view T s)"
      using syncedD(2,3) [OF less.prems(1)] synced_nth [OF less.prems(1)] by (simp_all add: peekM_def)
    have step: "runs v T b s (parse_attribute F node) (parse_attribute (parse_non_destructive F) node) (\<lambda>_ s'. xp_Text s < xp_Text s')"
      by (rule runs_mono [OF parse_attribute_runs [OF less.prems(1) True] less.prems(2)])
    show ?thesis
    proof (cases "parse_attribute F node s")
      case (Ret u s')
      then have s': "synced v T 0 s'" "moves b s s'" "xp_Text s < xp_Text s'"
        using step by (simp_all add: runs_def fine_def)
      have "runsO v T b s' (parse_node_attributes F node) (parse_node_attributes (parse_non_destructive F) node) (\<lambda>_ _. True)"
        by (rule less.hyps) (use s' syncedD(2) [OF s'(1)] less.prems(2) in auto)
      then obtain r where r: "parse_node_attributes F node s' = Some r"
        "parse_node_attributes (parse_non_destructive F) node (view T s') = Some (map_state (view T) r)" "fine v T b s' (\<lambda>_ _. True) r"
        by (auto simp: runsO_def)
      have "fine v T b s (\<lambda>_ _. True) r" by (rule fine_mono [OF r(3) s'(2)]) simp_all
      then show ?thesis using True peek step Ret r(1,2)
        by (simp add: runsO_def runs_def parse_node_attributes.simps [of F node s] parse_node_attributes.simps [of _ node "view T s"])
    qed (use True peek step in \<open>auto simp: runsO_def runs_def fine_def parse_node_attributes.simps [of F node s]
        parse_node_attributes.simps [of _ node "view T s"]\<close>)
  qed
qed

section \<open>Elements\<close>

text \<open>What is assumed of the parser of contents: it runs on elements, behind a position.\<close>

definition contents_run :: "bool \<Rightarrow> bytes \<Rightarrow> nat \<Rightarrow> (nat \<Rightarrow> xml_parser \<Rightarrow> unit parse_result option)
    \<Rightarrow> (nat \<Rightarrow> xml_parser \<Rightarrow> unit parse_result option) \<Rightarrow> bool" where
  "contents_run v T i C C' \<longleftrightarrow> (\<forall>e s. synced v T 0 s \<longrightarrow> i < xp_Text s \<longrightarrow> value_in node_element (xp_Doc s) (NodeValue e)
     \<longrightarrow> runsO v T (xp_Text s) s (C e) (C' e) (\<lambda>_ _. True))"

definition tag_end :: "(nat \<Rightarrow> xml_parser \<Rightarrow> unit parse_result option) \<Rightarrow> nat \<Rightarrow> 8 word \<Rightarrow> xml_parser \<Rightarrow> unit parse_result option" where
  "tag_end C element c = (if c = 62 then thenP (liftP (advM 1)) (C element)
     else if c = 47 then liftP (thenM (advM 1) (bindM (peekM 0) (\<lambda>c.
       if c \<noteq> 62 then RAPIDXML_PARSE_ERROR ''expected >'' else advM 1)))
     else liftP (RAPIDXML_PARSE_ERROR ''expected >''))"

lemma value_in_grows: "value_in k d t \<Longrightarrow> doc_grows d d' \<Longrightarrow> value_in k d' t"
  by (auto simp: value_in_def doc_grows_def)

lemma runs_step: "runs v T b s m m' (\<lambda>_ s'. moves b s s' \<longrightarrow> Q s') \<Longrightarrow> runs v T b s m m' (\<lambda>_. Q)"
  by (auto simp: runs_def fine_def split: outcome.splits)

lemma tag_end_runs:
  assumes "synced v T 0 s" "contents_run v T i C C'" "i \<le> xp_Text s" "value_in node_element (xp_Doc s) (NodeValue e)"
    and "c = T ! xp_Text s" "b \<le> Suc (xp_Text s)"
  shows "runsO v T b s (tag_end C e c) (tag_end C' e c) (\<lambda>_ s'. xp_Text s < xp_Text s')"
proof -
  have l: "xp_Text s + 1 < length T" if "c \<noteq> 0" using zero_ended_nth [OF syncedD(1,2) [OF assms(1)]] assms(5) that by simp
  consider "c = 62" | "c = 47" | "c \<noteq> 62" "c \<noteq> 47" by blast
  then show ?thesis
  proof cases
    case 1
    then have "runsO v T b s (thenP (liftP (advM 1)) (C e)) (thenP (liftP (advM 1)) (C' e)) (\<lambda>_ s'. xp_Text s < xp_Text s')"
    proof (intro runsO_bind [OF runs_liftP [OF advM_runs [OF assms(1) l]]], goal_cases)
      case (2 u s1)
      then have "runsO v T (xp_Text s1) s1 (C e) (C' e) (\<lambda>_ _. True)"
        using assms(2) [unfolded contents_run_def, rule_format, of s1 e] assms(3,4) by simp
      then show ?case by (rule runsO_mono) (use 2(4) assms(6) in \<open>auto simp: moves_def\<close>)
    qed simp
    then show ?thesis using 1 by (simp add: tag_end_def)
  next
    case 2
    then have "runs v T b s (thenM (advM 1) (bindM (peekM 0) (\<lambda>c. if c \<noteq> 62 then RAPIDXML_PARSE_ERROR ''expected >'' else advM 1)))
      (thenM (advM 1) (bindM (peekM 0) (\<lambda>c. if c \<noteq> 62 then RAPIDXML_PARSE_ERROR ''expected >'' else advM 1)))
      (\<lambda>_ s'. xp_Text s < xp_Text s')"
    proof (intro runs_then [OF advM_runs [OF assms(1) l]], goal_cases)
      case (2 u s1)
      then have s1: "synced v T 0 s1" "xp_Text s1 + 0 < length T" using syncedD(2) [of v T 0 s1] by auto
      show ?case
      proof (rule runs_bind [OF peekM_runs [OF s1]], goal_cases)
        case (1 x s')
        then have x: "x = T ! xp_Text s1" "s' = s1" by auto
        show ?case
        proof (cases "x = 62")
          case True
          then have "xp_Text s1 + 1 < length T" using zero_ended_nth [OF syncedD(1,2) [OF s1(1)]] x(1) by simp
          then have "runs v T b s1 (advM 1) (advM 1) (\<lambda>_ s'. s' = s1\<lparr>xp_Text := xp_Text s1 + 1\<rparr>)" by (rule advM_runs [OF s1(1)])
          then show ?thesis using True x(2) 2(4) by (auto elim: runs_mono)
        next
          case False
          then show ?thesis using x by (simp add: error_runs [OF s1(1)])
        qed
      qed
    qed simp
    then show ?thesis using 2 runs_liftP by (fastforce simp: tag_end_def)
  next
    case 3
    then show ?thesis by (auto simp: tag_end_def intro!: runs_liftP error_runs [OF assms(1)])
  qed
qed

definition element_rest :: "parse_flags \<Rightarrow> (nat \<Rightarrow> xml_parser \<Rightarrow> unit parse_result option) \<Rightarrow> nat \<Rightarrow> nat \<Rightarrow> xml_parser
    \<Rightarrow> nat option parse_result option" where
  "element_rest F C element name_end = thenP (parse_node_attributes F element) (bindP (liftP (peekM 0)) (\<lambda>c.
     thenP (tag_end C element c) (liftP (thenM (terminate F name_end) (retM (Some element))))))"

lemma element_rest_runs:
  assumes "synced v T 0 s" "contents_run v T i C C'" "i \<le> xp_Text s" "value_in node_element (xp_Doc s) (NodeValue e)"
    and "b \<le> w" "w \<le> xp_Text s" "w < xp_Text s \<or> \<not> attribute_name_char (T ! xp_Text s)"
    and "\<And>t p n. (t, p, n) \<in> set (xp_Strings s) \<Longrightarrow> p + n \<le> w"
  shows "runsO v T b s (element_rest F C e w) (element_rest (parse_non_destructive F) C' e w)
    (\<lambda>a s'. a = Some e \<and> xp_Text s < xp_Text s')"
proof -
  have "runsO v T b s (parse_node_attributes F e) (parse_node_attributes (parse_non_destructive F) e) (\<lambda>_ s'. moves (Suc w) s s')"
  proof (cases "attribute_name_char (T ! xp_Text s)")
    case True
    then have "Suc w \<le> xp_Text s" using assms(7) by simp
    then show ?thesis using parse_node_attributes_runs [OF assms(1), of "Suc w" F e] assms(5) by (auto elim: runsO_mono)
  next
    case False
    then show ?thesis using parse_node_attributes_stop [OF assms(1) False] assms(1) by (simp add: runsO_def fine_def)
  qed
  then show ?thesis unfolding element_rest_def
  proof (rule runsO_bind, goal_cases)
    case (1 u s1)
    then have g1: "doc_grows (xp_Doc s) (xp_Doc s1)" "xp_Text s \<le> xp_Text s1" by (simp_all add: moves_def)
    have l1: "xp_Text s1 + 0 < length T" using syncedD(2) [OF 1(1)] by simp
    show ?case
    proof (rule runsO_bind [OF runs_liftP [OF peekM_runs [OF 1(1) l1]]], goal_cases)
      case (1 c s')
      then have c: "c = T ! xp_Text s1" "s' = s1" "synced v T 0 s1" by auto
      have "runsO v T (Suc w) s1 (tag_end C e c) (tag_end C' e c) (\<lambda>_ s'. xp_Text s1 < xp_Text s')"
        by (rule tag_end_runs [OF c(3) assms(2)]) (use c g1 assms(3,4,6) value_in_grows in auto)
      then have "runsO v T b s1 (tag_end C e c) (tag_end C' e c) (\<lambda>_ s'. xp_Text s1 < xp_Text s' \<and> moves (Suc w) s1 s')"
        using assms(5) by (auto elim: runsO_mono)
      then show ?case unfolding c(2)
      proof (rule runsO_bind, goal_cases)
        case (1 u s2)
        have m: "moves (Suc w) s s2" using \<open>moves (Suc w) s s1\<close> 1(3) moves_trans by blast
        have "w < p \<or> p + n \<le> w" if x: "(t, p, n) \<in> set (xp_Strings s2)" for t p n
        proof -
          have "(t, p, n) \<in> set (xp_Strings s) \<or> Suc w \<le> fst (snd (t, p, n))" using m x unfolding moves_def by blast
          then show ?thesis using assms(8) by auto
        qed
        then have clear: "clear_of v w s2" by (auto simp: clear_of_def)
        have tx: "xp_Text s < xp_Text s2" using 1(3) g1(2) by simp
        have "runs v T b s2 (thenM (terminate F w) (retM (Some e))) (thenM (terminate (parse_non_destructive F) w) (retM (Some e)))
          (\<lambda>a s'. a = Some e \<and> xp_Text s < xp_Text s')"
        proof (rule runs_then [OF terminate_runs [OF 1(1) _ assms(5) clear]], goal_cases)
          case (2 u s3)
          then show ?case using tx by (auto simp: runs_def fine_def)
        qed (use tx assms(6) in simp)
        then show ?case by (rule runs_liftP)
      qed
    qed
  qed
qed

lemma parse_element_runs:
  assumes "synced v T 0 s" "contents_run v T i C C'" "i \<le> xp_Text s"
  shows "runsO v T (xp_Text s) s (parse_element F C) (parse_element (parse_non_destructive F) C')
    (\<lambda>a s'. parsed s a s' \<and> xp_Text s < xp_Text s')"
proof -
  have body: "parse_element G D = bindP (liftP (docP (allocate_node node_element None None))) (\<lambda>element.
      bindP (liftP (getM xp_Text)) (\<lambda>name. thenP (liftP (skip node_name_char)) (bindP (liftP (getM xp_Text)) (\<lambda>name_end.
      if name_end = name then liftP (RAPIDXML_PARSE_ERROR ''expected element name'')
      else thenP (liftP (give_string (NodeName element) name (name_end - name))) (thenP (liftP (skip whitespace))
        (element_rest G D element name_end))))))" for G D
    unfolding parse_element_def element_rest_def tag_end_def by (rule refl)
  have get: "bindP (liftP (getM xp_Text)) k = (\<lambda>s. k (xp_Text s) s)" for k :: "nat \<Rightarrow> xml_parser \<Rightarrow> nat option parse_result option"
    by (simp add: bindP_def liftP_def fun_eq_iff)
  show ?thesis unfolding body get
  proof (rule runsO_bind [OF runs_liftP [OF alloc_runs [OF assms(1)]]], goal_cases)
    case (2 c s1)
    then obtain d where s1: "synced v T 0 s1" "s1 = s\<lparr>xp_Doc := d\<rparr>" "born (xp_Doc s) d c" "n_type (xd_nodes d ! c) = node_element"
      "NodeName c \<notin> fst ` set (xp_Strings s)" by blast
    have "runsO v T (xp_Text s) s1 (thenP (liftP (skip node_name_char)) (\<lambda>t. (if xp_Text t = xp_Text s
          then liftP (RAPIDXML_PARSE_ERROR ''expected element name'')
          else thenP (liftP (give_string (NodeName c) (xp_Text s) (xp_Text t - xp_Text s))) (thenP (liftP (skip whitespace))
            (element_rest F C c (xp_Text t)))) t))
        (thenP (liftP (skip node_name_char)) (\<lambda>t. (if xp_Text t = xp_Text s
          then liftP (RAPIDXML_PARSE_ERROR ''expected element name'')
          else thenP (liftP (give_string (NodeName c) (xp_Text s) (xp_Text t - xp_Text s))) (thenP (liftP (skip whitespace))
            (element_rest (parse_non_destructive F) C' c (xp_Text t)))) t))
        (\<lambda>a s'. parsed s a s' \<and> xp_Text s < xp_Text s')"
    proof (rule runsO_bind [OF runs_liftP [OF skip_runs [OF s1(1)]]], goal_cases)
      case (2 u s2)
      then obtain n where s2: "s2 = s1\<lparr>xp_Text := xp_Text s + n\<rparr>" "synced v T 0 s2" "\<not> node_name_char (T ! (xp_Text s + n))"
        using s1(2) by auto
      have tx: "text_at (xp_Buf s2) (xp_Text s) n = text_at T (xp_Text s) n"
        using synced_text_at [OF assms(1), of "xp_Text s"] s1(2) s2(1) by simp
      have "runsO v T (xp_Text s) s2 (thenP (liftP (give_string (NodeName c) (xp_Text s) n)) (thenP (liftP (skip whitespace))
            (element_rest F C c (xp_Text s + n))))
          (thenP (liftP (give_string (NodeName c) (xp_Text s) n)) (thenP (liftP (skip whitespace))
            (element_rest (parse_non_destructive F) C' c (xp_Text s + n))))
          (\<lambda>a s'. parsed s a s' \<and> xp_Text s < xp_Text s')" if "n \<noteq> 0"
      proof (rule runsO_bind [OF runs_liftP [OF give_string_runs]], goal_cases)
        case (8 u s3)
        then obtain d3 where s3: "s3 = s2\<lparr>xp_Doc := d3, xp_Strings := (NodeName c, xp_Text s, n) # xp_Strings s2\<rparr>" "synced v T 0 s3"
          "resets (NodeName c) (xp_Doc s2) d3" by auto
        have c: "born (xp_Doc s) d3 c" "value_in node_element d3 (NodeValue c)"
          using s1(2-4) s2(1) s3(3) by (auto simp: resets_def doc_grows_def born_def value_in_def)
        show ?case
        proof (rule runsO_bind [OF runs_liftP [OF skip_runs [OF s3(2)]]], goal_cases)
          case (2 u s4)
          then obtain m where s4: "s4 = s3\<lparr>xp_Text := xp_Text s + n + m\<rparr>" "synced v T 0 s4" using s3(1) s2(1) by auto
          have "runsO v T (xp_Text s) s4 (element_rest F C c (xp_Text s + n)) (element_rest (parse_non_destructive F) C' c (xp_Text s + n))
            (\<lambda>a s'. a = Some c \<and> xp_Text s4 < xp_Text s')"
          proof (rule element_rest_runs [OF s4(2) assms(2)], goal_cases)
            case 5
            have "attribute_name_char x \<longrightarrow> node_name_char x" for x
              by (auto simp: attribute_name_char_def node_name_char_def)
            then show ?case using s2(3) s4(1) by (cases "m = 0") auto
          next
            case (6 t p q)
            then show ?case using syncedD(5) [OF s3(2), of t p q] s4(1) s3(1) s2(1) by auto
          qed (use c s4(1) s3(1) assms(3) in auto)
          moreover have "born (xp_Doc s) (xp_Doc t) c" if "moves (xp_Text s) s4 t" for t
            using that c(1) s4(1) s3(1) born_grows by (auto simp: moves_def)
          ultimately show ?case using s4(1) by (auto simp: parsed_def elim: runsO_mono)
        qed simp
      qed (use s1 s2 tx in \<open>auto simp: born_def value_in_def\<close>)
      moreover have "runsO v T (xp_Text s) s2 (liftP (RAPIDXML_PARSE_ERROR ''expected element name''))
          (liftP (RAPIDXML_PARSE_ERROR ''expected element name'')) (\<lambda>a s'. parsed s a s' \<and> xp_Text s < xp_Text s')"
        by (rule runs_liftP [OF error_runs [OF s2(2)]])
      ultimately show ?case using s2(1) by (cases "n = 0") (simp_all add: runsO_def)
    qed simp
    then show ?case using s1(2) by (simp add: runsO_def cong: if_cong)
  qed simp
qed

lemma skip_markup_runs:
  assumes "synced v T 0 s" "xp_Text s + 1 < length T"
  shows "runs v T (xp_Text s) s skip_markup skip_markup (\<lambda>a s'. parsed s a s' \<and> xp_Text s < xp_Text s')"
  unfolding skip_markup_def
proof (rule runs_then [OF advM_runs [OF assms]], goal_cases)
  case (1 u s1)
  have "runs v T (xp_Text s) s1 (thenM (skip_until ''>'') (thenM (advM 1) (retM None)))
    (thenM (skip_until ''>'') (thenM (advM 1) (retM None))) (parsed s)"
    using skip_node_runs [OF 1(1) marks_safe(4), of 1 "xp_Text s"] parsed_from [OF 1(2)] by (auto elim: runs_mono)
  then show ?case by (rule runs_mono) (use 1(3) in \<open>auto simp: moves_def\<close>)
qed

text \<open>A node behind a step over its mark.\<close>

lemma marked_runs:
  assumes "synced v T 0 s" "0 < k" "xp_Text s + k < length T"
    and "\<And>s. synced v T 0 s \<Longrightarrow> runs v T (xp_Text s) s m m' (parsed s)"
  shows "runs v T (xp_Text s) s (thenM (advM k) m) (thenM (advM k) m') (\<lambda>a s'. parsed s a s' \<and> xp_Text s < xp_Text s')"
proof (rule runs_then [OF advM_runs [OF assms(1,3)]], goal_cases)
  case (1 u s1)
  show ?case
  proof (rule runs_mono [OF assms(4) [OF 1(1)]])
    fix a t assume "parsed s1 a t" "moves (xp_Text s1) s1 t"
    then show "parsed s a t \<and> xp_Text s < xp_Text t"
      using parsed_from [OF 1(2)] 1(3) assms(2) by (auto simp: moves_def)
  qed (use 1(3) in simp)
qed

lemma branch_runs:
  assumes "synced v T 0 s" "xp_Text s + k < length T" "\<forall>p \<in> set ps. \<not> p 0"
    and "xp_Text s + k + length ps < length T \<Longrightarrow> runs v T b s m m' Q" "runs v T b s n n' Q"
  shows "runs v T b s (bindM (matchM k ps) (\<lambda>x. if x then m else n)) (bindM (matchM k ps) (\<lambda>x. if x then m' else n')) Q"
proof (rule runs_bind [OF matchM_runs [OF assms(1-3)]], goal_cases)
  case (1 a s')
  then show ?case using assms(4,5) by (cases a) simp_all
qed

lemma parse_markup_runs:
  assumes "synced v T 0 s" "T ! xp_Text s = 33"
  shows "runs v T (xp_Text s) s (parse_markup F) (parse_markup (parse_non_destructive F))
    (\<lambda>a s'. parsed s a s' \<and> xp_Text s < xp_Text s')"
proof -
  note d = syncedD(1,2) [OF assms(1)]
  have l: "xp_Text s + 1 < length T" using zero_ended_nth [OF d] assms(2) by simp
  note skip = skip_markup_runs [OF assms(1) l]
  show ?thesis unfolding parse_markup_def
  proof (rule runs_bind [OF peekM_runs [OF assms(1) l]], goal_cases)
    case (1 c s')
    then have c: "c = T ! (xp_Text s + 1)" "s' = s" by simp_all
    have l2: "xp_Text s + 2 < length T" if "c \<noteq> 0"
      using zero_ended_nth [OF d(1) l] c(1) that by simp
    consider "c = 45" | "c = 91" | "c = 68" | "c \<noteq> 45" "c \<noteq> 91" "c \<noteq> 68" by blast
    then show ?case
    proof cases
      case 1
      have "runs v T (xp_Text s) s (bindM (matchM 2 (lit ''-'')) (\<lambda>b. if b then thenM (advM 3) (parse_comment F) else skip_markup))
        (bindM (matchM 2 (lit ''-'')) (\<lambda>b. if b then thenM (advM 3) (parse_comment (parse_non_destructive F)) else skip_markup))
        (\<lambda>a s'. parsed s a s' \<and> xp_Text s < xp_Text s')"
        by (rule branch_runs [OF assms(1) l2 marks_safe(5) marked_runs [OF assms(1) _ _ parse_comment_runs] skip])
          (use 1 in \<open>simp_all add: lit_def str_def\<close>)
      then show ?thesis using 1 c(2) by simp
    next
      case 2
      have "runs v T (xp_Text s) s (bindM (matchM 2 (lit ''CDATA['')) (\<lambda>b. if b then thenM (advM 8) (parse_cdata F) else skip_markup))
        (bindM (matchM 2 (lit ''CDATA['')) (\<lambda>b. if b then thenM (advM 8) (parse_cdata (parse_non_destructive F)) else skip_markup))
        (\<lambda>a s'. parsed s a s' \<and> xp_Text s < xp_Text s')"
        by (rule branch_runs [OF assms(1) l2 marks_safe(6) marked_runs [OF assms(1) _ _ parse_cdata_runs] skip])
          (use 2 in \<open>simp_all add: lit_def str_def\<close>)
      then show ?thesis using 2 c(2) by simp
    next
      case 3
      have safe: "\<forall>p \<in> set (lit ''OCTYPE'' @ [whitespace]). \<not> p 0" using marks_safe(7) by auto
      have "runs v T (xp_Text s) s (bindM (matchM 2 (lit ''OCTYPE'' @ [whitespace])) (\<lambda>b. if b then thenM (advM 9) (parse_doctype F) else skip_markup))
        (bindM (matchM 2 (lit ''OCTYPE'' @ [whitespace])) (\<lambda>b. if b then thenM (advM 9) (parse_doctype (parse_non_destructive F)) else skip_markup))
        (\<lambda>a s'. parsed s a s' \<and> xp_Text s < xp_Text s')"
        by (rule branch_runs [OF assms(1) l2 safe marked_runs [OF assms(1) _ _ parse_doctype_runs] skip])
          (use 3 in \<open>simp_all add: lit_def str_def\<close>)
      then show ?thesis using 3 c(2) by simp
    next
      case 4
      then show ?thesis using skip c(2) by simp
    qed
  qed
qed

lemma parse_question_runs:
  assumes "synced v T 0 s" "T ! xp_Text s = 63" "pi_nodes F \<longrightarrow> v"
  shows "runs v T (xp_Text s) s (parse_question F) (parse_question (parse_non_destructive F))
    (\<lambda>a s'. parsed s a s' \<and> xp_Text s < xp_Text s')"
proof -
  have l: "xp_Text s + 1 < length T" using zero_ended_nth [OF syncedD(1,2) [OF assms(1)]] assms(2) by simp
  have safe: "\<forall>p \<in> set xml_target. \<not> p 0" by (simp add: xml_target_def)
  show ?thesis unfolding parse_question_def
  proof (rule marked_runs [OF assms(1) _ l])
    fix s :: xml_parser assume s: "synced v T 0 s"
    have l0: "xp_Text s + 0 < length T" using syncedD(2) [OF s] by simp
    show "runs v T (xp_Text s) s
      (bindM (matchM 0 xml_target) (\<lambda>b. if b then thenM (advM 4) parse_xml_declaration else parse_pi F))
      (bindM (matchM 0 xml_target) (\<lambda>b. if b then thenM (advM 4) parse_xml_declaration else parse_pi (parse_non_destructive F)))
      (parsed s)"
    proof (rule branch_runs [OF s l0 safe])
      assume "xp_Text s + 0 + length xml_target < length T"
      then have l4: "xp_Text s + 4 < length T" by (simp add: xml_target_def)
      have "runs v T (xp_Text s) s (thenM (advM 4) parse_xml_declaration) (thenM (advM 4) parse_xml_declaration)
        (\<lambda>a s'. parsed s a s' \<and> xp_Text s < xp_Text s')"
        by (rule marked_runs [OF s _ l4 parse_xml_declaration_runs]) simp
      then show "runs v T (xp_Text s) s (thenM (advM 4) parse_xml_declaration) (thenM (advM 4) parse_xml_declaration) (parsed s)"
        by (auto elim: runs_mono)
    qed (rule parse_pi_runs [OF s assms(3)])
  qed simp
qed

lemma parse_node_runs:
  assumes "synced v T 0 s" "contents_run v T i C C'" "i \<le> xp_Text s" "pi_nodes F \<longrightarrow> v"
  shows "runsO v T (xp_Text s) s (parse_node F C) (parse_node (parse_non_destructive F) C')
    (\<lambda>a s'. parsed s a s' \<and> xp_Text s < xp_Text s')"
proof -
  have l: "xp_Text s + 0 < length T" using syncedD(2) [OF assms(1)] by simp
  show ?thesis unfolding parse_node_def
  proof (rule runsO_bind [OF runs_liftP [OF peekM_runs [OF assms(1) l]]], goal_cases)
    case (1 c s')
    then show ?case
      using parse_element_runs [OF assms(1-3)] runs_liftP [OF parse_markup_runs [OF assms(1)]]
        runs_liftP [OF parse_question_runs [OF assms(1) _ assms(4)]] by auto
  qed
qed

section \<open>Contents\<close>

lemma advM_weak_runs:
  assumes "synced v T g s" "xp_Text s + k < length T" "g \<le> k"
  shows "runs v T b s (advM k) (advM k) (\<lambda>_ s'. s' = s\<lparr>xp_Text := xp_Text s + k\<rparr>)"
  using synced_advance [OF assms(1,2), of 0] assms(3) by (simp add: runs_def fine_def advM_def)

lemma closing_name_runs:
  assumes "synced v T 0 s" "value_in node_element (xp_Doc s) (NodeValue e)" "text_at (xp_Buf s) p n = text_at T p n"
  shows "runs v T b s (bindM (docP (nodeM e)) (\<lambda>x t. if n_name x = text_at (xp_Buf t) p n then Ret () t
      else RAPIDXML_PARSE_ERROR ''invalid closing tag name'' t))
    (bindM (docP (nodeM e)) (\<lambda>x t. if n_name x = text_at (xp_Buf t) p n then Ret () t
      else RAPIDXML_PARSE_ERROR ''invalid closing tag name'' t)) (\<lambda>_ s'. s' = s)"
proof -
  have "docP (nodeM e) s = Ret (xd_nodes (xp_Doc s) ! e) s" "docP (nodeM e) (view T s) = Ret (xd_nodes (xp_Doc s) ! e) (view T s)"
    using assms(2) by (auto simp: docP_def value_in_def view_def)
  then show ?thesis using assms(1,3) syncedD(2-4) [OF assms(1)] by (simp add: runs_def fine_def RAPIDXML_PARSE_ERROR_def)
qed

lemma parse_closing_runs:
  assumes "synced v T 1 s" "xp_Text s + 2 < length T" "value_in node_element (xp_Doc s) (NodeValue e)"
  shows "runs v T b s (parse_closing F e) (parse_closing (parse_non_destructive F) e) (\<lambda>_ _. True)"
  unfolding parse_closing_def flags_simps
proof (rule runs_then [OF advM_weak_runs [OF assms(1,2)]], goal_cases)
  case (2 u s1)
  then have s1: "s1 = s\<lparr>xp_Text := xp_Text s + 2\<rparr>" "synced v T 0 s1" by auto
  show ?case
  proof (rule runs_get, rule runs_then [OF skip_runs [OF s1(2)]], goal_cases)
    case (2 u s2)
    then obtain n where s2: "s2 = s1\<lparr>xp_Text := xp_Text s1 + n\<rparr>" "synced v T 0 s2" by auto
    have tx: "text_at (xp_Buf s2) (xp_Text s1) n = text_at T (xp_Text s1) n"
      using synced_text_at [OF s1(2), of "xp_Text s1"] s2(1) by simp
    have check: "runs v T b s2 (if validate_closing_tags F then bindM (docP (nodeM e)) (\<lambda>x t.
          if n_name x = text_at (xp_Buf t) (xp_Text s1) (xp_Text s2 - xp_Text s1) then Ret () t
          else RAPIDXML_PARSE_ERROR ''invalid closing tag name'' t) else retM ())
        (if validate_closing_tags F then bindM (docP (nodeM e)) (\<lambda>x t.
          if n_name x = text_at (xp_Buf t) (xp_Text s1) (xp_Text s2 - xp_Text s1) then Ret () t
          else RAPIDXML_PARSE_ERROR ''invalid closing tag name'' t) else retM ()) (\<lambda>_ s'. s' = s2)"
      using closing_name_runs [OF s2(2), of e "xp_Text s1" n] retM_runs [OF s2(2), of b "()"] assms(3) s1(1) s2(1) tx by simp
    show ?case
    proof (rule runs_get, rule runs_then [OF check], goal_cases)
      case (1 u s')
      then have "s' = s2" by simp
      show ?case unfolding \<open>s' = s2\<close>
      proof (rule runs_then [OF skip_any_runs [OF s2(2)]], goal_cases)
        case (2 u s3)
        have l3: "xp_Text s3 + 0 < length T" using syncedD(2) [OF 2(1)] by simp
        show ?case
        proof (rule runs_bind [OF peekM_runs [OF 2(1) l3]], goal_cases)
          case (1 c s')
          then have c: "c = T ! xp_Text s3" "s' = s3" by simp_all
          show ?case
          proof (cases "c = 62")
            case True
            then have "xp_Text s3 + 1 < length T" using zero_ended_nth [OF syncedD(1,2) [OF 2(1)]] c(1) by simp
            then have "runs v T b s3 (advM 1) (advM 1) (\<lambda>_ s'. s' = s3\<lparr>xp_Text := xp_Text s3 + 1\<rparr>)" by (rule advM_runs [OF 2(1)])
            then show ?thesis using True c(2) by (auto elim: runs_mono)
          next
            case False
            then show ?thesis using c by (simp add: error_runs [OF 2(1)])
          qed
        qed
      qed simp
    qed
  qed simp
qed simp

lemma synced_append:
  assumes "synced v T g s" "doc_ok d" "length (xd_nodes d) = length (xd_nodes (xp_Doc s))"
    and "\<forall>x < length (xd_nodes (xp_Doc s)). n_type (xd_nodes d ! x) = n_type (xd_nodes (xp_Doc s) ! x)"
    and "\<forall>t. string_at t d = string_at t (xp_Doc s)"
  shows "synced v T g (s\<lparr>xp_Doc := d\<rparr>)"
proof -
  have "string_ok v T (xp_Buf s) d t p n" if "(t, p, n) \<in> set (xp_Strings s)" for t p n
    by (rule string_ok_grows) (use syncedD(5) [OF assms(1) that] assms(3-5) in auto)
  then show ?thesis using assms(1,2) by (auto simp: synced_def)
qed

text \<open>A node that was born since a state becomes a child of an older one.\<close>

lemma append_returns:
  assumes "synced v T g s" "moves b s0 s" "born (xp_Doc s0) (xp_Doc s) c" "p < c"
  shows "\<exists>d. docP (append_node p c) s = Ret () (s\<lparr>xp_Doc := d\<rparr>) \<and> docP (append_node p c) (view T s) = Ret () (view T (s\<lparr>xp_Doc := d\<rparr>))
    \<and> synced v T g (s\<lparr>xp_Doc := d\<rparr>) \<and> moves b s0 (s\<lparr>xp_Doc := d\<rparr>) \<and> length (xd_nodes d) = length (xd_nodes (xp_Doc s))
    \<and> (\<forall>x < length (xd_nodes (xp_Doc s)). n_type (xd_nodes d ! x) = n_type (xd_nodes (xp_Doc s) ! x))
    \<and> (\<forall>t. string_at t d = string_at t (xp_Doc s))"
proof -
  obtain d where d: "append_node p c (xp_Doc s) = Ret () d" "doc_ok d" "length (xd_nodes d) = length (xd_nodes (xp_Doc s))"
    "\<forall>x < length (xd_nodes (xp_Doc s)). n_type (xd_nodes d ! x) = n_type (xd_nodes (xp_Doc s) ! x)"
    "\<forall>x < length (xd_nodes (xp_Doc s0)). n_parent (xd_nodes d ! x) = n_parent (xd_nodes (xp_Doc s) ! x)"
    "\<forall>t. string_at t d = string_at t (xp_Doc s)"
    using append_born [OF syncedD(4) [OF assms(1)] assms(4,3)] by blast
  have "moves b s0 (s\<lparr>xp_Doc := d\<rparr>)" using assms(2) d(3-5) by (auto simp: moves_def doc_grows_def)
  then show ?thesis using d synced_append [OF assms(1) d(2,3,4,6)] by (auto simp: docP_def intro!: exI [of _ d])
qed

lemma text_at_head:
  assumes "p < length T" "T ! p \<noteq> 0" "0 < n"
  shows "text_at T p n \<noteq> [] \<and> hd (text_at T p n) \<noteq> 0"
  using assms by (auto simp: text_at_def hd_drop_conv_nth hd_take)

text \<open>Text is read from its start; the position is then at the character that ends it, which the zero
  may have replaced.\<close>

lemma parse_and_append_data_run:
  assumes "synced v T 0 s" "s1\<lparr>xp_Text := xp_Text s\<rparr> = s" "value_in node_element (xp_Doc s) (NodeValue e)"
    and "text_char (T ! xp_Text s)"
  shows "\<exists>s'. parse_and_append_data F e (xp_Text s) s1 = Ret (T ! xp_Text s') s'
    \<and> parse_and_append_data (parse_non_destructive F) e (xp_Text s) (view T s1) = Ret (T ! xp_Text s') (view T s')
    \<and> synced v T 1 s' \<and> moves (xp_Text s) s s' \<and> xp_Text s < xp_Text s' \<and> \<not> text_char (T ! xp_Text s')"
proof -
  have e: "e < length (xd_nodes (xp_Doc s))" "n_type (xd_nodes (xp_Doc s) ! e) = node_element"
    using assms(3) by (auto simp: value_in_def)
  obtain n where n: "skip text_char s = Ret () (s\<lparr>xp_Text := xp_Text s + n\<rparr>)"
    "skip text_char (view T s) = Ret () (view T (s\<lparr>xp_Text := xp_Text s + n\<rparr>))"
    "xp_Text s + n < length T" "\<not> text_char (T ! (xp_Text s + n))" "\<forall>i < n. text_char (T ! (xp_Text s + i))"
    by (rule skip_run [of v T s text_char, OF assms(1)]) simp_all
  let ?s2 = "s\<lparr>xp_Text := xp_Text s + n\<rparr>"
  have s2: "synced v T 0 ?s2" by (rule synced_advance [OF assms(1) n(3)]) simp
  have n0: "0 < n" using n(4) assms(4) by (cases n) auto
  have tx: "text_at (xp_Buf s) (xp_Text s) n = text_at T (xp_Text s) n" by (rule synced_text_at [OF assms(1)]) simp
  have hd: "text_at T (xp_Text s) n \<noteq> [] \<and> hd (text_at T (xp_Text s) n) \<noteq> 0"
    by (rule text_at_head) (use syncedD(2) [OF assms(1)] assms(4) n0 in \<open>auto simp: text_char_def\<close>)
  let ?c = "length (xd_nodes (xp_Doc s))"
  obtain d where d: "allocate_node node_data None None (xp_Doc s) = Ret ?c d" "keeps (xp_Doc s) d" "born (xp_Doc s) d ?c"
    "n_type (xd_nodes d ! ?c) = node_data" using alloc_born [OF syncedD(4) [OF assms(1)]] by blast
  let ?s3 = "?s2\<lparr>xp_Doc := d\<rparr>"
  have s3: "synced v T 0 ?s3" using synced_doc [OF s2] d(2) by simp
  have m3: "moves (xp_Text s) s ?s3" using d(2) by (simp add: moves_def keeps_def)
  have "NodeValue ?c \<notin> fst ` set (xp_Strings s)" by (rule unassigned [OF assms(1)]) simp
  then obtain d4 where d4: "give_string (NodeValue ?c) (xp_Text s) n ?s3
      = Ret () (?s3\<lparr>xp_Doc := d4, xp_Strings := (NodeValue ?c, xp_Text s, n) # xp_Strings s\<rparr>)"
    "give_string (NodeValue ?c) (xp_Text s) n (view T ?s3)
      = Ret () (view T (?s3\<lparr>xp_Doc := d4, xp_Strings := (NodeValue ?c, xp_Text s, n) # xp_Strings s\<rparr>))"
    "resets (NodeValue ?c) d d4" "synced v T 0 (?s3\<lparr>xp_Doc := d4, xp_Strings := (NodeValue ?c, xp_Text s, n) # xp_Strings s\<rparr>)"
    "moves (xp_Text s) ?s3 (?s3\<lparr>xp_Doc := d4, xp_Strings := (NodeValue ?c, xp_Text s, n) # xp_Strings s\<rparr>)"
    using give_string_returns [OF s3, of "NodeValue ?c" "xp_Text s" n "xp_Text s"] d(3) tx hd by (auto simp: born_def)
  let ?s4 = "?s3\<lparr>xp_Doc := d4, xp_Strings := (NodeValue ?c, xp_Text s, n) # xp_Strings s\<rparr>"
  have m4: "moves (xp_Text s) s ?s4" by (rule moves_trans [OF m3 d4(5)])
  have "born (xp_Doc s) d4 ?c" using born_grows [OF d(3)] d4(3) by (simp add: resets_def)
  then obtain d5 where d5: "docP (append_node e ?c) ?s4 = Ret () (?s4\<lparr>xp_Doc := d5\<rparr>)"
    "docP (append_node e ?c) (view T ?s4) = Ret () (view T (?s4\<lparr>xp_Doc := d5\<rparr>))"
    "synced v T 0 (?s4\<lparr>xp_Doc := d5\<rparr>)" "moves (xp_Text s) s (?s4\<lparr>xp_Doc := d5\<rparr>)"
    "\<forall>t. string_at t d5 = string_at t d4"
    using append_returns [OF d4(4) m4, of ?c e] e(1) by auto
  let ?s5 = "?s4\<lparr>xp_Doc := d5\<rparr>"
  have e5: "e < length (xd_nodes d5)" "value_in node_element d5 (NodeValue e)"
    using d5(4) value_in_grows [OF assms(3)] by (auto simp: moves_def doc_grows_def value_in_def)
  have node: "docP (nodeM e) ?s5 = Ret (xd_nodes d5 ! e) ?s5" "docP (nodeM e) (view T ?s5) = Ret (xd_nodes d5 ! e) (view T ?s5)"
    using e5(1) by (simp_all add: docP_def view_def)
  let ?m = "if n_value (xd_nodes d5 ! e) = [] \<or> hd (n_value (xd_nodes d5 ! e)) = 0 then give_string (NodeValue e) (xp_Text s) n else retM ()"
  obtain s6 where s6: "?m ?s5 = Ret () s6" "?m (view T ?s5) = Ret () (view T s6)" "synced v T 0 s6" "moves (xp_Text s) ?s5 s6"
    "xp_Text s6 = xp_Text s + n" "xp_Buf s6 = xp_Buf s"
  proof (cases "n_value (xd_nodes d5 ! e) = [] \<or> hd (n_value (xd_nodes d5 ! e)) = 0")
    case True
    have "NodeValue e \<notin> fst ` set (xp_Strings ?s5)"
    proof
      assume "NodeValue e \<in> fst ` set (xp_Strings ?s5)"
      then obtain p m where "(NodeValue e, p, m) \<in> set (xp_Strings ?s5)" by force
      then have "string_ok v T (xp_Buf ?s5) (xp_Doc ?s5) (NodeValue e) p m" using syncedD(5) [OF d5(3)] by blast
      then show False using True e5 by (auto simp: string_ok_def)
    qed
    then show ?thesis using give_string_returns [OF d5(3), of "NodeValue e" "xp_Text s" n "xp_Text s"] True e5 tx hd
      by (auto intro: that)
  next
    case False
    then show ?thesis using that [of ?s5] d5(3) by simp
  qed
  have peek: "peekM 0 s6 = Ret (T ! (xp_Text s + n)) s6" "peekM 0 (view T s6) = Ret (T ! (xp_Text s + n)) (view T s6)"
    using syncedD(2,3) [OF s6(3)] synced_nth [OF s6(3)] s6(5) by (simp_all add: peekM_def)
  obtain x where x: "terminate F (xp_Text s + n) s6 = Ret () (s6\<lparr>xp_Buf := x\<rparr>)"
    "terminate (parse_non_destructive F) (xp_Text s + n) (view T s6) = Ret () (view T s6)"
    "synced v T 1 (s6\<lparr>xp_Buf := x\<rparr>)" "moves (xp_Text s) s6 (s6\<lparr>xp_Buf := x\<rparr>)"
    using terminate_run [OF synced_mono [OF s6(3), of 1], of "xp_Text s + n" F] n(3) clear_of_position [OF s6(3), of "xp_Text s + n"] s6(5)
    by auto
  have "moves (xp_Text s) s (s6\<lparr>xp_Buf := x\<rparr>)" using d5(4) s6(4) x(4) moves_trans by blast
  moreover have
    "parse_and_append_data F e (xp_Text s) s1 = Ret (T ! (xp_Text s + n)) (s6\<lparr>xp_Buf := x\<rparr>)"
    "parse_and_append_data (parse_non_destructive F) e (xp_Text s) (view T s1) = Ret (T ! (xp_Text s + n)) (view T s6)"
  proof -
    have start: "modM (\<lambda>t. t\<lparr>xp_Text := xp_Text s\<rparr>) s1 = Ret () s" "modM (\<lambda>t. t\<lparr>xp_Text := xp_Text s\<rparr>) (view T s1) = Ret () (view T s)"
      using assms(2) by simp_all
    have get: "getM xp_Text ?s2 = Ret (xp_Text s + n) ?s2" "getM xp_Text (view T ?s2) = Ret (xp_Text s + n) (view T ?s2)"
      by simp_all
    have alloc: "docP (allocate_node node_data None None) ?s2 = Ret ?c ?s3"
      "docP (allocate_node node_data None None) (view T ?s2) = Ret ?c (view T ?s3)"
      using d(1) by (simp_all add: docP_def)
    have stop: "thenM (terminate F (xp_Text s + n)) (retM a) s6 = Ret a (s6\<lparr>xp_Buf := x\<rparr>)"
      "thenM (terminate (parse_non_destructive F) (xp_Text s + n)) (retM a) (view T s6) = Ret a (view T s6)" for a :: "8 word"
      using x by simp_all
    show "parse_and_append_data F e (xp_Text s) s1 = Ret (T ! (xp_Text s + n)) (s6\<lparr>xp_Buf := x\<rparr>)"
      by (simp only: parse_and_append_data_def thenM_run(1) bindM_run(1) start(1) n(1) get(1) alloc(1) diff_add_inverse
          d4(1) d5(1) node(1) s6(1) peek(1) stop)
    show "parse_and_append_data (parse_non_destructive F) e (xp_Text s) (view T s1) = Ret (T ! (xp_Text s + n)) (view T s6)"
      by (simp only: parse_and_append_data_def thenM_run(1) bindM_run(1) start(2) n(2) get(2) alloc(2) diff_add_inverse
          d4(2) d5(2) node(2) s6(2) peek(2) stop)
  qed
  ultimately show ?thesis using s6(5) x(3) n(4) n0 by (intro exI [of _ "s6\<lparr>xp_Buf := x\<rparr>"]) simp
qed

lemma bindP_assoc: "bindP m (\<lambda>x. thenP (k x) n) = thenP (bindP m k) n"
  by (auto simp: bindP_def fun_eq_iff split: outcome.split Option.bind_splits)

lemma child_runs:
  assumes "synced v T 0 s" "contents_run v T i C C'" "i \<le> xp_Text s" "pi_nodes F \<longrightarrow> v" "e < length (xd_nodes (xp_Doc s))"
    and "b \<le> xp_Text s"
  shows "runsO v T b s (bindP (parse_node F C) (\<lambda>c. liftP (append_child e c)))
    (bindP (parse_node (parse_non_destructive F) C') (\<lambda>c. liftP (append_child e c))) (\<lambda>_ s'. xp_Text s < xp_Text s')"
proof -
  have node: "runsO v T b s (parse_node F C) (parse_node (parse_non_destructive F) C') (\<lambda>a s'. parsed s a s' \<and> xp_Text s < xp_Text s')"
    by (rule runsO_mono [OF parse_node_runs [OF assms(1-4)] assms(6)])
  then obtain r where r: "parse_node F C s = Some r" "parse_node (parse_non_destructive F) C' (view T s) = Some (map_state (view T) r)"
    "fine v T b s (\<lambda>a s'. parsed s a s' \<and> xp_Text s < xp_Text s') r" by (auto simp: runsO_def)
  show ?thesis
  proof (cases r)
    case (Ret c s')
    then have s': "synced v T 0 s'" "moves b s s'" "parsed s c s'" "xp_Text s < xp_Text s'" using r(3) by (simp_all add: fine_def)
    show ?thesis
    proof (cases c)
      case None
      then show ?thesis using r(1,2) Ret s' by (simp add: runsO_def bindP_def liftP_def append_child_def fine_def)
    next
      case (Some n)
      then have n: "born (xp_Doc s) (xp_Doc s') n" using s'(3) by (simp add: parsed_def)
      then have "e < n" using assms(5) by (simp add: born_def)
      then obtain d where "docP (append_node e n) s' = Ret () (s'\<lparr>xp_Doc := d\<rparr>)"
        "docP (append_node e n) (view T s') = Ret () (view T (s'\<lparr>xp_Doc := d\<rparr>))"
        "synced v T 0 (s'\<lparr>xp_Doc := d\<rparr>)" "moves b s (s'\<lparr>xp_Doc := d\<rparr>)"
        using append_returns [OF s'(1,2) n] by blast
      then show ?thesis using r(1,2) Ret Some s'(4) by (simp add: runsO_def bindP_def liftP_def append_child_def fine_def)
    qed
  qed (use r in \<open>auto simp: runsO_def bindP_def fine_def\<close>)
qed

definition markup :: "parse_flags \<Rightarrow> (nat \<Rightarrow> xml_parser \<Rightarrow> unit parse_result option) \<Rightarrow> nat \<Rightarrow> xml_parser \<Rightarrow> unit parse_result option" where
  "markup F C e = bindP (liftP (peekM 1)) (\<lambda>d. if d = 47 then liftP (parse_closing F e)
     else thenP (liftP (advM 1)) (thenP (bindP (parse_node F C) (\<lambda>c. liftP (append_child e c))) (C e)))"

lemma markup_runs:
  assumes "synced v T 1 s" "contents_run v T i C C'" "i \<le> xp_Text s" "pi_nodes F \<longrightarrow> v"
    and "value_in node_element (xp_Doc s) (NodeValue e)" "T ! xp_Text s = 60" "b \<le> xp_Text s"
  shows "runsO v T b s (markup F C e) (markup (parse_non_destructive F) C' e) (\<lambda>_ _. True)"
proof -
  have l: "xp_Text s + 1 < length T" using zero_ended_nth [OF syncedD(1,2) [OF assms(1)]] assms(6) by simp
  have peek: "peekM 1 s = Ret (T ! (xp_Text s + 1)) s" "peekM 1 (view T s) = Ret (T ! (xp_Text s + 1)) (view T s)"
    using l syncedD(3) [OF assms(1)] synced_nth [OF assms(1)] by (simp_all add: peekM_def)
  show ?thesis
  proof (cases "T ! (xp_Text s + 1) = 47")
    case True
    then have "xp_Text s + 2 < length T" using zero_ended_nth [OF syncedD(1) [OF assms(1)] l] by simp
    then have "runs v T b s (parse_closing F e) (parse_closing (parse_non_destructive F) e) (\<lambda>_ _. True)"
      by (rule parse_closing_runs [OF assms(1) _ assms(5)])
    then show ?thesis using True peek by (simp add: markup_def runsO_def bindP_def liftP_def runs_def)
  next
    case False
    have "runsO v T b s (thenP (liftP (advM 1)) (thenP (bindP (parse_node F C) (\<lambda>c. liftP (append_child e c))) (C e)))
      (thenP (liftP (advM 1)) (thenP (bindP (parse_node (parse_non_destructive F) C') (\<lambda>c. liftP (append_child e c))) (C' e))) (\<lambda>_ _. True)"
    proof (rule runsO_bind [OF runs_liftP [OF advM_weak_runs [OF assms(1) l]]], goal_cases)
      case (2 u s1)
      then have e: "e < length (xd_nodes (xp_Doc s1))" "value_in node_element (xp_Doc s1) (NodeValue e)"
        using assms(5) by (auto simp: value_in_def)
      show ?case
      proof (rule runsO_bind [OF child_runs [OF 2(1) assms(2) _ assms(4) e(1)]], goal_cases)
        case (3 u s2)
        then have "value_in node_element (xp_Doc s2) (NodeValue e)"
          using value_in_grows [OF e(2)] by (simp add: moves_def)
        then have "runsO v T (xp_Text s2) s2 (C e) (C' e) (\<lambda>_ _. True)"
          using assms(2) [unfolded contents_run_def, rule_format, of s2 e] 3 2(3) assms(3) by simp
        then show ?case by (rule runsO_mono) (use 3(3) 2(3) assms(7) in auto)
      qed (use 2(3) assms(3,7) in auto)
    qed simp
    then show ?thesis using False peek by (simp add: markup_def runsO_def bindP_def [of "liftP (peekM (Suc 0))"] liftP_def [of "peekM (Suc 0)"])
  qed
qed

lemma parse_node_contents_step:
  "parse_node_contents F (e, next) s = bindP (liftP (next_contents next)) (\<lambda>(start, c).
     if c = 60 then markup F (\<lambda>e. parse_node_contents F (e, None)) e
     else if c = 0 then liftP (RAPIDXML_PARSE_ERROR ''unexpected end of data'')
     else bindP (liftP (parse_and_append_data F e start)) (\<lambda>c. parse_node_contents F (e, Some (start, c)))) s"
proof -
  let ?C = "\<lambda>e. parse_node_contents F (e, None)"
  have a: "bindP (parse_node F ?C) (\<lambda>c. thenP (liftP (append_child e c)) (?C e))
      = thenP (bindP (parse_node F ?C) (\<lambda>c. liftP (append_child e c))) (?C e)"
    by (rule bindP_assoc)
  have b: "parse_node_contents F (e, next) s = bindP (liftP (next_contents next)) (\<lambda>(start, c).
     if c = 60 then bindP (liftP (peekM 1)) (\<lambda>d. if d = 47 then liftP (parse_closing F e)
       else thenP (liftP (advM 1)) (bindP (parse_node F ?C) (\<lambda>c. thenP (liftP (append_child e c)) (?C e))))
     else if c = 0 then liftP (RAPIDXML_PARSE_ERROR ''unexpected end of data'')
     else bindP (liftP (parse_and_append_data F e start)) (\<lambda>c. parse_node_contents F (e, Some (start, c)))) s"
    using parse_node_contents.simps [of F "(e, next)" s] unfolding fst_conv snd_conv .
  show ?thesis unfolding markup_def by (rule b [unfolded a])
qed

lemma contents_runs:
  assumes "pi_nodes F \<longrightarrow> v" "synced v T 0 s" "value_in node_element (xp_Doc s) (NodeValue e)"
  shows "runsO v T (xp_Text s) s (parse_node_contents F (e, None)) (parse_node_contents (parse_non_destructive F) (e, None)) (\<lambda>_ _. True)"
  using assms(2,3)
proof (induction "length T - xp_Text s" arbitrary: s e rule: less_induct)
  case less
  let ?C = "\<lambda>e. parse_node_contents F (e, None)" and ?C' = "\<lambda>e. parse_node_contents (parse_non_destructive F) (e, None)"
  have run: "contents_run v T (xp_Text s) ?C ?C'"
    unfolding contents_run_def
  proof (intro allI impI)
    fix e' t assume t: "synced v T 0 t" "xp_Text s < xp_Text t" "value_in node_element (xp_Doc t) (NodeValue e')"
    show "runsO v T (xp_Text t) t (?C e') (?C' e') (\<lambda>_ _. True)"
      by (rule less.hyps [OF _ t(1,3)]) (use t(2) syncedD(2) [OF t(1)] in simp)
  qed
  obtain n where n: "skip whitespace s = Ret () (s\<lparr>xp_Text := xp_Text s + n\<rparr>)"
    "skip whitespace (view T s) = Ret () (view T (s\<lparr>xp_Text := xp_Text s + n\<rparr>))"
    "xp_Text s + n < length T" "\<not> whitespace (T ! (xp_Text s + n))" "\<forall>i < n. whitespace (T ! (xp_Text s + i))"
    by (rule skip_run [of v T s whitespace, OF less.prems(1)]) simp_all
  let ?s1 = "s\<lparr>xp_Text := xp_Text s + n\<rparr>" and ?c = "T ! (xp_Text s + n)"
  have s1: "synced v T 0 ?s1" by (rule synced_advance [OF less.prems(1) n(3)]) simp
  have next1: "next_contents None s = Ret (xp_Text s, ?c) ?s1" "next_contents None (view T s) = Ret (xp_Text s, ?c) (view T ?s1)"
    using n(1-3) syncedD(3) [OF s1] synced_nth [OF s1] by (simp_all add: next_contents_def peekM_def)
  consider "?c = 60" | "?c = 0" | "?c \<noteq> 60" "?c \<noteq> 0" by blast
  then show ?case
  proof cases
    case 1
    have "runsO v T (xp_Text s) ?s1 (markup F ?C e) (markup (parse_non_destructive F) ?C' e) (\<lambda>_ _. True)"
      by (rule markup_runs [OF synced_mono [OF s1] run]) (use 1 assms(1) less.prems(2) in auto)
    then show ?thesis using 1 next1 fine_after [OF _ moves_advance [of "xp_Text s" s n]]
      by (auto simp: runsO_def parse_node_contents_step bindP_def liftP_def)
  next
    case 2
    then show ?thesis using next1 syncedD(2-4) [OF s1]
      by (simp add: runsO_def parse_node_contents_step bindP_def liftP_def RAPIDXML_PARSE_ERROR_def fine_def)
  next
    case 3
    have "text_char (T ! xp_Text s)"
      using 3 n(5) by (cases n) (auto simp: text_char_def whitespace_def)
    then obtain s2 where s2: "parse_and_append_data F e (xp_Text s) ?s1 = Ret (T ! xp_Text s2) s2"
      "parse_and_append_data (parse_non_destructive F) e (xp_Text s) (view T ?s1) = Ret (T ! xp_Text s2) (view T s2)"
      "synced v T 1 s2" "moves (xp_Text s) s s2" "xp_Text s < xp_Text s2" "\<not> text_char (T ! xp_Text s2)"
      using parse_and_append_data_run [OF less.prems(1) _ less.prems(2), of ?s1 F] by auto
    let ?x = "Some (xp_Text s, T ! xp_Text s2)"
    have "runsO v T (xp_Text s) s2 (parse_node_contents F (e, ?x)) (parse_node_contents (parse_non_destructive F) (e, ?x)) (\<lambda>_ _. True)"
    proof (cases "T ! xp_Text s2 = 60")
      case True
      have "runsO v T (xp_Text s) s2 (markup F ?C e) (markup (parse_non_destructive F) ?C' e) (\<lambda>_ _. True)"
        by (rule markup_runs [OF s2(3) run])
          (use True assms(1) s2(4,5) value_in_grows [OF less.prems(2)] in \<open>auto simp: moves_def\<close>)
      then show ?thesis using True by (simp add: runsO_def parse_node_contents_step bindP_def liftP_def next_contents_def)
    next
      case False
      then have "T ! xp_Text s2 = 0" using s2(6) by (simp add: text_char_def)
      then show ?thesis using syncedD(2-4) [OF s2(3)]
        by (simp add: runsO_def parse_node_contents_step bindP_def liftP_def next_contents_def RAPIDXML_PARSE_ERROR_def fine_def)
    qed
    then show ?thesis using 3 next1 s2(1,2) fine_after [OF _ s2(4)]
      by (auto simp: runsO_def parse_node_contents_step [of _ e None] bindP_def liftP_def)
  qed
qed

section \<open>Documents\<close>

lemma parse_loop_step: "parse_loop F s = thenP (liftP (skip whitespace)) (bindP (liftP (peekM 0)) (\<lambda>c.
     if c = 0 then liftP (retM ())
     else if c = 60 then thenP (liftP (advM 1)) (thenP (bindP (parse_node F (\<lambda>e. parse_node_contents F (e, None)))
       (\<lambda>c. liftP (append_child 0 c))) (parse_loop F))
     else liftP (RAPIDXML_PARSE_ERROR ''expected <''))) s"
proof -
  have a: "bindP (parse_node F C) (\<lambda>c. thenP (liftP (append_child 0 c)) (parse_loop F))
      = thenP (bindP (parse_node F C) (\<lambda>c. liftP (append_child 0 c))) (parse_loop F)" for C
    by (rule bindP_assoc)
  show ?thesis using parse_loop.simps [of F s] unfolding a .
qed

lemma parse_loop_runs:
  assumes "pi_nodes F \<longrightarrow> v" "synced v T 0 s" "b \<le> xp_Text s"
  shows "runsO v T b s (parse_loop F) (parse_loop (parse_non_destructive F)) (\<lambda>_ _. True)"
  using assms(2,3)
proof (induction "length T - xp_Text s" arbitrary: s rule: less_induct)
  case less
  let ?C = "\<lambda>e. parse_node_contents F (e, None)" and ?C' = "\<lambda>e. parse_node_contents (parse_non_destructive F) (e, None)"
  have run: "contents_run v T i ?C ?C'" for i
    by (auto simp: contents_run_def intro: contents_runs [OF assms(1)])
  have "runsO v T b s (thenP (liftP (skip whitespace)) (bindP (liftP (peekM 0)) (\<lambda>c. if c = 0 then liftP (retM ())
      else if c = 60 then thenP (liftP (advM 1)) (thenP (bindP (parse_node F ?C) (\<lambda>c. liftP (append_child 0 c))) (parse_loop F))
      else liftP (RAPIDXML_PARSE_ERROR ''expected <''))))
    (thenP (liftP (skip whitespace)) (bindP (liftP (peekM 0)) (\<lambda>c. if c = 0 then liftP (retM ())
      else if c = 60 then thenP (liftP (advM 1)) (thenP (bindP (parse_node (parse_non_destructive F) ?C')
        (\<lambda>c. liftP (append_child 0 c))) (parse_loop (parse_non_destructive F)))
      else liftP (RAPIDXML_PARSE_ERROR ''expected <'')))) (\<lambda>_ _. True)"
  proof (rule runsO_bind [OF runs_liftP [OF skip_runs [OF less.prems(1)]]], goal_cases)
    case (2 u s1)
    then have s1: "synced v T 0 s1" "xp_Text s \<le> xp_Text s1" by auto
    have l: "xp_Text s1 + 0 < length T" using syncedD(2) [OF s1(1)] by simp
    show ?case
    proof (rule runsO_bind [OF runs_liftP [OF peekM_runs [OF s1(1) l]]], goal_cases)
      case (1 c s')
      then have c: "c = T ! xp_Text s1" "s' = s1" by simp_all
      consider "c = 0" | "c = 60" | "c \<noteq> 0" "c \<noteq> 60" by blast
      then show ?case
      proof cases
        case 1
        then show ?thesis using c(2) s1(1) by (simp add: runsO_def liftP_def fine_def)
      next
        case 2
        have l1: "xp_Text s1 + 1 < length T" using zero_ended_nth [OF syncedD(1,2) [OF s1(1)]] c(1) 2 by simp
        have "runsO v T b s1 (thenP (liftP (advM 1)) (thenP (bindP (parse_node F ?C) (\<lambda>c. liftP (append_child 0 c))) (parse_loop F)))
          (thenP (liftP (advM 1)) (thenP (bindP (parse_node (parse_non_destructive F) ?C') (\<lambda>c. liftP (append_child 0 c)))
            (parse_loop (parse_non_destructive F)))) (\<lambda>_ _. True)"
        proof (rule runsO_bind [OF runs_liftP [OF advM_runs [OF s1(1) l1]]], goal_cases)
          case (1 u s2)
          obtain ch where "store_ok (xd_nodes (xp_Doc s2)) ch" using syncedD(4) [OF 1(1)] by (auto simp: doc_ok_def)
          then have d: "0 < length (xd_nodes (xp_Doc s2))" by (simp add: store_ok_def)
          show ?case
          proof (rule runsO_bind [OF child_runs [OF 1(1) run _ assms(1) d]], goal_cases)
            case (3 u s3)
            then show ?case using less.hyps [of s3] syncedD(2) [OF 3(1)] 1(3) s1(2) less.prems(2) by simp
          qed (use 1(3) s1(2) less.prems(2) in auto)
        qed
        then show ?thesis using 2 c(2) by simp
      next
        case 3
        then show ?thesis using c(2) runs_liftP [OF error_runs [OF s1(1)]] by simp
      qed
    qed
  qed simp
  then show ?case by (simp add: runsO_def parse_loop_step)
qed

text \<open>Parsing starts by unlinking the children of the document; the old nodes stay in the pool.\<close>

lemma unlink_loop_nodes:
  assumes "chain h p q xs" "distinct xs"
  shows "\<exists>h'. unlink_loop h (case xs of [] \<Rightarrow> None | x # _ \<Rightarrow> Some x) = Some h' \<and> length h' = length h
    \<and> (\<forall>x < length h. h' ! x = (if x \<in> set xs then (h ! x)\<lparr>n_parent := None\<rparr> else h ! x))"
  using assms
proof (induction xs arbitrary: h q)
  case (Cons x xs)
  let ?h = "h[x := (h ! x)\<lparr>n_parent := None\<rparr>]"
  have x: "chain h p (Some x) xs" "x \<notin> set xs" "x < length h" "distinct xs" using Cons.prems by auto
  then have "chain ?h p (Some x) xs" by - (rule chain_cong [of h], auto simp: nth_list_update)
  then obtain h' where h':
    "unlink_loop ?h (case xs of [] \<Rightarrow> None | y # _ \<Rightarrow> Some y) = Some h'" "length h' = length ?h"
    "\<forall>y < length ?h. h' ! y = (if y \<in> set xs then (?h ! y)\<lparr>n_parent := None\<rparr> else ?h ! y)"
    using Cons.IH x(4) by blast
  have "unlink_loop h (Some x) = unlink_loop ?h (case xs of [] \<Rightarrow> None | y # _ \<Rightarrow> Some y)"
    using Cons.prems(1) by (subst unlink_loop.simps) simp
  moreover have "x \<noteq> y" if "y \<in> set xs" for y using that x(2) by auto
  ultimately show ?case using h' x(2) by (intro exI [of _ h']) (auto simp: nth_list_update)
qed (simp add: unlink_loop.simps)

lemma remove_all_ok:
  assumes "doc_ok d"
  shows "\<exists>d'. remove_all_nodes 0 d = Ret () d' \<and> doc_ok d' \<and> xd_attrs d' = xd_attrs d \<and> n_first (xd_nodes d' ! 0) = None
    \<and> length (xd_nodes d') = length (xd_nodes d)"
proof -
  let ?h = "xd_nodes d"
  obtain ch where ch: "store_ok ?h ch" using assms by (auto simp: doc_ok_def)
  have h: "0 < length ?h" "kids_ok ?h 0 (ch 0)" "0 \<notin> set (ch 0)" using ch by (auto simp: store_ok_def)
  obtain h' where h': "unlink_loop ?h (n_first (?h ! 0)) = Some h'" "length h' = length ?h"
    "\<forall>x < length ?h. h' ! x = (if x \<in> set (ch 0) then (?h ! x)\<lparr>n_parent := None\<rparr> else ?h ! x)"
    using unlink_loop_nodes [of ?h 0 None "ch 0"] h by (auto simp: kids_ok_def)
  let ?d = "upd_node 0 (\<lambda>n. n\<lparr>n_first := None\<rparr>) (d\<lparr>xd_nodes := h'\<rparr>)"
  have run: "remove_all_nodes 0 d = Ret () ?d"
    using h(1) h'(1,2) by (simp add: remove_all_nodes_def)
  have nth: "xd_nodes ?d ! x = (if x = 0 then (?h ! 0)\<lparr>n_first := None\<rparr>
      else if x \<in> set (ch 0) then (?h ! x)\<lparr>n_parent := None\<rparr> else ?h ! x)" if "x < length ?h" for x
    using that h h' by auto
  have len: "length (xd_nodes ?d) = length ?h" using h'(2) by simp
  have kids: "kids_ok (xd_nodes ?d) 0 []" using nth [of 0] h(1) by (simp add: kids_ok_def)
  have "store_ok (xd_nodes ?d) (ch(0 := []))"
    by (rule store_ok_relink [OF ch h(1) len kids])
      (use nth store_okD(3) [OF ch] in \<open>auto split: if_splits\<close>)
  then show ?thesis using run nth [of 0] h(1) len assms by (auto simp: doc_ok_def)
qed

text \<open>A parser in front of a text: the buffer holds a zero behind it.\<close>

definition parser_on :: "XMLDocument \<Rightarrow> bytes \<Rightarrow> xml_parser" where
  "parser_on d b = \<lparr>xp_Doc = d, xp_Buf = b @ [0], xp_Text = 0, xp_Strings = []\<rparr>"

lemma parse_bom_runs: "synced v T 0 s \<Longrightarrow> runs v T b s parse_bom parse_bom (\<lambda>_ s'. xp_Text s \<le> xp_Text s')"
  unfolding parse_bom_def
proof (rule runs_bind [OF matchM_runs], goal_cases)
  case 2
  then show ?case using syncedD(2) by fastforce
next
  case (4 a s')
  then have s: "s' = s" "a \<longrightarrow> xp_Text s + 3 < length T" by auto
  have "runs v T b s (advM 3) (advM 3) (\<lambda>_ s'. xp_Text s \<le> xp_Text s')" if a
    using advM_runs [OF 4(1), of 3 b] s that by (auto elim: runs_mono)
  moreover have "runs v T b s (retM ()) (retM ()) (\<lambda>_ s'. xp_Text s \<le> xp_Text s')"
    using retM_runs [OF 4(1), of b "()"] s(1) by (auto elim: runs_mono)
  ultimately show ?case using s(1) by simp
qed auto

text \<open>Parsing starts with an empty document.\<close>

lemma parse_start:
  assumes "doc_ok d"
  shows "\<exists>d'. doc_ok d' \<and> n_first (xd_nodes d' ! 0) = None
    \<and> (\<forall>G. XMLDocument_parse G (parser_on d b) = thenP (liftP parse_bom) (parse_loop G) (parser_on d' b))"
proof -
  obtain d1 where d1: "remove_all_nodes 0 d = Ret () d1" "doc_ok d1" "n_first (xd_nodes d1 ! 0) = None"
    using remove_all_ok [OF assms(1)] by blast
  obtain ch where ch: "store_ok (xd_nodes d1) ch" using d1(2) by (auto simp: doc_ok_def)
  have n: "0 < length (xd_nodes d1)" "n_first_attr (xd_nodes d1 ! 0) = None" using ch d1(2) by (simp_all add: store_ok_def doc_ok_def)
  let ?d = "upd_node 0 (\<lambda>n. n\<lparr>n_first_attr := None\<rparr>) d1"
  have attrs: "remove_all_attributes 0 d1 = Ret () ?d"
    using n by (simp add: remove_all_attributes_def unlink_attrs.simps)
  have "store_ok (xd_nodes ?d) ch" by (rule store_ok_cong [OF ch]) (use n in auto)
  then have "doc_ok ?d" using n by (auto simp: doc_ok_def)
  moreover have "XMLDocument_parse G (parser_on d b) = thenP (liftP parse_bom) (parse_loop G) (parser_on ?d b)" for G
    using d1(1) attrs by (simp add: XMLDocument_parse_def bindP_def liftP_def docP_def parser_on_def)
  ultimately show ?thesis using n(1) d1(3) by (intro exI [of _ ?d]) simp
qed

lemma parse_runs:
  assumes "doc_ok d" "pi_nodes F \<longrightarrow> v"
  shows "\<exists>s. synced v (b @ [0]) 0 s \<and> xp_Strings s = [] \<and> runsO v (b @ [0]) 0 s (thenP (liftP parse_bom) (parse_loop F))
      (thenP (liftP parse_bom) (parse_loop (parse_non_destructive F))) (\<lambda>_ _. True)
    \<and> XMLDocument_parse F (parser_on d b) = thenP (liftP parse_bom) (parse_loop F) s
    \<and> XMLDocument_parse (parse_non_destructive F) (parser_on d b) = thenP (liftP parse_bom) (parse_loop (parse_non_destructive F)) (view (b @ [0]) s)"
proof -
  obtain d' where d: "doc_ok d'"
    "\<forall>G. XMLDocument_parse G (parser_on d b) = thenP (liftP parse_bom) (parse_loop G) (parser_on d' b)"
    using parse_start [OF assms(1)] by blast
  let ?s = "parser_on d' b"
  have s: "synced v (b @ [0]) 0 ?s" using d(1) by (simp add: synced_def parser_on_def zero_ended_def)
  have v: "view (b @ [0]) ?s = ?s" by (simp add: parser_on_def view_def)
  have "runsO v (b @ [0]) 0 ?s (thenP (liftP parse_bom) (parse_loop F))
      (thenP (liftP parse_bom) (parse_loop (parse_non_destructive F))) (\<lambda>_ _. True)"
    by (rule runsO_bind [OF runs_liftP [OF parse_bom_runs [OF s]]]) (rule parse_loop_runs [OF assms(2)], auto)
  moreover have "xp_Strings ?s = []" by (simp add: parser_on_def)
  ultimately show ?thesis using s v d(2) by (intro exI [of _ ?s]) simp
qed

section \<open>What the parser guarantees\<close>

lemma same_string:
  "n_name n = b \<Longrightarrow> n\<lparr>n_name := b\<rparr> = n" "n_value n = b \<Longrightarrow> n\<lparr>n_value := b\<rparr> = n"
  "a_name a = b \<Longrightarrow> a\<lparr>a_name := b\<rparr> = a" "a_value a = b \<Longrightarrow> a\<lparr>a_value := b\<rparr> = a"
  by auto

lemma reread_same: "string_at t d = Some (text_at b p n) \<Longrightarrow> reread b (t, p, n) d = d"
  by (cases t) (auto simp: reread_def setNode_def setAttr_def node_name_def node_value_def same_string split: if_splits)

lemma seen_same:
  assumes "synced False T 0 s"
  shows "seen s = xp_Doc s"
proof -
  have "foldr (reread (xp_Buf s)) xs (xp_Doc s) = xp_Doc s" if "set xs \<subseteq> set (xp_Strings s)" for xs
    using that
  proof (induction xs)
    case (Cons x xs)
    obtain t p n where x: "x = (t, p, n)" by (cases x)
    then have "string_ok False T (xp_Buf s) (xp_Doc s) t p n" using syncedD(5) [OF assms] Cons.prems by auto
    then have "reread (xp_Buf s) x (xp_Doc s) = xp_Doc s" unfolding x by (intro reread_same) (auto simp: string_ok_def)
    then show ?case using Cons by simp
  qed simp
  then show ?thesis by (simp add: seen_def)
qed

lemma doc_ok_new: "doc_ok XMLDocument_new"
  using store_ok_root [of "XMLNode_new node_document"] by (auto simp: doc_ok_def XMLDocument_new_def XMLNode_new_def)

text \<open>Property C19. The XML parser on any bytes, any flags and any document that is a sound store: it
  returns, reads and writes inside the buffer only and breaks no assertion; it ends normally or with an
  error at a position inside the text, and in both cases the document is a sound store again, so that it
  can be walked, cleared and parsed into.\<close>

theorem XMLDocument_parse_safe:
  assumes "doc_ok d"
  shows "\<exists>r. XMLDocument_parse F (parser_on d b) = Some r \<and>
    (case r of Ret _ s \<Rightarrow> doc_ok (xp_Doc s) \<and> length (xp_Buf s) = length b + 1
      | Err e s \<Rightarrow> snd e \<le> length b \<and> doc_ok (xp_Doc s) \<and> length (xp_Buf s) = length b + 1
      | Fault f \<Rightarrow> False)"
proof -
  obtain s r where "XMLDocument_parse F (parser_on d b) = Some r" "fine True (b @ [0]) 0 s (\<lambda>_ _. True) r"
    using parse_runs [OF assms, of F True b] by (auto simp: runsO_def)
  then show ?thesis using syncedD(3,4) by (fastforce simp: fine_def split: outcome.splits)
qed

theorem XMLDocument_parse_safe_witness:
  "\<exists>r. XMLDocument_parse kDefault (parser_on XMLDocument_new (str ''<a>'')) = Some r \<and>
    (case r of Ret _ s \<Rightarrow> doc_ok (xp_Doc s) \<and> length (xp_Buf s) = length (str ''<a>'') + 1
      | Err e s \<Rightarrow> snd e \<le> length (str ''<a>'') \<and> doc_ok (xp_Doc s) \<and> length (xp_Buf s) = length (str ''<a>'') + 1
      | Fault f \<Rightarrow> False)"
  by (rule XMLDocument_parse_safe [OF doc_ok_new])


lemma small_document_parsed:
  "case XMLDocument_parse kDefault (parser_on XMLDocument_new (str ''<a b='' @ [39, 99, 39] @ str ''>d</a>'')) of
     Some (Ret _ s) \<Rightarrow> xp_Buf s \<noteq> str ''<a b='' @ [39, 99, 39] @ str ''>d</a>'' @ [0] | _ \<Rightarrow> False"
  by code_simp


text \<open>A processing instruction whose value starts right behind its target loses the first character of
  the value to the zero behind the target.\<close>

lemma pi_value_overwritten:
  "case XMLDocument_parse (parse_all kDefault) (parser_on XMLDocument_new (str ''<?t/v?>'')) of
     Some (Ret _ s) \<Rightarrow> string_at (NodeValue 1) (xp_Doc s) = Some (str ''/v'') \<and> string_at (NodeValue 1) (seen s) = Some [0, 118]
   | _ \<Rightarrow> False"
  by code_simp

text \<open>Parsing what a failed run left in the buffer fails elsewhere.\<close>

lemma second_parse_differs:
  "case XMLDocument_parse kDefault (parser_on XMLDocument_new [60, 97, 32, 98, 61, 39, 49, 39, 62, 120]) of
     Some (Err e s) \<Rightarrow> e = (str ''unexpected end of data'', 10) \<and>
       (case XMLDocument_parse kDefault (parser_on (xp_Doc s) (butlast (xp_Buf s))) of
          Some (Err e' _) \<Rightarrow> e' = (str ''expected ='', 4) | _ \<Rightarrow> False)
   | _ \<Rightarrow> False"
  by code_simp

end
