(* ===== verification/ParsedDocuments.thy ===== *)
theory ParsedDocuments
  imports ParserModes "HOL-Library.Sublist"
begin

text \<open>
  What the parser makes of a document: a grammar of documents as a datatype, the text of a document,
  the trees it stands for under the parser's flags, and the proof that parsing the text leaves these
  trees below the root. The proof runs the parser on an immutable text, where nothing is overwritten;
  theory \<open>ParserModes\<close> carries the result over to parsing in place.
\<close>

section \<open>Documents and their texts\<close>

text \<open>An attribute is a name, a quote and a value.\<close>

type_synonym source_attr = "bytes \<times> 8 word \<times> bytes"

datatype xml_source =
    sElement bytes "source_attr list" "xml_source list"
  | sEmpty bytes "source_attr list"
  | sText bytes
  | sCData bytes
  | sComment bytes
  | sInstruction bytes bytes
  | sDoctype bytes
  | sDeclaration bytes

definition attr_text :: "source_attr \<Rightarrow> bytes" where
  "attr_text a = (case a of (n, q, v) \<Rightarrow> [32] @ n @ [61, q] @ v @ [q])"

primrec source_text :: "xml_source \<Rightarrow> bytes" where
  "source_text (sElement n as xs) = [60] @ n @ concat (map attr_text as) @ [62] @ concat (map source_text xs) @ [60, 47] @ n @ [62]"
| "source_text (sEmpty n as) = [60] @ n @ concat (map attr_text as) @ [47, 62]"
| "source_text (sText t) = t"
| "source_text (sCData t) = str ''<![CDATA['' @ t @ str '']]>''"
| "source_text (sComment t) = str ''<!--'' @ t @ str ''-->''"
| "source_text (sInstruction n v) = str ''<?'' @ n @ [32] @ v @ str ''?>''"
| "source_text (sDoctype t) = str ''<!DOCTYPE '' @ t @ [62]"
| "source_text (sDeclaration t) = str ''<?xml '' @ t @ str ''?>''"

definition document_text :: "xml_source list \<Rightarrow> bytes" where
  "document_text xs = concat (map source_text xs)"

definition blank :: "bytes \<Rightarrow> bool" where
  "blank t \<longleftrightarrow> (\<forall>c \<in> set t. whitespace c)"

definition is_text :: "xml_source \<Rightarrow> bool" where
  "is_text x = (case x of sText t \<Rightarrow> True | _ \<Rightarrow> False)"

section \<open>Well-formed documents\<close>

text \<open>A mark ends a text: it occurs behind the text, and nowhere before.\<close>

definition ended_by :: "string \<Rightarrow> bytes \<Rightarrow> bool" where
  "ended_by m t \<longleftrightarrow> 0 \<notin> set t \<and> \<not> sublist (str m) (t @ butlast (str m))"

definition name_ok :: "bytes \<Rightarrow> bool" where
  "name_ok n \<longleftrightarrow> n \<noteq> [] \<and> (\<forall>c \<in> set n. node_name_char c)"

definition attr_ok :: "source_attr \<Rightarrow> bool" where
  "attr_ok a \<longleftrightarrow> (case a of (n, q, v) \<Rightarrow> n \<noteq> [] \<and> (\<forall>c \<in> set n. attribute_name_char c) \<and> q \<in> {34, 39}
     \<and> q \<notin> set v \<and> 0 \<notin> set v)"

text \<open>The brackets of a document type are balanced, and outside of them there is no closing one.\<close>

primrec balanced :: "nat \<Rightarrow> bytes \<Rightarrow> bool" where
  "balanced d [] \<longleftrightarrow> d = 0"
| "balanced d (c # t) \<longleftrightarrow> c \<noteq> 0 \<and> (if c = 91 then balanced (Suc d) t
     else if c = 93 then 0 < d \<and> balanced (d - 1) t
     else (0 < d \<or> c \<noteq> 62) \<and> balanced d t)"

text \<open>The name of a declaration, in either case.\<close>

definition is_xml_name :: "bytes \<Rightarrow> bool" where
  "is_xml_name n \<longleftrightarrow> length n = 3 \<and> n ! 0 \<in> {120, 88} \<and> n ! 1 \<in> {109, 77} \<and> n ! 2 \<in> {108, 76}"

text \<open>Two texts side by side are one.\<close>

fun separate :: "xml_source list \<Rightarrow> bool" where
  "separate (x # y # xs) \<longleftrightarrow> \<not> (is_text x \<and> is_text y) \<and> separate (y # xs)"
| "separate xs \<longleftrightarrow> True"

primrec source_ok :: "xml_source \<Rightarrow> bool" where
  "source_ok (sElement n as xs) \<longleftrightarrow> name_ok n \<and> hd n \<noteq> 33 \<and> list_all attr_ok as \<and> separate xs \<and> list_all source_ok xs"
| "source_ok (sEmpty n as) \<longleftrightarrow> name_ok n \<and> hd n \<noteq> 33 \<and> list_all attr_ok as"
| "source_ok (sText t) \<longleftrightarrow> t \<noteq> [] \<and> 0 \<notin> set t \<and> 60 \<notin> set t"
| "source_ok (sCData t) \<longleftrightarrow> ended_by '']]>'' t"
| "source_ok (sComment t) \<longleftrightarrow> ended_by ''-->'' t"
| "source_ok (sInstruction n v) \<longleftrightarrow> name_ok n \<and> \<not> is_xml_name n \<and> (v = [] \<or> \<not> whitespace (hd v)) \<and> ended_by ''?>'' v"
| "source_ok (sDoctype t) \<longleftrightarrow> balanced 0 t"
| "source_ok (sDeclaration t) \<longleftrightarrow> ended_by ''?>'' t"

text \<open>Between the nodes of a document there is only whitespace.\<close>

definition top_ok :: "xml_source \<Rightarrow> bool" where
  "top_ok x \<longleftrightarrow> source_ok x \<and> (case x of sText t \<Rightarrow> blank t | _ \<Rightarrow> True)"

section \<open>The trees of a document\<close>

text \<open>An element has its first text that is not blank as its value.\<close>

definition solid :: "xml_source \<Rightarrow> bytes" where
  "solid x = (case x of sText t \<Rightarrow> if blank t then [] else t | _ \<Rightarrow> [])"

primrec first_text :: "bytes \<Rightarrow> xml_source list \<Rightarrow> bytes" where
  "first_text v [] = v"
| "first_text v (x # xs) = first_text (if v = [] then solid x else v) xs"

primrec trees_of :: "parse_flags \<Rightarrow> xml_source \<Rightarrow> xtree list" where
  "trees_of F (sElement n as xs) = [XTree node_element n (first_text [] xs) (concat (map (trees_of F) xs))]"
| "trees_of F (sEmpty n as) = [XTree node_element n [] []]"
| "trees_of F (sText t) = (if blank t then [] else [XTree node_data [] t []])"
| "trees_of F (sCData t) = [XTree node_cdata [] t []]"
| "trees_of F (sComment t) = (if comment_nodes F then [XTree node_comment [] t []] else [])"
| "trees_of F (sInstruction n v) = (if pi_nodes F then [XTree node_pi n v []] else [])"
| "trees_of F (sDoctype t) = (if doctype_node F then [XTree node_doctype [] t []] else [])"
| "trees_of F (sDeclaration t) = []"

section \<open>The text ahead\<close>

definition ahead :: "xml_parser \<Rightarrow> bytes" where
  "ahead s = drop (xp_Text s) (xp_Buf s)"

lemma ahead_simps [simp]:
  "ahead (s\<lparr>xp_Doc := d\<rparr>) = ahead s" "ahead (s\<lparr>xp_Strings := X\<rparr>) = ahead s"
  "xp_Text s \<le> k \<Longrightarrow> ahead (s\<lparr>xp_Text := k\<rparr>) = drop (k - xp_Text s) (ahead s)"
  by (simp_all add: ahead_def)

lemma scan_takeWhile: "\<exists>c \<in> set cs. \<not> P c \<Longrightarrow> scan P cs = Some (length (takeWhile P cs))"
  by (induction cs) auto

lemma skip_spaces: "\<exists>c \<in> set (ahead s). \<not> P c \<Longrightarrow> skip P s = Ret () (s\<lparr>xp_Text := xp_Text s + length (takeWhile P (ahead s))\<rparr>)"
  by (simp add: skip_def scan_takeWhile flip: ahead_def) (simp add: advM_def)

lemma skip_to:
  assumes "ahead s = xs @ c # w" "\<forall>x \<in> set xs. P x" "\<not> P c"
  shows "skip P s = Ret () (s\<lparr>xp_Text := xp_Text s + length xs\<rparr>)"
  using assms by (subst skip_spaces) (simp_all add: takeWhile_append2)

lemma skip_none: "ahead s = c # w \<Longrightarrow> \<not> P c \<Longrightarrow> skip P s = Ret () s"
  using skip_to [of s "[]"] by simp

lemma drop_takeWhile [simp]: "drop (length (takeWhile P xs)) xs = dropWhile P xs"
  by (simp add: dropWhile_eq_drop)

lemma peek_run: "k < length (ahead s) \<Longrightarrow> peekM k s = Ret (ahead s ! k) s"
  by (simp add: peekM_def ahead_def)

lemma adv_run: "advM k s = Ret () (s\<lparr>xp_Text := xp_Text s + k\<rparr>)"
  by (simp add: advM_def)

lemma match_run: "matchM k ps s = (case match_at ps (drop k (ahead s)) of None \<Rightarrow> Fault Undefined | Some b \<Rightarrow> Ret b s)"
  by (simp add: matchM_def ahead_def add.commute)

lemma terminate_run' [simp]: "terminate (parse_non_destructive F) p s = Ret () s"
  by (simp add: terminate_def parse_non_destructive_def)

text \<open>Marks.\<close>

lemma match_lit_append: "match_at (lit m @ ps) (str m @ r) = match_at ps r"
  by (induction m) (auto simp: lit_def str_def)

lemma match_lit_prefix: "match_at (lit m) (str m @ r) = Some True"
  using match_lit_append [of m "[]" r] by simp

lemma match_lit_other:
  "length m \<le> length cs \<Longrightarrow> match_at (lit m) cs = Some (take (length m) cs = str m)"
proof (induction m arbitrary: cs)
  case (Cons x m)
  then obtain c w where "cs = c # w" by (cases cs) auto
  then show ?case using Cons by (auto simp: lit_def str_def)
qed (simp add: lit_def str_def)

lemma length_str [simp]: "length (str m) = length m"
  by (simp add: str_def)

lemma ended_by_tl: "ended_by m (c # t) \<Longrightarrow> ended_by m t"
  by (auto simp: ended_by_def sublist_Cons_right)

lemma ended_by_suffix: "ended_by m (a @ t) \<Longrightarrow> ended_by m t"
  by (induction a) (auto dest: ended_by_tl)

lemma ended_by_Cons: "ended_by m t \<Longrightarrow> c \<noteq> 0 \<Longrightarrow> c \<noteq> hd (str m) \<Longrightarrow> m \<noteq> [] \<Longrightarrow> ended_by m (c # t)"
  by (cases "str m") (auto simp: ended_by_def sublist_Cons_right str_def)

lemma ended_by_front:
  "ended_by m t \<Longrightarrow> \<forall>c \<in> set a. c \<noteq> 0 \<and> c \<noteq> hd (str m) \<Longrightarrow> m \<noteq> [] \<Longrightarrow> ended_by m (a @ t)"
  by (induction a) (simp_all add: ended_by_Cons)

lemma find_end_mark:
  assumes "ended_by m t" "m \<noteq> []"
  shows "find_end (lit m) (t @ str m @ r) = Some (True, length t)"
  using assms(1)
proof (induction t)
  case Nil
  obtain c w where "str m @ r = c # w" using assms(2) by (cases "str m @ r") (auto simp: str_def)
  then show ?case using match_lit_prefix [of m r] by simp
next
  case (Cons c t)
  have "take (length m) (c # t @ str m @ r) \<noteq> str m"
  proof
    assume *: "take (length m) (c # t @ str m @ r) = str m"
    obtain k where k: "length m = Suc k" using assms(2) by (cases m) auto
    then have "take (length m) (c # t @ butlast (str m)) = take (length m) (c # t @ str m @ r)"
      by (simp add: butlast_conv_take min_def)
    also have "\<dots> = str m" by (rule *)
    finally have "prefix (str m) (c # t @ butlast (str m))" by (metis take_is_prefix)
    then show False using Cons.prems by (auto simp: ended_by_def)
  qed
  moreover have "length m \<le> length (c # t @ str m @ r)" by simp
  ultimately have "match_at (lit m) (c # t @ str m @ r) = Some False" using match_lit_other by metis
  moreover have "c \<noteq> 0" using Cons.prems by (auto simp: ended_by_def)
  ultimately show ?case using Cons.IH [OF ended_by_tl [OF Cons.prems]] by simp
qed

lemma skip_until_run:
  assumes "ahead s = t @ str m @ r" "ended_by m t" "m \<noteq> []"
  shows "skip_until m s = Ret () (s\<lparr>xp_Text := xp_Text s + length t\<rparr>)"
  using assms(1) find_end_mark [OF assms(2,3)] by (simp add: skip_until_def ahead_def advM_def)

lemma give_run:
  assumes "set_string t (text_at (xp_Buf s) p n) (xp_Doc s) = Ret () d"
  shows "give_string t p n s = Ret () (s\<lparr>xp_Doc := d, xp_Strings := (t, p, n) # xp_Strings s\<rparr>)"
  using assms by (simp add: give_string_def docP_def)

lemma text_ahead: "text_at (xp_Buf s) (xp_Text s) n = take n (ahead s)"
  by (simp add: text_at_def ahead_def)

section \<open>Growing documents\<close>

text \<open>The nodes of a document are still there in a later one; those that satisfy \<open>Q\<close> are unchanged.\<close>

definition kept :: "(nat \<Rightarrow> bool) \<Rightarrow> XMLDocument \<Rightarrow> (nat \<Rightarrow> nat list) \<Rightarrow> XMLDocument \<Rightarrow> (nat \<Rightarrow> nat list) \<Rightarrow> bool" where
  "kept Q d ch d' ch' \<longleftrightarrow> length (xd_nodes d) \<le> length (xd_nodes d') \<and> (\<forall>x < length (xd_nodes d).
     n_type (xd_nodes d' ! x) = n_type (xd_nodes d ! x) \<and> n_name (xd_nodes d' ! x) = n_name (xd_nodes d ! x)
     \<and> n_parent (xd_nodes d' ! x) = n_parent (xd_nodes d ! x)
     \<and> (Q x \<longrightarrow> n_value (xd_nodes d' ! x) = n_value (xd_nodes d ! x) \<and> ch' x = ch x))"

text \<open>A new node that is not linked yet, with its tree.\<close>

definition made :: "XMLDocument \<Rightarrow> (nat \<Rightarrow> nat list) \<Rightarrow> XMLDocument \<Rightarrow> (nat \<Rightarrow> nat list) \<Rightarrow> nat \<Rightarrow> xtree \<Rightarrow> bool" where
  "made d ch d' ch' e t \<longleftrightarrow> store_ok (xd_nodes d') ch' \<and> kept (\<lambda>_. True) d ch d' ch' \<and> length (xd_nodes d) \<le> e
     \<and> e < length (xd_nodes d') \<and> n_parent (xd_nodes d' ! e) = None \<and> n_type (xd_nodes d' ! e) \<noteq> node_document
     \<and> tree (xd_nodes d') ch' e = t"

text \<open>New children of a node, behind those it has.\<close>

definition extends :: "XMLDocument \<Rightarrow> (nat \<Rightarrow> nat list) \<Rightarrow> nat \<Rightarrow> XMLDocument \<Rightarrow> (nat \<Rightarrow> nat list) \<Rightarrow> bytes \<Rightarrow> xtree list \<Rightarrow> bool" where
  "extends d ch p d' ch' v ts \<longleftrightarrow> store_ok (xd_nodes d') ch' \<and> kept (\<lambda>x. x \<noteq> p) d ch d' ch'
     \<and> n_value (xd_nodes d' ! p) = v \<and> (\<exists>new. ch' p = ch p @ new \<and> map (tree (xd_nodes d') ch') new = ts)"

lemma kept_trans: "kept Q d ch d1 ch1 \<Longrightarrow> kept Q d1 ch1 d2 ch2 \<Longrightarrow> kept Q d ch d2 ch2"
  by (simp add: kept_def)

lemma kept_mono: "kept Q d ch d1 ch1 \<Longrightarrow> (\<And>x. R x \<Longrightarrow> Q x) \<Longrightarrow> kept R d ch d1 ch1"
  by (simp add: kept_def)

lemma extends_refl: "store_ok (xd_nodes d) ch \<Longrightarrow> extends d ch p d ch (n_value (xd_nodes d ! p)) []"
  by (simp add: extends_def kept_def)

lemma extends_trans:
  assumes "extends d ch p d1 ch1 v1 A" "extends d1 ch1 p d2 ch2 v2 B"
  shows "extends d ch p d2 ch2 v2 (A @ B)"
proof -
  have ok: "store_ok (xd_nodes d1) ch1" "store_ok (xd_nodes d2) ch2" and k: "kept (\<lambda>x. x \<noteq> p) d1 ch1 d2 ch2"
    using assms by (simp_all add: extends_def)
  obtain as bs where n: "ch1 p = ch p @ as" "map (tree (xd_nodes d1) ch1) as = A" "ch2 p = ch1 p @ bs"
    "map (tree (xd_nodes d2) ch2) bs = B" using assms by (auto simp: extends_def)
  have "tree (xd_nodes d2) ch2 x = tree (xd_nodes d1) ch1 x" if "x \<in> set (ch1 p)" for x
    by (rule tree_cong [OF ok]) (use store_okD [OF ok(1) that] k in \<open>auto simp: kept_def\<close>)
  then have "map (tree (xd_nodes d2) ch2) (as @ bs) = A @ B" "ch2 p = ch p @ (as @ bs)" using n by auto
  moreover have "kept (\<lambda>x. x \<noteq> p) d ch d2 ch2" using assms kept_trans by (auto simp: extends_def)
  moreover have "n_value (xd_nodes d2 ! p) = v2" using assms(2) by (simp add: extends_def)
  ultimately show ?thesis using ok(2) unfolding extends_def by blast
qed

lemma append_parents: "append_node p c d = Ret u d' \<Longrightarrow> x \<noteq> c \<Longrightarrow> n_parent (xd_nodes d' ! x) = n_parent (xd_nodes d ! x)"
  by (auto simp: append_node_def shape_simps setNode_def nodeM_def ptrM_def nth_list_update split: if_splits option.splits)

lemma made_append:
  assumes "made d ch d1 ch1 e t" "p < length (xd_nodes d)"
  shows "\<exists>d2 ch2. append_node p e d1 = Ret () d2 \<and> extends d ch p d2 ch2 (n_value (xd_nodes d ! p)) [t]"
proof -
  have m: "store_ok (xd_nodes d1) ch1" "kept (\<lambda>_. True) d ch d1 ch1" "p < e" "e < length (xd_nodes d1)"
    "n_parent (xd_nodes d1 ! e) = None" "n_type (xd_nodes d1 ! e) \<noteq> node_document" "tree (xd_nodes d1) ch1 e = t"
    "length (xd_nodes d) \<le> e"
    using assms by (auto simp: made_def)
  obtain d2 where d2: "append_node p e d1 = Ret () d2" "store_ok (xd_nodes d2) (ch1(p := ch1 p @ [e]))" "same_data d1 d2"
    using append_node_ok [OF m(1,3-6)] by blast
  have "tree (xd_nodes d2) (ch1(p := ch1 p @ [e])) e = tree (xd_nodes d1) ch1 e"
    by (rule tree_cong [OF m(1) d2(2) m(4)]) (use d2(3) m(3) in \<open>auto simp: same_data_def\<close>)
  moreover have "kept (\<lambda>x. x \<noteq> p) d ch d2 (ch1(p := ch1 p @ [e]))"
    using m(2,8) d2(3) append_parents [OF d2(1)] by (auto simp: kept_def same_data_def)
  moreover have "n_value (xd_nodes d2 ! p) = n_value (xd_nodes d ! p)" "ch1 p = ch p"
    using m(2,3,4) d2(3) assms(2) by (auto simp: kept_def same_data_def)
  ultimately show ?thesis using d2(1,2) m(7) unfolding extends_def
    by (intro exI [of _ d2] exI [of _ "ch1(p := ch1 p @ [e])"]) simp
qed

text \<open>Setting the value of a node is an extension by nothing.\<close>

lemma extends_value:
  assumes "store_ok (xd_nodes d) ch" "p < length (xd_nodes d)"
  shows "extends d ch p (upd_node p (node_value v) d) ch v []"
proof -
  have "store_ok (xd_nodes (upd_node p (node_value v) d)) ch"
    by (rule store_ok_cong [OF assms(1)]) (use assms(2) in \<open>auto simp: node_value_def\<close>)
  then show ?thesis using assms(2) by (auto simp: extends_def kept_def node_value_def)
qed

lemma no_children_yet: "store_ok (xd_nodes d) ch \<Longrightarrow> ch (length (xd_nodes d)) = []"
  by (simp add: store_ok_def)

lemma made_leaf:
  assumes "store_ok (xd_nodes d) ch" "k \<noteq> node_document" "xd_nodes d' = xd_nodes d @ [fresh_node k nm v]"
  shows "made d ch d' ch (length (xd_nodes d)) (XTree k nm v [])"
proof -
  have ok: "store_ok (xd_nodes d') ch" using store_ok_alloc [OF assms(1)] assms(3) by simp
  moreover have "tree (xd_nodes d') ch (length (xd_nodes d)) = XTree k nm v []"
    by (subst tree_eq [OF ok]) (simp add: assms(3) no_children_yet [OF assms(1)])
  ultimately show ?thesis using assms by (auto simp: made_def kept_def nth_append)
qed

lemma made_element:
  assumes "store_ok (xd_nodes d) ch" "xd_nodes d1 = xd_nodes d @ [fresh_node node_element n []]"
    and "extends d1 ch (length (xd_nodes d)) d2 ch2 v ts"
  shows "made d ch d2 ch2 (length (xd_nodes d)) (XTree node_element n v ts)"
proof -
  have ok: "store_ok (xd_nodes d2) ch2" using assms(3) by (simp add: extends_def)
  have k: "length (xd_nodes d) < length (xd_nodes d2)" "kept (\<lambda>_. True) d ch d2 ch2"
    "xd_nodes d1 ! length (xd_nodes d) = fresh_node node_element n []"
    using assms(2,3) by (auto simp: extends_def kept_def nth_append)
  have "n_type (xd_nodes d2 ! length (xd_nodes d)) = node_element" "n_name (xd_nodes d2 ! length (xd_nodes d)) = n"
    "n_parent (xd_nodes d2 ! length (xd_nodes d)) = None" "n_value (xd_nodes d2 ! length (xd_nodes d)) = v"
    using assms(2,3) k(3) by (auto simp: extends_def kept_def)
  moreover have "map (tree (xd_nodes d2) ch2) (ch2 (length (xd_nodes d))) = ts"
    using assms(3) no_children_yet [OF assms(1)] by (auto simp: extends_def)
  ultimately show ?thesis using ok k by (simp add: made_def tree_eq [OF ok])
qed

lemma allocated: "allocate_node k None None d = Ret (length (xd_nodes d)) (d\<lparr>xd_nodes := xd_nodes d @ [fresh_node k [] []]\<rparr>)"
  by (simp add: allocate_node_def fresh_node_def XMLNode_new_def)

text \<open>Names and values of the node allocated last.\<close>

lemma name_last: "set_string (NodeName (length h)) n (d\<lparr>xd_nodes := h @ [fresh_node k m v]\<rparr>)
    = Ret () (d\<lparr>xd_nodes := h @ [fresh_node k n v]\<rparr>)"
  by (simp add: setNode_def node_name_def fresh_node_def)

lemma value_last: "set_string (NodeValue (length h)) v (d\<lparr>xd_nodes := h @ [fresh_node k n w]\<rparr>)
    = Ret () (d\<lparr>xd_nodes := h @ [fresh_node k n v]\<rparr>)"
  by (simp add: setNode_def node_value_def fresh_node_def)

section \<open>Nodes without children\<close>

text \<open>A node was parsed up to the text \<open>r\<close>: either it is skipped, or it is a new node with its tree.\<close>

definition delivered :: "xml_parser \<Rightarrow> bytes \<Rightarrow> xtree list \<Rightarrow> nat option \<Rightarrow> xml_parser \<Rightarrow> bool" where
  "delivered s r ts res s' \<longleftrightarrow> ahead s' = r \<and> (case res of
      None \<Rightarrow> xp_Doc s' = xp_Doc s \<and> ts = []
    | Some e \<Rightarrow> \<forall>ch. store_ok (xd_nodes (xp_Doc s)) ch \<longrightarrow> (\<exists>ch' t. made (xp_Doc s) ch (xp_Doc s') ch' e t \<and> ts = [t]))"

definition delivers :: "nat option xp \<Rightarrow> xml_parser \<Rightarrow> bytes \<Rightarrow> xtree list \<Rightarrow> bool" where
  "delivers m s r ts \<longleftrightarrow> (\<exists>res s'. m s = Ret res s' \<and> delivered s r ts res s')"

lemma delivers_later:
  assumes "m s = m' s'" "delivers m' s' r ts" "xp_Doc s' = xp_Doc s"
  shows "delivers m s r ts"
  using assms(2) unfolding delivers_def delivered_def assms(1,3) .

lemma skipped_run:
  assumes "ahead s = t @ str m @ r" "ended_by m t" "m \<noteq> []"
  shows "delivers (thenM (skip_until m) (thenM (advM (length m)) (retM None))) s r []"
proof -
  let ?s = "s\<lparr>xp_Text := xp_Text s + length t\<rparr>"
  have "ahead (?s\<lparr>xp_Text := xp_Text ?s + length m\<rparr>) = r" by (simp add: assms(1))
  then show ?thesis using skip_until_run [OF assms] by (simp add: delivers_def delivered_def adv_run)
qed

lemma leaf_run:
  assumes "ahead s = t @ w" "k \<noteq> node_document"
  shows "delivers (\<lambda>s. leaf (parse_non_destructive F) k (xp_Text s) m (s\<lparr>xp_Text := xp_Text s + length t\<rparr>)) s
    (drop m w) [XTree k [] t []]"
proof -
  let ?d = "xp_Doc s" and ?s = "s\<lparr>xp_Text := xp_Text s + length t\<rparr>"
  let ?d1 = "?d\<lparr>xd_nodes := xd_nodes ?d @ [fresh_node k [] []]\<rparr>" and ?d2 = "?d\<lparr>xd_nodes := xd_nodes ?d @ [fresh_node k [] t]\<rparr>"
  let ?s1 = "?s\<lparr>xp_Doc := ?d1\<rparr>"
  let ?s2 = "?s1\<lparr>xp_Doc := ?d2, xp_Strings := (NodeValue (length (xd_nodes ?d)), xp_Text s, length t) # xp_Strings s\<rparr>"
  have t: "text_at (xp_Buf s) (xp_Text s) (length t) = t" by (simp add: text_ahead assms(1))
  have give: "give_string (NodeValue (length (xd_nodes ?d))) (xp_Text s) (length t) ?s1 = Ret () ?s2"
    using give_run [of "NodeValue (length (xd_nodes ?d))" ?s1 "xp_Text s" "length t" ?d2] t value_last [where d = ?d and h = "xd_nodes ?d"]
    by simp
  have alloc: "docP (allocate_node k None None) ?s = Ret (length (xd_nodes ?d)) ?s1"
    by (simp add: docP_def allocated)
  have "leaf (parse_non_destructive F) k (xp_Text s) m ?s = Ret (Some (length (xd_nodes ?d))) (?s2\<lparr>xp_Text := xp_Text ?s2 + m\<rparr>)"
    using alloc give by (simp add: leaf_def adv_run)
  moreover have "ahead (?s2\<lparr>xp_Text := xp_Text ?s2 + m\<rparr>) = drop m w"
    by (simp add: assms(1))
  ultimately show ?thesis
    using made_leaf [of ?d _ k ?d2 "[]" t] assms(2) by (auto simp: delivers_def delivered_def)
qed

lemma leaf_until_run:
  assumes "ahead s = t @ str m @ r" "ended_by m t" "m \<noteq> []" "k \<noteq> node_document"
  shows "delivers (bindM (getM xp_Text) (\<lambda>value. thenM (skip_until m) (leaf (parse_non_destructive F) k value (length m)))) s r
    [XTree k [] t []]"
  by (rule delivers_later [OF _ leaf_run [OF assms(1,4), of F "length m", simplified]])
    (simp_all add: skip_until_run [OF assms(1-3)])

lemma nd_simps [simp]:
  "comment_nodes (parse_non_destructive F) = comment_nodes F" "doctype_node (parse_non_destructive F) = doctype_node F"
  "pi_nodes (parse_non_destructive F) = pi_nodes F"
  "validate_closing_tags (parse_non_destructive F) = validate_closing_tags F"
  by (simp_all add: parse_non_destructive_def)

lemma comment_run:
  assumes "ahead s = t @ str ''-->'' @ r" "ended_by ''-->'' t"
  shows "delivers (parse_comment (parse_non_destructive F)) s r (trees_of F (sComment t))"
proof (cases "comment_nodes F")
  case True
  show ?thesis using leaf_until_run [OF assms, of node_comment F] True
    by (simp add: parse_comment_def leaf_def eval_nat_numeral)
next
  case False
  then show ?thesis using skipped_run [OF assms] by (simp add: parse_comment_def eval_nat_numeral)
qed

lemma cdata_run:
  assumes "ahead s = t @ str '']]>'' @ r" "ended_by '']]>'' t"
  shows "delivers (parse_cdata (parse_non_destructive F)) s r (trees_of F (sCData t))"
  using leaf_until_run [OF assms, of node_cdata F] by (simp add: parse_cdata_def leaf_def eval_nat_numeral)

lemma declaration_run:
  assumes "ahead s = t @ str ''?>'' @ r" "ended_by ''?>'' t"
  shows "delivers parse_xml_declaration s r (trees_of F (sDeclaration t))"
  using skipped_run [OF assms] by (simp add: parse_xml_declaration_def eval_nat_numeral)

lemma doctype_end:
  assumes "balanced d t"
  shows "doctype_scan d (t @ 62 # r) = Some (True, length t)"
  using assms
proof (induction t arbitrary: d)
  case (Cons c t)
  then show ?case by (cases d) (auto split: if_splits)
qed simp

lemma doctype_run:
  assumes "ahead s = t @ 62 # r" "balanced 0 t"
  shows "delivers (parse_doctype (parse_non_destructive F)) s r (trees_of F (sDoctype t))"
proof -
  let ?s = "s\<lparr>xp_Text := xp_Text s + length t\<rparr>"
  have e: "skip_doctype s = Ret () ?s"
    using doctype_end [OF assms(2), of r] assms(1) by (simp add: skip_doctype_def ahead_def advM_def)
  have "ahead (?s\<lparr>xp_Text := xp_Text ?s + 1\<rparr>) = r" by (simp add: assms(1))
  then have skipped: "delivers (parse_doctype (parse_non_destructive F)) s r []" if "\<not> doctype_node F"
    using that e by (simp add: parse_doctype_def delivers_def delivered_def adv_run)
  have "delivers (parse_doctype (parse_non_destructive F)) s r [XTree node_doctype [] t []]" if "doctype_node F"
    by (rule delivers_later [OF _ leaf_run [OF assms(1), of node_doctype F 1, simplified]])
      (use that e in \<open>simp_all add: parse_doctype_def leaf_def\<close>)
  with skipped show ?thesis by simp
qed

section \<open>Running the parser on a known text\<close>

text \<open>Positions are offsets from the start of a run.\<close>

lemma text_simps:
  "xp_Text s \<le> k \<Longrightarrow> drop k (xp_Buf s) = drop (k - xp_Text s) (ahead s)"
  "xp_Text s \<le> k \<Longrightarrow> text_at (xp_Buf s) k m = take m (drop (k - xp_Text s) (ahead s))"
  by (simp_all add: ahead_def text_at_def)

lemma takeWhile_all: "\<forall>c \<in> set xs. P c \<Longrightarrow> \<not> P c \<Longrightarrow> takeWhile P (xs @ c # ys) = xs"
  by (simp add: takeWhile_append2)

lemma dropWhile_all: "\<forall>c \<in> set xs. P c \<Longrightarrow> \<not> P c \<Longrightarrow> dropWhile P (xs @ c # ys) = c # ys"
  by (simp add: dropWhile_append2)

lemmas char_defs = whitespace_def node_name_char_def attribute_name_char_def attribute_value_char_def text_char_def

lemma instruction_run:
  assumes "ahead s = n @ [32] @ v @ str ''?>'' @ r" "name_ok n" "v = [] \<or> \<not> whitespace (hd v)" "ended_by ''?>'' v"
  shows "delivers (parse_pi (parse_non_destructive F)) s r (trees_of F (sInstruction n v))"
proof (cases "pi_nodes F")
  case True
  let ?d = "xp_Doc s" and ?c = "length (xd_nodes (xp_Doc s))"
  let ?d3 = "?d\<lparr>xd_nodes := xd_nodes ?d @ [fresh_node node_pi n v]\<rparr>"
  have n: "n \<noteq> []" "\<forall>c \<in> set n. node_name_char c" using assms(2) by (simp_all add: name_ok_def)
  have q: "str ''?>'' = [63, 62]" by code_simp
  have w: "whitespace 32" "\<not> whitespace 63" by (simp_all add: whitespace_def)
  then have w': "takeWhile whitespace (v @ 63 # 62 # r) = []" using assms(3) by (cases v) auto
  let ?s1 = "s\<lparr>xp_Doc := ?d\<lparr>xd_nodes := xd_nodes ?d @ [fresh_node node_pi [] []]\<rparr>\<rparr>"
  let ?s2 = "s\<lparr>xp_Doc := ?d\<lparr>xd_nodes := xd_nodes ?d @ [fresh_node node_pi n []]\<rparr>, xp_Text := xp_Text s + length n,
      xp_Strings := (NodeName ?c, xp_Text s, length n) # xp_Strings s\<rparr>"
  let ?s3 = "?s2\<lparr>xp_Text := xp_Text s + length n + 1\<rparr>"
  let ?s4 = "?s2\<lparr>xp_Text := xp_Text s + length n + 1 + length v\<rparr>"
  have a1: "docP (allocate_node node_pi None None) s = Ret ?c ?s1" by (simp add: docP_def allocated)
  have a2: "skip node_name_char ?s1 = Ret () (?s1\<lparr>xp_Text := xp_Text s + length n\<rparr>)"
    using n by (subst skip_spaces) (simp_all add: assms(1) takeWhile_all node_name_char_def whitespace_def)
  have a3: "give_string (NodeName ?c) (xp_Text s) (length n) (?s1\<lparr>xp_Text := xp_Text s + length n\<rparr>) = Ret () ?s2"
    by (subst give_run [where d = "?d\<lparr>xd_nodes := xd_nodes ?d @ [fresh_node node_pi n []]\<rparr>"])
      (simp_all add: text_ahead assms(1) name_last [where d = ?d and h = "xd_nodes ?d"] del: set_string.simps)
  have h2: "ahead ?s2 = [32] @ v @ str ''?>'' @ r" by (simp add: text_simps assms(1))
  have a4: "skip whitespace ?s2 = Ret () ?s3"
    by (subst skip_spaces) (use h2 q w w' in \<open>simp_all del: ahead_simps\<close>)
  have h3: "ahead ?s3 = v @ str ''?>'' @ r" by (simp add: text_simps assms(1) add.assoc)
  have a5: "skip_until ''?>'' ?s3 = Ret () ?s4" using skip_until_run [OF h3 assms(4)] by simp
  have a6: "give_string (NodeValue ?c) (xp_Text s + length n + 1) (length v) ?s4
      = Ret () (?s4\<lparr>xp_Doc := ?d3, xp_Strings := (NodeValue ?c, xp_Text s + length n + 1, length v) # xp_Strings ?s4\<rparr>)"
    by (subst give_run [where d = ?d3])
      (simp_all add: text_simps assms(1) add.assoc value_last [where d = ?d and h = "xd_nodes ?d"] del: set_string.simps)
  have "parse_pi (parse_non_destructive F) s = Ret (Some ?c) (?s4\<lparr>xp_Doc := ?d3,
      xp_Strings := (NodeValue ?c, xp_Text s + length n + 1, length v) # xp_Strings ?s4, xp_Text := xp_Text ?s4 + 2\<rparr>)"
    using True n(1) a1 a2 a3 a4 a5 a6 by (simp add: parse_pi_def adv_run)
  moreover have "ahead (?s4\<lparr>xp_Doc := ?d3, xp_Strings := X, xp_Text := xp_Text ?s4 + 2\<rparr>) = r" for X
    by (simp add: text_simps assms(1) add.assoc q numeral_3_eq_3)
  ultimately show ?thesis using made_leaf [of ?d _ node_pi ?d3 n v] True by (auto simp: delivers_def delivered_def)
next
  case False
  have "ended_by ''?>'' (n @ 32 # v)"
    by (rule ended_by_front [OF ended_by_Cons [OF assms(4)]])
      (use assms(2) in \<open>auto simp: name_ok_def node_name_char_def str_def\<close>)
  then show ?thesis using False skipped_run [of s "n @ [32] @ v" "''?>''" r] assms(1)
    by (simp add: parse_pi_def eval_nat_numeral)
qed

section \<open>Markup\<close>

lemma advanced: "ahead s = xs @ r \<Longrightarrow> ahead (s\<lparr>xp_Text := xp_Text s + length xs\<rparr>) = r"
  by simp

text \<open>Behind a \<open>!\<close> there is a comment, character data or a document type.\<close>

lemma parse_markup_branches:
  assumes "ahead s = 33 # c # w"
  shows "c = 45 \<Longrightarrow> w = 45 # r \<Longrightarrow> parse_markup F s = parse_comment F (s\<lparr>xp_Text := xp_Text s + 3\<rparr>)"
    and "c = 91 \<Longrightarrow> w = str ''CDATA['' @ r \<Longrightarrow> parse_markup F s = parse_cdata F (s\<lparr>xp_Text := xp_Text s + 8\<rparr>)"
    and "c = 68 \<Longrightarrow> w = str ''OCTYPE'' @ 32 # r \<Longrightarrow> parse_markup F s = parse_doctype F (s\<lparr>xp_Text := xp_Text s + 9\<rparr>)"
proof -
  have p: "peekM 1 s = Ret c s" using peek_run [of 1 s] assms by simp
  show "parse_markup F s = parse_comment F (s\<lparr>xp_Text := xp_Text s + 3\<rparr>)" if "c = 45" "w = 45 # r"
    using that p assms match_lit_prefix [of "''-''" r]
    by (simp add: parse_markup_def match_run adv_run str_def lit_def)
  show "parse_markup F s = parse_cdata F (s\<lparr>xp_Text := xp_Text s + 8\<rparr>)" if "c = 91" "w = str ''CDATA['' @ r"
    using that p assms match_lit_prefix [of "''CDATA[''" r] by (simp add: parse_markup_def match_run adv_run)
  show "parse_markup F s = parse_doctype F (s\<lparr>xp_Text := xp_Text s + 9\<rparr>)" if "c = 68" "w = str ''OCTYPE'' @ 32 # r"
    using that p assms match_lit_append [of "''OCTYPE''" "[whitespace]" "32 # r"]
    by (simp add: parse_markup_def match_run adv_run whitespace_def)
qed

lemma markup_run:
  assumes "ahead s = tl (source_text x) @ r" "source_ok x" "x \<in> {sCData t, sComment t, sDoctype t}"
  shows "delivers (parse_markup (parse_non_destructive F)) s r (trees_of F x)"
proof -
  have l: "str ''<!--'' = [60, 33, 45, 45]" "str ''<![CDATA['' = [60, 33, 91] @ str ''CDATA[''"
    "str ''<!DOCTYPE '' = [60, 33, 68] @ str ''OCTYPE'' @ [32]"
    by code_simp+
  consider "x = sComment t" | "x = sCData t" | "x = sDoctype t" using assms(3) by blast
  then show ?thesis
  proof cases
    case 1
    then have a: "ahead s = 33 # 45 # 45 # t @ str ''-->'' @ r" using assms(1) l by simp
    show ?thesis unfolding 1
      by (rule delivers_later [OF _ comment_run], rule parse_markup_branches(1) [OF a refl refl])
        (use a assms(2) 1 in simp_all)
  next
    case 2
    then have a: "ahead s = 33 # 91 # str ''CDATA['' @ t @ str '']]>'' @ r" using assms(1) l by simp
    show ?thesis unfolding 2
      by (rule delivers_later [OF _ cdata_run], rule parse_markup_branches(2) [OF a refl refl])
        (use a assms(2) 2 in simp_all)
  next
    case 3
    then have a: "ahead s = 33 # 68 # str ''OCTYPE'' @ 32 # t @ 62 # r" using assms(1) l by simp
    show ?thesis unfolding 3
      by (rule delivers_later [OF _ doctype_run], rule parse_markup_branches(3) [OF a refl refl])
        (use a assms(2) 3 in simp_all)
  qed
qed

lemma match_xml_target:
  assumes "name_ok n" "\<not> is_xml_name n"
  shows "match_at xml_target (n @ 32 # w) = Some False"
proof -
  have "n \<noteq> []" "\<forall>c \<in> set n. \<not> whitespace c" using assms(1) by (auto simp: name_ok_def node_name_char_def)
  moreover have "n = [x, m, l] \<Longrightarrow> \<not> (x \<in> {120, 88} \<and> m \<in> {109, 77} \<and> l \<in> {108, 76})" for x m l
    using assms(2) by (auto simp: is_xml_name_def)
  moreover obtain a b c d where "n = [] \<or> n = [a] \<or> n = [a, b] \<or> n = [a, b, c] \<or> (\<exists>m. n = a # b # c # d # m)"
    by (metis list.exhaust)
  ultimately show ?thesis by (auto simp: xml_target_def)
qed

lemma question_run:
  assumes "ahead s = tl (source_text x) @ r" "source_ok x" "x \<in> {sInstruction n t, sDeclaration t}"
  shows "delivers (parse_question (parse_non_destructive F)) s r (trees_of F x)"
proof -
  let ?s = "s\<lparr>xp_Text := xp_Text s + 1\<rparr>"
  have l: "str ''<?'' = [60, 63]" "str ''<?xml '' = [60, 63, 120, 109, 108, 32]" by code_simp+
  consider "x = sInstruction n t" | "x = sDeclaration t" using assms(3) by blast
  then show ?thesis
  proof cases
    case 1
    then have a: "ahead ?s = n @ [32] @ t @ str ''?>'' @ r" using assms(1) l by simp
    have m: "matchM 0 xml_target ?s = Ret False ?s"
      using match_xml_target assms(2) 1 a by (simp add: match_run del: ahead_simps)
    have "parse_question (parse_non_destructive F) s = parse_pi (parse_non_destructive F) ?s"
      unfolding parse_question_def by (subst thenM_run(1) [OF adv_run], subst bindM_run(1) [where m = "matchM 0 xml_target", OF m]) simp
    then show ?thesis unfolding 1 by (rule delivers_later [OF _ instruction_run [OF a]]) (use assms(2) 1 in simp_all)
  next
    case 2
    let ?s' = "s\<lparr>xp_Text := xp_Text s + 5\<rparr>"
    have a: "ahead ?s = [120, 109, 108, 32] @ t @ str ''?>'' @ r" using assms(1) l 2 by simp
    have m: "matchM 0 xml_target ?s = Ret True ?s"
      using a by (simp add: match_run xml_target_def whitespace_def del: ahead_simps)
    have q: "parse_question (parse_non_destructive F) s = parse_xml_declaration ?s'"
      unfolding parse_question_def by (subst thenM_run(1) [OF adv_run], subst bindM_run(1) [where m = "matchM 0 xml_target", OF m]) (simp add: adv_run add.commute)
    have a': "ahead ?s' = t @ str ''?>'' @ r" using assms(1) l 2 by simp
    show ?thesis unfolding 2
      by (rule delivers_later [OF _ declaration_run], rule q, rule a') (use assms(2) 2 in simp_all)
  qed
qed

section \<open>Attributes\<close>

lemma attr_text_pair [simp]: "attr_text (n, q, v) = 32 # n @ 61 # q # v @ [q]"
  by (simp add: attr_text_def)

lemma attr_last:
  "set_string (AttrName (length A)) b (d\<lparr>xd_attrs := A @ [a]\<rparr>) = Ret () (d\<lparr>xd_attrs := A @ [a\<lparr>a_name := b\<rparr>]\<rparr>)"
  "set_string (AttrValue (length A)) b (d\<lparr>xd_attrs := A @ [a]\<rparr>) = Ret () (d\<lparr>xd_attrs := A @ [a\<lparr>a_value := b\<rparr>]\<rparr>)"
  by (simp_all add: setAttr_def)

lemma attribute_run:
  assumes "ahead s = n @ [61, q] @ v @ [q] @ w" "attr_ok (n, q, v)" "\<exists>c \<in> set w. \<not> whitespace c"
  shows "\<exists>s'. parse_attribute (parse_non_destructive F) e s = Ret () s' \<and> ahead s' = dropWhile whitespace w
    \<and> xd_nodes (xp_Doc s') = xd_nodes (xp_Doc s)"
proof -
  let ?d = "xp_Doc s" and ?A = "xd_attrs (xp_Doc s)" and ?t = "xp_Text s"
  have n: "n \<noteq> []" "\<forall>c \<in> set n. attribute_name_char c" and q: "q = 34 \<or> q = 39" and v: "\<forall>c \<in> set v. attribute_value_char q c"
    using assms(2) by (auto simp: attr_ok_def attribute_value_char_def)
  have q': "(q \<noteq> 39 \<and> q \<noteq> 34) = False" using q by auto
  obtain c n' where c: "n = c # n'" using n(1) by (cases n) auto
  let ?d1 = "?d\<lparr>xd_attrs := ?A @ [XMLAttribute_new]\<rparr>" and ?a = "XMLAttribute_new\<lparr>a_name := n\<rparr>"
  let ?d2 = "?d\<lparr>xd_attrs := ?A @ [?a]\<rparr>" and ?d3 = "?d\<lparr>xd_attrs := ?A @ [?a\<lparr>a_value := v\<rparr>]\<rparr>"
  let ?s2 = "s\<lparr>xp_Text := ?t + length n\<rparr>"
  let ?s4 = "?s2\<lparr>xp_Doc := ?d2, xp_Strings := (AttrName (length ?A), ?t, length n) # xp_Strings s\<rparr>"
  let ?s5 = "?s4\<lparr>xp_Text := ?t + length n + 1\<rparr>" and ?s6 = "?s4\<lparr>xp_Text := ?t + length n + 2\<rparr>"
  let ?s7 = "?s4\<lparr>xp_Text := ?t + length n + 2 + length v\<rparr>"
  let ?s8 = "?s7\<lparr>xp_Doc := ?d3, xp_Strings := (AttrValue (length ?A), ?t + length n + 2, length v) # xp_Strings ?s7\<rparr>"
  let ?s9 = "?s8\<lparr>xp_Text := ?t + length n + 2 + length v + 1\<rparr>"
  have a1: "skip attribute_name_char (s\<lparr>xp_Text := ?t + 1\<rparr>) = Ret () ?s2"
    using n(2) by (subst skip_to [where xs = n' and c = 61 and w = "q # v @ q # w"])
      (simp_all add: assms(1) c attribute_name_char_def)
  have a2: "docP (allocate_attribute None None) ?s2 = Ret (length ?A) (?s2\<lparr>xp_Doc := ?d1\<rparr>)"
    by (simp add: docP_def allocate_attribute_def)
  have a3: "give_string (AttrName (length ?A)) ?t (length n) (?s2\<lparr>xp_Doc := ?d1\<rparr>) = Ret () ?s4"
    by (subst give_run [where d = ?d2]) (simp_all add: text_ahead assms(1) attr_last del: set_string.simps)
  have a4: "docP (append_attribute e (length ?A)) ?s4 = Ret () ?s4"
    by (simp add: docP_def append_fresh_attribute XMLAttribute_new_def)
  have h4: "ahead ?s4 = 61 # q # v @ q # w" "ahead ?s5 = q # v @ q # w" "ahead ?s6 = v @ q # w" "ahead ?s7 = q # w"
    "ahead ?s8 = q # w" "ahead ?s9 = w"
    by (simp_all add: text_simps assms(1) numeral_3_eq_3)
  have a5: "skip whitespace ?s4 = Ret () ?s4" "skip whitespace ?s5 = Ret () ?s5"
    by (rule skip_none [OF h4(1)], simp add: whitespace_def)
      (rule skip_none [OF h4(2)], use q in \<open>auto simp: whitespace_def\<close>)
  have a6: "peekM 0 ?s4 = Ret 61 ?s4" "peekM 0 ?s5 = Ret q ?s5" "peekM 0 ?s8 = Ret q ?s8"
    by (subst peek_run, use h4 in simp_all)+
  have a7: "skip (attribute_value_char q) ?s6 = Ret () ?s7"
    using skip_to [OF h4(3) v, unfolded attribute_value_char_def] unfolding attribute_value_char_def by simp
  have a8: "give_string (AttrValue (length ?A)) (?t + length n + 2) (length v) ?s7 = Ret () ?s8"
    by (subst give_run [where d = ?d3]) (simp_all add: text_simps assms(1) attr_last del: set_string.simps)
  let ?s' = "?s9\<lparr>xp_Text := xp_Text ?s9 + length (takeWhile whitespace w)\<rparr>"
  have a9: "skip whitespace ?s9 = Ret () ?s'" by (subst skip_spaces) (simp_all only: h4(6) assms(3))
  have "ahead ?s' = dropWhile whitespace w" using h4(6) by (subst ahead_simps(3)) simp_all
  moreover have "parse_attribute (parse_non_destructive F) e s = Ret () ?s'"
    unfolding parse_attribute_def
    using a1 a2 a3 a4 a5 a6 a7 a8 a9 by (simp add: adv_run q')
  ultimately show ?thesis by (intro exI [of _ ?s']) simp
qed

lemma blank_char: "whitespace 32" "\<not> whitespace 60" "\<not> whitespace 62" "\<not> whitespace 47" "\<not> whitespace 0"
  by (simp_all add: whitespace_def)

lemma attributes_run:
  assumes "ahead s = dropWhile whitespace (concat (map attr_text as) @ c # w)" "c = 62 \<or> c = 47" "list_all attr_ok as"
  shows "\<exists>s'. parse_node_attributes (parse_non_destructive F) e s = Some (Ret () s') \<and> ahead s' = c # w
    \<and> xd_nodes (xp_Doc s') = xd_nodes (xp_Doc s)"
  using assms(1,3)
proof (induction as arbitrary: s)
  case Nil
  then have h: "ahead s = c # w" using assms(2) by (auto simp: whitespace_def)
  have "peekM 0 s = Ret c s" by (subst peek_run) (simp_all add: h)
  moreover have "\<not> attribute_name_char c" using assms(2) by (auto simp: attribute_name_char_def)
  ultimately show ?case using h by (simp add: parse_node_attributes.simps)
next
  case (Cons a as)
  obtain n q v where a: "a = (n, q, v)" by (cases a)
  have ok: "attr_ok (n, q, v)" "list_all attr_ok as" using Cons.prems(2) a by auto
  then obtain x n' where x: "n = x # n'" "attribute_name_char x" by (cases n) (auto simp: attr_ok_def)
  then have "\<not> whitespace x" by (simp add: attribute_name_char_def)
  let ?w = "concat (map attr_text as) @ c # w"
  have h: "ahead s = n @ [61, q] @ v @ [q] @ ?w"
    using Cons.prems(1) a x \<open>\<not> whitespace x\<close> by (simp add: blank_char)
  have "\<exists>c \<in> set ?w. \<not> whitespace c" using assms(2) by (intro bexI [of _ c]) (auto simp: whitespace_def)
  then obtain s1 where s1: "parse_attribute (parse_non_destructive F) e s = Ret () s1" "ahead s1 = dropWhile whitespace ?w"
    "xd_nodes (xp_Doc s1) = xd_nodes (xp_Doc s)"
    using attribute_run [OF h ok(1)] by blast
  have "peekM 0 s = Ret x s" by (subst peek_run) (simp_all add: h x(1))
  then have "parse_node_attributes (parse_non_destructive F) e s = parse_node_attributes (parse_non_destructive F) e s1"
    using s1(1) x(2) by (subst parse_node_attributes.simps) simp
  then show ?case using Cons.IH [OF s1(2) ok(2)] s1(3) by simp
qed

section \<open>Text\<close>

lemma text_value:
  assumes "store_ok (xd_nodes d) ch" "p < length (xd_nodes d)" "v = n_value (xd_nodes d ! p)" "v = [] \<or> hd v \<noteq> 0"
  shows "\<exists>d'. (if v = [] \<or> hd v = 0 then set_string (NodeValue p) t d else Ret () d) = Ret () d'
    \<and> extends d ch p d' ch (if v = [] then t else v) []"
  using extends_value [OF assms(1,2), of t] extends_refl [OF assms(1), of p] assms by auto

lemma data_run:
  assumes "ahead s = t @ 60 # r" "0 \<notin> set t" "60 \<notin> set t" "store_ok (xd_nodes (xp_Doc s)) ch"
    and "p < length (xd_nodes (xp_Doc s))" "v = n_value (xd_nodes (xp_Doc s) ! p)" "v = [] \<or> hd v \<noteq> 0"
  shows "\<exists>s' ch'. parse_and_append_data (parse_non_destructive F) p (xp_Text s) (s\<lparr>xp_Text := k\<rparr>) = Ret 60 s'
    \<and> ahead s' = 60 # r \<and> extends (xp_Doc s) ch p (xp_Doc s') ch' (if v = [] then t else v) [XTree node_data [] t []]"
proof -
  let ?d = "xp_Doc s" and ?c = "length (xd_nodes (xp_Doc s))"
  let ?d1 = "?d\<lparr>xd_nodes := xd_nodes ?d @ [fresh_node node_data [] []]\<rparr>"
  let ?d2 = "?d\<lparr>xd_nodes := xd_nodes ?d @ [fresh_node node_data [] t]\<rparr>"
  have "made ?d ch ?d2 ch ?c (XTree node_data [] t [])" by (rule made_leaf) (use assms(4) in simp_all)
  then obtain d3 ch3 where d3: "append_node p ?c ?d2 = Ret () d3" "extends ?d ch p d3 ch3 v [XTree node_data [] t []]"
    using made_append assms(5,6) by blast
  have p3: "store_ok (xd_nodes d3) ch3" "p < length (xd_nodes d3)" "v = n_value (xd_nodes d3 ! p)"
    using d3(2) assms(5) by (auto simp: extends_def kept_def)
  obtain d4 where d4: "(if v = [] \<or> hd v = 0 then set_string (NodeValue p) t d3 else Ret () d3) = Ret () d4"
    "extends d3 ch3 p d4 ch3 (if v = [] then t else v) []"
    using text_value [OF p3 assms(7)] by blast
  let ?s0 = "s\<lparr>xp_Text := xp_Text s\<rparr>" and ?s1 = "s\<lparr>xp_Text := xp_Text s + length t\<rparr>"
  let ?s2 = "?s1\<lparr>xp_Doc := d3, xp_Strings := (NodeValue ?c, xp_Text s, length t) # xp_Strings s\<rparr>"
  have b1: "skip text_char s = Ret () ?s1"
    by (rule skip_to [OF assms(1)]) (use assms(2,3) in \<open>auto simp: text_char_def\<close>)
  have b2: "docP (allocate_node node_data None None) ?s1 = Ret ?c (?s1\<lparr>xp_Doc := ?d1\<rparr>)" by (simp add: docP_def allocated)
  have b3: "give_string (NodeValue ?c) (xp_Text s) (length t) (?s1\<lparr>xp_Doc := ?d1\<rparr>) = Ret () (?s2\<lparr>xp_Doc := ?d2\<rparr>)"
    by (subst give_run [where d = ?d2])
      (simp_all add: text_ahead assms(1) value_last [where d = ?d and h = "xd_nodes ?d"] del: set_string.simps)
  have b4: "docP (append_node p ?c) (?s2\<lparr>xp_Doc := ?d2\<rparr>) = Ret () ?s2" using d3(1) by (simp add: docP_def)
  have b5: "docP (nodeM p) ?s2 = Ret (xd_nodes d3 ! p) ?s2" using p3(2) by (simp add: docP_def)
  have "\<exists>X. (if v = [] \<or> hd v = 0 then give_string (NodeValue p) (xp_Text s) (length t) else retM ()) ?s2
      = Ret () (?s2\<lparr>xp_Doc := d4, xp_Strings := X\<rparr>)"
  proof (cases "v = [] \<or> hd v = 0")
    case True
    then have "set_string (NodeValue p) t d3 = Ret () d4" using d4(1) by (simp del: set_string.simps)
    then have "give_string (NodeValue p) (xp_Text s) (length t) ?s2
        = Ret () (?s2\<lparr>xp_Doc := d4, xp_Strings := (NodeValue p, xp_Text s, length t) # xp_Strings ?s2\<rparr>)"
      by (intro give_run) (simp add: text_ahead assms(1) del: set_string.simps)
    then show ?thesis unfolding if_P [OF True] by (rule exI [of _ "(NodeValue p, xp_Text s, length t) # xp_Strings ?s2"])
  next
    case False
    then have "retM () ?s2 = Ret () (?s2\<lparr>xp_Doc := d4, xp_Strings := xp_Strings ?s2\<rparr>)" using d4(1) by simp
    then show ?thesis unfolding if_not_P [OF False] by (rule exI [of _ "xp_Strings ?s2"])
  qed
  then obtain X where b6: "(if v = [] \<or> hd v = 0 then give_string (NodeValue p) (xp_Text s) (length t) else retM ()) ?s2
      = Ret () (?s2\<lparr>xp_Doc := d4, xp_Strings := X\<rparr>)" by blast
  let ?s3 = "?s2\<lparr>xp_Doc := d4, xp_Strings := X\<rparr>"
  have b6': "bindM (docP (nodeM p)) (\<lambda>n. if n_value n = [] \<or> hd (n_value n) = 0
      then give_string (NodeValue p) (xp_Text s) (xp_Text s + length t - xp_Text s) else retM ()) ?s2 = Ret () ?s3"
    by (subst bindM_run(1) [where m = "docP (nodeM p)", OF b5]) (use b6 in \<open>simp only: diff_add_inverse p3(3) [symmetric]\<close>)
  have h: "ahead ?s3 = 60 # r" by (simp add: assms(1))
  have b7: "peekM 0 ?s3 = Ret 60 ?s3" by (subst peek_run) (simp_all only: h, simp_all)
  have "parse_and_append_data (parse_non_destructive F) p (xp_Text s) (s\<lparr>xp_Text := k\<rparr>) = Ret 60 ?s3"
    unfolding parse_and_append_data_def
    using b1 b2 b3 b4 b6' b7 by simp
  moreover have "extends ?d ch p d4 ch3 (if v = [] then t else v) [XTree node_data [] t []]"
    using extends_trans [OF d3(2) d4(2)] by simp
  ultimately show ?thesis using h by (intro exI [of _ ?s3] exI [of _ ch3]) simp
qed

section \<open>Elements\<close>

lemma bindP_run [simp]:
  "m s = Some (Ret a t) \<Longrightarrow> bindP m k s = k a t" "f s = Ret a t \<Longrightarrow> bindP (liftP f) k s = k a t"
  by (simp_all add: bindP_def liftP_def)

lemma liftP_run [simp]: "f s = Ret a t \<Longrightarrow> liftP f s = Some (Ret a t)"
  by (simp add: liftP_def)

lemma attrs_start:
  assumes "c = 62 \<or> c = 47"
  obtains x w' where "concat (map attr_text as) @ c # w = x # w'" "\<not> node_name_char x"
  using assms by (cases as) (auto simp: node_name_char_def whitespace_def)

lemma element_head:
  assumes "ahead s = n @ concat (map attr_text as) @ c # w" "c = 62 \<or> c = 47" "name_ok n" "list_all attr_ok as"
  shows "\<exists>s' k. parse_element (parse_non_destructive F) C s = thenP (tag_end C (length (xd_nodes (xp_Doc s))) c)
      (liftP (thenM (terminate (parse_non_destructive F) k) (retM (Some (length (xd_nodes (xp_Doc s))))))) s'
    \<and> ahead s' = c # w \<and> xd_nodes (xp_Doc s') = xd_nodes (xp_Doc s) @ [fresh_node node_element n []]"
proof -
  let ?d = "xp_Doc s" and ?e = "length (xd_nodes (xp_Doc s))" and ?W = "concat (map attr_text as) @ c # w"
  let ?d1 = "?d\<lparr>xd_nodes := xd_nodes ?d @ [fresh_node node_element [] []]\<rparr>"
  let ?d2 = "?d\<lparr>xd_nodes := xd_nodes ?d @ [fresh_node node_element n []]\<rparr>"
  let ?s1 = "s\<lparr>xp_Doc := ?d1\<rparr>" and ?s2 = "s\<lparr>xp_Doc := ?d1, xp_Text := xp_Text s + length n\<rparr>"
  let ?s3 = "s\<lparr>xp_Doc := ?d2, xp_Text := xp_Text s + length n, xp_Strings := (NodeName ?e, xp_Text s, length n) # xp_Strings s\<rparr>"
  let ?s4 = "?s3\<lparr>xp_Text := xp_Text ?s3 + length (takeWhile whitespace ?W)\<rparr>"
  have n: "n \<noteq> []" "\<forall>c \<in> set n. node_name_char c" using assms(3) by (simp_all add: name_ok_def)
  obtain x w' where x: "?W = x # w'" "\<not> node_name_char x" using attrs_start [OF assms(2)] by metis
  have c1: "docP (allocate_node node_element None None) s = Ret ?e ?s1" by (simp add: docP_def allocated)
  have c2: "skip node_name_char ?s1 = Ret () ?s2"
    using skip_to [of ?s1 n x w' node_name_char] n(2) x assms(1) by simp
  have c3: "give_string (NodeName ?e) (xp_Text s) (length n) ?s2 = Ret () ?s3"
    by (subst give_run [where d = ?d2])
      (simp_all add: text_ahead assms(1) name_last [where d = ?d and h = "xd_nodes ?d"] del: set_string.simps)
  have h3: "ahead ?s3 = ?W" by (simp add: text_simps assms(1))
  have nb: "\<exists>c \<in> set ?W. \<not> whitespace c" using assms(2) by (intro bexI [of _ c]) (auto simp: whitespace_def)
  have c4: "skip whitespace ?s3 = Ret () ?s4" by (subst skip_spaces) (simp_all only: h3 nb)
  have h4: "ahead ?s4 = dropWhile whitespace ?W" by (subst ahead_simps(3), simp) (simp only: h3 add_diff_cancel_left' drop_takeWhile)
  obtain s5 where s5: "parse_node_attributes (parse_non_destructive F) ?e ?s4 = Some (Ret () s5)" "ahead s5 = c # w"
    "xd_nodes (xp_Doc s5) = xd_nodes (xp_Doc ?s4)"
    using attributes_run [OF h4 assms(2,4)] by blast
  have c5: "peekM 0 s5 = Ret c s5" by (subst peek_run) (simp_all add: s5(2))
  have "parse_element (parse_non_destructive F) C s = thenP (tag_end C ?e c)
      (liftP (thenM (terminate (parse_non_destructive F) (xp_Text s + length n)) (retM (Some ?e)))) s5"
    unfolding parse_element_def tag_end_def using n(1) c1 c2 c3 c4 s5(1) c5 by simp
  then show ?thesis using s5(2,3) by (intro exI [of _ s5] exI [of _ "xp_Text s + length n"]) simp
qed

text \<open>What is wanted of the parser on a node: it was parsed, and the document is the old one and the node.\<close>

definition got :: "(nat \<Rightarrow> nat list) \<Rightarrow> xml_parser \<Rightarrow> bytes \<Rightarrow> xtree list \<Rightarrow> nat option \<Rightarrow> xml_parser \<Rightarrow> bool" where
  "got ch s r ts res s' \<longleftrightarrow> ahead s' = r \<and> (case res of None \<Rightarrow> xp_Doc s' = xp_Doc s \<and> ts = []
     | Some e \<Rightarrow> \<exists>ch' t. made (xp_Doc s) ch (xp_Doc s') ch' e t \<and> ts = [t])"

definition node_parses :: "parse_flags \<Rightarrow> xml_source \<Rightarrow> bool" where
  "node_parses F x \<longleftrightarrow> (\<forall>s r ch. ahead s = tl (source_text x) @ r \<longrightarrow> store_ok (xd_nodes (xp_Doc s)) ch \<longrightarrow>
     (\<exists>res s'. parse_node (parse_non_destructive F) (\<lambda>e. parse_node_contents (parse_non_destructive F) (e, None)) s
        = Some (Ret res s') \<and> got ch s r (trees_of F x) res s'))"

lemma delivers_got: "delivers m s r ts \<Longrightarrow> store_ok (xd_nodes (xp_Doc s)) ch \<Longrightarrow> \<exists>res s'. m s = Ret res s' \<and> got ch s r ts res s'"
  by (fastforce simp: delivers_def delivered_def got_def split: option.splits)

lemma empty_parses:
  assumes "source_ok (sEmpty n as)"
  shows "node_parses F (sEmpty n as)"
  unfolding node_parses_def
proof (intro allI impI)
  fix s r ch
  assume s: "ahead s = tl (source_text (sEmpty n as)) @ r" "store_ok (xd_nodes (xp_Doc s)) ch"
  let ?C = "\<lambda>e. parse_node_contents (parse_non_destructive F) (e, None)" and ?e = "length (xd_nodes (xp_Doc s))"
  have ok: "name_ok n" "hd n \<noteq> 33" "list_all attr_ok as" using assms by simp_all
  have h: "ahead s = n @ concat (map attr_text as) @ 47 # 62 # r" using s(1) by simp
  obtain s1 k where s1: "parse_element (parse_non_destructive F) ?C s = thenP (tag_end ?C ?e 47)
      (liftP (thenM (terminate (parse_non_destructive F) k) (retM (Some ?e)))) s1"
    "ahead s1 = 47 # 62 # r" "xd_nodes (xp_Doc s1) = xd_nodes (xp_Doc s) @ [fresh_node node_element n []]"
    using element_head [OF h _ ok(1,3)] by blast
  let ?s2 = "s1\<lparr>xp_Text := xp_Text s1 + 1\<rparr>" and ?s3 = "s1\<lparr>xp_Text := xp_Text s1 + 2\<rparr>"
  have p: "peekM 0 ?s2 = Ret 62 ?s2" by (subst peek_run) (simp_all add: s1(2))
  have "tag_end ?C ?e 47 s1 = Some (Ret () ?s3)" using p by (simp add: tag_end_def adv_run)
  then have run: "parse_element (parse_non_destructive F) ?C s = Some (Ret (Some ?e) ?s3)" using s1(1) by simp
  obtain c n' where c: "n = c # n'" "node_name_char c" using ok(1) by (cases n) (auto simp: name_ok_def)
  then have "peekM 0 s = Ret c s" "c \<noteq> 63" "c \<noteq> 33" using h ok(2) by (simp_all add: peek_run node_name_char_def)
  then have "parse_node (parse_non_destructive F) ?C s = Some (Ret (Some ?e) ?s3)" using run by (simp add: parse_node_def)
  moreover have "made (xp_Doc s) ch (xp_Doc ?s3) ch ?e (XTree node_element n [] [])"
    by (rule made_leaf) (use s(2) s1(3) in simp_all)
  moreover have "ahead ?s3 = r" by (simp add: s1(2))
  ultimately show "\<exists>res s'. parse_node (parse_non_destructive F) ?C s = Some (Ret res s')
      \<and> got ch s r (trees_of F (sEmpty n as)) res s'" by (auto simp: got_def)
qed

text \<open>Nodes without children.\<close>

lemma leaf_parses:
  assumes "source_ok x" "\<not> is_text x" "\<And>n as xs. x \<noteq> sElement n as xs" "\<And>n as. x \<noteq> sEmpty n as"
  shows "node_parses F x"
  unfolding node_parses_def
proof (intro allI impI)
  fix s r ch
  assume s: "ahead s = tl (source_text x) @ r" "store_ok (xd_nodes (xp_Doc s)) ch"
  let ?C = "\<lambda>e. parse_node_contents (parse_non_destructive F) (e, None)"
  let ?goal = "\<exists>res s'. parse_node (parse_non_destructive F) ?C s = Some (Ret res s') \<and> got ch s r (trees_of F x) res s'"
  have l: "str ''<!--'' = [60, 33, 45, 45]" "str ''<![CDATA['' = [60, 33, 91, 67, 68, 65, 84, 65, 91]"
    "str ''<!DOCTYPE '' = [60, 33, 68, 79, 67, 84, 89, 80, 69, 32]" "str ''<?'' = [60, 63]" "str ''<?xml '' = [60, 63, 120, 109, 108, 32]"
    by code_simp+
  consider t where "x \<in> {sCData t, sComment t, sDoctype t}" | n t where "x \<in> {sInstruction n t, sDeclaration t}"
    using assms(2-4) by (cases x) (auto simp: is_text_def)
  then show ?goal
  proof cases
    case 1
    obtain res s' where r: "parse_markup (parse_non_destructive F) s = Ret res s'" "got ch s r (trees_of F x) res s'"
      using delivers_got [OF markup_run [OF s(1) assms(1) 1] s(2)] by blast
    have "peekM 0 s = Ret 33 s" using s(1) 1 l by (subst peek_run) auto
    then show ?thesis using r by (simp add: parse_node_def)
  next
    case 2
    obtain res s' where r: "parse_question (parse_non_destructive F) s = Ret res s'" "got ch s r (trees_of F x) res s'"
      using delivers_got [OF question_run [OF s(1) assms(1) 2] s(2)] by blast
    have "peekM 0 s = Ret 63 s" using s(1) 2 l by (subst peek_run) auto
    then show ?thesis using r by (simp add: parse_node_def)
  qed
qed

section \<open>Contents\<close>

lemma closing_run:
  assumes "ahead s = [60, 47] @ n @ [62] @ r" "name_ok n" "p < length (xd_nodes (xp_Doc s))" "n_name (xd_nodes (xp_Doc s) ! p) = n"
  shows "\<exists>s'. parse_closing (parse_non_destructive F) p s = Ret () s' \<and> ahead s' = r \<and> xp_Doc s' = xp_Doc s"
proof -
  let ?s1 = "s\<lparr>xp_Text := xp_Text s + 2\<rparr>" and ?s2 = "s\<lparr>xp_Text := xp_Text s + 2 + length n\<rparr>"
  have h: "ahead ?s1 = n @ 62 # r" "ahead ?s2 = 62 # r" by (simp_all add: assms(1))
  have k1: "skip node_name_char ?s1 = Ret () ?s2"
    using skip_to [OF h(1)] assms(2) by (simp add: name_ok_def) (simp add: node_name_char_def)
  have k2: "docP (nodeM p) ?s2 = Ret (xd_nodes (xp_Doc s) ! p) ?s2" using assms(3) by (simp add: docP_def)
  have k3: "text_at (xp_Buf s) (xp_Text s + 2) (length n) = n" by (simp add: text_simps assms(1))
  have k4: "skip whitespace ?s2 = Ret () ?s2" by (rule skip_none [OF h(2)]) (simp add: whitespace_def)
  have k5: "peekM 0 ?s2 = Ret 62 ?s2" by (subst peek_run) (simp_all add: assms(1))
  let ?s3 = "s\<lparr>xp_Text := xp_Text s + 2 + length n + 1\<rparr>"
  have "parse_closing (parse_non_destructive F) p s = Ret () ?s3"
    unfolding parse_closing_def using k1 k2 k3 k4 k5 assms(4) by (simp add: adv_run cong: if_cong)
  moreover have "ahead ?s3 = r" by (simp add: assms(1) numeral_3_eq_3)
  ultimately show ?thesis by (intro exI [of _ ?s3]) simp
qed

lemma attach_run:
  assumes "got ch s r ts res s'" "store_ok (xd_nodes (xp_Doc s)) ch" "p < length (xd_nodes (xp_Doc s))"
  shows "\<exists>s'' ch'. append_child p res s' = Ret () s'' \<and> ahead s'' = r
    \<and> extends (xp_Doc s) ch p (xp_Doc s'') ch' (n_value (xd_nodes (xp_Doc s) ! p)) ts"
proof (cases res)
  case None
  then show ?thesis using assms(1) extends_refl [OF assms(2), of p]
    by (intro exI [of _ s'] exI [of _ ch]) (auto simp: got_def append_child_def)
next
  case (Some e)
  then obtain ch1 t where m: "made (xp_Doc s) ch (xp_Doc s') ch1 e t" "ts = [t]" "ahead s' = r" using assms(1) by (auto simp: got_def)
  obtain d ch2 where d: "append_node p e (xp_Doc s') = Ret () d"
    "extends (xp_Doc s) ch p d ch2 (n_value (xd_nodes (xp_Doc s) ! p)) [t]" using made_append [OF m(1) assms(3)] by blast
  have "append_child p res s' = Ret () (s'\<lparr>xp_Doc := d\<rparr>)" using Some d(1) by (simp add: append_child_def docP_def)
  then show ?thesis using d(2) m(2,3) by (intro exI [of _ "s'\<lparr>xp_Doc := d\<rparr>"] exI [of _ ch2]) simp
qed

text \<open>At markup the loop parses a node, links it, and goes on.\<close>

lemma markup_text:
  assumes "source_ok x" "\<not> is_text x"
  shows "\<exists>c w. source_text x = 60 # c # w \<and> c \<noteq> 47"
proof -
  have l: "str ''<!--'' = [60, 33, 45, 45]" "str ''<![CDATA['' = [60, 33, 91, 67, 68, 65, 84, 65, 91]"
    "str ''<!DOCTYPE '' = [60, 33, 68, 79, 67, 84, 89, 80, 69, 32]" "str ''<?'' = [60, 63]" "str ''<?xml '' = [60, 63, 120, 109, 108, 32]"
    by code_simp+
  have "\<exists>c n'. n = c # n' \<and> c \<noteq> 47" if "name_ok n" for n
    using that by (cases n) (auto simp: name_ok_def node_name_char_def)
  then show ?thesis using assms by (cases x) (fastforce simp: l is_text_def)+
qed

lemma markup_step:
  assumes "ahead s = source_text x @ r" "source_ok x" "\<not> is_text x" "node_parses F x" "store_ok (xd_nodes (xp_Doc s)) ch"
    and "p < length (xd_nodes (xp_Doc s))"
  defines "C \<equiv> \<lambda>e. parse_node_contents (parse_non_destructive F) (e, None)"
  shows "\<exists>s' ch'. bindP (parse_node (parse_non_destructive F) C) (\<lambda>c. liftP (append_child p c)) (s\<lparr>xp_Text := xp_Text s + 1\<rparr>) = Some (Ret () s')
    \<and> peekM 0 s = Ret 60 s \<and> (\<exists>c. peekM 1 s = Ret c s \<and> c \<noteq> 47)
    \<and> ahead s' = r \<and> extends (xp_Doc s) ch p (xp_Doc s') ch' (n_value (xd_nodes (xp_Doc s) ! p)) (trees_of F x)"
proof -
  obtain c w where w: "source_text x = 60 # c # w" "c \<noteq> 47" using markup_text [OF assms(2,3)] by blast
  have pk: "peekM 0 s = Ret 60 s" "peekM 1 s = Ret c s" by (subst peek_run, simp_all add: assms(1) w(1))+
  let ?s1 = "s\<lparr>xp_Text := xp_Text s + 1\<rparr>"
  have "ahead ?s1 = tl (source_text x) @ r" "store_ok (xd_nodes (xp_Doc ?s1)) ch" using assms(1,5) w(1) by simp_all
  then obtain res s2 where s2: "parse_node (parse_non_destructive F) C ?s1 = Some (Ret res s2)" "got ch ?s1 r (trees_of F x) res s2"
    using assms(4) unfolding node_parses_def C_def by blast
  have "got ch s r (trees_of F x) res s2" using s2(2) by (simp add: got_def cong: option.case_cong)
  from attach_run [OF this assms(5,6)] obtain s3 ch3 where s3: "append_child p res s2 = Ret () s3" "ahead s3 = r"
    "extends (xp_Doc s) ch p (xp_Doc s3) ch3 (n_value (xd_nodes (xp_Doc s) ! p)) (trees_of F x)" by blast
  then show ?thesis using s2(1) pk w(2) by (intro exI [of _ s3] exI [of _ ch3]) simp
qed

lemma separate_rest:
  assumes "separate (x # xs)" "list_all source_ok xs" "is_text x"
  shows "\<exists>w. concat (map source_text xs) @ 60 # r = 60 # w"
  using assms markup_text by (cases xs) fastforce+

lemma blank_solid: "\<not> blank t \<Longrightarrow> \<exists>a c b. t = a @ c # b \<and> blank a \<and> \<not> whitespace c"
  using split_list_first_prop [of t "\<lambda>c. \<not> whitespace c"] unfolding blank_def by blast

text \<open>Text at the head of the contents: the loop goes on behind it.\<close>

lemma text_step:
  assumes "ahead s = t @ 60 # w" "0 \<notin> set t" "60 \<notin> set t" "store_ok (xd_nodes (xp_Doc s)) ch"
    and "p < length (xd_nodes (xp_Doc s))" "v = n_value (xd_nodes (xp_Doc s) ! p)" "v = [] \<or> hd v \<noteq> 0"
  shows "\<exists>s' ch'. parse_node_contents (parse_non_destructive F) (p, None) s = parse_node_contents (parse_non_destructive F) (p, None) s'
    \<and> ahead s' = 60 # w \<and> extends (xp_Doc s) ch p (xp_Doc s') ch' (if v = [] then solid (sText t) else v) (trees_of F (sText t))"
proof -
  let ?G = "parse_non_destructive F"
  let ?C = "\<lambda>e. parse_node_contents ?G (e, None)"
  have at_tag: "parse_node_contents ?G (p, None) u = markup ?G ?C p u" if "ahead u = 60 # w" for u
  proof -
    have "skip whitespace u = Ret () u" "peekM 0 u = Ret 60 u"
      using that skip_none by (simp_all add: whitespace_def peek_run)
    then show ?thesis by (simp add: parse_node_contents_step next_contents_def)
  qed
  show ?thesis
  proof (cases "blank t")
    case True
    let ?s = "s\<lparr>xp_Text := xp_Text s + length t\<rparr>"
    have h: "ahead ?s = 60 # w" by (simp add: assms(1))
    have "skip whitespace s = Ret () ?s"
      by (rule skip_to [OF assms(1)]) (use True in \<open>auto simp: blank_def whitespace_def\<close>)
    moreover have "peekM 0 ?s = Ret 60 ?s" by (subst peek_run) (simp_all add: assms(1))
    ultimately have "parse_node_contents ?G (p, None) s = parse_node_contents ?G (p, None) ?s"
      unfolding at_tag [OF h] by (simp add: parse_node_contents_step next_contents_def)
    moreover have "extends (xp_Doc s) ch p (xp_Doc ?s) ch v []" using extends_refl [OF assms(4), of p] assms(6) by simp
    ultimately show ?thesis using h True
      by (intro exI [of _ ?s] exI [of _ ch]) (auto simp: solid_def)
  next
    case False
    then obtain a c b where t: "t = a @ c # b" "blank a" "\<not> whitespace c" using blank_solid by blast
    let ?s = "s\<lparr>xp_Text := xp_Text s + length a\<rparr>"
    have c: "c \<noteq> 0" "c \<noteq> 60" using assms(2,3) t(1) by auto
    have "skip whitespace s = Ret () ?s"
      by (rule skip_to [of s a c "b @ 60 # w"]) (use assms(1) t in \<open>auto simp: blank_def\<close>)
    moreover have "peekM 0 ?s = Ret c ?s" by (subst peek_run) (simp_all add: assms(1) t(1))
    moreover obtain s1 ch1 where s1: "parse_and_append_data ?G p (xp_Text s) ?s = Ret 60 s1" "ahead s1 = 60 # w"
      "extends (xp_Doc s) ch p (xp_Doc s1) ch1 (if v = [] then t else v) [XTree node_data [] t []]"
      using data_run [OF assms] by blast
    ultimately have "parse_node_contents ?G (p, None) s = parse_node_contents ?G (p, Some (xp_Text s, 60)) s1"
      using c by (simp add: parse_node_contents_step next_contents_def)
    also have "\<dots> = parse_node_contents ?G (p, None) s1"
      unfolding at_tag [OF s1(2)] by (simp add: parse_node_contents_step next_contents_def)
    finally show ?thesis using s1(2,3) False
      by (intro exI [of _ s1] exI [of _ ch1]) (cases "v = []", simp_all add: solid_def)
  qed
qed

lemma extends_name:
  assumes "extends d ch p d' ch' v ts" "p < length (xd_nodes d)"
  shows "p < length (xd_nodes d')" "n_name (xd_nodes d' ! p) = n_name (xd_nodes d ! p)" "n_value (xd_nodes d' ! p) = v"
    "store_ok (xd_nodes d') ch'"
  using assms by (auto simp: extends_def kept_def)

lemma solid_value: "source_ok x \<Longrightarrow> v = [] \<or> hd v \<noteq> 0 \<Longrightarrow> v' = (if v = [] then solid x else v) \<Longrightarrow> v' = [] \<or> hd v' \<noteq> 0"
  by (cases x) (auto simp: solid_def, (metis hd_in_set)+)

lemma contents_parse:
  assumes "\<forall>x \<in> set xs. \<not> is_text x \<longrightarrow> node_parses F x" "list_all source_ok xs" "separate xs"
    and "ahead s = concat (map source_text xs) @ [60, 47] @ n @ [62] @ r" "name_ok n" "store_ok (xd_nodes (xp_Doc s)) ch"
    and "p < length (xd_nodes (xp_Doc s))" "n_name (xd_nodes (xp_Doc s) ! p) = n"
    and "v = n_value (xd_nodes (xp_Doc s) ! p)" "v = [] \<or> hd v \<noteq> 0"
  shows "\<exists>s' ch'. parse_node_contents (parse_non_destructive F) (p, None) s = Some (Ret () s') \<and> ahead s' = r
    \<and> extends (xp_Doc s) ch p (xp_Doc s') ch' (first_text v xs) (concat (map (trees_of F) xs))"
  using assms
proof (induction xs arbitrary: s ch v)
  case Nil
  have h: "ahead s = [60, 47] @ n @ [62] @ r" using Nil.prems(4) by simp
  obtain s' where s': "parse_closing (parse_non_destructive F) p s = Ret () s'" "ahead s' = r" "xp_Doc s' = xp_Doc s"
    using closing_run [OF h Nil.prems(5,7,8)] by blast
  have "skip whitespace s = Ret () s" "peekM 0 s = Ret 60 s" "peekM 1 s = Ret 47 s"
    using h skip_none [of s 60 "47 # n @ 62 # r" whitespace] by (simp_all add: whitespace_def peek_run)
  then have "parse_node_contents (parse_non_destructive F) (p, None) s = Some (Ret () s')"
    using s'(1) by (simp add: parse_node_contents_step next_contents_def markup_def)
  then show ?case using s' extends_refl [OF Nil.prems(6), of p] Nil.prems(9) by (intro exI [of _ s'] exI [of _ ch]) simp
next
  case (Cons x xs)
  let ?G = "parse_non_destructive F"
  let ?w = "concat (map source_text xs) @ [60, 47] @ n @ [62] @ r"
  have ok: "source_ok x" "list_all source_ok xs" "separate xs"
    using Cons.prems(2,3) by (auto elim: separate.elims)
  have "\<exists>s1 ch1. parse_node_contents ?G (p, None) s = parse_node_contents ?G (p, None) s1 \<and> ahead s1 = ?w
    \<and> extends (xp_Doc s) ch p (xp_Doc s1) ch1 (if v = [] then solid x else v) (trees_of F x)"
  proof (cases "is_text x")
    case True
    then obtain t where t: "x = sText t" by (auto simp: is_text_def split: xml_source.splits)
    obtain w where w: "?w = 60 # w" using separate_rest [OF Cons.prems(3) ok(2) True, of "[47] @ n @ [62] @ r"] by auto
    then have "ahead s = t @ 60 # w" using Cons.prems(4) t by simp
    from text_step [OF this _ _ Cons.prems(6,7,9,10)] show ?thesis using ok(1) t unfolding w t by simp
  next
    case False
    have h: "ahead s = source_text x @ ?w" using Cons.prems(4) by simp
    obtain s1 ch1 where s1: "bindP (parse_node ?G (\<lambda>e. parse_node_contents ?G (e, None))) (\<lambda>c. liftP (append_child p c))
        (s\<lparr>xp_Text := xp_Text s + 1\<rparr>) = Some (Ret () s1)"
      "peekM 0 s = Ret 60 s" "\<exists>c. peekM 1 s = Ret c s \<and> c \<noteq> 47" "ahead s1 = ?w"
      "extends (xp_Doc s) ch p (xp_Doc s1) ch1 v (trees_of F x)"
      using markup_step [OF h ok(1) False _ Cons.prems(6,7), of F] Cons.prems(1,9) False by (simp del: add_Suc_right) blast
    then have "skip whitespace s = Ret () s" using h markup_text [OF ok(1) False] skip_none by (fastforce simp: whitespace_def)
    then have "parse_node_contents ?G (p, None) s = parse_node_contents ?G (p, None) s1"
      using s1(1-3) by (auto simp: parse_node_contents_step [of _ _ _ s] next_contents_def markup_def adv_run)
    moreover have "solid x = []" using False by (auto simp: solid_def is_text_def split: xml_source.splits)
    ultimately show ?thesis using s1(4,5) by (intro exI [of _ s1] exI [of _ ch1]) auto
  qed
  then obtain s1 ch1 where s1: "parse_node_contents ?G (p, None) s = parse_node_contents ?G (p, None) s1" "ahead s1 = ?w"
    "extends (xp_Doc s) ch p (xp_Doc s1) ch1 (if v = [] then solid x else v) (trees_of F x)" by blast
  note e = extends_name [OF s1(3) Cons.prems(7)]
  obtain s2 ch2 where "parse_node_contents ?G (p, None) s1 = Some (Ret () s2)" "ahead s2 = r"
    "extends (xp_Doc s1) ch1 p (xp_Doc s2) ch2 (first_text (if v = [] then solid x else v) xs) (concat (map (trees_of F) xs))"
    using Cons.IH [OF _ ok(2,3) s1(2) Cons.prems(5) e(4,1) _ e(3) [symmetric] solid_value [OF ok(1) Cons.prems(10) refl]]
      Cons.prems(1,8) e(2) by auto
  then show ?case using s1(1) extends_trans [OF s1(3)] by (intro exI [of _ s2] exI [of _ ch2]) simp
qed

lemma element_parses:
  assumes "source_ok (sElement n as xs)" "\<forall>x \<in> set xs. \<not> is_text x \<longrightarrow> node_parses F x"
  shows "node_parses F (sElement n as xs)"
  unfolding node_parses_def
proof (intro allI impI)
  fix s r ch
  assume s: "ahead s = tl (source_text (sElement n as xs)) @ r" "store_ok (xd_nodes (xp_Doc s)) ch"
  let ?G = "parse_non_destructive F" and ?e = "length (xd_nodes (xp_Doc s))"
  let ?C = "\<lambda>e. parse_node_contents ?G (e, None)" and ?w = "concat (map source_text xs) @ [60, 47] @ n @ [62] @ r"
  have ok: "name_ok n" "hd n \<noteq> 33" "list_all attr_ok as" "separate xs" "list_all source_ok xs" using assms(1) by simp_all
  have h: "ahead s = n @ concat (map attr_text as) @ 62 # ?w" using s(1) by simp
  obtain s1 k where s1: "parse_element ?G ?C s = thenP (tag_end ?C ?e 62) (liftP (thenM (terminate ?G k) (retM (Some ?e)))) s1"
    "ahead s1 = 62 # ?w" "xd_nodes (xp_Doc s1) = xd_nodes (xp_Doc s) @ [fresh_node node_element n []]"
    using element_head [OF h _ ok(1,3)] by blast
  let ?s2 = "s1\<lparr>xp_Text := xp_Text s1 + 1\<rparr>"
  have h2: "ahead ?s2 = ?w" by (simp add: s1(2))
  have st: "store_ok (xd_nodes (xp_Doc ?s2)) ch" using store_ok_alloc [OF s(2)] s1(3) by simp
  obtain s3 ch3 where s3: "parse_node_contents ?G (?e, None) ?s2 = Some (Ret () s3)" "ahead s3 = r"
    "extends (xp_Doc ?s2) ch ?e (xp_Doc s3) ch3 (first_text [] xs) (concat (map (trees_of F) xs))"
    using contents_parse [OF assms(2) ok(5,4) h2 ok(1) st, of ?e "[]"] s1(3) by auto
  have "tag_end ?C ?e 62 s1 = Some (Ret () s3)" using s3(1) by (simp add: tag_end_def adv_run)
  then have run: "parse_element ?G ?C s = Some (Ret (Some ?e) s3)" using s1(1) by simp
  obtain c n' where c: "n = c # n'" "node_name_char c" using ok(1) by (cases n) (auto simp: name_ok_def)
  then have "peekM 0 s = Ret c s" "c \<noteq> 63" "c \<noteq> 33" using h ok(2) by (simp_all add: peek_run node_name_char_def)
  then have "parse_node ?G ?C s = Some (Ret (Some ?e) s3)" using run by (simp add: parse_node_def)
  moreover have "made (xp_Doc s) ch (xp_Doc s3) ch3 ?e (XTree node_element n (first_text [] xs) (concat (map (trees_of F) xs)))"
    by (rule made_element [OF s(2) _ s3(3)]) (use s1(3) in simp)
  ultimately show "\<exists>res s'. parse_node ?G ?C s = Some (Ret res s') \<and> got ch s r (trees_of F (sElement n as xs)) res s'"
    using s3(2) by (auto simp: got_def)
qed

lemma source_parses: "source_ok x \<Longrightarrow> \<not> is_text x \<Longrightarrow> node_parses F x"
proof (induction x)
  case (sElement n as xs)
  show ?case
    by (rule element_parses [OF sElement.prems(1)]) (use sElement.IH sElement.prems in \<open>auto simp: list_all_iff\<close>)
next
  case (sEmpty n as)
  from sEmpty.prems(1) show ?case by (rule empty_parses)
next
  case (sText t)
  then show ?case by (simp add: is_text_def)
qed (rule leaf_parses; simp)+

section \<open>Documents\<close>

lemma loop_run:
  assumes "list_all top_ok xs" "ahead s = concat (map source_text xs) @ [0]" "store_ok (xd_nodes (xp_Doc s)) ch"
  shows "\<exists>s' ch' v. parse_loop (parse_non_destructive F) s = Some (Ret () s')
    \<and> extends (xp_Doc s) ch 0 (xp_Doc s') ch' v (concat (map (trees_of F) xs))"
  using assms
proof (induction xs arbitrary: s ch)
  case Nil
  have "skip whitespace s = Ret () s" "peekM 0 s = Ret 0 s"
    using Nil.prems(2) skip_none [of s 0 "[]" whitespace] by (simp_all add: whitespace_def peek_run)
  then have "parse_loop (parse_non_destructive F) s = Some (Ret () s)" by (simp add: parse_loop_step)
  then show ?case using extends_refl [OF Nil.prems(3), of 0] by auto
next
  case (Cons x xs)
  let ?G = "parse_non_destructive F" and ?w = "concat (map source_text xs) @ [0]"
  have ok: "source_ok x" "list_all top_ok xs" using Cons.prems(1) by (simp_all add: top_ok_def [of x])
  have h: "ahead s = source_text x @ ?w" using Cons.prems(2) by simp
  have "\<exists>s1 ch1 v. parse_loop ?G s = parse_loop ?G s1 \<and> ahead s1 = ?w \<and> extends (xp_Doc s) ch 0 (xp_Doc s1) ch1 v (trees_of F x)"
  proof (cases "is_text x")
    case True
    then obtain t where t: "x = sText t" "blank t" using Cons.prems(1) by (auto simp: is_text_def top_ok_def split: xml_source.splits)
    let ?s1 = "s\<lparr>xp_Text := xp_Text s + length t\<rparr>"
    have h1: "ahead ?s1 = ?w" using h t(1) by simp
    have nb: "\<exists>c \<in> set ?w. \<not> whitespace c" by (simp add: whitespace_def)
    then have "skip whitespace ?s1 = Ret () (?s1\<lparr>xp_Text := xp_Text ?s1 + length (takeWhile whitespace ?w)\<rparr>)"
      using skip_spaces [of ?s1 whitespace] h1 by simp
    moreover have "skip whitespace s = Ret () (s\<lparr>xp_Text := xp_Text s + length (takeWhile whitespace (t @ ?w))\<rparr>)"
      using skip_spaces [of s whitespace] h t(1) nb by auto
    moreover have "takeWhile whitespace (t @ ?w) = t @ takeWhile whitespace ?w"
      using t(2) by (simp add: blank_def)
    ultimately have "skip whitespace s = skip whitespace ?s1" by (simp add: add.assoc)
    then have "parse_loop ?G s = parse_loop ?G ?s1"
      unfolding parse_loop_step [of ?G s] parse_loop_step [of ?G ?s1] bindP_def liftP_def by simp
    then show ?thesis using h1 t extends_refl [OF Cons.prems(3), of 0] by (intro exI [of _ ?s1]) auto
  next
    case False
    have p: "0 < length (xd_nodes (xp_Doc s))" using Cons.prems(3) by (simp add: store_ok_def)
    obtain s1 ch1 v where s1: "bindP (parse_node ?G (\<lambda>e. parse_node_contents ?G (e, None))) (\<lambda>c. liftP (append_child 0 c))
        (s\<lparr>xp_Text := xp_Text s + 1\<rparr>) = Some (Ret () s1)"
      "peekM 0 s = Ret 60 s" "ahead s1 = ?w" "extends (xp_Doc s) ch 0 (xp_Doc s1) ch1 v (trees_of F x)"
      using markup_step [OF h ok(1) False source_parses [OF ok(1) False] Cons.prems(3) p, of F] by blast
    have "skip whitespace s = Ret () s" using h markup_text [OF ok(1) False] skip_none by (fastforce simp: whitespace_def)
    then have "parse_loop ?G s = parse_loop ?G s1" using s1(1,2) by (simp add: parse_loop_step [of _ s] adv_run)
    then show ?thesis using s1(3,4) by blast
  qed
  then obtain s1 ch1 v where s1: "parse_loop ?G s = parse_loop ?G s1" "ahead s1 = ?w"
    "extends (xp_Doc s) ch 0 (xp_Doc s1) ch1 v (trees_of F x)" by blast
  have "store_ok (xd_nodes (xp_Doc s1)) ch1" using s1(3) by (simp add: extends_def)
  from Cons.IH [OF ok(2) s1(2) this] obtain s2 ch2 v2 where s2: "parse_loop ?G s1 = Some (Ret () s2)"
    "extends (xp_Doc s1) ch1 0 (xp_Doc s2) ch2 v2 (concat (map (trees_of F) xs))" by blast
  show ?case using s1(1) s2(1) extends_trans [OF s1(3) s2(2)] by auto
qed

lemma no_bom:
  assumes "list_all top_ok xs" "ahead s = concat (map source_text xs) @ [0]"
  shows "parse_bom s = Ret () s"
proof -
  obtain c w where c: "ahead s = c # w" "c = 0 \<or> c = 60 \<or> whitespace c"
  proof (cases xs)
    case (Cons x ys)
    then have ok: "source_ok x" "\<And>t. x = sText t \<Longrightarrow> blank t" using assms(1) by (auto simp: top_ok_def)
    show thesis
    proof (cases "is_text x")
      case True
      then obtain t where "x = sText t" by (auto simp: is_text_def split: xml_source.splits)
      then show thesis using ok Cons assms(2) that by (cases t) (auto simp: blank_def)
    next
      case False
      then show thesis using markup_text [OF ok(1) False] Cons assms(2) that by auto
    qed
  qed (use assms(2) that in auto)
  then have "c \<noteq> 0xEF" by (auto simp: whitespace_def)
  then show ?thesis using c(1) by (simp add: parse_bom_def match_run)
qed


definition small_source :: "xml_source list" where
  "small_source = [sComment (str ''n''), sText [10], sElement (str ''a'') [(str ''b'', 39, str ''c'')]
     [sText (str ''d''), sEmpty (str ''e'') [], sCData (str ''<f>'')]]"

lemma small_source_text:
  "document_text small_source = str ''<!--n-->'' @ [10] @ str ''<a b='' @ [39, 99, 39] @ str ''>d<e/><![CDATA[<f>]]></a>''"
  by code_simp

lemma small_source_trees: "concat (map (trees_of kDefault) small_source) =
    [XTree node_element [97] [100] [XTree node_data [] [100] [], XTree node_element [101] [] [], XTree node_cdata [] [60, 102, 62] []]]"
  by code_simp


end
