(* ===== verification/PagedVec.thy ===== *)
theory PagedVec
  imports Prelude
begin

text \<open>
  \<open>PagedVec\<close> (\<open>core/Common/PagedVec.hpp\<close>): a vector whose pages are allocated when one of their elements is
  first accessed. \<open>ps\<close> is the size of a page and \<open>dflt\<close> the value of a default constructor. A page is the
  list of its elements; where it lies is not observable, and the allocator never fails. The elements past
  the size in the last page exist; seen from outside the vector is a list.
\<close>

section \<open>The vector\<close>

record 'a PagedVec =
  pv_Size :: nat
  PageToDataPtrs :: "'a list option list"

definition PagedVec_new :: "'a PagedVec" where
  "PagedVec_new = \<lparr>pv_Size = 0, PageToDataPtrs = []\<rparr>"

type_synonym ('a, 'v) pv = "'v PagedVec \<Rightarrow> (unit, 'a, 'v PagedVec) outcome"

text \<open>The index operator returns a reference: first the page is made, then the element is read, or
  written through the reference.\<close>

definition materialize :: "nat \<Rightarrow> 'v \<Rightarrow> nat \<Rightarrow> (unit, 'v) pv" where
  "materialize ps dflt i =
    thenM (assertM (\<lambda>v. i < pv_Size v)) (thenM (assertM (\<lambda>v. i div ps < length (PageToDataPtrs v)))
      (modM (\<lambda>v. if PageToDataPtrs v ! (i div ps) = None
         then v\<lparr>PageToDataPtrs := (PageToDataPtrs v)[i div ps := Some (replicate ps dflt)]\<rparr> else v)))"

definition PagedVec_get :: "nat \<Rightarrow> 'v \<Rightarrow> nat \<Rightarrow> ('v, 'v) pv" where
  "PagedVec_get ps dflt i = thenM (materialize ps dflt i)
    (bindM (getM (\<lambda>v. PageToDataPtrs v ! (i div ps)))
      (\<lambda>p. case p of None \<Rightarrow> faultM Undefined | Some page \<Rightarrow> retM (page ! (i mod ps))))"

definition PagedVec_set :: "nat \<Rightarrow> 'v \<Rightarrow> nat \<Rightarrow> 'v \<Rightarrow> (unit, 'v) pv" where
  "PagedVec_set ps dflt i x = thenM (materialize ps dflt i)
    (bindM (getM (\<lambda>v. PageToDataPtrs v ! (i div ps)))
      (\<lambda>p. case p of None \<Rightarrow> faultM Undefined
        | Some page \<Rightarrow> modM (\<lambda>v. v\<lparr>PageToDataPtrs := (PageToDataPtrs v)[i div ps := Some (page[i mod ps := x])]\<rparr>)))"

definition PagedVec_capacity :: "nat \<Rightarrow> 'v PagedVec \<Rightarrow> nat" where
  "PagedVec_capacity ps v = length (PageToDataPtrs v) * ps"

definition PagedVec_clear :: "(unit, 'v) pv" where
  "PagedVec_clear = modM (\<lambda>v. v\<lparr>pv_Size := 0, PageToDataPtrs := []\<rparr>)"

text \<open>Resizing the index drops the pages behind, or adds pages that are not there.\<close>

definition resize_index :: "nat \<Rightarrow> 'a list option list \<Rightarrow> 'a list option list" where
  "resize_index n ps = take n ps @ replicate (n - length ps) None"

definition pv_resize :: "nat \<Rightarrow> nat \<Rightarrow> (unit, 'v) pv" where
  "pv_resize ps n = (if n = 0 then PagedVec_clear
     else modM (\<lambda>v. v\<lparr>pv_Size := n, PageToDataPtrs := resize_index ((n - 1) div ps + 1) (PageToDataPtrs v)\<rparr>))"

text \<open>The iterator over the elements that exist is an index. Past a page it skips the missing ones.\<close>

definition page_missing :: "nat \<Rightarrow> 'v PagedVec \<Rightarrow> nat \<Rightarrow> bool" where
  "page_missing ps v i \<longleftrightarrow> PageToDataPtrs v ! (i div ps) = None"

function skip_pages :: "nat \<Rightarrow> 'v PagedVec \<Rightarrow> nat \<Rightarrow> nat" where
  "skip_pages ps v i = (if 0 < ps \<and> i < pv_Size v \<and> page_missing ps v i then skip_pages ps v (i + ps) else i)"
  by auto
termination by (relation "measure (\<lambda>(ps, v, i). pv_Size v - i)") auto

declare skip_pages.simps [simp del]

definition iter_next :: "nat \<Rightarrow> 'v PagedVec \<Rightarrow> nat \<Rightarrow> nat" where
  "iter_next ps v i = (let j = i + 1 in
     if j mod ps = 0 then (let k = skip_pages ps v j in if pv_Size v < k then pv_Size v else k) else j)"

definition materialized_begin :: "nat \<Rightarrow> 'v PagedVec \<Rightarrow> nat" where
  "materialized_begin ps v = (let k = skip_pages ps v 0 in if k < pv_Size v then k else pv_Size v)"

text \<open>A loop over the range, as the indices it visits.\<close>

partial_function (option) materialized_from :: "nat \<Rightarrow> 'v PagedVec \<Rightarrow> nat \<Rightarrow> nat list option" where
  "materialized_from ps v i = (if i = pv_Size v then Some []
     else Option.bind (materialized_from ps v (iter_next ps v i)) (\<lambda>is. Some (i # is)))"

section \<open>The list it stands for\<close>

definition pv_ok :: "nat \<Rightarrow> 'v PagedVec \<Rightarrow> bool" where
  "pv_ok ps v \<longleftrightarrow> 1 < ps \<and> length (PageToDataPtrs v) = (if pv_Size v = 0 then 0 else (pv_Size v - 1) div ps + 1)
     \<and> (\<forall>p \<in> set (PageToDataPtrs v). case p of None \<Rightarrow> True | Some page \<Rightarrow> length page = ps)"

definition pv_elem :: "nat \<Rightarrow> 'v \<Rightarrow> 'v PagedVec \<Rightarrow> nat \<Rightarrow> 'v" where
  "pv_elem ps dflt v i = (if i div ps < length (PageToDataPtrs v)
     then (case PageToDataPtrs v ! (i div ps) of None \<Rightarrow> dflt | Some page \<Rightarrow> page ! (i mod ps)) else dflt)"

definition pv_list :: "nat \<Rightarrow> 'v \<Rightarrow> 'v PagedVec \<Rightarrow> 'v list" where
  "pv_list ps dflt v = map (pv_elem ps dflt v) [0..<pv_Size v]"


lemma page_in_range: "pv_ok ps v \<Longrightarrow> i < pv_Size v \<Longrightarrow> i div ps < length (PageToDataPtrs v)"
  by (auto simp: pv_ok_def less_Suc_eq_le intro!: div_le_mono)

lemma page_length: "pv_ok ps v \<Longrightarrow> j < length (PageToDataPtrs v) \<Longrightarrow> PageToDataPtrs v ! j = Some page \<Longrightarrow> length page = ps"
  by (auto simp: pv_ok_def dest!: bspec [OF _ nth_mem] split: option.splits)

lemma materialize_run:
  assumes "pv_ok ps v" "i < pv_Size v"
  shows "\<exists>v' page. materialize ps dflt i v = Ret () v' \<and> pv_ok ps v' \<and> pv_Size v' = pv_Size v
    \<and> pv_elem ps dflt v' = pv_elem ps dflt v \<and> PageToDataPtrs v' ! (i div ps) = Some page
    \<and> length page = ps \<and> i div ps < length (PageToDataPtrs v')"
proof (cases "PageToDataPtrs v ! (i div ps)")
  case (Some page)
  then show ?thesis using assms page_in_range [OF assms] page_length [OF assms(1) page_in_range [OF assms]]
    by (simp add: materialize_def)
next
  case None
  let ?v = "v\<lparr>PageToDataPtrs := (PageToDataPtrs v)[i div ps := Some (replicate ps dflt)]\<rparr>"
  have ps: "0 < ps" using assms(1) by (simp add: pv_ok_def)
  have "pv_ok ps ?v" using assms(1) by (auto simp: pv_ok_def dest!: set_update_subset_insert [THEN subsetD])
  moreover have "pv_elem ps dflt ?v = pv_elem ps dflt v"
    using None ps page_in_range [OF assms] by (auto simp: fun_eq_iff pv_elem_def nth_list_update)
  ultimately show ?thesis using None page_in_range [OF assms] assms(2) by (auto simp: materialize_def)
qed

lemma PagedVec_get_run:
  assumes "pv_ok ps v" "i < pv_Size v"
  shows "\<exists>v'. PagedVec_get ps dflt i v = Ret (pv_elem ps dflt v i) v' \<and> pv_ok ps v' \<and> pv_list ps dflt v' = pv_list ps dflt v"
proof -
  obtain v' page where v': "materialize ps dflt i v = Ret () v'" "pv_ok ps v'" "pv_Size v' = pv_Size v"
    "pv_elem ps dflt v' = pv_elem ps dflt v" "PageToDataPtrs v' ! (i div ps) = Some page" "i div ps < length (PageToDataPtrs v')"
    using materialize_run [OF assms] by blast
  have "pv_elem ps dflt v i = page ! (i mod ps)" using v'(5,6) by (simp add: pv_elem_def flip: v'(4))
  then show ?thesis using v' by (simp add: PagedVec_get_def pv_list_def)
qed

lemma PagedVec_set_run:
  assumes "pv_ok ps v" "i < pv_Size v"
  shows "\<exists>v'. PagedVec_set ps dflt i x v = Ret () v' \<and> pv_ok ps v' \<and> pv_Size v' = pv_Size v
    \<and> pv_elem ps dflt v' = (pv_elem ps dflt v)(i := x)"
proof -
  obtain v1 page where v1: "materialize ps dflt i v = Ret () v1" "pv_ok ps v1" "pv_Size v1 = pv_Size v"
    "pv_elem ps dflt v1 = pv_elem ps dflt v" "PageToDataPtrs v1 ! (i div ps) = Some page"
    "length page = ps" "i div ps < length (PageToDataPtrs v1)"
    using materialize_run [OF assms] by blast
  let ?v = "v1\<lparr>PageToDataPtrs := (PageToDataPtrs v1)[i div ps := Some (page[i mod ps := x])]\<rparr>"
  have ps: "0 < ps" using assms(1) by (simp add: pv_ok_def)
  have "pv_ok ps ?v" using v1(2,6) by (auto simp: pv_ok_def dest!: set_update_subset_insert [THEN subsetD])
  moreover have "pv_elem ps dflt ?v j = ((pv_elem ps dflt v1)(i := x)) j" for j
  proof (cases "j div ps = i div ps")
    case True
    then have "j = i \<longleftrightarrow> j mod ps = i mod ps" by (metis div_mult_mod_eq)
    then show ?thesis using True v1(5,6,7) ps by (auto simp: pv_elem_def)
  next
    case False
    then have "j \<noteq> i" by auto
    then show ?thesis using False by (simp add: pv_elem_def)
  qed
  ultimately show ?thesis using v1 by (auto simp: PagedVec_set_def fun_eq_iff)
qed

lemma pv_resize_run:
  assumes "pv_ok ps v"
  shows "\<exists>v'. pv_resize ps n v = Ret () v' \<and> pv_ok ps v' \<and> pv_Size v' = n
    \<and> (\<forall>i < n. pv_elem ps dflt v' i = pv_elem ps dflt v i)"
proof (cases "n = 0")
  case True
  then show ?thesis using assms by (simp add: pv_resize_def PagedVec_clear_def pv_ok_def)
next
  case False
  let ?m = "(n - 1) div ps + 1"
  let ?v = "v\<lparr>pv_Size := n, PageToDataPtrs := resize_index ?m (PageToDataPtrs v)\<rparr>"
  have "pv_ok ps ?v" using assms False by (auto simp: pv_ok_def resize_index_def dest!: in_set_takeD)
  moreover have "pv_elem ps dflt ?v i = pv_elem ps dflt v i" if "i < n" for i
  proof -
    have "i div ps \<le> (n - 1) div ps" using that by (intro div_le_mono) simp
    then show ?thesis by (auto simp: pv_elem_def resize_index_def nth_append less_Suc_eq_le)
  qed
  ultimately show ?thesis using False by (auto simp: pv_resize_def)
qed



section \<open>Iterating over what exists\<close>

definition present :: "nat \<Rightarrow> 'v PagedVec \<Rightarrow> nat \<Rightarrow> bool" where
  "present ps v i \<longleftrightarrow> \<not> page_missing ps v i"

lemma present_page: "i div ps = j div ps \<Longrightarrow> present ps v i = present ps v j"
  by (simp add: present_def page_missing_def)

lemma filter_block:
  assumes "i mod ps = 0" "0 < ps" "\<not> present ps v i" "i < n"
  shows "filter (present ps v) [i..<n] = filter (present ps v) [i + ps..<n]"
proof -
  have "\<not> present ps v j" if "i \<le> j" "j < i + ps" for j
  proof -
    have "ps dvd i" using assms(1) by auto
    then have "(i + (j - i)) div ps = i div ps + (j - i) div ps" by (rule div_plus_div_distrib_dvd_left)
    then have "j div ps = i div ps" using that by simp
    then show ?thesis using assms(3) present_page by metis
  qed
  then have n: "\<forall>j \<in> set [i..<min n (i + ps)]. \<not> present ps v j" by auto
  have "[i..<n] = [i..<min n (i + ps)] @ [min n (i + ps)..<n]"
    using upt_add_eq_append [of i "min n (i + ps)" "n - min n (i + ps)"] assms(4) by simp
  moreover have "[min n (i + ps)..<n] = [i + ps..<n]" by (cases "n \<le> i + ps") auto
  ultimately show ?thesis using n by (simp add: filter_empty_conv)
qed


lemma skip_pages_spec:
  assumes "i mod ps = 0" "0 < ps"
  shows "filter (present ps v) [i..<pv_Size v] = filter (present ps v) [skip_pages ps v i..<pv_Size v]
    \<and> skip_pages ps v i mod ps = 0 \<and> i \<le> skip_pages ps v i
    \<and> (skip_pages ps v i < pv_Size v \<longrightarrow> present ps v (skip_pages ps v i))"
  using assms
proof (induction ps v i rule: skip_pages.induct)
  case (1 ps v i)
  show ?case
  proof (cases "i < pv_Size v \<and> page_missing ps v i")
    case False
    then show ?thesis using 1(2) by (auto simp: skip_pages.simps [of ps v i] present_def)
  next
    case True
    then have "\<not> present ps v i" "i < pv_Size v" by (simp_all add: present_def)
    then have "filter (present ps v) [i..<pv_Size v] = filter (present ps v) [i + ps..<pv_Size v]"
      by (rule filter_block [OF 1(2,3)])
    moreover have "skip_pages ps v i = skip_pages ps v (i + ps)" using True 1(3) by (simp add: skip_pages.simps [of ps v i])
    ultimately show ?thesis using 1(1) True 1(2,3) by simp
  qed
qed

lemma iter_next_spec:
  assumes "0 < ps" "present ps v i" "i < pv_Size v"
  shows "filter (present ps v) [Suc i..<pv_Size v] = filter (present ps v) [iter_next ps v i..<pv_Size v]
    \<and> i < iter_next ps v i \<and> iter_next ps v i \<le> pv_Size v
    \<and> (iter_next ps v i < pv_Size v \<longrightarrow> present ps v (iter_next ps v i))"
proof (cases "(i + 1) mod ps = 0")
  case True
  then show ?thesis using skip_pages_spec [OF True assms(1), of v] assms(3) by (auto simp: iter_next_def Let_def)
next
  case False
  then have "Suc i div ps = i div ps" by (simp add: div_Suc)
  then show ?thesis using assms(2,3) False present_page [of "Suc i" ps i v] by (simp add: iter_next_def)
qed

lemma materialized_from_run:
  assumes "0 < ps" "i \<le> pv_Size v" "i < pv_Size v \<longrightarrow> present ps v i"
  shows "materialized_from ps v i = Some (filter (present ps v) [i..<pv_Size v])"
  using assms
proof (induction "pv_Size v - i" arbitrary: i rule: less_induct)
  case less
  show ?case
  proof (cases "i = pv_Size v")
    case True
    then show ?thesis by (simp add: materialized_from.simps)
  next
    case False
    then have i: "i < pv_Size v" "present ps v i" using less.prems by auto
    note n = iter_next_spec [OF less.prems(1) i(2,1)]
    have "materialized_from ps v (iter_next ps v i) = Some (filter (present ps v) [iter_next ps v i..<pv_Size v])"
      by (rule less.hyps) (use n i less.prems(1) in auto)
    then show ?thesis using n i by (simp add: materialized_from.simps [of ps v i] upt_conv_Cons)
  qed
qed

text \<open>Iterating over the materialized elements ends and visits, in order and once, exactly the
  indices below the size whose page exists.\<close>

theorem materialized_visits:
  assumes "pv_ok ps v"
  shows "materialized_from ps v (materialized_begin ps v) = Some (filter (present ps v) [0..<pv_Size v])"
proof -
  have ps: "0 < ps" using assms by (simp add: pv_ok_def)
  note k = skip_pages_spec [of 0 ps v, OF _ ps]
  have "materialized_from ps v (materialized_begin ps v) = Some (filter (present ps v) [materialized_begin ps v..<pv_Size v])"
    by (rule materialized_from_run) (use k ps in \<open>auto simp: materialized_begin_def Let_def\<close>)
  then show ?thesis using k by (auto simp: materialized_begin_def Let_def)
qed


text \<open>Five elements on pages of two, of which only the second exists.\<close>

definition pv_example :: "nat PagedVec" where
  "pv_example = \<lparr>pv_Size = 5, PageToDataPtrs = [None, Some [0, 9], None]\<rparr>"

lemma pv_example_ok: "pv_ok 2 pv_example"
  by (simp add: pv_ok_def pv_example_def)


theorem materialized_visits_witness:
  "materialized_from 2 pv_example (materialized_begin 2 pv_example) = Some [2, 3]"
  using materialized_visits [OF pv_example_ok]
  by (simp add: pv_example_def present_def page_missing_def upt_rec)

end
