(* ===== verification/NBitInt.thy ===== *)
theory NBitInt
  imports Bounded
begin

text \<open>
  Integers of any width up to 64 bits (\<open>exi/Basic/NBitInt.hpp\<close>, the width tests of
  \<open>core/Support/MathExtras.hpp\<close>). The template parameters are a type as in \<open>Bounded\<close>, of any width. An
  object is the 64 bits of its union: \<open>AllData\<close> is the whole, \<open>Data\<close> the bit-field in the low bits, which
  a write replaces and a read extends by its sign.
\<close>

section \<open>Width tests\<close>

definition maxUIntN :: "nat \<Rightarrow> u64" where
  "maxUIntN n = (if n = 0 then 0 else drop_bit (64 - n) (- 1))"

definition minIntN :: "nat \<Rightarrow> int" where
  "minIntN n = (if n = 0 then 0 else sint (1 + NOT (push_bit (n - 1) 1) :: u64))"

definition maxIntN :: "nat \<Rightarrow> int" where
  "maxIntN n = (if n = 0 then 0 else sint (push_bit (n - 1) 1 - 1 :: u64))"

definition isUIntN :: "nat \<Rightarrow> u64 \<Rightarrow> bool" where
  "isUIntN n x \<longleftrightarrow> 64 \<le> n \<or> x \<le> maxUIntN n"

definition isIntN :: "nat \<Rightarrow> int \<Rightarrow> bool" where
  "isIntN n x \<longleftrightarrow> 64 \<le> n \<or> (minIntN n \<le> x \<and> x \<le> maxIntN n)"

section \<open>Objects\<close>

definition value_type :: "int_type \<Rightarrow> int_type" where
  "value_type t = (if ty_signed t then i64_t else u64_t)"

definition Data :: "int_type \<Rightarrow> u64 \<Rightarrow> int" where
  "Data t d = static_cast t (uint d)"

definition setData :: "int_type \<Rightarrow> int \<Rightarrow> u64 \<Rightarrow> u64" where
  "setData t x d = (d AND NOT (mask (ty_bits t))) OR (word_of_int x AND mask (ty_bits t))"

definition IsNBit :: "int_type \<Rightarrow> int \<Rightarrow> bool" where
  "IsNBit t x = (if ty_signed t then isIntN (ty_bits t) x else isUIntN (ty_bits t) (word_of_int x))"

definition AssertNBitInt :: "int_type \<Rightarrow> int_type \<Rightarrow> int \<Rightarrow> 's \<Rightarrow> ('e, unit, 's) outcome" where
  "AssertNBitInt t from x =
    thenM (assertM (\<lambda>_. ty_signed t \<noteq> ty_signed from \<and> \<not> ty_signed t \<longrightarrow> 0 \<le> x))
      (assertM (\<lambda>_. IsNBit t (static_cast (value_type t) x)))"

text \<open>The constructors and assignments, from an integer and from a width of the same sign.\<close>

definition NBitInt_new :: "int_type \<Rightarrow> int_type \<Rightarrow> int \<Rightarrow> 's \<Rightarrow> ('e, u64, 's) outcome" where
  "NBitInt_new t from x = thenM (AssertNBitInt t from x) (retM (setData t (static_cast (value_type t) x) 0))"

definition NBitInt_assign :: "int_type \<Rightarrow> int_type \<Rightarrow> int \<Rightarrow> u64 \<Rightarrow> ('e, unit, u64) outcome" where
  "NBitInt_assign t from x = thenM (AssertNBitInt t from x) (modM (setData t (static_cast (value_type t) x)))"

definition NBitInt_newFrom :: "int_type \<Rightarrow> int_type \<Rightarrow> u64 \<Rightarrow> 's \<Rightarrow> ('e, u64, 's) outcome" where
  "NBitInt_newFrom t from i = NBitInt_new t (value_type from) (Data from i)"

definition NBitInt_assignFrom :: "int_type \<Rightarrow> int_type \<Rightarrow> u64 \<Rightarrow> u64 \<Rightarrow> ('e, unit, u64) outcome" where
  "NBitInt_assignFrom t from i = NBitInt_assign t (value_type from) (Data from i)"

text \<open>Bit patterns.\<close>

definition FromBits :: "int_type \<Rightarrow> u64 \<Rightarrow> 's \<Rightarrow> ('e, u64, 's) outcome" where
  "FromBits t v = thenM (assertM (\<lambda>_. isUIntN (ty_bits t) v)) (retM (setData t (uint v) 0))"

definition FromBitsOf :: "int_type \<Rightarrow> u64 \<Rightarrow> 's \<Rightarrow> ('e, u64, 's) outcome" where
  "FromBitsOf t all = thenM (assertM (\<lambda>_. isUIntN (ty_bits t) all)) (retM all)"

section \<open>Casts\<close>

text \<open>To an integral type, and to an n-bit type from an integral type or from another n-bit type, whose
  value has the type that holds it.\<close>

definition toIntegral_isPossible :: "int_type \<Rightarrow> int_type \<Rightarrow> u64 \<Rightarrow> bool" where
  "toIntegral_isPossible to from d = CheckIntCast to (value_type from) (Data from d)"

definition GetValue :: "int_type \<Rightarrow> int \<Rightarrow> int" where
  "GetValue t x = static_cast (value_type t) x"

definition toNBit_isPossible :: "int_type \<Rightarrow> int_type \<Rightarrow> int \<Rightarrow> bool" where
  "toNBit_isPossible t from x = (if \<not> CheckIntCast (value_type t) from x then False else IsNBit t (GetValue t x))"

definition toNBit_doCast :: "int_type \<Rightarrow> int \<Rightarrow> u64" where
  "toNBit_doCast t x = setData t (GetValue t x) 0"

definition toNBit_OrZero :: "int_type \<Rightarrow> int_type \<Rightarrow> int \<Rightarrow> u64" where
  "toNBit_OrZero t from x = (if \<not> toNBit_isPossible t from x then setData t 0 0 else toNBit_doCast t x)"

section \<open>What the tests accept\<close>

definition nbit_ok :: "int_type \<Rightarrow> bool" where
  "nbit_ok t \<longleftrightarrow> 0 < ty_bits t \<and> ty_bits t \<le> 64"

lemma maxUIntN_eq: "n \<le> 64 \<Longrightarrow> maxUIntN n = mask n"
  by (rule bit_word_eqI) (auto simp: maxUIntN_def bit_drop_bit_eq bit_mask_iff)

lemma uint_mask: "n \<le> 64 \<Longrightarrow> uint (mask n :: u64) = 2 ^ n - 1"
  by (simp only: uint_mask_eq) (simp add: mask_eq_exp_minus_1)

lemma isUIntN_iff: "n \<le> 64 \<Longrightarrow> isUIntN n x \<longleftrightarrow> uint x < 2 ^ n"
  using uint_lt2p [of x] uint_mask [of n]
  by (cases "n = 64") (auto simp: isUIntN_def maxUIntN_eq word_le_def)

lemma sint_small:
  assumes "- (2 ^ 63) \<le> k" "k < 2 ^ 63"
  shows "sint (word_of_int k :: u64) = k"
  using assms by (transfer fixing: k) (simp add: signed_take_bit_int_eq_self)

lemma uint_small: "0 \<le> k \<Longrightarrow> k < 2 ^ 64 \<Longrightarrow> uint (word_of_int k :: u64) = k"
  by (transfer fixing: k) (simp add: take_bit_int_eq_self)

lemma powers_wide:
  assumes "nbit_ok t"
  shows "(2 :: int) ^ ty_bits t \<le> 2 ^ 64" "(2 :: int) ^ (ty_bits t - 1) \<le> 2 ^ 63"
  using assms by (auto simp only: nbit_ok_def intro!: power_increasing)

lemma limits:
  assumes "0 < n" "n < 64"
  shows "minIntN n = - (2 ^ (n - 1))" "maxIntN n = 2 ^ (n - 1) - 1"
proof -
  have le: "(2 :: int) ^ (n - 1) < 2 ^ 63" using assms by (intro power_strict_increasing) auto
  have pos: "(0 :: int) < 2 ^ (n - 1)" by simp
  have "1 + NOT (push_bit (n - 1) 1) = (word_of_int (- (2 ^ (n - 1))) :: u64)"
    by (simp add: not_eq_complement push_bit_eq_mult)
  moreover have "sint (word_of_int (- (2 ^ (n - 1))) :: u64) = - (2 ^ (n - 1))"
    by (rule sint_small) (use le pos in linarith)+
  ultimately show "minIntN n = - (2 ^ (n - 1))" using assms(1) by (simp only: minIntN_def) simp
  have "push_bit (n - 1) 1 - 1 = (word_of_int (2 ^ (n - 1) - 1) :: u64)"
    by (simp add: push_bit_eq_mult)
  moreover have "sint (word_of_int (2 ^ (n - 1) - 1) :: u64) = 2 ^ (n - 1) - 1"
    by (rule sint_small) (use le pos in linarith)+
  ultimately show "maxIntN n = 2 ^ (n - 1) - 1" using assms(1) by (simp only: maxIntN_def) simp
qed


text \<open>For the values of the wide type, the width test is membership in the n-bit type.\<close>

lemma IsNBit_iff:
  assumes "nbit_ok t" "is_value (value_type t) x"
  shows "IsNBit t x \<longleftrightarrow> is_value t x"
proof (cases "ty_signed t")
  case True
  show ?thesis
  proof (cases "ty_bits t = 64")
    case True
    with \<open>ty_signed t\<close> assms show ?thesis
      by (simp add: IsNBit_def isIntN_def value_type_def is_value_def min_v_def max_v_def i64_t_def)
  next
    case False
    with \<open>ty_signed t\<close> assms show ?thesis
      by (simp add: IsNBit_def isIntN_def is_value_def min_v_def max_v_def limits nbit_ok_def)
  qed
next
  case False
  then have "0 \<le> x" "x < 2 ^ 64" using assms(2) by (simp_all add: value_type_def is_value_def min_v_def max_v_def u64_t_def)
  then have "uint (word_of_int x :: u64) = x" by (rule uint_small)
  with False assms(1) \<open>0 \<le> x\<close> show ?thesis
    by (simp add: IsNBit_def isUIntN_iff nbit_ok_def is_value_def min_v_def max_v_def)
qed

lemma value_type_ok [simp]: "int_type_ok (value_type t)" "ty_bits (value_type t) = 64"
    "ty_signed (value_type t) = ty_signed t"
  by (simp_all add: value_type_def int_types int_type_ok_def)

lemma is_value_wide:
  assumes "nbit_ok t" "is_value t x"
  shows "is_value (value_type t) x"
  using assms(2) powers_wide [OF assms(1)] by (auto simp: is_value_def min_v_def max_v_def value_type_def int_types)

text \<open>What was written is read back.\<close>

lemma uint_setData:
  assumes "nbit_ok t"
  shows "uint (setData t x 0) = x mod 2 ^ ty_bits t"
proof -
  have "setData t x 0 = word_of_int (x mod 2 ^ ty_bits t)"
    by (simp add: setData_def and_mask_wi take_bit_eq_mod)
  moreover have "x mod 2 ^ ty_bits t < 2 ^ 64"
    using powers_wide(1) [OF assms] by (meson order_less_le_trans pos_mod_bound zero_less_numeral zero_less_power)
  ultimately show ?thesis by (simp only: uint_small pos_mod_sign zero_less_power zero_less_numeral)
qed

lemma Data_setData:
  assumes "nbit_ok t"
  shows "Data t (setData t x 0) = static_cast t x"
  by (simp add: Data_def uint_setData [OF assms] static_cast_def)


section \<open>Construction and casts\<close>

text \<open>The value an object of type \<open>t\<close> takes from an integer: its own, if it fits; a 64-bit unsigned integer may
  also be taken for the negative number with the same bits.\<close>

definition taken :: "int_type \<Rightarrow> int_type \<Rightarrow> int \<Rightarrow> int option" where
  "taken t from x = (if is_value t x then Some x
     else if ty_signed t \<and> \<not> ty_signed from \<and> is_value t (x - 2 ^ 64) then Some (x - 2 ^ 64) else None)"

lemma integral_range:
  assumes "int_type_ok from" "is_value from x"
  shows "- (2 ^ 63) \<le> x" "x < 2 ^ 64" "\<not> ty_signed from \<Longrightarrow> 0 \<le> x" "ty_signed from \<or> ty_bits from \<noteq> 64 \<Longrightarrow> x < 2 ^ 63"
  using assms by (auto simp: int_type_ok_def is_value_def min_v_def max_v_def split: if_splits)

lemma wide_range: "is_value (value_type t) x \<longleftrightarrow> (if ty_signed t then - (2 ^ 63) \<le> x \<and> x < 2 ^ 63 else 0 \<le> x \<and> x < 2 ^ 64)"
  by (simp add: value_type_def is_value_def min_v_def max_v_def int_types) linarith

lemma wide_cases:
  assumes "int_type_ok from" "is_value from x"
  obtains "is_value (value_type t) x" | "\<not> ty_signed t" "x < 0"
    | "ty_signed t" "\<not> ty_signed from" "ty_bits from = 64" "2 ^ 63 \<le> x" "x < 2 ^ 64"
  using integral_range [OF assms] unfolding wide_range by (metis linorder_not_less)

lemma no_negative_bits: "is_value from x \<Longrightarrow> int_type_ok from \<Longrightarrow> \<not> ty_signed from \<Longrightarrow> x < 2 ^ 63 \<Longrightarrow> nbit_ok t \<Longrightarrow> \<not> is_value t (x - 2 ^ 64)"
  using powers_wide [of t] by (auto simp: is_value_def min_v_def)

lemma taken_iff:
  assumes "nbit_ok t" "int_type_ok from" "is_value from x"
  shows "toNBit_isPossible t from x \<longleftrightarrow> taken t from x \<noteq> None"
    and "taken t from x = Some y \<Longrightarrow> static_cast (value_type t) x = y \<and> is_value t y"
    and "(ty_signed t \<noteq> ty_signed from \<and> \<not> ty_signed t \<longrightarrow> 0 \<le> x) \<and> IsNBit t (static_cast (value_type t) x) \<longleftrightarrow> taken t from x \<noteq> None"
proof -
  have c: "CheckIntCast (value_type t) from x \<longleftrightarrow> is_value (value_type t) x \<or> (ty_bits from = 64 \<and> ty_signed t \<and> \<not> ty_signed from)"
    using IntCastIsPossible_iff_aux [OF value_type_ok(1) assms(2,3)] by auto
  have "(toNBit_isPossible t from x \<longleftrightarrow> taken t from x \<noteq> None)
    \<and> (taken t from x = Some y \<longrightarrow> static_cast (value_type t) x = y \<and> is_value t y)
    \<and> ((ty_signed t \<noteq> ty_signed from \<and> \<not> ty_signed t \<longrightarrow> 0 \<le> x) \<and> IsNBit t (static_cast (value_type t) x) \<longleftrightarrow> taken t from x \<noteq> None)"
  proof (cases t rule: wide_cases [OF assms(2,3)])
    case 1
    then have i: "static_cast (value_type t) x = x" by (simp add: static_cast_id)
    have n: "ty_signed t \<Longrightarrow> \<not> ty_signed from \<Longrightarrow> \<not> is_value t (x - 2 ^ 64)"
      using 1 no_negative_bits [OF assms(3,2) _ _ assms(1)] by (simp add: value_type_def is_value_def max_v_def i64_t_def)
    have p: "\<not> ty_signed t \<Longrightarrow> 0 \<le> x" using 1 by (simp add: is_value_def min_v_def)
    show ?thesis using 1 i n p c IsNBit_iff [OF assms(1) 1]
      by (auto simp: toNBit_isPossible_def GetValue_def taken_def)
  next
    case 2
    then have "\<not> is_value t x" "\<not> is_value (value_type t) x" "ty_signed from"
      using assms(3) by (auto simp: is_value_def min_v_def split: if_splits)
    then show ?thesis using 2 c by (auto simp: toNBit_isPossible_def taken_def)
  next
    case 3
    have i: "static_cast (value_type t) x = x - 2 ^ 64"
      using 3 by (simp add: static_cast_def value_type_def i64_t_def Let_def)
    have v: "is_value (value_type t) (x - 2 ^ 64)" using 3 by (simp add: is_value_def min_v_def max_v_def value_type_def i64_t_def)
    have "\<not> is_value t x" using 3 powers_wide [OF assms(1)] by (simp add: is_value_def max_v_def)
    then show ?thesis using 3 i c IsNBit_iff [OF assms(1) v] by (auto simp: toNBit_isPossible_def GetValue_def taken_def)
  qed
  then show "toNBit_isPossible t from x \<longleftrightarrow> taken t from x \<noteq> None"
    and "taken t from x = Some y \<Longrightarrow> static_cast (value_type t) x = y \<and> is_value t y"
    and "(ty_signed t \<noteq> ty_signed from \<and> \<not> ty_signed t \<longrightarrow> 0 \<le> x) \<and> IsNBit t (static_cast (value_type t) x) \<longleftrightarrow> taken t from x \<noteq> None"
    by blast+
qed

text \<open>An n-bit integer is constructed from the integers of its range and keeps their value, and
  the casts to it accept the same integers and give zero for the others; except that from an
  unsigned 64-bit integer a signed one also accepts the bits of a negative number.\<close>

theorem NBitInt_from_integer:
  assumes "nbit_ok t" "int_type_ok from" "is_value from x"
  shows "case taken t from x of
      Some y \<Rightarrow> \<exists>d. (NBitInt_new t from x s :: ('e, u64, 's) outcome) = Ret d s \<and> toNBit_isPossible t from x
        \<and> toNBit_OrZero t from x = d \<and> Data t d = y
    | None \<Rightarrow> (NBitInt_new t from x s :: ('e, u64, 's) outcome) = Fault AssertFail \<and> \<not> toNBit_isPossible t from x
        \<and> Data t (toNBit_OrZero t from x) = 0"
proof (cases "taken t from x")
  case None
  then have n: "\<not> ((ty_signed t \<noteq> ty_signed from \<and> \<not> ty_signed t \<longrightarrow> 0 \<le> x) \<and> IsNBit t (static_cast (value_type t) x))"
    using taken_iff(3) [OF assms] by simp
  then have "(AssertNBitInt t from x s :: ('e, unit, 's) outcome) = Fault AssertFail"
    by (auto simp: AssertNBitInt_def thenM_def bindM_def assertM_def checkM_def)
  moreover have "Data t (setData t 0 0) = 0" by (simp add: Data_setData [OF assms(1)] static_cast_def)
  ultimately show ?thesis using None taken_iff(1) [OF assms] by (simp add: NBitInt_new_def toNBit_OrZero_def)
next
  case (Some y)
  then have y: "static_cast (value_type t) x = y" "is_value t y" "toNBit_isPossible t from x"
    and "(ty_signed t \<noteq> ty_signed from \<and> \<not> ty_signed t \<longrightarrow> 0 \<le> x) \<and> IsNBit t (static_cast (value_type t) x)"
    using taken_iff [OF assms] by blast+
  then have "(AssertNBitInt t from x s :: ('e, unit, 's) outcome) = Ret () s"
    by (auto simp: AssertNBitInt_def thenM_def bindM_def assertM_def checkM_def)
  moreover have "Data t (setData t y 0) = y"
    using y(2) assms(1) by (simp add: Data_setData static_cast_id nbit_ok_def)
  ultimately show ?thesis using Some y by (simp add: NBitInt_new_def toNBit_OrZero_def toNBit_doCast_def GetValue_def)
qed

text \<open>The five-bit integer made of the largest 64-bit unsigned one is -1, and 16 does not fit.\<close>

theorem NBitInt_from_integer_witness:
  "(\<exists>d. (NBitInt_new \<lparr>ty_bits = 5, ty_signed = True\<rparr> u64_t (2 ^ 64 - 1) () :: (unit, u64, unit) outcome) = Ret d ()
      \<and> Data \<lparr>ty_bits = 5, ty_signed = True\<rparr> d = - 1)
    \<and> (NBitInt_new \<lparr>ty_bits = 5, ty_signed = True\<rparr> u64_t 16 () :: (unit, u64, unit) outcome) = Fault AssertFail"
proof -
  have n: "nbit_ok \<lparr>ty_bits = 5, ty_signed = True\<rparr>" by (simp add: nbit_ok_def)
  have v: "is_value u64_t (2 ^ 64 - 1)" "is_value u64_t 16" by (simp_all add: is_value_def min_v_def max_v_def u64_t_def)
  have t: "taken \<lparr>ty_bits = 5, ty_signed = True\<rparr> u64_t (2 ^ 64 - 1) = Some (- 1)"
    "taken \<lparr>ty_bits = 5, ty_signed = True\<rparr> u64_t 16 = None"
    by (simp_all add: taken_def is_value_def min_v_def max_v_def u64_t_def)
  show ?thesis
    using NBitInt_from_integer [OF n int_type_ok_consts(7) v(1), of "()", where 'e = unit]
      NBitInt_from_integer [OF n int_type_ok_consts(7) v(2), of "()", where 'e = unit] unfolding t by auto
qed

text \<open>Bit patterns: a pattern of the width is taken as it is, and the same bits can be read through any
  type of the width and back.\<close>

theorem NBitInt_patterns:
  assumes "nbit_ok t" "nbit_ok u" "ty_bits u = ty_bits t" "is_value t x"
  shows "(FromBits t v s :: ('e, u64, 's) outcome) = (if uint v < 2 ^ ty_bits t then Ret v s else Fault AssertFail)"
    and "(FromBitsOf u (setData t x 0) s :: ('e, u64, 's) outcome) = Ret (setData t x 0) s"
    and "Data u (setData t x 0) = static_cast u x" and "Data t (setData t x 0) = x"
proof -
  have b: "ty_bits t \<le> 64" "0 < ty_bits t" using assms(1) by (simp_all add: nbit_ok_def)
  have "setData t (uint v) 0 = v" if "uint v < 2 ^ ty_bits t"
    using uint_setData [OF assms(1), of "uint v"] that by (simp add: word_uint_eq_iff)
  then show "(FromBits t v s :: ('e, u64, 's) outcome) = (if uint v < 2 ^ ty_bits t then Ret v s else Fault AssertFail)"
    by (simp add: FromBits_def isUIntN_iff [OF b(1)])
  have "uint (setData t x 0) < 2 ^ ty_bits u" by (simp add: uint_setData [OF assms(1)] assms(3))
  then show "(FromBitsOf u (setData t x 0) s :: ('e, u64, 's) outcome) = Ret (setData t x 0) s"
    using isUIntN_iff [of "ty_bits u" "setData t x 0"] b assms(3) by (simp add: FromBitsOf_def)
  show "Data u (setData t x 0) = static_cast u x" using assms(3) by (simp add: Data_def uint_setData [OF assms(1)] static_cast_def)
  show "Data t (setData t x 0) = x" using assms(4) b by (simp add: Data_setData [OF assms(1)] static_cast_id)
qed

end
