(* ===== verification/Numerals.thy ===== *)
theory Numerals
  imports StrRef NBitInt
begin

text \<open>
  Numbers as text: reading them (\<open>lib/core/Common/StrRef.cpp\<close>) and writing them
  (\<open>lib/core/Support/NativeFormatting.cpp\<close>). A function that reads returns whether it failed, what is left
  of the string it was given by reference, and its result; \<open>unsigned long long\<close> is a 64-bit word.
\<close>

section \<open>Reading\<close>

definition consume_front_insensitive :: "bytes \<Rightarrow> bytes \<Rightarrow> bytes option" where
  "consume_front_insensitive s p = (if starts_with_insensitive s p then Some (drop (length p) s) else None)"

definition consume_front :: "bytes \<Rightarrow> bytes \<Rightarrow> bytes option" where
  "consume_front s p = (if take (length p) s = p then Some (drop (length p) s) else None)"

text \<open>\<open>0x\<close>, \<open>0b\<close> and \<open>0o\<close>; the letters may be upper case but for the last.\<close>

definition GetAutoSenseRadix :: "bytes \<Rightarrow> nat \<times> bytes" where
  "GetAutoSenseRadix s = (if s = [] then (10, s)
     else case consume_front_insensitive s [48, 120] of Some t \<Rightarrow> (16, t)
     | None \<Rightarrow> case consume_front_insensitive s [48, 98] of Some t \<Rightarrow> (2, t)
     | None \<Rightarrow> case consume_front s [48, 111] of Some t \<Rightarrow> (8, t)
     | None \<Rightarrow> if s ! 0 = 48 \<and> 1 < length s \<and> isDigit (s ! 1) then (8, drop 1 s) else (10, s))"

definition CharVal :: "8 word \<Rightarrow> nat option" where
  "CharVal c = (if 48 \<le> c \<and> c \<le> 57 then Some (unat (c - 48))
     else if 97 \<le> c \<and> c \<le> 122 then Some (unat (c - 97) + 10)
     else if 65 \<le> c \<and> c \<le> 90 then Some (unat (c - 65) + 10)
     else None)"

fun consume_loop :: "nat \<Rightarrow> bytes \<Rightarrow> u64 \<Rightarrow> bool \<times> bytes \<times> u64" where
  "consume_loop radix [] result = (False, [], result)"
| "consume_loop radix (c # s) result = (case CharVal c of None \<Rightarrow> (False, c # s, result)
     | Some v \<Rightarrow> if radix \<le> v then (False, c # s, result)
       else let result' = result * of_nat radix + of_nat v in
         if result' div of_nat radix < result then (True, c # s, result')
         else consume_loop radix s result')"

definition consumeUnsignedInteger :: "bytes \<Rightarrow> nat \<Rightarrow> u64 \<Rightarrow> bool \<times> bytes \<times> u64" where
  "consumeUnsignedInteger str radix result =
    (case (if radix = 0 then GetAutoSenseRadix str else (radix, str)) of (radix, str) \<Rightarrow>
       if str = [] then (True, str, result)
       else case consume_loop radix str 0 of (overflow, str2, result) \<Rightarrow>
         if overflow then (True, str, result)
         else if length str = length str2 then (True, str, result)
         else (False, str2, result))"

definition consumeSignedInteger :: "bytes \<Rightarrow> nat \<Rightarrow> int \<Rightarrow> bool \<times> bytes \<times> int" where
  "consumeSignedInteger str radix result =
    (if take 1 str \<noteq> [45] then
       (case consumeUnsignedInteger str radix 0 of (failed, str', v) \<Rightarrow>
          if failed \<or> sint v < 0 then (True, str', result) else (False, str', sint v))
     else
       (case consumeUnsignedInteger (drop 1 str) radix 0 of (failed, str2, v) \<Rightarrow>
          if failed \<or> 0 < sint (- v) then (True, str, result) else (False, str2, sint (- v))))"

definition getAsUnsignedInteger :: "bytes \<Rightarrow> nat \<Rightarrow> u64 \<Rightarrow> bool \<times> u64" where
  "getAsUnsignedInteger str radix result =
    (case consumeUnsignedInteger str radix result of (failed, rest, v) \<Rightarrow> (failed \<or> rest \<noteq> [], v))"

definition getAsSignedInteger :: "bytes \<Rightarrow> nat \<Rightarrow> int \<Rightarrow> bool \<times> int" where
  "getAsSignedInteger str radix result =
    (case consumeSignedInteger str radix result of (failed, rest, v) \<Rightarrow> (failed \<or> rest \<noteq> [], v))"

section \<open>Writing\<close>

datatype IntStyle = Integer | Number

lemma word_ten_not_one: "(10 :: 'w::len word) \<noteq> 1"
proof -
  have "\<not> odd (10 :: 'w word)" and "odd (1 :: 'w word)" by simp_all
  then show ?thesis by metis
qed

lemma div_ten_less: "v div 10 \<noteq> 0 \<Longrightarrow> unat (v div 10) < unat (v :: 'w::len word)"
proof -
  assume v: "v div 10 \<noteq> 0"
  have u: "unat (v div 10) = unat v div unat (10 :: 'w word)" by (simp add: unat_div_distrib)
  have "unat (10 :: 'w word) \<noteq> 0" using v u by (metis div_by_0 unat_eq_zero)
  moreover have "unat (10 :: 'w word) \<noteq> 1" using word_ten_not_one by (metis unsigned_1 word_unat_eq_iff)
  moreover have "v \<noteq> 0" using v by auto
  then have "0 < unat v" by (simp add: unat_gt_0)
  ultimately show ?thesis unfolding u by simp
qed

text \<open>The buffer of 128 bytes is filled from its end; what is in it is the list.\<close>

function format_to_buffer :: "'w::len word \<Rightarrow> bytes \<Rightarrow> bytes" where
  "format_to_buffer v buf = (let buf' = (48 + ucast (v mod 10)) # buf in
     if v div 10 \<noteq> 0 then format_to_buffer (v div 10) buf' else buf')"
  by auto
termination
  by (relation "measure (\<lambda>(v, _). unat v)") (auto intro: div_ten_less)

declare format_to_buffer.simps [simp del]

function commas :: "bytes \<Rightarrow> bytes" where
  "commas buf = (if buf = [] then [] else 44 # take 3 buf @ commas (drop 3 buf))"
  by auto
termination by (relation "measure length") auto

declare commas.simps [simp del]

definition writeWithCommas :: "bytes \<Rightarrow> bytes" where
  "writeWithCommas buf = (let n = (length buf - 1) mod 3 + 1 in take n buf @ commas (drop n buf))"

definition write_unsigned_impl :: "'w::len word \<Rightarrow> nat \<Rightarrow> IntStyle \<Rightarrow> bool \<Rightarrow> bytes" where
  "write_unsigned_impl n mindigits style isneg = (let buf = format_to_buffer n [] in
     (if isneg then [45] else [])
     @ (if length buf < mindigits \<and> style \<noteq> Number then replicate (mindigits - length buf) 48 else [])
     @ (if style = Number then writeWithCommas buf else buf))"

definition write_unsigned :: "u64 \<Rightarrow> nat \<Rightarrow> IntStyle \<Rightarrow> bool \<Rightarrow> bytes" where
  "write_unsigned n mindigits style isneg =
    (if n = ucast (ucast n :: u32) then write_unsigned_impl (ucast n :: u32) mindigits style isneg
     else write_unsigned_impl n mindigits style isneg)"

definition write_signed :: "int \<Rightarrow> nat \<Rightarrow> IntStyle \<Rightarrow> bytes" where
  "write_signed n mindigits style = (if 0 \<le> n then write_unsigned (word_of_int n) mindigits style False
     else write_unsigned (- word_of_int n) mindigits style True)"

datatype HexPrintStyle = Upper | Lower | PrefixUpper | PrefixLower

definition hexdigit :: "nat \<Rightarrow> bool \<Rightarrow> 8 word" where
  "hexdigit x lower = (of_nat (if x < 10 then 48 + x else 55 + x)) OR (if lower then 32 else 0)"

function hex_digits :: "u64 \<Rightarrow> bool \<Rightarrow> bytes \<Rightarrow> bytes" where
  "hex_digits n lower buf = (if n = 0 then buf else hex_digits (n div 16) lower (hexdigit (unat (n mod 16)) lower # buf))"
  by auto
termination
  by (relation "measure (\<lambda>(n, _). unat n)") (auto simp: unat_div_distrib unat_gt_0 intro!: div_less_dividend)

declare hex_digits.simps [simp del]

text \<open>\<open>std::bit_width\<close>.\<close>

fun bit_width :: "nat \<Rightarrow> nat" where
  "bit_width n = (if n = 0 then 0 else Suc (bit_width (n div 2)))"

declare bit_width.simps [simp del]

text \<open>The digits overwrite the end of a buffer of zeros, whose second byte the prefix has set.\<close>

definition write_hex :: "u64 \<Rightarrow> HexPrintStyle \<Rightarrow> nat option \<Rightarrow> bytes" where
  "write_hex n style width =
    (let w = min 128 (case width of None \<Rightarrow> 0 | Some w \<Rightarrow> w);
         nibbles = (bit_width (unat n) + 3) div 4;
         prefix = (style = PrefixLower \<or> style = PrefixUpper);
         upper = (style = Upper \<or> style = PrefixUpper);
         chars = max w (max 1 nibbles + (if prefix then 2 else 0));
         buf = (if prefix then [48, 120] @ replicate 126 48 else replicate 128 48);
         digits = hex_digits n (\<not> upper) []
     in take (chars - length digits) buf @ digits)"


section \<open>What reading accepts\<close>

text \<open>The digits in front of a string, and their value.\<close>

definition digits_in :: "nat \<Rightarrow> bytes \<Rightarrow> nat list" where
  "digits_in radix s = map (the \<circ> CharVal) (takeWhile (\<lambda>c. case CharVal c of None \<Rightarrow> False | Some v \<Rightarrow> v < radix) s)"

definition value_of :: "nat \<Rightarrow> nat \<Rightarrow> nat list \<Rightarrow> nat" where
  "value_of radix = foldl (\<lambda>n d. n * radix + d)"

lemma value_of_simps [simp]:
  "value_of radix n [] = n" "value_of radix n (d # ds) = value_of radix (n * radix + d) ds"
  by (simp_all add: value_of_def)

lemma value_of_ge: "n * radix ^ length ds \<le> value_of radix n ds"
proof (induction ds arbitrary: n)
  case (Cons d ds)
  have "n * radix ^ length (d # ds) \<le> (n * radix + d) * radix ^ length ds" by (simp add: algebra_simps)
  also have "\<dots> \<le> value_of radix (n * radix + d) ds" by (rule Cons.IH)
  finally show ?case by simp
qed simp

lemma value_of_mono: "0 < radix \<Longrightarrow> n \<le> value_of radix n ds"
  using value_of_ge [of n radix ds] by (metis le_trans mult.right_neutral mult_le_mono2 one_le_power Suc_leI One_nat_def)

lemma digits_in_Cons:
  "digits_in radix (c # s) = (case CharVal c of None \<Rightarrow> [] | Some v \<Rightarrow> if radix \<le> v then [] else v # digits_in radix s)"
  by (auto simp: digits_in_def split: option.split)

text \<open>One digit: the test for overflow, a division that compares with the value before, is exact.\<close>

lemma digit_step:
  fixes result :: u64
  assumes "1 < radix" "radix < 2 ^ 32" "v < radix"
  defines "result' \<equiv> result * of_nat radix + of_nat v"
  shows "result' div of_nat radix < result \<longleftrightarrow> 2 ^ 64 \<le> unat result * radix + v"
    and "unat result * radix + v < 2 ^ 64 \<Longrightarrow> unat result' = unat result * radix + v"
proof -
  have r': "result' = of_nat (unat result * radix + v)" by (simp add: result'_def)
  have u: "unat (of_nat k :: u64) = k mod 2 ^ 64" for k by (simp add: unsigned_of_nat take_bit_eq_mod)
  have ur: "unat (of_nat radix :: u64) = radix" using assms(2) by (simp add: u)
  show small: "unat result' = unat result * radix + v" if "unat result * radix + v < 2 ^ 64"
    using that by (simp only: r' u mod_less)
  have lt: "result' div of_nat radix < result \<longleftrightarrow> unat result' div radix < unat result"
    by (simp add: word_less_nat_alt unat_div_distrib ur)
  show "result' div of_nat radix < result \<longleftrightarrow> 2 ^ 64 \<le> unat result * radix + v"
  proof (cases "unat result * radix + v < 2 ^ 64")
    case True
    then show ?thesis using small assms(1,3) unfolding lt by simp
  next
    case False
    let ?k = "unat result * radix + v"
    have "unat result' = ?k mod 2 ^ 64" by (simp only: r' u)
    also have "\<dots> = (?k - 2 ^ 64) mod 2 ^ 64" using False by (simp only: le_mod_geq not_less)
    also have "\<dots> \<le> ?k - 2 ^ 64" by (rule mod_less_eq_dividend)
    also have "\<dots> < unat result * radix" using assms(2,3) False by simp
    finally have "unat result' div radix < unat result" using assms(1) by (simp add: div_less_iff_less_mult)
    then show ?thesis using False lt by simp
  qed
qed

lemma consume_loop_spec:
  assumes "1 < radix" "radix < 2 ^ 32"
  shows "if value_of radix (unat result) (digits_in radix s) < 2 ^ 64
    then \<exists>r. consume_loop radix s result = (False, drop (length (digits_in radix s)) s, r) \<and> unat r = value_of radix (unat result) (digits_in radix s)
    else fst (consume_loop radix s result)"
proof (induction s arbitrary: result)
  case Nil
  then show ?case using unsigned_less [of result] by (simp add: digits_in_def)
next
  case (Cons c s)
  show ?case
  proof (cases "\<exists>v. CharVal c = Some v \<and> v < radix")
    case False
    then show ?thesis using unsigned_less [of result] by (auto simp: digits_in_Cons split: option.split)
  next
    case True
    then obtain v where v: "CharVal c = Some v" "v < radix" by blast
    let ?r = "result * of_nat radix + of_nat v :: u64"
    have d: "digits_in radix (c # s) = v # digits_in radix s" using v by (simp add: digits_in_Cons)
    show ?thesis
    proof (cases "unat result * radix + v < 2 ^ 64")
      case True
      then have u: "unat ?r = unat result * radix + v" and "\<not> ?r div of_nat radix < result"
        using digit_step [OF assms v(2), of result] by simp_all
      then have "consume_loop radix (c # s) result = consume_loop radix s ?r" using v by (simp add: Let_def)
      then show ?thesis using Cons.IH [of ?r] unfolding u d by simp
    next
      case False
      then have "?r div of_nat radix < result" using digit_step(1) [OF assms v(2), of result] by simp
      moreover have "\<not> value_of radix (unat result * radix + v) (digits_in radix s) < 2 ^ 64"
        using False value_of_mono [of radix "unat result * radix + v" "digits_in radix s"] assms(1) by linarith
      ultimately show ?thesis using v d by (simp add: Let_def)
    qed
  qed
qed

lemma consume_ok:
  assumes "1 < radix" "radix < 2 ^ 32" "digits_in radix s \<noteq> []" "value_of radix 0 (digits_in radix s) < 2 ^ 64"
  shows "\<exists>r. consumeUnsignedInteger s radix r0 = (False, drop (length (digits_in radix s)) s, r)
    \<and> unat r = value_of radix 0 (digits_in radix s)"
proof -
  have "length (digits_in radix s) \<le> length s" unfolding digits_in_def by (simp add: length_takeWhile_le)
  moreover have "0 < length (digits_in radix s)" using assms(3) by simp
  ultimately have "length s \<noteq> length s - length (digits_in radix s)" "length s \<noteq> 0" by linarith+
  then have "s \<noteq> []" by simp
  then show ?thesis using \<open>length s \<noteq> length s - length (digits_in radix s)\<close> consume_loop_spec [OF assms(1,2), of 0 s] assms(1,4)
    by (auto simp: consumeUnsignedInteger_def)
qed

lemma consume_fail:
  assumes "1 < radix" "radix < 2 ^ 32" "digits_in radix s = [] \<or> \<not> value_of radix 0 (digits_in radix s) < 2 ^ 64"
  shows "fst (consumeUnsignedInteger s radix r0)"
  using consume_loop_spec [OF assms(1,2), of 0 s] assms(1,3)
  by (auto simp: consumeUnsignedInteger_def split: prod.split)

text \<open>Property C38. Reading an unsigned integer in a radix takes the longest run of digits of that radix, of
  either case, and succeeds exactly when there is a digit and the value is below 2^64: the test for
  overflow misses nothing and refuses nothing.\<close>

theorem consumeUnsignedInteger_exact:
  assumes "1 < radix" "radix < 2 ^ 32"
  shows "let ds = digits_in radix s in
    if ds \<noteq> [] \<and> value_of radix 0 ds < 2 ^ 64
    then \<exists>r. consumeUnsignedInteger s radix r0 = (False, drop (length ds) s, r) \<and> unat r = value_of radix 0 ds
    else fst (consumeUnsignedInteger s radix r0)"
  using consume_ok [OF assms, of s r0] consume_fail [OF assms, of s r0] by (auto simp: Let_def)

text \<open>2^64 - 1 is read, 2^64 is not.\<close>

theorem consumeUnsignedInteger_exact_witness:
  "(\<exists>r. consumeUnsignedInteger (map of_char ''18446744073709551615 left'') 10 0 = (False, map of_char '' left'', r) \<and> unat r = 2 ^ 64 - 1)
    \<and> fst (consumeUnsignedInteger (map of_char ''18446744073709551616'') 10 0)"
proof -
  let ?a = "map of_char ''18446744073709551615 left'' :: bytes" and ?b = "map of_char ''18446744073709551616'' :: bytes"
  have d: "digits_in 10 ?a = [1,8,4,4,6,7,4,4,0,7,3,7,0,9,5,5,1,6,1,5]" "digits_in 10 ?b = [1,8,4,4,6,7,4,4,0,7,3,7,0,9,5,5,1,6,1,6]"
    by code_simp+
  show ?thesis
    using consumeUnsignedInteger_exact [of 10 ?a 0, unfolded d Let_def] consumeUnsignedInteger_exact [of 10 ?b 0, unfolded d Let_def] by simp
qed

lemma sint_by_unat: "sint (v :: u64) = (if unat v < 2 ^ 63 then int (unat v) else int (unat v) - 2 ^ 64)"
proof (cases "unat v < 2 ^ 63")
  case True
  then have "int (unat v) < 2 ^ 63" by (metis of_nat_less_iff of_nat_numeral of_nat_power)
  then have "sint (word_of_int (int (unat v)) :: u64) = int (unat v)"
    using of_nat_0_le_iff [of "unat v"] by (intro sint_small) linarith+
  then show ?thesis using True by simp
next
  case False
  have "unat v < 2 ^ 64" using unsigned_less [of v] by simp
  then have "int (unat v) < 2 ^ 64" "2 ^ 63 \<le> int (unat v)"
    using False by (metis of_nat_less_iff of_nat_numeral of_nat_power, metis not_less of_nat_le_iff of_nat_numeral of_nat_power)
  then have "sint (word_of_int (int (unat v) - 2 ^ 64) :: u64) = int (unat v) - 2 ^ 64" by (intro sint_small) auto
  moreover have "(word_of_int (int (unat v) - 2 ^ 64) :: u64) = v" by (simp add: word_of_int_minus)
  ultimately show ?thesis using False by (simp only: if_False)
qed

lemma unat_uminus:
  assumes "v \<noteq> 0"
  shows "unat (- v :: u64) = 2 ^ 64 - unat v"
proof -
  have "uint v mod 2 ^ 64 = uint v" using uint_lt2p [of v] by simp
  moreover have "uint v \<noteq> 0" using assms by (simp add: uint_0_iff)
  ultimately have "uint (- v) = 2 ^ 64 - uint v"
    using uint_word_ariths(4) [of v] zmod_zminus1_eq_if [of "uint v" "2 ^ 64"] by simp
  then have "int (unat (- v) + unat v) = int (2 ^ 64)" by simp
  then have "unat (- v) + unat v = 2 ^ 64" by (simp only: of_nat_eq_iff)
  then show ?thesis by simp
qed

lemma sint_uminus:
  "sint (- v :: u64) = (if unat v \<le> 2 ^ 63 then - int (unat v) else 2 ^ 64 - int (unat v))"
proof (cases "v = 0")
  case False
  then have u: "unat (- v) = 2 ^ 64 - unat v" by (rule unat_uminus)
  have "unat v < 2 ^ 64" "0 < unat v" using unsigned_less [of v] False by (simp_all add: unat_gt_0)
  then show ?thesis unfolding sint_by_unat u by auto
qed simp

text \<open>Signed integers: the values of 64 bits and no others, with a sign in front for the negative ones.\<close>

lemma consumeSigned_plus:
  assumes "1 < radix" "radix < 2 ^ 32" "take 1 s \<noteq> [45]"
  shows "if digits_in radix s \<noteq> [] \<and> value_of radix 0 (digits_in radix s) < 2 ^ 63
    then consumeSignedInteger s radix r0 = (False, drop (length (digits_in radix s)) s, int (value_of radix 0 (digits_in radix s)))
    else fst (consumeSignedInteger s radix r0)"
proof (cases "digits_in radix s \<noteq> [] \<and> value_of radix 0 (digits_in radix s) < 2 ^ 64")
  case True
  then obtain r where "consumeUnsignedInteger s radix 0 = (False, drop (length (digits_in radix s)) s, r)"
    "unat r = value_of radix 0 (digits_in radix s)" using consume_ok [OF assms(1,2)] by blast
  then show ?thesis using True assms(3) sint_by_unat [of r] by (auto simp: consumeSignedInteger_def)
next
  case False
  then have "fst (consumeUnsignedInteger s radix 0)" using consume_fail [OF assms(1,2)] by blast
  then show ?thesis using False assms(3) by (auto simp: consumeSignedInteger_def split: prod.split)
qed

lemma consumeSigned_minus:
  assumes "1 < radix" "radix < 2 ^ 32"
  shows "if digits_in radix s \<noteq> [] \<and> value_of radix 0 (digits_in radix s) \<le> 2 ^ 63
    then consumeSignedInteger (45 # s) radix r0 = (False, drop (length (digits_in radix s)) s, - int (value_of radix 0 (digits_in radix s)))
    else fst (consumeSignedInteger (45 # s) radix r0)"
proof (cases "digits_in radix s \<noteq> [] \<and> value_of radix 0 (digits_in radix s) < 2 ^ 64")
  case True
  then obtain r where r: "consumeUnsignedInteger s radix 0 = (False, drop (length (digits_in radix s)) s, r)"
    "unat r = value_of radix 0 (digits_in radix s)" using consume_ok [OF assms] by blast
  have "unat r < 2 ^ 64" using unsigned_less [of r] by simp
  then show ?thesis using True r sint_uminus [of r] by (auto simp: consumeSignedInteger_def)
next
  case False
  then have "fst (consumeUnsignedInteger s radix 0)" using consume_fail [OF assms] by blast
  then show ?thesis using False by (auto simp: consumeSignedInteger_def split: prod.split)
qed

section \<open>What writing produces\<close>

definition digit_char :: "nat \<Rightarrow> 8 word" where
  "digit_char d = 48 + of_nat d"

lemma unat_of_nat8: "k < 256 \<Longrightarrow> unat (of_nat k :: 8 word) = k"
  by (simp add: unsigned_of_nat take_bit_nat_eq_self)

lemma CharVal_digit: "d < 10 \<Longrightarrow> CharVal (digit_char d) = Some d"
proof -
  assume "d < 10"
  then have "d \<in> {0, 1, 2, 3, 4, 5, 6, 7, 8, 9}" by auto
  then show ?thesis by (auto simp: CharVal_def digit_char_def)
qed

lemma value_of_append: "value_of radix n (ds @ [d]) = value_of radix n ds * radix + d"
  by (simp add: value_of_def)

lemma value_of_zeros: "value_of radix 0 (replicate k 0 @ ds) = value_of radix 0 ds"
  by (induction k) simp_all

text \<open>Decimal digits of a number: no leading zero, so their number is bounded by the value.\<close>

definition decimal :: "nat \<Rightarrow> nat list \<Rightarrow> bool" where
  "decimal n ds \<longleftrightarrow> ds \<noteq> [] \<and> (\<forall>d \<in> set ds. d < 10) \<and> value_of 10 0 ds = n \<and> (0 < n \<longrightarrow> 10 ^ (length ds - 1) \<le> n) \<and> (n = 0 \<longrightarrow> length ds = 1)"

lemma decimal_step: "decimal (n div 10) ds \<Longrightarrow> 0 < n div 10 \<Longrightarrow> decimal n (ds @ [n mod 10])"
proof -
  assume d: "decimal (n div 10) ds" "0 < n div 10"
  then have "10 ^ (length ds - 1) \<le> n div 10" "0 < length ds" by (auto simp: decimal_def)
  then have "10 * 10 ^ (length ds - 1) \<le> n" by simp
  moreover have "(10 :: nat) * 10 ^ (length ds - 1) = 10 ^ length ds" using \<open>0 < length ds\<close> by (cases "length ds") simp_all
  ultimately show ?thesis using d by (auto simp: decimal_def value_of_append)
qed

lemma format_to_buffer_decimal:
  fixes v :: "'w::len word"
  assumes "8 \<le> LENGTH('w)"
  shows "\<exists>ds. format_to_buffer v buf = map digit_char ds @ buf \<and> decimal (unat v) ds"
proof (induction v buf rule: format_to_buffer.induct)
  case (1 v buf)
  have "(10 :: nat) < 2 ^ 8" by simp
  also have "(2 :: nat) ^ 8 \<le> 2 ^ LENGTH('w)" using assms by (intro power_increasing) auto
  finally have ten: "take_bit LENGTH('w) (10 :: nat) = 10" by (rule take_bit_nat_eq_self)
  have d: "unat (v div 10) = unat v div 10" "unat (v mod 10) = unat v mod 10"
    by (simp_all add: unat_div_distrib unat_mod_distrib ten)
  have c: "48 + ucast (v mod 10) = digit_char (unat v mod 10)" by (simp add: digit_char_def flip: d(2))
  show ?case
  proof (cases "v div 10 = 0")
    case True
    then have "unat v div 10 = 0" using d(1) by simp
    then have "decimal (unat v) [unat v mod 10]" by (auto simp: decimal_def)
    then show ?thesis using True c by (auto simp: format_to_buffer.simps [of v buf] intro!: exI [of _ "[unat v mod 10]"])
  next
    case False
    then obtain ds where ds: "format_to_buffer (v div 10) (digit_char (unat v mod 10) # buf) = map digit_char ds @ digit_char (unat v mod 10) # buf"
      "decimal (unat v div 10) ds" using 1 [OF refl] c d(1) by auto
    have "0 < unat v div 10" using False d(1) by (metis unat_gt_0)
    then have "decimal (unat v) (ds @ [unat v mod 10])" using ds(2) decimal_step by blast
    then show ?thesis using ds(1) False c
      by (auto simp: format_to_buffer.simps [of v buf] intro!: exI [of _ "ds @ [unat v mod 10]"])
  qed
qed


lemma decimal_short: "decimal n ds \<Longrightarrow> n < 2 ^ 64 \<Longrightarrow> length ds \<le> 20"
proof (rule ccontr)
  assume d: "decimal n ds" "n < 2 ^ 64" and "\<not> length ds \<le> 20"
  then have "(10 :: nat) ^ 20 \<le> 10 ^ (length ds - 1)" by (intro power_increasing) auto
  moreover have "0 < n" using d(1) \<open>\<not> length ds \<le> 20\<close> by (auto simp: decimal_def)
  ultimately have "10 ^ 20 \<le> n" using d(1) by (auto simp: decimal_def)
  then show False using d(2) by simp
qed

text \<open>The buffer of 128 bytes has room for every number.\<close>

lemma format_to_buffer_fits: "length (format_to_buffer (v :: u64) []) \<le> 20"
proof -
  obtain ds where "format_to_buffer v [] = map digit_char ds" "decimal (unat v) ds"
    using format_to_buffer_decimal [where 'w = 64, of v "[]"] by auto
  moreover have "unat v < 2 ^ 64" using unsigned_less [of v] by simp
  ultimately show ?thesis using decimal_short by simp
qed

lemma write_unsigned_impl_decimal:
  fixes v :: "'w::len word"
  assumes "8 \<le> LENGTH('w)"
  shows "\<exists>k ds. write_unsigned_impl v m Integer isneg = (if isneg then [45] else []) @ map digit_char (replicate k 0 @ ds) \<and> decimal (unat v) ds"
proof -
  obtain ds where ds: "format_to_buffer v [] = map digit_char ds" "decimal (unat v) ds"
    using format_to_buffer_decimal [OF assms, of v "[]"] by auto
  have z: "replicate k 48 = map digit_char (replicate k 0)" for k by (simp add: digit_char_def)
  show ?thesis
    by (rule exI [of _ "if length ds < m then m - length ds else 0"], rule exI [of _ ds])
      (use ds in \<open>simp add: write_unsigned_impl_def Let_def z\<close>)
qed

lemma write_unsigned_decimal:
  "\<exists>k ds. write_unsigned v m Integer isneg = (if isneg then [45] else []) @ map digit_char (replicate k 0 @ ds) \<and> decimal (unat v) ds"
proof (cases "v = ucast (ucast v :: u32)")
  case True
  have up: "unat (ucast u :: u64) = unat u" for u :: u32
    using unsigned_less [of u, where 'a = nat] by (simp add: unsigned_ucast_eq take_bit_nat_eq_self)
  have "unat v = unat (ucast v :: u32)" using True up [of "ucast v"] by metis
  then show ?thesis using True write_unsigned_impl_decimal [where 'w = 32, of "ucast v" m isneg] by (simp add: write_unsigned_def)
next
  case False
  then show ?thesis using write_unsigned_impl_decimal [where 'w = 64, of v m isneg] by (simp add: write_unsigned_def)
qed

lemma digits_in_text: "\<forall>d \<in> set ds. d < 10 \<Longrightarrow> digits_in 10 (map digit_char ds) = ds"
  by (induction ds) (simp_all add: digits_in_Cons CharVal_digit, simp add: digits_in_def)

lemma digit_char_not_minus: "d < 10 \<Longrightarrow> digit_char d \<noteq> 45"
  using CharVal_digit [of d] by (auto simp: CharVal_def)

text \<open>The digits of a written number, with the zeros in front, read back.\<close>

lemma written_digits:
  assumes "decimal n ds"
  shows "digits_in 10 (map digit_char (replicate k 0 @ ds)) = replicate k 0 @ ds"
    and "value_of 10 0 (replicate k 0 @ ds) = n" and "replicate k 0 @ ds \<noteq> []"
    and "take 1 (map digit_char (replicate k 0 @ ds)) \<noteq> [45]"
proof -
  have l: "\<forall>d \<in> set (replicate k 0 @ ds). d < 10" and ne: "replicate k 0 @ ds \<noteq> []" using assms by (auto simp: decimal_def)
  show "digits_in 10 (map digit_char (replicate k 0 @ ds)) = replicate k 0 @ ds" by (rule digits_in_text [OF l])
  show "value_of 10 0 (replicate k 0 @ ds) = n" using assms by (simp add: value_of_zeros decimal_def)
  show "replicate k 0 @ ds \<noteq> []" by (rule ne)
  obtain d e where "replicate k 0 @ ds = d # e" using ne by (meson list.exhaust)
  then show "take 1 (map digit_char (replicate k 0 @ ds)) \<noteq> [45]" using l digit_char_not_minus by simp
qed

text \<open>Property C39. Every 64-bit integer, signed or not, that is written in decimal is read back as it was,
  whatever the minimal number of digits asked for.\<close>

theorem numbers_read_back:
  "getAsUnsignedInteger (write_unsigned v m Integer False) 10 r0 = (False, v)
    \<and> getAsSignedInteger (write_signed (sint (w :: u64)) m Integer) 10 i0 = (False, sint w)"
proof
  have v: "unat v < 2 ^ 64" using unsigned_less [of v] by simp
  obtain k ds where w: "write_unsigned v m Integer False = map digit_char (replicate k 0 @ ds)" "decimal (unat v) ds"
    using write_unsigned_decimal [of v m False] by auto
  note d = written_digits [OF w(2), of k]
  obtain r where "consumeUnsignedInteger (map digit_char (replicate k 0 @ ds)) 10 r0
      = (False, drop (length (replicate k 0 @ ds)) (map digit_char (replicate k 0 @ ds)), r)" "unat r = unat v"
    using consume_ok [of 10 "map digit_char (replicate k 0 @ ds)" r0] unfolding d(1,2) using d(3) v by auto
  then show "getAsUnsignedInteger (write_unsigned v m Integer False) 10 r0 = (False, v)"
    unfolding w(1) by (simp add: getAsUnsignedInteger_def word_unat_eq_iff)
next
  have lt: "unat w < 2 ^ 64" using unsigned_less [of w] by simp
  show "getAsSignedInteger (write_signed (sint w) m Integer) 10 i0 = (False, sint w)"
  proof (cases "unat w < 2 ^ 63")
    case True
    then have s: "sint w = int (unat w)" by (simp add: sint_by_unat)
    obtain k ds where ds: "write_unsigned w m Integer False = map digit_char (replicate k 0 @ ds)" "decimal (unat w) ds"
      using write_unsigned_decimal [of w m False] by auto
    note d = written_digits [OF ds(2), of k]
    have "write_signed (sint w) m Integer = map digit_char (replicate k 0 @ ds)"
      unfolding s using ds(1) by (simp add: write_signed_def)
    then show ?thesis using consumeSigned_plus [of 10 "map digit_char (replicate k 0 @ ds)" i0] d True s
      by (simp add: getAsSignedInteger_def)
  next
    case False
    then have s: "sint w = int (unat w) - 2 ^ 64" "w \<noteq> 0" by (auto simp: sint_by_unat)
    obtain k ds where ds: "write_unsigned (- w) m Integer True = 45 # map digit_char (replicate k 0 @ ds)" "decimal (unat (- w)) ds"
      using write_unsigned_decimal [of "- w" m True] by auto
    note d = written_digits [OF ds(2), of k]
    have n: "unat (- w) = 2 ^ 64 - unat w" by (rule unat_uminus [OF s(2)])
    have neg: "\<not> 0 \<le> sint w" using s(1) uint_lt2p [of w] by simp
    have "write_signed (sint w) m Integer = 45 # map digit_char (replicate k 0 @ ds)"
      using neg ds(1) by (simp add: write_signed_def)
    moreover have "- int (unat (- w)) = sint w" "unat (- w) \<le> 2 ^ 63" using n s(1) lt False by auto
    ultimately show ?thesis using consumeSigned_minus [of 10 "map digit_char (replicate k 0 @ ds)" i0] d
      by (simp add: getAsSignedInteger_def)
  qed
qed


section \<open>Hexadecimal\<close>

lemma bit_width_bound: "n < 2 ^ k \<Longrightarrow> bit_width n \<le> k"
proof (induction k arbitrary: n)
  case (Suc k)
  then show ?case by (subst bit_width.simps) (auto simp: less_mult_imp_div_less)
qed (simp add: bit_width.simps)

lemma bit_width_0 [simp]: "bit_width 0 = 0"
  by (simp add: bit_width.simps)

lemma bit_width_half: "0 < n \<Longrightarrow> bit_width n = Suc (bit_width (n div 2))"
  by (subst bit_width.simps) simp

text \<open>Four bits to a digit.\<close>

lemma nibbles_step:
  assumes "0 < n"
  shows "(bit_width n + 3) div 4 = Suc ((bit_width (n div 16) + 3) div 4)"
proof (cases "8 \<le> n")
  case True
  then have "bit_width n = 4 + bit_width (n div 16)"
    using bit_width_half [of n] bit_width_half [of "n div 2"] bit_width_half [of "n div 2 div 2"]
      bit_width_half [of "n div 2 div 2 div 2"] by (simp flip: div_mult2_eq)
  then show ?thesis by simp
next
  case False
  then have "n div 16 = 0" and b: "bit_width n \<le> 3" using bit_width_bound [of n 3] by auto
  moreover have "0 < bit_width n" using bit_width_half [OF assms] by simp
  ultimately show ?thesis by simp
qed

lemma CharVal_hexdigit: "d < 16 \<Longrightarrow> CharVal (hexdigit d lower) = Some d"
proof -
  assume "d < 16"
  then have "d = 0 \<or> d = 1 \<or> d = 2 \<or> d = 3 \<or> d = 4 \<or> d = 5 \<or> d = 6 \<or> d = 7 \<or> d = 8 \<or> d = 9 \<or> d = 10
    \<or> d = 11 \<or> d = 12 \<or> d = 13 \<or> d = 14 \<or> d = 15" by arith
  then show ?thesis by (cases lower; elim disjE) (simp_all add: CharVal_def hexdigit_def)
qed

lemma hex_digits_text:
  "\<exists>ds. hex_digits v lower buf = map (\<lambda>d. hexdigit d lower) ds @ buf \<and> (\<forall>d \<in> set ds. d < 16) \<and> value_of 16 0 ds = unat v
    \<and> length ds = (bit_width (unat v) + 3) div 4"
proof (induction v lower buf rule: hex_digits.induct)
  case (1 v lower buf)
  show ?case
  proof (cases "v = 0")
    case True
    then show ?thesis by (simp add: hex_digits.simps)
  next
    case False
    then have pos: "0 < unat v" by (simp add: unat_gt_0)
    have d: "unat (v div 16) = unat v div 16" "unat (v mod 16) = unat v mod 16" by (simp_all add: unat_div_distrib unat_mod_distrib)
    obtain ds where ds: "hex_digits (v div 16) lower (hexdigit (unat (v mod 16)) lower # buf)
        = map (\<lambda>d. hexdigit d lower) ds @ hexdigit (unat v mod 16) lower # buf"
      "\<forall>d \<in> set ds. d < 16" "value_of 16 0 ds = unat v div 16" "length ds = (bit_width (unat v div 16) + 3) div 4"
      using 1 [OF False] unfolding d by blast
    show ?thesis
      by (rule exI [of _ "ds @ [unat v mod 16]"])
        (use False ds nibbles_step [OF pos] in \<open>simp add: hex_digits.simps [of v] value_of_append\<close>)
  qed
qed

lemma digits_in_hex: "\<forall>d \<in> set ds. d < 16 \<Longrightarrow> digits_in 16 (map (\<lambda>d. hexdigit d lower) ds) = ds"
  by (induction ds) (simp_all add: digits_in_Cons CharVal_hexdigit, simp add: digits_in_def)

lemma digits_in_zeros: "digits_in 16 (replicate k 48 @ s) = replicate k 0 @ digits_in 16 s"
proof -
  have "CharVal 48 = Some 0" by (simp add: CharVal_def)
  then show ?thesis by (induction k) (simp_all add: digits_in_Cons)
qed

lemma consume_prefixed:
  assumes "s \<noteq> []"
  shows "consumeUnsignedInteger (48 # 120 # s) 0 r0 = consumeUnsignedInteger s 16 r0"
proof -
  have "starts_with_insensitive (48 # 120 # s) [48, 120]"
    by (simp add: starts_with_insensitive_def numeral_2_eq_2)
  then show ?thesis by (simp add: consumeUnsignedInteger_def GetAutoSenseRadix_def consume_front_insensitive_def)
qed

lemma take_prefixed: "2 \<le> m \<Longrightarrow> m \<le> k + 2 \<Longrightarrow> take m ([a, b] @ replicate k c) = [a, b] @ replicate (m - 2) c"
  by (simp add: take_Cons')

lemma take_zeros: "m \<le> k \<Longrightarrow> take m (replicate k c) = replicate m c"
  by simp

lemma hex_text_consumed:
  assumes "\<forall>d \<in> set ds. d < 16" "value_of 16 0 ds = unat v" "0 < k + length ds"
  shows "consumeUnsignedInteger (replicate k 48 @ map (\<lambda>d. hexdigit d lower) ds) 16 r0 = (False, [], v)"
proof -
  let ?t = "replicate k 48 @ map (\<lambda>d. hexdigit d lower) ds"
  have dig: "digits_in 16 ?t = replicate k 0 @ ds" using assms(1) by (simp add: digits_in_zeros digits_in_hex)
  have "unat v < 2 ^ 64" using unsigned_less [of v] by simp
  then have "value_of 16 0 (digits_in 16 ?t) < 2 ^ 64" unfolding dig value_of_zeros assms(2) .
  moreover have "digits_in 16 ?t \<noteq> []" unfolding dig using assms(3) by auto
  ultimately obtain r where "consumeUnsignedInteger ?t 16 r0 = (False, drop (length (digits_in 16 ?t)) ?t, r)"
    "unat r = value_of 16 0 (digits_in 16 ?t)" using consume_ok [of 16 ?t r0] by fastforce
  then show ?thesis unfolding dig value_of_zeros assms(2) by (simp add: word_unat_eq_iff)
qed

lemma write_hex_text:
  fixes v :: u64
  defines "n \<equiv> (bit_width (unat v) + 3) div 4"
  shows "\<exists>k. write_hex v style width = (if style = PrefixLower \<or> style = PrefixUpper then [48, 120] else [])
      @ replicate k 48 @ hex_digits v (\<not> (style = Upper \<or> style = PrefixUpper)) [] \<and> 0 < k + n"
proof -
  have "unat v < 2 ^ 64" using unsigned_less [of v] by simp
  then have n: "n \<le> 16" using bit_width_bound [of "unat v" 64] by (simp add: n_def)
  let ?lower = "\<not> (style = Upper \<or> style = PrefixUpper)"
  obtain ds where ds: "hex_digits v ?lower [] = map (\<lambda>d. hexdigit d ?lower) ds" "length ds = n"
    using hex_digits_text [of v ?lower "[]"] unfolding n_def by auto
  then have len: "length (hex_digits v ?lower []) = n" by simp
  define w where "w = min (128 :: nat) (case width of None \<Rightarrow> 0 | Some w \<Rightarrow> w)"
  have w: "w \<le> 128" by (simp add: w_def)
  show ?thesis
  proof (cases "style = PrefixLower \<or> style = PrefixUpper")
    case True
    have "take (max w (max 1 n + 2) - n) ([48, 120] @ replicate 126 48 :: bytes) = [48, 120] @ replicate (max w (max 1 n + 2) - n - 2) 48"
      by (rule take_prefixed) (use n w in linarith)+
    then show ?thesis using True len n_def w_def
      by (intro exI [of _ "max w (max 1 n + 2) - n - 2"]) (simp only: write_hex_def Let_def if_True, simp)
  next
    case False
    have "take (max w (max 1 n) - n) (replicate 128 48 :: bytes) = replicate (max w (max 1 n) - n) 48"
      by (rule take_zeros) (use n w in linarith)
    then show ?thesis using False len n_def w_def
      by (intro exI [of _ "max w (max 1 n) - n"]) (simp only: write_hex_def Let_def if_False, simp)
  qed
qed

text \<open>A number written in hexadecimal is read back: with a prefix by sensing the radix, without one in
  radix 16; in either case of the letters and for every width.\<close>

theorem hex_read_back:
  "getAsUnsignedInteger (write_hex v style width) (if style = PrefixLower \<or> style = PrefixUpper then 0 else 16) r0 = (False, v)"
proof -
  let ?lower = "\<not> (style = Upper \<or> style = PrefixUpper)"
  obtain ds where ds: "hex_digits v ?lower [] = map (\<lambda>d. hexdigit d ?lower) ds" "\<forall>d \<in> set ds. d < 16"
    "value_of 16 0 ds = unat v" "length ds = (bit_width (unat v) + 3) div 4" using hex_digits_text [of v ?lower "[]"] unfolding append_Nil2 by blast
  obtain k where k: "write_hex v style width = (if style = PrefixLower \<or> style = PrefixUpper then [48, 120] else [])
      @ replicate k 48 @ map (\<lambda>d. hexdigit d ?lower) ds" "0 < k + length ds"
    using write_hex_text [of v style width] unfolding ds(1) ds(4) [symmetric] by (elim exE conjE) (rule that)
  have c: "consumeUnsignedInteger (replicate k 48 @ map (\<lambda>d. hexdigit d ?lower) ds) 16 r0 = (False, [], v)"
    by (rule hex_text_consumed [OF ds(2,3) k(2)])
  have "replicate k 48 @ map (\<lambda>d. hexdigit d ?lower) ds \<noteq> []" using k(2) by auto
  then have "consumeUnsignedInteger ([48, 120] @ replicate k 48 @ map (\<lambda>d. hexdigit d ?lower) ds) 0 r0 = (False, [], v)"
    using c consume_prefixed by simp
  then show ?thesis unfolding k(1) using c by (cases style) (simp_all add: getAsUnsignedInteger_def)
qed

end
