(* ===== verification/EditDistance.thy ===== *)
theory EditDistance
  imports StrRef
begin

text \<open>
  The edit distance of two strings (\<open>core/Common/edit_distance.hpp\<close>, with its entry points in
  \<open>lib/core/Common/StrRef.cpp\<close>): one row of the table of distances between prefixes, updated for every element of
  the first string. Distances are naturals: they are at most the longer length, far below 2^31. The
  specification is the cost of edit scripts.
\<close>

section \<open>The row\<close>

text \<open>One pass over the row: the elements of the second string, the old entries, the entry to the left, the
  old entry above it, and the best entry so far.\<close>

fun row_loop :: "bool \<Rightarrow> 'a \<Rightarrow> 'a list \<Rightarrow> nat list \<Rightarrow> nat \<Rightarrow> nat \<Rightarrow> nat \<Rightarrow> nat list \<times> nat" where
  "row_loop repl c (t # ts) (old # row) left prev best =
    (let r = (if repl then min (prev + (if c = t then 0 else 1)) (min left old + 1)
              else if c = t then prev else min left old + 1);
         (row', best') = row_loop repl c ts row r old (min best r)
     in (r # row', best'))"
| "row_loop repl c ts row left prev best = ([], best)"

fun rows_loop :: "bool \<Rightarrow> nat \<Rightarrow> 'a list \<Rightarrow> 'a list \<Rightarrow> nat \<Rightarrow> nat list \<Rightarrow> nat" where
  "rows_loop repl maxd to [] y row = last row"
| "rows_loop repl maxd to (c # from) y row =
    (case row_loop repl c to (tl row) y (y - 1) y of (row', best) \<Rightarrow>
      if maxd \<noteq> 0 \<and> maxd < best then maxd + 1 else rows_loop repl maxd to from (y + 1) (y # row'))"

definition ComputeMappedEditDistance :: "'a list \<Rightarrow> 'a list \<Rightarrow> ('a \<Rightarrow> 'a) \<Rightarrow> bool \<Rightarrow> nat \<Rightarrow> nat" where
  "ComputeMappedEditDistance from to f repl maxd =
    (let m = length from; n = length to; diff = (if n < m then m - n else n - m) in
     if maxd \<noteq> 0 \<and> maxd < diff then maxd + 1
     else rows_loop repl maxd (map f to) (map f from) 1 [0..<n + 1])"

definition edit_distance :: "bytes \<Rightarrow> bytes \<Rightarrow> bool \<Rightarrow> nat \<Rightarrow> nat" where
  "edit_distance from to = ComputeMappedEditDistance from to (\<lambda>c. c)"

definition edit_distance_insensitive :: "bytes \<Rightarrow> bytes \<Rightarrow> bool \<Rightarrow> nat \<Rightarrow> nat" where
  "edit_distance_insensitive from to = ComputeMappedEditDistance from to toLower"

section \<open>Edit scripts\<close>

text \<open>\<open>edits repl xs ys k\<close>: \<open>xs\<close> becomes \<open>ys\<close> by \<open>k\<close> removals, insertions and, if allowed, replacements.\<close>

inductive edits :: "bool \<Rightarrow> 'a list \<Rightarrow> 'a list \<Rightarrow> nat \<Rightarrow> bool" for repl where
  done_: "edits repl [] [] 0"
| copy: "edits repl xs ys k \<Longrightarrow> edits repl (x # xs) (x # ys) k"
| remove: "edits repl xs ys k \<Longrightarrow> edits repl (x # xs) ys (Suc k)"
| insert: "edits repl xs ys k \<Longrightarrow> edits repl xs (y # ys) (Suc k)"
| replace: "repl \<Longrightarrow> edits repl xs ys k \<Longrightarrow> edits repl (x # xs) (y # ys) (Suc k)"

lemma edits_snoc:
  assumes "edits repl xs ys k"
  shows "edits repl (xs @ [x]) (ys @ [x]) k" and "edits repl (xs @ [x]) ys (Suc k)"
    and "edits repl xs (ys @ [y]) (Suc k)" and "repl \<Longrightarrow> edits repl (xs @ [x]) (ys @ [y]) (Suc k)"
  using assms by (induction) (auto intro: edits.intros)

lemma edits_rev: "edits repl xs ys k \<Longrightarrow> edits repl (rev xs) (rev ys) k"
  by (induction rule: edits.induct) (auto intro: edits.done_ edits_snoc)

text \<open>The least cost, by recursion on the strings.\<close>

fun lev :: "bool \<Rightarrow> 'a list \<Rightarrow> 'a list \<Rightarrow> nat" where
  "lev repl [] ys = length ys"
| "lev repl (x # xs) [] = Suc (length xs)"
| "lev repl (x # xs) (y # ys) =
    (if repl then min (lev repl xs ys + (if x = y then 0 else 1)) (min (lev repl (x # xs) ys) (lev repl xs (y # ys)) + 1)
     else if x = y then lev repl xs ys else min (lev repl (x # xs) ys) (lev repl xs (y # ys)) + 1)"

lemma lev_Nil [simp]: "lev repl xs [] = length xs"
  by (cases xs) simp_all

lemma edits_length: "edits repl [] (ys :: 'a list) (length ys)" "edits repl (xs :: 'a list) [] (length xs)"
  by (induction ys, auto intro: edits.intros, induction xs, auto intro: edits.intros)

lemma lev_edits: "edits repl xs ys (lev repl xs ys)"
proof (induction repl xs ys rule: lev.induct)
  case (3 repl x xs y ys)
  have a: "repl \<or> x = y \<Longrightarrow> edits repl xs ys (lev repl xs ys)" using 3(1,4) by blast
  have b: "repl \<or> x \<noteq> y \<Longrightarrow> edits repl (x # xs) (y # ys) (lev repl (x # xs) ys + 1)"
    using 3(2,5) edits.insert [of repl "x # xs" ys _ y] by fastforce
  have c: "repl \<or> x \<noteq> y \<Longrightarrow> edits repl (x # xs) (y # ys) (lev repl xs (y # ys) + 1)"
    using 3(3,6) edits.remove [of repl xs "y # ys" _ x] by fastforce
  have d: "repl \<or> x = y \<Longrightarrow> edits repl (x # xs) (y # ys) (lev repl xs ys + (if x = y then 0 else 1))"
    using edits.copy [OF a, of x] edits.replace [OF _ a, of x y] by fastforce
  have m: "min u (min v w + 1) \<in> {u, v + 1, w + 1}" and m': "min v w + 1 \<in> {v + 1, w + 1}" for u v w :: nat by (auto simp: min_def)
  show ?case
  proof (cases repl)
    case True
    then show ?thesis using b c d m [of "lev repl xs ys + (if x = y then 0 else 1)" "lev repl (x # xs) ys" "lev repl xs (y # ys)"]
      unfolding lev.simps by fastforce
  next
    case False
    show ?thesis
    proof (cases "x = y")
      case True
      then show ?thesis using d False unfolding lev.simps by simp
    next
      case neq: False
      then show ?thesis using b c m' [of "lev repl (x # xs) ys" "lev repl xs (y # ys)"] False unfolding lev.simps by fastforce
    qed
  qed
next
  case (2 repl x xs)
  show ?case using edits_length(2) [of repl "x # xs"] by simp
qed (simp add: edits_length)

text \<open>One element more on either side costs at most one.\<close>

lemma lev_step:
  fixes xs ys :: "'a list"
  shows "lev repl xs ys \<le> lev repl xs (y # ys) + 1 \<and> lev repl xs ys \<le> lev repl (x # xs) ys + 1
    \<and> lev repl (x # xs) ys \<le> lev repl xs ys + 1 \<and> lev repl xs (y # ys) \<le> lev repl xs ys + 1"
proof (induction "length xs + length ys" arbitrary: xs ys x y rule: less_induct)
  case less
  have del: "lev repl (a # as) bs \<le> lev repl as bs + 1" if "length as + length bs \<le> length xs + length ys" for a and as bs :: "'a list"
  proof (cases bs)
    case (Cons b cs)
    have "lev repl as cs \<le> lev repl as (b # cs) + 1" using less [of as cs b] that Cons by simp
    then show ?thesis using Cons by (cases repl) auto
  qed simp
  have ins: "lev repl as (b # bs) \<le> lev repl as bs + 1" if "length as + length bs \<le> length xs + length ys" for b and as bs :: "'a list"
  proof (cases as)
    case (Cons a cs)
    have "lev repl cs bs \<le> lev repl (a # cs) bs + 1" using less [of cs bs _ a] that Cons by simp
    then show ?thesis using Cons by (cases repl) auto
  qed simp
  have "lev repl xs ys \<le> lev repl xs (y # ys) + 1"
  proof (cases xs)
    case (Cons a as)
    have "lev repl (a # as) ys \<le> lev repl as ys + 1" using del [of as ys a] Cons by simp
    moreover have "lev repl as ys \<le> lev repl as (y # ys) + 1" using less [of as ys y] Cons by simp
    ultimately show ?thesis using Cons by (cases repl) (auto simp: min_def)
  qed simp
  moreover have "lev repl xs ys \<le> lev repl (x # xs) ys + 1"
  proof (cases ys)
    case (Cons b bs)
    have "lev repl xs (b # bs) \<le> lev repl xs bs + 1" using ins [of xs bs b] Cons by simp
    moreover have "lev repl xs bs \<le> lev repl (x # xs) bs + 1" using less [of xs bs _ x] Cons by simp
    ultimately show ?thesis using Cons by (cases repl) (auto simp: min_def)
  qed simp
  ultimately show ?case using del [of xs ys x] ins [of xs ys y] by simp
qed

lemma lev_least: "edits repl xs ys k \<Longrightarrow> lev repl xs ys \<le> k"
proof (induction rule: edits.induct)
  case (remove xs ys k x)
  then show ?case using lev_step [of repl xs ys undefined x] by linarith
next
  case (insert xs ys k y)
  then show ?case using lev_step [of repl xs ys y undefined] by linarith
qed auto

declare lev.simps(3) [simp del]

section \<open>The table\<close>

text \<open>The entries of a row behind the first: \<open>xs\<close> and \<open>q\<close> are the prefixes so far, newest first.\<close>

primrec lev_row :: "bool \<Rightarrow> 'a list \<Rightarrow> 'a list \<Rightarrow> 'a list \<Rightarrow> nat list" where
  "lev_row repl xs q [] = []"
| "lev_row repl xs q (t # ts) = lev repl xs (t # q) # lev_row repl xs (t # q) ts"

lemma row_loop_lev:
  "row_loop repl c ts (lev_row repl xs q ts) (lev repl (c # xs) q) (lev repl xs q) best
    = (lev_row repl (c # xs) q ts, foldl min best (lev_row repl (c # xs) q ts))"
proof (induction ts arbitrary: q best)
  case (Cons t ts)
  have step: "(if repl then min (lev repl xs q + (if c = t then 0 else 1)) (min (lev repl (c # xs) q) (lev repl xs (t # q)) + 1)
      else if c = t then lev repl xs q else min (lev repl (c # xs) q) (lev repl xs (t # q)) + 1) = lev repl (c # xs) (t # q)"
    by (simp add: lev.simps(3))
  show ?case unfolding lev_row.simps row_loop.simps Let_def step Cons.IH [of "t # q"] prod.case foldl.simps ..
qed simp

lemma foldl_min: "m \<le> foldl min b xs \<longleftrightarrow> m \<le> (b :: nat) \<and> (\<forall>x \<in> set xs. m \<le> x)"
  by (induction xs arbitrary: b) auto

lemma last_lev_row: "last (lev repl xs q # lev_row repl xs q ts) = lev repl xs (rev ts @ q)"
  by (induction ts arbitrary: q) auto

text \<open>A bound below a row bounds the next one.\<close>

lemma row_bound:
  assumes "m \<le> lev repl (c # xs) q" "m \<le> lev repl xs q" "\<forall>x \<in> set (lev_row repl xs q ts). m \<le> x"
  shows "\<forall>x \<in> set (lev_row repl (c # xs) q ts). m \<le> x"
  using assms
proof (induction ts arbitrary: q)
  case (Cons t ts)
  have "m \<le> lev repl xs (t # q)" using Cons.prems(3) by simp
  then have "m \<le> lev repl (c # xs) (t # q)" using Cons.prems(1,2) by (cases repl) (auto simp: lev.simps(3))
  then show ?case using Cons.IH [of "t # q"] Cons.prems(3) by simp
qed simp

lemma rows_bound:
  assumes "m \<le> lev repl xs []" "\<forall>x \<in> set (lev_row repl xs [] to). m \<le> x"
  shows "m \<le> lev repl (rev from @ xs) (rev to)"
  using assms
proof (induction "from" arbitrary: xs)
  case Nil
  have "last (lev repl xs [] # lev_row repl xs [] to) \<in> set (lev repl xs [] # lev_row repl xs [] to)" by (rule last_in_set) simp
  then have "lev repl xs (rev to) \<in> set (lev repl xs [] # lev_row repl xs [] to)" using last_lev_row [of repl xs "[]" to] by simp
  then show ?case using Nil by auto
next
  case (Cons c "from")
  have "m \<le> lev repl (rev from @ c # xs) (rev to)"
  proof (rule Cons.IH)
    show le: "m \<le> lev repl (c # xs) []" using Cons.prems(1) by simp
    show "\<forall>x \<in> set (lev_row repl (c # xs) [] to). m \<le> x" by (rule row_bound [OF le Cons.prems])
  qed
  then show ?case by simp
qed

lemma rows_loop_lev:
  defines "d repl xs from to \<equiv> lev repl (rev from @ xs) (rev to)"
  shows "rows_loop repl maxd to from (Suc (length xs)) (lev repl xs [] # lev_row repl xs [] to) = d repl xs from to
    \<or> (maxd \<noteq> 0 \<and> maxd < d repl xs from to
      \<and> rows_loop repl maxd to from (Suc (length xs)) (lev repl xs [] # lev_row repl xs [] to) = maxd + 1)"
proof (induction "from" arbitrary: xs)
  case Nil
  show ?case using last_lev_row [of repl xs "[]" to] by (simp add: d_def)
next
  case (Cons c "from")
  have r: "row_loop repl c to (lev_row repl xs [] to) (Suc (length xs)) (length xs) (Suc (length xs))
      = (lev_row repl (c # xs) [] to, foldl min (Suc (length xs)) (lev_row repl (c # xs) [] to))"
    using row_loop_lev [of repl c to xs "[]" "Suc (length xs)"] by simp
  show ?case
  proof (cases "maxd \<noteq> 0 \<and> maxd < foldl min (Suc (length xs)) (lev_row repl (c # xs) [] to)")
    case True
    then have "Suc maxd \<le> foldl min (Suc (length xs)) (lev_row repl (c # xs) [] to)" by simp
    then have "Suc maxd \<le> lev repl (rev from @ c # xs) (rev to)"
      by (intro rows_bound) (auto simp: foldl_min)
    then show ?thesis using True r by (simp add: d_def)
  next
    case False
    then show ?thesis using Cons.IH [of "c # xs"] r by (auto simp: d_def)
  qed
qed


lemma first_row: "lev_row repl [] q ts = [Suc (length q)..<Suc (length q + length ts)]"
proof (induction ts arbitrary: q)
  case (Cons t ts)
  then show ?case by (simp add: upt_conv_Cons del: upt_Suc)
qed simp

lemma edits_shift: "edits repl xs ys k \<Longrightarrow> length ys \<le> length xs + k \<and> length xs \<le> length ys + k"
  by (induction rule: edits.induct) auto

lemma ComputeMappedEditDistance_lev:
  fixes "from" to f repl
  defines "d \<equiv> lev repl (rev (map f from)) (rev (map f to))"
  shows "ComputeMappedEditDistance from to f repl maxd = d
    \<or> (maxd \<noteq> 0 \<and> maxd < d \<and> ComputeMappedEditDistance from to f repl maxd = maxd + 1)"
proof -
  let ?diff = "if length to < length from then length from - length to else length to - length from"
  have "?diff \<le> d" using edits_shift [OF lev_edits [of repl "rev (map f from)" "rev (map f to)"]] by (auto simp: d_def)
  moreover have "[0..<length to + 1] = lev repl [] [] # lev_row repl [] [] (map f to)"
    by (simp add: first_row upt_conv_Cons del: upt_Suc)
  ultimately show ?thesis
    using rows_loop_lev [of repl maxd "map f to" "map f from" "[]"]
    by (auto simp: ComputeMappedEditDistance_def Let_def d_def simp del: upt_Suc)
qed

text \<open>Property C37. The edit distance is the least cost of an edit script between the strings as they are
  mapped, with replacements or without. With a maximum, a distance up to it is exact, and a larger
  one gives a larger number.\<close>

theorem edit_distance_least:
  "\<exists>d. edits repl (map f from) (map f to) d \<and> (\<forall>k. edits repl (map f from) (map f to) k \<longrightarrow> d \<le> k)
    \<and> (let r = ComputeMappedEditDistance from to f repl maxd in if maxd = 0 \<or> d \<le> maxd then r = d else maxd < r \<and> r \<le> d)"
proof -
  let ?d = "lev repl (rev (map f from)) (rev (map f to))"
  have "edits repl (map f from) (map f to) ?d"
    using edits_rev [OF lev_edits [of repl "rev (map f from)" "rev (map f to)"]] by simp
  moreover have "?d \<le> k" if "edits repl (map f from) (map f to) k" for k
    by (rule lev_least) (use edits_rev [OF that] in simp)
  ultimately show ?thesis using ComputeMappedEditDistance_lev [of "from" to f repl maxd]
    by (intro exI [of _ ?d]) (auto simp: Let_def)
qed

text \<open>The larger number need not be the maximum plus one: with a maximum of 2, the distance 4 is returned.\<close>

theorem edit_distance_least_witness:
  "edit_distance [120, 121, 97, 98] [97, 98, 99, 100] True 2 = 4
    \<and> \<not> edits True ([120, 121, 97, 98] :: bytes) [97, 98, 99, 100] 2"
proof -
  have v: "ComputeMappedEditDistance ([120, 121, 97, 98] :: bytes) [97, 98, 99, 100] (\<lambda>c. c) True 2 = 4" by code_simp
  obtain d where "\<forall>k. edits True ([120, 121, 97, 98] :: bytes) [97, 98, 99, 100] k \<longrightarrow> d \<le> k"
    "2 < d" using edit_distance_least [of True "\<lambda>c. c" "[120, 121, 97, 98] :: bytes" "[97, 98, 99, 100]" 2]
    unfolding v Let_def by (auto split: if_splits)
  then show ?thesis using v by (auto simp: edit_distance_def)
qed

end
