(* ===== verification/Spec2Isabelle.thy ===== *)
theory Spec2Isabelle
  imports XMLDumper HeaderEncoder XMLManager ParsedDocuments PagedVec Numerals EditDistance
begin

text \<open>
  A verification library of exiCPP, a processor of the Efficient XML Interchange (EXI) format. Paths
  are those of the repository; \<open>exi/\<close> and \<open>core/\<close> are below \<open>include/\<close> and, for the
  \<open>.cpp\<close> files, below \<open>lib/\<close>. The properties are the theorems behind the texts that start with
  \<open>Property C1\<close>, \<open>Property C2\<close>, and so on; the number is their place in the manifest.

  \<^bold>\<open>The program.\<close> An EXI stream is a header and a body. The header decoder reads the header with a bit
  reader and hands the stream to the body decoder. The body decoder owns a reader, a string table and
  a schema; it asks the schema for the next event, the schema reads an event code from the reader and
  moves its state machine, and the decoder reads the names and values of the event through the string
  table and calls a serializer. One serializer builds an XML document in a node store, which the dumper
  prints. On the other side a manager loads XML files, caches them by path in a hash table and parses
  them. The encoder writes headers; its body does not exist yet.

  \<^bold>\<open>How the model reads.\<close> A class is a record, an enumeration or union a datatype, and an operation a
  function of the state to an outcome (theory \<open>Prelude\<close>): \<open>Ret\<close> with a value, \<open>Err\<close> with an
  \<open>ExiError\<close>, both with the state reached, or \<open>Fault\<close> for a failed assertion, invariant or
  unreachable mark (fatal in the default build) and for what C++ leaves undefined (a shift by the
  width or more, an index out of range, an unlinked pointer). \<open>bindM\<close> and \<open>thenM\<close> sequence operations
  and stop at the first that does not return. Stores, codes and bytes are words; counts and offsets
  are naturals with the wrap-around written out where the code can reach it. Objects that are shared by
  reference (grammars, local names, buffers, files, nodes, containers) live in explicit heaps, and a
  reference is an index. A loop that need not end is a \<open>partial_function\<close>, whose value \<open>None\<close> is not
  to return; that it returns is then a theorem (the loop over version chunks of a header, the probes of
  the hash table, the walks over a document) or is part of the statement (the loop over events). Every
  other loop is structural or has a measure. There is no fuel, and no bound but the widths of the code.

  \<^bold>\<open>Bits and streams.\<close>
  \<^item> \<open>Bounded\<close>: integer casts and \<open>Bounded\<close> (\<open>core/Support/IntCast.hpp\<close>, \<open>exi/Basic/Bounded.hpp\<close>).
  \<^item> \<open>Runes\<close>: UTF-8 (\<open>exi/Basic/Runes\<close>). Decoding is total and safe, and inverts encoding.
  \<^item> \<open>StreamBase\<close>, \<open>BitReader\<close>, \<open>ByteReader\<close>, \<open>Octets\<close>, \<open>OrdReader\<close>: the readers of
    \<open>exi/Stream/OrderedReader.hpp\<close>. The specification is the stream as a function from positions to
    bits; \<open>br_at\<close> and \<open>by_at\<close> relate a reader to a position, and the reads are proved to return the
    bits from there on, up to the end and beyond it. The byte reader refines the bit reader. The locale
    \<open>octet_source\<close> is what integers and strings need of a reader, the locale \<open>code_source\<close> what
    event codes need; both are interpreted on the model's readers, the second on their union as well.
  \<^item> \<open>OrdWriter\<close>: the writers of \<open>exi/Stream/OrderedWriter.hpp\<close>. A run of writes appends bits.

  \<^bold>\<open>Headers.\<close>
  \<^item> \<open>ErrorCodes\<close>, \<open>ExiOptions\<close>: errors with their packed details and messages, options, header,
    validation (\<open>exi/Basic/ErrorCodes\<close>, \<open>ExiOptions\<close>, \<open>ExiHeader\<close>).
  \<^item> \<open>HeaderDecoder\<close>, \<open>HeaderEncoder\<close>: \<open>exi/Decode/HeaderDecoder.cpp\<close> and
    \<open>exi/Encode/HeaderEncoder.cpp\<close>. Decoding ends for every buffer and reads the documented header;
    the encoder's header is not one the decoder accepts.

  \<^bold>\<open>The body.\<close>
  \<^item> \<open>CompactID\<close>, \<open>EventCodes\<close>, \<open>LRUCache\<close>, \<open>StringTables\<close>: identifiers and their widths, event
    terms, the cache and the string table of the decoder (\<open>exi/Basic/CompactID.hpp\<close>,
    \<open>exi/Basic/EventCodes\<close>, \<open>core/Common/SmallLRUCache.hpp\<close>, \<open>exi/Basic/StringTables.hpp\<close>,
    \<open>exi/Decode/StringTables.cpp\<close>). The invariant of the table is kept by every operation; lookups
    find what was added; the cache, used through the locale \<open>reference_cache\<close>, is never seen.
  \<^item> \<open>Grammar\<close>, \<open>GrammarTables\<close>: learned productions and the tables of the schemaless grammars
    (\<open>exi/Grammar/Grammar\<close>, \<open>exi/Grammar/Decode/BuiltinSchema.cpp\<close>). The documented event codes are
    read as their events for every setting of the options.
  \<^item> \<open>Decoder\<close>, \<open>SchemaMachine\<close>, \<open>Nesting\<close>: names and values of events (\<open>exi/Decode/BodyDecoder\<close>),
    the state machine of the schema, and its refinement of an automaton of well-nested documents.
  \<^item> \<open>BodyDecoder\<close>, \<open>EventCalls\<close>: initialisation, the loop and the handlers, over any serializer,
    which is a record of callbacks on a state of its own (\<open>exi/Decode/Serializer.hpp\<close>). The locale
    \<open>document_consumer\<close> is what a serializer may rely on: calls come in the order of a document. A
    recorder is one; what it records is what any other is given.
  \<^item> \<open>Execution\<close>: bundles that run the model on concrete streams.

  \<^bold>\<open>XML.\<close>
  \<^item> \<open>XMLStore\<close>, \<open>XMLSerializer\<close>, \<open>XMLDumper\<close>: the nodes of \<open>vendored/rapidxml/rapidxml.hpp\<close> that
    the program changed, the serializer over them (\<open>exi/Decode/XMLSerializer.hpp\<close>), which is a
    \<open>document_consumer\<close>, and the printing of a document (\<open>XMLDumper.cpp\<close>). The store is related to
    lists of children and to trees. End to end, a stream whose calls are those of some content leaves
    and prints the document built from that content.
  \<^item> \<open>StringMap\<close>, \<open>XMLManager\<close>: the hash table (\<open>core/Common/StringMap\<close>), which refines a map, its
    contract \<open>string_store\<close>, and the manager of files that rests on it (\<open>exi/Basic/XMLManager.cpp\<close>,
    \<open>exi/Basic/XMLContainer.cpp\<close>).

  \<^item> \<open>XMLParser\<close>, \<open>ParserModes\<close>, \<open>ParsedDocuments\<close>: the parser of
    \<open>vendored/rapidxml/rapidxml.hpp\<close> in the instances that \<open>exi/Basic/XMLContainer.cpp\<close> compiles, over
    the same node store, with the buffer it overwrites. It returns for every text, stays inside its
    buffer and leaves a sound store; parsing in place agrees with parsing an immutable text, and the
    written zeros fall into no string unless there are processing instructions. The text of every well-formed document of a grammar of elements,
    attributes, text, character data, comments, instructions, document types and declarations is
    parsed into the trees the document stands for.

  \<^bold>\<open>Containers and text.\<close>
  \<^item> \<open>NBitInt\<close>: integers of up to 64 bits (\<open>exi/Basic/NBitInt.hpp\<close>), and which integers they are made of.
  \<^item> \<open>PagedVec\<close>: the paged vector (\<open>core/Common/PagedVec.hpp\<close>), which refines a list; this is why the
    map of local names is a list in \<open>StringTables\<close>.
  \<^item> \<open>StrRef\<close>, \<open>Numerals\<close>, \<open>EditDistance\<close>: string search, numbers as text and edit distance
    (\<open>core/Common/StrRef\<close>, \<open>core/Support/NativeFormatting.cpp\<close>, \<open>core/Common/edit_distance.hpp\<close>). Search
    finds the first occurrence, numbers are read back as they were written, and the rows of the
    distance compute the least cost of an edit script.

  \<^bold>\<open>Parameters.\<close> The hash of a string, reading a file, the functions on paths and, in \<open>XMLManager\<close>, the
  outcome of parsing are arguments of the definitions that use them, with no assumption about them.
  \<open>XMLParser\<close> models the parser that the last one stands for.

  \<^bold>\<open>Not modelled.\<close> Logging and colours, which change no state of the program; the allocator, whose
  objects never fail to be there; the body encoder and the encoder's string table, which are
  declarations without bodies; the previous streams and schemas (\<open>exi/StreamOld\<close>,
  \<open>exi/Grammar/Schema.cpp\<close>, \<open>Schema-Flat.cpp\<close>), which the build leaves out; the files under \<open>old/\<close>,
  a wrapper around exip that this program replaces; third-party packages other than the changed XML
  library, whose printer is not used; and the rest of the support library under \<open>core/\<close>, which is derived from LLVM.
\<close>

end
